(* ===== verification/Prelude.thy ===== *)
theory Prelude
  imports Main "HOL-Library.Word" "HOL-Library.Code_Target_Nat"
begin

text \<open>
  Shared vocabulary of the development. It holds the result type (a Go function that returns
  \<open>(x, error)\<close> is a function into \<open>'e + 'a\<close>: \<open>Inl\<close> carries the error), the same for
  functions that also change a state, the environment of a run (clock, randomness, outcomes of
  input/output, cancellation of a context), and list lemmas that several components use.
\<close>

named_theorems result_simps \<open>how results and state-passing results compose\<close>

subsection \<open>Results\<close>

type_synonym ('e, 'a) result = "'e + 'a"

fun rbind :: "'e + 'a \<Rightarrow> ('a \<Rightarrow> 'e + 'b) \<Rightarrow> 'e + 'b" where
  "rbind (Inl e) f = Inl e"
| "rbind (Inr x) f = f x"

definition rguard :: "bool \<Rightarrow> 'e \<Rightarrow> 'e + unit" where
  "rguard ok e = (if ok then Inr () else Inl e)"

fun rmap_list :: "('a \<Rightarrow> 'e + 'b) \<Rightarrow> 'a list \<Rightarrow> 'e + 'b list" where
  "rmap_list f [] = Inr []"
| "rmap_list f (x # xs) = rbind (f x) (\<lambda>y. rbind (rmap_list f xs) (\<lambda>ys. Inr (y # ys)))"

fun rfold :: "('s \<Rightarrow> 'a \<Rightarrow> 'e + 's) \<Rightarrow> 's \<Rightarrow> 'a list \<Rightarrow> 'e + 's" where
  "rfold f s [] = Inr s"
| "rfold f s (x # xs) = rbind (f s x) (\<lambda>s'. rfold f s' xs)"

lemma rbind_Inr_iff [result_simps]: "rbind m f = Inr y \<longleftrightarrow> (\<exists>x. m = Inr x \<and> f x = Inr y)"
  by (cases m) auto

lemma rguard_Inr_iff [result_simps]: "rguard ok e = Inr u \<longleftrightarrow> ok"
  by (simp add: rguard_def)

lemma rguard_simps [simp]: "rguard True e = Inr ()" "rguard False e = Inl e"
  by (simp_all add: rguard_def)

lemma rbind_cong [fundef_cong]:
  "m = m' \<Longrightarrow> (\<And>x. m' = Inr x \<Longrightarrow> f x = g x) \<Longrightarrow> rbind m f = rbind m' g"
  by (cases m') auto

lemma rmap_list_Inr_length: "rmap_list f xs = Inr ys \<Longrightarrow> length ys = length xs"
  by (induction xs arbitrary: ys) (auto simp: result_simps)

lemma rmap_list_Inr_iff:
  "rmap_list f xs = Inr ys \<longleftrightarrow> length xs = length ys \<and> (\<forall>i < length xs. f (xs ! i) = Inr (ys ! i))"
proof (induction xs arbitrary: ys)
  case Nil
  then show ?case by auto
next
  case (Cons x xs)
  show ?case
  proof (cases ys)
    case Nil
    then show ?thesis by (auto simp: result_simps)
  next
    case (Cons y ys')
    then show ?thesis
      by (auto simp: result_simps Cons.IH nth_Cons' less_Suc_eq_0_disj)
  qed
qed

lemma rfold_append:
  "rfold f s (xs @ ys) = rbind (rfold f s xs) (\<lambda>s'. rfold f s' ys)"
proof (induction xs arbitrary: s)
  case Nil
  then show ?case by simp
next
  case (Cons x xs)
  then show ?case by (cases "f s x") simp_all
qed

text \<open>An invariant that every successful step keeps holds after a successful fold.\<close>

lemma rfold_invariant:
  assumes "rfold f s xs = Inr t" and "P s"
    and "\<And>s x s'. x \<in> set xs \<Longrightarrow> P s \<Longrightarrow> f s x = Inr s' \<Longrightarrow> P s'"
  shows "P t"
  using assms
proof (induction xs arbitrary: s)
  case Nil
  then show ?case by simp
next
  case (Cons x xs)
  from Cons.prems(1) obtain s' where s': "f s x = Inr s'" "rfold f s' xs = Inr t"
    by (auto simp: result_simps)
  have "P s'" using Cons.prems(3) [OF _ Cons.prems(2) s'(1)] by simp
  then show ?case
    using Cons.IH [OF s'(2)] Cons.prems(3) by (meson list.set_intros(2))
qed

subsection \<open>Results with a state\<close>

text \<open>
  A method that mutates its receiver and returns \<open>(x, error)\<close> is a function from the state to a
  pair of a result and the new state. The state is returned on errors too, because a Go method
  that fails keeps what it has already changed.
\<close>

type_synonym ('e, 'a, 's) sresult = "('e + 'a) \<times> 's"

fun sbind :: "('e + 'a) \<times> 's \<Rightarrow> ('a \<Rightarrow> 's \<Rightarrow> ('e + 'b) \<times> 's) \<Rightarrow> ('e + 'b) \<times> 's" where
  "sbind (Inl e, s) f = (Inl e, s)"
| "sbind (Inr x, s) f = f x s"

lemma sbind_Inr_iff [result_simps]:
  "sbind m f = (Inr y, t) \<longleftrightarrow> (\<exists>x s. m = (Inr x, s) \<and> f x s = (Inr y, t))"
  by (cases "(m, f)" rule: sbind.cases) auto

lemma sbind_cong [fundef_cong]:
  "m = m' \<Longrightarrow> (\<And>x s. m' = (Inr x, s) \<Longrightarrow> f x s = g x s) \<Longrightarrow> sbind m f = sbind m' g"
  by (cases "(m', f)" rule: sbind.cases) auto

lemma snd_sbind: "snd (sbind m f) = (case fst m of Inl e \<Rightarrow> snd m | Inr x \<Rightarrow> snd (f x (snd m)))"
  by (cases "(m, f)" rule: sbind.cases) auto

subsection \<open>The environment of a run\<close>

text \<open>
  What the program asks of its environment is an oracle indexed by a step number that grows with
  every question: the clock, random bytes, whether an input/output operation fails (and how many
  bytes a failing write has already transferred), and whether the context is cancelled. Theorems
  hold for every environment; witnesses pick a concrete one. Times are nanoseconds since the Unix
  epoch; Go's zero time is the first instant of the year 1.
\<close>

record env =
  env_now :: "nat \<Rightarrow> int"
  env_rand :: "nat \<Rightarrow> nat \<Rightarrow> 8 word list"
  env_io :: "nat \<Rightarrow> nat option"
  env_ctx_done :: "nat \<Rightarrow> bool"

definition zero_time :: int where
  "zero_time = - 62135596800000000000"

definition good_env :: env where
  "good_env = \<lparr>env_now = (\<lambda>n. int n), env_rand = (\<lambda>n k. replicate k (of_nat n)),
     env_io = (\<lambda>n. None), env_ctx_done = (\<lambda>n. False)\<rparr>"

lemma good_env_simps [simp]:
  "env_now good_env n = int n" "env_rand good_env n k = replicate k (of_nat n)"
  "env_io good_env n = None" "env_ctx_done good_env n = False"
  by (simp_all add: good_env_def)

subsection \<open>Lists\<close>

lemma find_Some_mem: "find p xs = Some x \<Longrightarrow> x \<in> set xs \<and> p x"
  by (induction xs) (auto split: if_splits)

lemma find_None_all: "find p xs = None \<Longrightarrow> \<forall>x \<in> set xs. \<not> p x"
  by (induction xs) (auto split: if_splits)

lemma take_append_exact: "length xs = n \<Longrightarrow> take n (xs @ ys) = xs"
  by simp

lemma drop_append_exact: "length xs = n \<Longrightarrow> drop n (xs @ ys) = ys"
  by simp

lemma distinct_map_filter_fst: "distinct (map f xs) \<Longrightarrow> distinct (map f (filter p xs))"
  by (induction xs) auto

lemma map_of_eq_Some_iff_in_set:
  "distinct (map fst xs) \<Longrightarrow> map_of xs k = Some v \<longleftrightarrow> (k, v) \<in> set xs"
  by (rule map_of_eq_Some_iff)

end
