(* ===== verification/GoStrings.thy ===== *)
theory GoStrings
  imports Prelude "HOL-Library.Sublist"
begin

text \<open>
  The part of Go's standard library on strings that the program uses. A Go string is a sequence of
  bytes, so it is HOL's \<open>string\<close> (a list of 8-bit characters). Modelled here: white space as
  \<open>unicode.IsSpace\<close> sees it in UTF-8, \<open>strings.TrimSpace\<close>, \<open>Fields\<close>, \<open>Split\<close>, \<open>Cut\<close>,
  \<open>TrimPrefix\<close>, \<open>TrimSuffix\<close>, \<open>strconv.Atoi\<close>, decimal formatting, UTF-8 decoding, and the
  lexical path functions \<open>path.Clean\<close>, \<open>filepath.Join\<close> and \<open>filepath.Rel\<close> on Unix.
\<close>

subsection \<open>White space\<close>

definition char_code :: "char \<Rightarrow> nat" where
  "char_code c = of_char c"

definition ascii_space :: "char \<Rightarrow> bool" where
  "ascii_space c \<longleftrightarrow> char_code c \<in> {9, 10, 11, 12, 13, 32}"

text \<open>The white space beyond ASCII, as UTF-8 byte sequences.\<close>

definition utf8_spaces :: "string list" where
  "utf8_spaces =
     [[CHR 0xC2, CHR 0x85], [CHR 0xC2, CHR 0xA0], [CHR 0xE1, CHR 0x9A, CHR 0x80],
      [CHR 0xE2, CHR 0x80, CHR 0x80], [CHR 0xE2, CHR 0x80, CHR 0x81], [CHR 0xE2, CHR 0x80, CHR 0x82],
      [CHR 0xE2, CHR 0x80, CHR 0x83], [CHR 0xE2, CHR 0x80, CHR 0x84], [CHR 0xE2, CHR 0x80, CHR 0x85],
      [CHR 0xE2, CHR 0x80, CHR 0x86], [CHR 0xE2, CHR 0x80, CHR 0x87], [CHR 0xE2, CHR 0x80, CHR 0x88],
      [CHR 0xE2, CHR 0x80, CHR 0x89], [CHR 0xE2, CHR 0x80, CHR 0x8A], [CHR 0xE2, CHR 0x80, CHR 0xA8],
      [CHR 0xE2, CHR 0x80, CHR 0xA9], [CHR 0xE2, CHR 0x80, CHR 0xAF], [CHR 0xE2, CHR 0x81, CHR 0x9F],
      [CHR 0xE3, CHR 0x80, CHR 0x80]]"

text \<open>The length of the white space character at the start (or the end) of a string, 0 if none.\<close>

definition space_len :: "string \<Rightarrow> nat" where
  "space_len s =
     (case s of [] \<Rightarrow> 0
      | c # _ \<Rightarrow> if ascii_space c then 1
                else (case find (\<lambda>p. prefix p s) utf8_spaces of None \<Rightarrow> 0 | Some p \<Rightarrow> length p))"

definition space_end :: "string \<Rightarrow> nat" where
  "space_end s =
     (if s = [] then 0
      else if ascii_space (last s) then 1
      else (case find (\<lambda>p. suffix p s) utf8_spaces of None \<Rightarrow> 0 | Some p \<Rightarrow> length p))"

function trim_left :: "string \<Rightarrow> string" where
  "trim_left s = (if space_len s = 0 \<or> s = [] then s else trim_left (drop (space_len s) s))"
  by pat_completeness auto
termination
  by (relation "measure length") auto

function trim_right :: "string \<Rightarrow> string" where
  "trim_right s = (if space_end s = 0 \<or> s = [] then s
     else trim_right (take (length s - space_end s) s))"
  by pat_completeness auto
termination
  by (relation "measure length") auto

declare trim_left.simps [simp del] trim_right.simps [simp del]

definition trim_space :: "string \<Rightarrow> string" where
  "trim_space s = trim_right (trim_left s)"

function go_fields_from :: "string \<Rightarrow> string \<Rightarrow> string list" where
  "go_fields_from cur s =
     (if s = [] then (if cur = [] then [] else [cur])
      else if space_len s = 0 then go_fields_from (cur @ [hd s]) (tl s)
      else (if cur = [] then [] else [cur]) @ go_fields_from [] (drop (space_len s) s))"
  by pat_completeness auto
termination
  by (relation "measure (\<lambda>(cur, s). length s)") auto

declare go_fields_from.simps [simp del]

definition go_fields :: "string \<Rightarrow> string list" where
  "go_fields s = go_fields_from [] s"

subsection \<open>Trimming is idempotent\<close>

lemma utf8_spaces_nonempty: "p \<in> set utf8_spaces \<Longrightarrow> p \<noteq> []"
  by (auto simp: utf8_spaces_def)

lemma space_len_pos_iff:
  "0 < space_len s \<longleftrightarrow>
     (\<exists>c r. s = c # r \<and> ascii_space c) \<or> (\<exists>p \<in> set utf8_spaces. prefix p s)"
proof (cases s)
  case Nil
  then show ?thesis by (auto simp: space_len_def dest: utf8_spaces_nonempty)
next
  case (Cons c r)
  show ?thesis
  proof (cases "find (\<lambda>p. prefix p s) utf8_spaces")
    case None
    then show ?thesis
      using Cons find_None_all [OF None] by (auto simp: space_len_def)
  next
    case (Some p)
    then show ?thesis
      using Cons find_Some_mem [OF Some] by (auto simp: space_len_def dest: utf8_spaces_nonempty)
  qed
qed

lemma space_len_prefix: "prefix u t \<Longrightarrow> space_len t = 0 \<Longrightarrow> space_len u = 0"
proof (rule ccontr)
  assume u: "prefix u t" "space_len t = 0" "space_len u \<noteq> 0"
  then have "0 < space_len u" by simp
  then consider (ascii) c r where "u = c # r" "ascii_space c"
    | (wide) p where "p \<in> set utf8_spaces" "prefix p u"
    unfolding space_len_pos_iff by blast
  then have "0 < space_len t"
  proof cases
    case ascii
    with u(1) show ?thesis unfolding space_len_pos_iff by (auto simp: prefix_def)
  next
    case wide
    with u(1) show ?thesis unfolding space_len_pos_iff by (blast intro: prefix_order.trans)
  qed
  with u(2) show False by simp
qed

lemma space_len_Nil [simp]: "space_len [] = 0"
  by (simp add: space_len_def)

lemma space_end_Nil [simp]: "space_end [] = 0"
  by (simp add: space_end_def)

lemma trim_left_no_space: "space_len (trim_left s) = 0"
proof (induction s rule: trim_left.induct)
  case (1 s)
  show ?case
  proof (cases "space_len s = 0 \<or> s = []")
    case True
    then show ?thesis by (subst trim_left.simps) (auto simp: space_len_Nil)
  next
    case False
    with "1.IH" show ?thesis by (subst trim_left.simps) simp
  qed
qed

lemma trim_right_prefix: "prefix (trim_right s) s"
proof (induction s rule: trim_right.induct)
  case (1 s)
  show ?case
  proof (cases "space_end s = 0 \<or> s = []")
    case True
    then show ?thesis by (simp add: trim_right.simps [of s])
  next
    case False
    with "1.IH" have "prefix (trim_right (take (length s - space_end s) s)) (take (length s - space_end s) s)"
      by simp
    with False show ?thesis
      by (simp add: trim_right.simps [of s]) (meson prefix_order.trans take_is_prefix)
  qed
qed

lemma trim_right_no_space: "space_end (trim_right s) = 0"
proof (induction s rule: trim_right.induct)
  case (1 s)
  show ?case
  proof (cases "space_end s = 0 \<or> s = []")
    case True
    then show ?thesis by (subst trim_right.simps) auto
  next
    case False
    with "1.IH" show ?thesis by (subst trim_right.simps) simp
  qed
qed

lemma trim_left_id: "space_len s = 0 \<Longrightarrow> trim_left s = s"
  by (simp add: trim_left.simps)

lemma trim_right_id: "space_end s = 0 \<Longrightarrow> trim_right s = s"
  by (simp add: trim_right.simps)

lemma trim_space_idem [simp]: "trim_space (trim_space s) = trim_space s"
proof -
  have "space_len (trim_right (trim_left s)) = 0"
    using space_len_prefix [OF trim_right_prefix trim_left_no_space] .
  then show ?thesis
    by (simp add: trim_space_def trim_left_id trim_right_id trim_right_no_space)
qed

lemma trim_space_id: "space_len s = 0 \<Longrightarrow> space_end s = 0 \<Longrightarrow> trim_space s = s"
  by (simp add: trim_space_def trim_left_id trim_right_id)

text \<open>A string of printable ASCII characters other than the space has no white space to trim.\<close>

definition graphic :: "char \<Rightarrow> bool" where
  "graphic c \<longleftrightarrow> 32 < char_code c \<and> char_code c < 127"

lemma char_code_CHR [simp]: "char_code (char_of (n :: nat)) = n mod 256"
  by (simp add: char_code_def)

lemma graphic_not_space: "graphic c \<Longrightarrow> \<not> ascii_space c"
  by (auto simp: graphic_def ascii_space_def)

lemma utf8_space_edges:
  "p \<in> set utf8_spaces \<Longrightarrow> \<not> graphic (hd p) \<and> \<not> graphic (last p)"
  by (auto simp: utf8_spaces_def graphic_def char_code_def)

lemma space_len_graphic: "graphic c \<Longrightarrow> space_len (c # s) = 0"
proof (rule ccontr)
  assume c: "graphic c" and "space_len (c # s) \<noteq> 0"
  then have "0 < space_len (c # s)" by simp
  then obtain p where p: "p \<in> set utf8_spaces" "prefix p (c # s)"
    unfolding space_len_pos_iff using graphic_not_space [OF c] by auto
  have "p \<noteq> []" using utf8_spaces_nonempty [OF p(1)] .
  with p(2) have "hd p = c" by (cases p) auto
  then show False using utf8_space_edges [OF p(1)] c by simp
qed

lemma space_end_graphic: "s \<noteq> [] \<Longrightarrow> graphic (last s) \<Longrightarrow> space_end s = 0"
proof (cases "find (\<lambda>p. suffix p s) utf8_spaces")
  case (Some p)
  assume s: "s \<noteq> []" "graphic (last s)"
  have p: "p \<in> set utf8_spaces" "suffix p s" using find_Some_mem [OF Some] by auto
  then have "last p = last s"
    using utf8_spaces_nonempty [OF p(1)] by (auto simp: suffix_def)
  then show ?thesis using utf8_space_edges [OF p(1)] s by simp
qed (auto simp: space_end_def graphic_not_space)

lemma trim_space_graphic: "\<forall>c \<in> set s. graphic c \<Longrightarrow> trim_space s = s"
proof (cases s)
  case Nil
  then show ?thesis by (simp add: trim_space_def trim_left.simps trim_right.simps)
next
  case (Cons c r)
  assume g: "\<forall>c \<in> set s. graphic c"
  show ?thesis
    using Cons g by (intro trim_space_id) (auto simp: space_len_graphic space_end_graphic)
qed

lemma trim_space_Nil [simp]: "trim_space [] = []"
  by (simp add: trim_space_graphic)

subsection \<open>Splitting and joining\<close>

fun split_char :: "char \<Rightarrow> string \<Rightarrow> string list" where
  "split_char c [] = [[]]"
| "split_char c (x # xs) =
     (if x = c then [] # split_char c xs
      else (case split_char c xs of [] \<Rightarrow> [[x]] | w # ws \<Rightarrow> (x # w) # ws))"

fun join_char :: "char \<Rightarrow> string list \<Rightarrow> string" where
  "join_char c [] = []"
| "join_char c [w] = w"
| "join_char c (w # v # ws) = w @ c # join_char c (v # ws)"

definition cut :: "char \<Rightarrow> string \<Rightarrow> (string \<times> string) option" where
  "cut c s = (if c \<in> set s then Some (takeWhile (\<lambda>x. x \<noteq> c) s, tl (dropWhile (\<lambda>x. x \<noteq> c) s)) else None)"

definition trim_prefix :: "string \<Rightarrow> string \<Rightarrow> string" where
  "trim_prefix p s = (if prefix p s then drop (length p) s else s)"

definition trim_suffix :: "string \<Rightarrow> string \<Rightarrow> string" where
  "trim_suffix p s = (if suffix p s then take (length s - length p) s else s)"

lemma split_char_nonempty [simp]: "split_char c s \<noteq> []"
  by (induction s) (auto split: list.splits)

lemma join_split [simp]: "join_char c (split_char c s) = s"
proof (induction s)
  case Nil
  then show ?case by simp
next
  case (Cons x xs)
  then show ?case
    by (cases "split_char c xs") (auto, (metis join_char.simps neq_Nil_conv append_Cons)+)
qed

lemma split_char_no_sep: "w \<in> set (split_char c s) \<Longrightarrow> c \<notin> set w"
  by (induction s arbitrary: w) (auto split: list.splits if_splits)

lemma split_char_single: "c \<notin> set s \<Longrightarrow> split_char c s = [s]"
  by (induction s) auto

lemma split_char_append: "c \<notin> set w \<Longrightarrow> split_char c (w @ c # s) = w # split_char c s"
  by (induction w) auto

lemma split_join:
  "ws \<noteq> [] \<Longrightarrow> (\<And>w. w \<in> set ws \<Longrightarrow> c \<notin> set w) \<Longrightarrow> split_char c (join_char c ws) = ws"
  by (induction c ws rule: join_char.induct) (auto simp: split_char_append split_char_single)

text \<open>\<open>strings.FieldsFunc\<close> for a predicate that holds of ASCII characters only.\<close>

function fields_func :: "(char \<Rightarrow> bool) \<Rightarrow> string \<Rightarrow> string list" where
  "fields_func p [] = []"
| "fields_func p (c # s) =
     (if p c then fields_func p s
      else (c # takeWhile (\<lambda>x. \<not> p x) s) # fields_func p (dropWhile (\<lambda>x. \<not> p x) s))"
  by pat_completeness auto
termination
  by (relation "measure (\<lambda>(p, s). length s)") (auto simp: le_imp_less_Suc length_dropWhile_le)

subsection \<open>Decimal numbers\<close>

definition is_digit :: "char \<Rightarrow> bool" where
  "is_digit c \<longleftrightarrow> 48 \<le> char_code c \<and> char_code c \<le> 57"

definition digits_value :: "string \<Rightarrow> nat" where
  "digits_value s = foldl (\<lambda>a c. a * 10 + (char_code c - 48)) 0 s"

definition int64 :: "int \<Rightarrow> bool" where
  "int64 x \<longleftrightarrow> - (2 ^ 63) \<le> x \<and> x < 2 ^ 63"

lemma int64_code [code]: "int64 x \<longleftrightarrow> -9223372036854775808 \<le> x \<and> x < 9223372036854775808"
  by (simp add: int64_def)

text \<open>\<open>strconv.Atoi\<close> and \<open>strconv.ParseInt(s, 10, 64)\<close>: \<open>None\<close> is the error.\<close>

definition atoi :: "string \<Rightarrow> int option" where
  "atoi s =
     (let neg = (s \<noteq> [] \<and> hd s = CHR ''-'');
          ds = (if s \<noteq> [] \<and> (hd s = CHR ''-'' \<or> hd s = CHR ''+'') then tl s else s);
          v = (if neg then - int (digits_value ds) else int (digits_value ds))
      in if ds = [] \<or> \<not> list_all is_digit ds \<or> \<not> int64 v then None else Some v)"

fun dec_digits :: "nat \<Rightarrow> string" where
  "dec_digits n = (if n < 10 then [char_of (48 + n)]
     else dec_digits (n div 10) @ [char_of (48 + n mod 10)])"

declare dec_digits.simps [simp del]

definition format_int :: "int \<Rightarrow> string" where
  "format_int x = (if x < 0 then CHR ''-'' # dec_digits (nat (- x)) else dec_digits (nat x))"

text \<open>\<open>fmt.Sprintf("%016d", x)\<close>: padded with zeros to 16 columns, the sign included.\<close>

definition format_pad16 :: "int \<Rightarrow> string" where
  "format_pad16 x =
     (let ds = dec_digits (nat \<bar>x\<bar>)
      in if x < 0 then CHR ''-'' # replicate (15 - length ds) (CHR ''0'') @ ds
         else replicate (16 - length ds) (CHR ''0'') @ ds)"

lemma foldl_digits:
  "foldl (\<lambda>a c. a * 10 + (char_code c - 48)) k s =
     k * 10 ^ length s + foldl (\<lambda>a c. a * 10 + (char_code c - 48)) 0 s"
proof (induction s arbitrary: k)
  case Nil
  then show ?case by simp
next
  case (Cons c s)
  show ?case
    by (simp add: Cons [of "k * 10 + (char_code c - 48)"] Cons [of "char_code c - 48"] algebra_simps)
qed

lemma digits_value_append:
  "digits_value (s @ t) = digits_value s * 10 ^ length t + digits_value t"
  unfolding digits_value_def foldl_append by (rule foldl_digits)

lemma digits_value_zeros: "digits_value (replicate n (CHR ''0'') @ s) = digits_value s"
proof -
  have "digits_value (replicate n (CHR ''0'')) = 0"
    by (induction n) (auto simp: digits_value_def char_code_def)
  then show ?thesis by (simp add: digits_value_append)
qed

lemma dec_digits_value [simp]: "digits_value (dec_digits n) = n"
proof (induction n rule: dec_digits.induct)
  case (1 n)
  have one: "digits_value [char_of (48 + k)] = k" if "k < 10" for k :: nat
    using that by (simp add: digits_value_def char_code_def)
  show ?case
    using 1 by (cases "n < 10")
      (auto simp: dec_digits.simps [of n] one digits_value_append)
qed

lemma dec_digits_all [simp]: "list_all is_digit (dec_digits n)"
proof (induction n rule: dec_digits.induct)
  case (1 n)
  have one: "is_digit (char_of (48 + k))" if "k < 10" for k :: nat
    using that by (simp add: is_digit_def char_code_def)
  show ?case
    using 1 by (cases "n < 10") (auto simp: dec_digits.simps [of n] one)
qed

lemma dec_digits_nonempty [simp]: "dec_digits n \<noteq> []"
  by (subst dec_digits.simps) simp

lemma is_digit_not_sign: "is_digit c \<Longrightarrow> c \<noteq> CHR ''-'' \<and> c \<noteq> CHR ''+''"
  by (auto simp: is_digit_def char_code_def)

lemma atoi_format_pad16_pos:
  assumes "0 \<le> x" "int64 x"
  shows "atoi (format_pad16 x) = Some x"
proof -
  let ?ds = "dec_digits (nat x)"
  let ?s = "replicate (16 - length ?ds) (CHR ''0'') @ ?ds"
  have zero: "is_digit (CHR ''0'')" by (simp add: is_digit_def char_code_def)
  have all: "list_all is_digit ?s"
    using zero by (simp add: list_all_append) (simp add: list_all_iff)
  then have "is_digit (hd ?s)" by (cases ?s) auto
  then have sign: "hd ?s \<noteq> CHR ''-''" "hd ?s \<noteq> CHR ''+''" using is_digit_not_sign by auto
  have "format_pad16 x = ?s" using assms by (simp add: format_pad16_def Let_def)
  then show ?thesis
    using all sign assms by (simp add: atoi_def digits_value_zeros)
qed

lemma atoi_format_pad16:
  assumes "int64 x"
  shows "atoi (format_pad16 x) = Some x"
proof (cases "0 \<le> x")
  case True
  then show ?thesis using assms by (rule atoi_format_pad16_pos)
next
  case False
  let ?ds = "dec_digits (nat \<bar>x\<bar>)"
  let ?s = "replicate (15 - length ?ds) (CHR ''0'') @ ?ds"
  have zero: "is_digit (CHR ''0'')" by (simp add: is_digit_def char_code_def)
  have all: "list_all is_digit ?s"
    using zero by (simp add: list_all_append) (simp add: list_all_iff)
  have "format_pad16 x = CHR ''-'' # ?s" using False by (simp add: format_pad16_def Let_def)
  then show ?thesis
    using all False assms by (simp add: atoi_def digits_value_zeros)
qed

end
