(* ===== verification/CronExpr.thy ===== *)
theory CronExpr
  imports GoStrings Prelude
begin

text \<open>
  Package \<open>internal/cronexpr\<close>: the cron expressions of backup jobs. An expression is a macro or
  five fields (minute, hour, day of month, month, day of week); a field is a comma-separated list
  of parts \<open>*\<close>, \<open>n\<close> or \<open>m-n\<close>, each with an optional step \<open>/k\<close>. The wall-clock fields that the code
  reads off a \<open>time.Time\<close> are the record \<open>wall\<close>.
\<close>

record wall =
  w_minute :: int
  w_hour :: int
  w_day :: int
  w_month :: int
  w_weekday :: int

definition wall_ok :: "wall \<Rightarrow> bool" where
  "wall_ok t \<longleftrightarrow> 0 \<le> w_minute t \<and> w_minute t \<le> 59 \<and> 0 \<le> w_hour t \<and> w_hour t \<le> 23 \<and>
     1 \<le> w_day t \<and> w_day t \<le> 31 \<and> 1 \<le> w_month t \<and> w_month t \<le> 12 \<and>
     0 \<le> w_weekday t \<and> w_weekday t \<le> 6"

subsection \<open>The code\<close>

definition parse_cron_part :: "string \<Rightarrow> int \<Rightarrow> int \<Rightarrow> (int \<times> int \<times> int) option" where
  "parse_cron_part part0 minv maxv =
     (let stepped =
        (case cut (CHR ''/'') part0 of
           Some (before, after) \<Rightarrow>
             (case atoi after of
                None \<Rightarrow> None
              | Some k \<Rightarrow> if k \<le> 0 then None else Some (k, before))
         | None \<Rightarrow> Some (1, part0))
      in case stepped of
        None \<Rightarrow> None
      | Some (step, part) \<Rightarrow>
          (let range =
             (if part = ''*'' then Some (minv, maxv)
              else (case cut (CHR ''-'') part of
                 Some (left, right) \<Rightarrow>
                   (case atoi left of
                      None \<Rightarrow> None
                    | Some s \<Rightarrow> (case atoi right of None \<Rightarrow> None | Some e \<Rightarrow> Some (s, e)))
               | None \<Rightarrow> (case atoi part of None \<Rightarrow> None | Some n \<Rightarrow> Some (n, n))))
           in case range of
             None \<Rightarrow> None
           | Some (s, e) \<Rightarrow>
               if s < minv \<or> maxv < e \<or> e < s then None else Some (s, e, step)))"

definition cron_part_matches :: "string \<Rightarrow> int \<Rightarrow> int \<Rightarrow> int \<Rightarrow> bool" where
  "cron_part_matches part value0 minv maxv =
     (case parse_cron_part part minv maxv of
        None \<Rightarrow> False
      | Some (s, e, step) \<Rightarrow>
          (let v = (if minv = 0 \<and> maxv = 7 \<and> value0 = 0 \<and> (s = 7 \<or> e = 7) then 7 else value0)
           in if v < s \<or> e < v then False else (v - s) mod step = 0))"

fun cron_parts_match :: "string list \<Rightarrow> int \<Rightarrow> int \<Rightarrow> int \<Rightarrow> bool" where
  "cron_parts_match [] value minv maxv = False"
| "cron_parts_match (p # ps) value minv maxv =
     (let part = trim_space p
      in if part = [] then False
         else if cron_part_matches part value minv maxv then True
         else cron_parts_match ps value minv maxv)"

definition cron_field_matches :: "string \<Rightarrow> int \<Rightarrow> int \<Rightarrow> int \<Rightarrow> bool" where
  "cron_field_matches field value minv maxv =
     cron_parts_match (split_char (CHR '','') field) value minv maxv"

definition cron_field_valid :: "string \<Rightarrow> int \<Rightarrow> int \<Rightarrow> bool" where
  "cron_field_valid field minv maxv =
     list_all (\<lambda>p. trim_space p \<noteq> [] \<and> parse_cron_part (trim_space p) minv maxv \<noteq> None)
       (split_char (CHR '','') field)"

definition cron_ranges :: "(int \<times> int) list" where
  "cron_ranges = [(0, 59), (0, 23), (1, 31), (1, 12), (0, 7)]"

definition wall_values :: "wall \<Rightarrow> int list" where
  "wall_values t = [w_minute t, w_hour t, w_day t, w_month t, w_weekday t]"

definition cron_matches :: "string \<Rightarrow> wall \<Rightarrow> bool" where
  "cron_matches expr0 t =
     (let expr = trim_space expr0
      in if expr = [] then False
         else if expr = ''@hourly'' then w_minute t = 0
         else if expr = ''@daily'' \<or> expr = ''@midnight'' then w_hour t = 0 \<and> w_minute t = 0
         else if expr = ''@weekly'' then w_weekday t = 0 \<and> w_hour t = 0 \<and> w_minute t = 0
         else (let fs = go_fields expr
               in if length fs \<noteq> 5 then False
                  else list_all (\<lambda>(f, v, lo, hi). cron_field_matches f v lo hi)
                         (zip fs (zip (wall_values t) cron_ranges))))"

definition cron_macro :: "string \<Rightarrow> bool" where
  "cron_macro expr \<longleftrightarrow> expr \<in> {''@hourly'', ''@daily'', ''@midnight'', ''@weekly''}"

definition cron_valid :: "string \<Rightarrow> bool" where
  "cron_valid expr0 =
     (let expr = trim_space expr0
      in if cron_macro expr then True
         else if expr = [] then False
         else (let fs = go_fields expr
               in if length fs \<noteq> 5 then False
                  else list_all (\<lambda>(f, lo, hi). cron_field_valid f lo hi) (zip fs cron_ranges)))"

subsection \<open>What a field denotes\<close>

text \<open>
  The values a part stands for are the terms of an arithmetic progression, cut off at the end of
  its range. For the day of the week, 0 and 7 are both Sunday.
\<close>

definition cron_terms :: "int \<times> int \<times> int \<Rightarrow> int set" where
  "cron_terms r = (case r of (s, e, k) \<Rightarrow> {x. x \<le> e \<and> (\<exists>i :: nat. x = s + int i * k)})"

definition cron_field_set :: "string \<Rightarrow> int \<Rightarrow> int \<Rightarrow> int set" where
  "cron_field_set field minv maxv =
     (\<Union>p \<in> set (split_char (CHR '','') field).
        case parse_cron_part (trim_space p) minv maxv of None \<Rightarrow> {} | Some r \<Rightarrow> cron_terms r)"

text \<open>A part that runs over the whole week from 0 to 7 in steps that do not end on 7.\<close>

definition week_step_part :: "string \<Rightarrow> bool" where
  "week_step_part p =
     (case parse_cron_part (trim_space p) 0 7 of
        Some (s, e, k) \<Rightarrow> s = 0 \<and> e = 7 \<and> 7 mod k \<noteq> 0 | None \<Rightarrow> False)"

lemma parse_cron_part_bounds:
  "parse_cron_part part minv maxv = Some (s, e, k) \<Longrightarrow> minv \<le> s \<and> s \<le> e \<and> e \<le> maxv \<and> 0 < k"
  by (auto simp: parse_cron_part_def Let_def split: option.splits if_splits)

lemma cron_terms_iff:
  assumes "0 < k"
  shows "x \<in> cron_terms (s, e, k) \<longleftrightarrow> s \<le> x \<and> x \<le> e \<and> (x - s) mod k = 0"
proof
  assume "x \<in> cron_terms (s, e, k)"
  then obtain i :: nat where "x \<le> e" "x = s + int i * k" by (auto simp: cron_terms_def)
  then show "s \<le> x \<and> x \<le> e \<and> (x - s) mod k = 0" using assms by simp
next
  assume x: "s \<le> x \<and> x \<le> e \<and> (x - s) mod k = 0"
  have "0 \<le> (x - s) div k" using x assms by (simp add: pos_imp_zdiv_nonneg_iff)
  moreover have "(x - s) div k * k = x - s" using x div_mult_mod_eq [of "x - s" k] by simp
  ultimately have "x = s + int (nat ((x - s) div k)) * k" by simp
  with x show "x \<in> cron_terms (s, e, k)" unfolding cron_terms_def by blast
qed

lemma cron_part_matches_plain:
  assumes "\<not> (minv = 0 \<and> maxv = 7)" and "parse_cron_part part minv maxv = Some r"
  shows "cron_part_matches part v minv maxv \<longleftrightarrow> v \<in> cron_terms r"
  using assms parse_cron_part_bounds [of part minv maxv]
  by (cases r) (auto simp: cron_part_matches_def cron_terms_iff)

lemma cron_parts_match_iff:
  "(\<And>p. p \<in> set ps \<Longrightarrow> trim_space p \<noteq> []) \<Longrightarrow>
   cron_parts_match ps v minv maxv \<longleftrightarrow>
     (\<exists>p \<in> set ps. cron_part_matches (trim_space p) v minv maxv)"
  by (induction ps) (auto simp: Let_def)

lemma cron_field_matches_plain:
  assumes "\<not> (minv = 0 \<and> maxv = 7)" and "cron_field_valid f minv maxv"
  shows "cron_field_matches f v minv maxv \<longleftrightarrow> v \<in> cron_field_set f minv maxv"
proof -
  have ok: "trim_space p \<noteq> [] \<and> (\<exists>r. parse_cron_part (trim_space p) minv maxv = Some r)"
    if "p \<in> set (split_char (CHR '','') f)" for p
    using assms(2) that by (auto simp: cron_field_valid_def list_all_iff)
  then have "cron_field_matches f v minv maxv \<longleftrightarrow>
      (\<exists>p \<in> set (split_char (CHR '','') f). cron_part_matches (trim_space p) v minv maxv)"
    unfolding cron_field_matches_def by (intro cron_parts_match_iff) auto
  also have "\<dots> \<longleftrightarrow> (\<exists>p \<in> set (split_char (CHR '','') f).
      v \<in> (case parse_cron_part (trim_space p) minv maxv of None \<Rightarrow> {} | Some r \<Rightarrow> cron_terms r))"
  proof (rule bex_cong [OF refl])
    fix p assume "p \<in> set (split_char (CHR '','') f)"
    then obtain r where r: "parse_cron_part (trim_space p) minv maxv = Some r" using ok by blast
    show "cron_part_matches (trim_space p) v minv maxv \<longleftrightarrow>
        v \<in> (case parse_cron_part (trim_space p) minv maxv of None \<Rightarrow> {} | Some r \<Rightarrow> cron_terms r)"
      using cron_part_matches_plain [OF assms(1) r] r by simp
  qed
  also have "\<dots> \<longleftrightarrow> v \<in> cron_field_set f minv maxv"
    by (simp add: cron_field_set_def)
  finally show ?thesis .
qed

lemma cron_part_matches_week:
  assumes "parse_cron_part part 0 7 = Some (s, e, k)" and "0 \<le> v" "v \<le> 6"
    and "\<not> (v = 0 \<and> s = 0 \<and> e = 7 \<and> 7 mod k \<noteq> 0)"
  shows "cron_part_matches part v 0 7 \<longleftrightarrow> (\<exists>x \<in> cron_terms (s, e, k). x mod 7 = v)"
proof -
  have b: "0 \<le> s" "s \<le> e" "e \<le> 7" "0 < k" using parse_cron_part_bounds [OF assms(1)] by auto
  have terms: "x \<in> cron_terms (s, e, k) \<longleftrightarrow> s \<le> x \<and> x \<le> e \<and> (x - s) mod k = 0" for x
    by (rule cron_terms_iff [OF b(4)])
  have week: "x mod 7 = v \<longleftrightarrow> x = v \<or> (x = 7 \<and> v = 0)" if "0 \<le> x" "x \<le> 7" for x
    using that assms(2,3) by (cases "x = 7") auto
  have range: "0 \<le> x \<and> x \<le> 7" if "x \<in> cron_terms (s, e, k)" for x
    using that b by (simp add: terms)
  have rhs: "(\<exists>x \<in> cron_terms (s, e, k). x mod 7 = v) \<longleftrightarrow>
      v \<in> cron_terms (s, e, k) \<or> (v = 0 \<and> 7 \<in> cron_terms (s, e, k))"
  proof -
    have "(\<exists>x \<in> cron_terms (s, e, k). x mod 7 = v) \<longleftrightarrow>
        (\<exists>x \<in> cron_terms (s, e, k). x = v \<or> (x = 7 \<and> v = 0))"
      using range by (intro bex_cong refl week) auto
    then show ?thesis by auto
  qed
  show ?thesis
  proof (cases "v = 0 \<and> e = 7")
    case True
    have "s = 0 \<Longrightarrow> 7 mod k = 0" using True assms(4) by auto
    then show ?thesis using True b assms(1) unfolding rhs terms by (auto simp: cron_part_matches_def)
  next
    case False
    then show ?thesis
      using b assms(1) unfolding rhs terms by (auto simp: cron_part_matches_def Let_def)
  qed
qed

lemma cron_field_matches_week:
  assumes "cron_field_valid f 0 7" "0 \<le> v" "v \<le> 6"
    and "v = 0 \<Longrightarrow> \<forall>p \<in> set (split_char (CHR '','') f). \<not> week_step_part p"
  shows "cron_field_matches f v 0 7 \<longleftrightarrow> (\<exists>x \<in> cron_field_set f 0 7. x mod 7 = v)"
proof -
  have ok: "trim_space p \<noteq> [] \<and> (\<exists>s e k. parse_cron_part (trim_space p) 0 7 = Some (s, e, k))"
    if "p \<in> set (split_char (CHR '','') f)" for p
    using assms(1) that by (auto simp: cron_field_valid_def list_all_iff)
  then have "cron_field_matches f v 0 7 \<longleftrightarrow>
      (\<exists>p \<in> set (split_char (CHR '','') f). cron_part_matches (trim_space p) v 0 7)"
    unfolding cron_field_matches_def by (intro cron_parts_match_iff) auto
  also have "\<dots> \<longleftrightarrow> (\<exists>p \<in> set (split_char (CHR '','') f).
      \<exists>x \<in> (case parse_cron_part (trim_space p) 0 7 of None \<Rightarrow> {} | Some r \<Rightarrow> cron_terms r). x mod 7 = v)"
  proof (rule bex_cong [OF refl])
    fix p assume p: "p \<in> set (split_char (CHR '','') f)"
    then obtain s e k where parse: "parse_cron_part (trim_space p) 0 7 = Some (s, e, k)" using ok by blast
    have "v = 0 \<Longrightarrow> \<not> week_step_part p" using assms(4) p by blast
    then have "\<not> (v = 0 \<and> s = 0 \<and> e = 7 \<and> 7 mod k \<noteq> 0)"
      using parse by (auto simp: week_step_part_def)
    then show "cron_part_matches (trim_space p) v 0 7 \<longleftrightarrow>
        (\<exists>x \<in> (case parse_cron_part (trim_space p) 0 7 of None \<Rightarrow> {} | Some r \<Rightarrow> cron_terms r). x mod 7 = v)"
      using cron_part_matches_week [OF parse assms(2,3)] parse by simp
  qed
  also have "\<dots> \<longleftrightarrow> (\<exists>x \<in> cron_field_set f 0 7. x mod 7 = v)"
    by (auto simp: cron_field_set_def)
  finally show ?thesis .
qed

lemma list5: "length xs = 5 \<Longrightarrow> \<exists>a b c d e. xs = [a, b, c, d, e]"
  by (auto simp: length_Suc_conv numeral_eq_Suc)

lemma cron_part_sunday:
  "parse_cron_part part 0 7 = Some (0, 7, k) \<Longrightarrow> 7 mod k \<noteq> 0 \<Longrightarrow> \<not> cron_part_matches part 0 0 7"
  by (simp add: cron_part_matches_def)

subsection \<open>Properties\<close>

lemma cron_valid_fields:
  assumes "cron_valid expr" "\<not> cron_macro (trim_space expr)"
  obtains a b c d e where "go_fields (trim_space expr) = [a, b, c, d, e]"
    and "cron_field_valid a 0 59" "cron_field_valid b 0 23" "cron_field_valid c 1 31"
    and "cron_field_valid d 1 12" "cron_field_valid e 0 7" and "trim_space expr \<noteq> []"
proof -
  have v: "trim_space expr \<noteq> []" "length (go_fields (trim_space expr)) = 5"
    "list_all (\<lambda>(f, lo, hi). cron_field_valid f lo hi) (zip (go_fields (trim_space expr)) cron_ranges)"
    using assms by (auto simp: cron_valid_def Let_def split: if_splits)
  obtain a b c d e where fs: "go_fields (trim_space expr) = [a, b, c, d, e]"
    using list5 [OF v(2)] by blast
  show thesis
    using v fs by (intro that [of a b c d e]) (auto simp: cron_ranges_def)
qed

lemma cron_matches_fields:
  assumes "go_fields (trim_space expr) = [a, b, c, d, e]"
    and "trim_space expr \<noteq> []" "\<not> cron_macro (trim_space expr)"
  shows "cron_matches expr t \<longleftrightarrow>
    cron_field_matches a (w_minute t) 0 59 \<and> cron_field_matches b (w_hour t) 0 23 \<and>
    cron_field_matches c (w_day t) 1 31 \<and> cron_field_matches d (w_month t) 1 12 \<and>
    cron_field_matches e (w_weekday t) 0 7"
  using assms by (simp add: cron_matches_def cron_macro_def wall_values_def cron_ranges_def)



text \<open>
  A valid expression whose day-of-week parts all run over the whole week in a step
  that does not divide 7, such as \<open>*/2\<close>, never matches on a Sunday, although 0 is a term of its
  progression: the code turns Sunday's 0 into 7 before it tests the step.
\<close>

theorem cron_week_step_never_sunday:
  assumes "cron_valid expr" and "\<not> cron_macro (trim_space expr)"
    and "\<forall>p \<in> set (split_char (CHR '','') (go_fields (trim_space expr) ! 4)). week_step_part p"
    and "w_weekday t = 0"
  shows "\<not> cron_matches expr t"
proof -
  obtain a b c d e where fs: "go_fields (trim_space expr) = [a, b, c, d, e]"
    and v: "cron_field_valid e 0 7" "trim_space expr \<noteq> []"
    using cron_valid_fields [OF assms(1,2)] by metis
  let ?ps = "split_char (CHR '','') e"
  have "\<not> cron_part_matches (trim_space p) 0 0 7" if "p \<in> set ?ps" for p
    using assms(3) that fs cron_part_sunday
    by (fastforce simp: week_step_part_def split: option.splits prod.splits)
  then have "\<not> cron_field_matches e 0 0 7"
    using v(1) unfolding cron_field_matches_def
    by (subst cron_parts_match_iff) (auto simp: cron_field_valid_def list_all_iff)
  then show ?thesis by (simp add: cron_matches_fields [OF fs v(2) assms(2)] assms(4))
qed

lemma cron_week_step_never_sunday_witness:
  "\<not> cron_matches ''0 3 * * */2'' \<lparr>w_minute = 0, w_hour = 3, w_day = 1, w_month = 2, w_weekday = 0\<rparr> \<and>
   0 \<in> cron_field_set ''*/2'' 0 7"
proof -
  let ?e = "''0 3 * * */2''"
  have fs: "go_fields (trim_space ?e) ! 4 = ''*/2''" by code_simp
  have v: "cron_valid ?e" by code_simp
  have m: "\<not> cron_macro (trim_space ?e)" by code_simp
  have w: "\<forall>p \<in> set (split_char (CHR '','') ''*/2''). week_step_part p" by code_simp
  have s: "split_char (CHR '','') ''*/2'' = [''*/2'']" by code_simp
  have r: "parse_cron_part (trim_space ''*/2'') 0 7 = Some (0, 7, 2)" by code_simp
  have "0 \<in> cron_field_set ''*/2'' 0 7"
    by (simp add: cron_field_set_def s r cron_terms_iff)
  then show ?thesis
    using cron_week_step_never_sunday [OF v m] w by (simp add: fs)
qed

end
