(* ===== verification/GoPaths.thy ===== *)
theory GoPaths
  imports GoStrings Prelude
begin

text \<open>
  Go's lexical path functions on Unix: \<open>path.Clean\<close> (which is \<open>filepath.Clean\<close> there),
  \<open>filepath.IsAbs\<close>, \<open>Join\<close>, \<open>Rel\<close> and \<open>path.Base\<close>, the repository's own
  \<open>cleanManifestPath\<close>, and decoding of one UTF-8 character as \<open>unicode/utf8\<close> does it.
\<close>

subsection \<open>Cleaning a path\<close>

definition slash :: char where
  "slash = CHR ''/''"

fun clean_step :: "bool \<Rightarrow> string list \<Rightarrow> string \<Rightarrow> string list" where
  "clean_step rooted st c =
     (if c = [] \<or> c = ''.'' then st
      else if c = ''..'' then
        (case st of [] \<Rightarrow> if rooted then [] else [''..'']
         | t # ts \<Rightarrow> if t = ''..'' then ''..'' # st else ts)
      else c # st)"

definition clean_comps :: "bool \<Rightarrow> string list \<Rightarrow> string list" where
  "clean_comps rooted cs = rev (foldl (clean_step rooted) [] cs)"

definition is_abs :: "string \<Rightarrow> bool" where
  "is_abs p \<longleftrightarrow> p \<noteq> [] \<and> hd p = slash"

definition clean_path :: "string \<Rightarrow> string" where
  "clean_path p =
     (if p = [] then ''.''
      else if is_abs p then slash # join_char slash (clean_comps True (split_char slash p))
      else (case clean_comps False (split_char slash p) of
              [] \<Rightarrow> ''.'' | c # cs \<Rightarrow> join_char slash (c # cs)))"

definition path_join :: "string \<Rightarrow> string \<Rightarrow> string" where
  "path_join a b =
     (if a \<noteq> [] then clean_path (a @ slash # b) else if b \<noteq> [] then clean_path b else [])"

text \<open>
  The components a cleaned path consists of: none is empty, \<open>.\<close> or holds a slash, and \<open>..\<close>
  stands only at the start of a relative path. The predicate reads the stack from its top.
\<close>

fun stack_ok :: "bool \<Rightarrow> string list \<Rightarrow> bool" where
  "stack_ok rooted [] = True"
| "stack_ok rooted (c # st) =
     (c \<noteq> [] \<and> c \<noteq> ''.'' \<and> slash \<notin> set c \<and>
      (c = ''..'' \<longrightarrow> \<not> rooted \<and> list_all (\<lambda>d. d = ''..'') st) \<and> stack_ok rooted st)"

definition comps_ok :: "bool \<Rightarrow> string list \<Rightarrow> bool" where
  "comps_ok rooted cs = stack_ok rooted (rev cs)"

lemma stack_ok_step:
  "stack_ok rooted st \<Longrightarrow> slash \<notin> set c \<Longrightarrow> stack_ok rooted (clean_step rooted st c)"
  by (cases st) auto

lemma stack_ok_foldl:
  "stack_ok rooted st \<Longrightarrow> (\<And>c. c \<in> set cs \<Longrightarrow> slash \<notin> set c) \<Longrightarrow>
     stack_ok rooted (foldl (clean_step rooted) st cs)"
proof (induction cs arbitrary: st)
  case Nil
  then show ?case by simp
next
  case (Cons c cs)
  have "stack_ok rooted (clean_step rooted st c)"
    using Cons.prems by (intro stack_ok_step) auto
  then show ?case using Cons by simp
qed

lemma stack_ok_suffix: "stack_ok rooted (a @ b) \<Longrightarrow> stack_ok rooted b"
  by (induction a) auto

lemma foldl_clean_id:
  "stack_ok rooted (rev cs @ st) \<Longrightarrow> foldl (clean_step rooted) st cs = rev cs @ st"
proof (induction cs arbitrary: st)
  case Nil
  then show ?case by simp
next
  case (Cons c cs)
  have c: "stack_ok rooted (c # st)"
    using Cons.prems stack_ok_suffix [of rooted "rev cs" "c # st"] by simp
  then have "clean_step rooted st c = c # st" by (cases st) auto
  with Cons show ?case by simp
qed

lemma clean_comps_ok: "comps_ok rooted (clean_comps rooted (split_char slash p))"
  unfolding comps_ok_def clean_comps_def
  by (simp, rule stack_ok_foldl) (auto dest: split_char_no_sep)

lemma clean_comps_id: "comps_ok rooted cs \<Longrightarrow> clean_comps rooted cs = cs"
  unfolding comps_ok_def clean_comps_def using foldl_clean_id [of rooted cs "[]"] by simp

lemma stack_ok_mem:
  "stack_ok rooted st \<Longrightarrow> c \<in> set st \<Longrightarrow>
     c \<noteq> [] \<and> c \<noteq> ''.'' \<and> slash \<notin> set c \<and> (rooted \<longrightarrow> c \<noteq> ''..'')"
  by (induction st) auto

lemma comps_ok_mem:
  "comps_ok rooted cs \<Longrightarrow> c \<in> set cs \<Longrightarrow> c \<noteq> [] \<and> c \<noteq> ''.'' \<and> slash \<notin> set c \<and> (rooted \<longrightarrow> c \<noteq> ''..'')"
  unfolding comps_ok_def using stack_ok_mem [of rooted "rev cs" c] by simp

lemma clean_comps_skip_empty: "clean_comps rooted ([] # cs) = clean_comps rooted cs"
  by (simp add: clean_comps_def)

lemma split_join_comps:
  "comps_ok rooted cs \<Longrightarrow> cs \<noteq> [] \<Longrightarrow> split_char slash (join_char slash cs) = cs"
  by (rule split_join) (auto dest: comps_ok_mem)

lemma join_char_hd: "c \<noteq> [] \<Longrightarrow> hd (join_char s (c # cs)) = hd c \<and> join_char s (c # cs) \<noteq> []"
  by (cases cs) auto

text \<open>The shape of a cleaned path, and that cleaning it again changes nothing.\<close>

lemma clean_path_cases:
  obtains (abs) cs where "is_abs p" "comps_ok True cs" "clean_path p = slash # join_char slash cs"
    | (dot) "\<not> is_abs p" "clean_path p = ''.''"
    | (rel) c cs where "\<not> is_abs p" "comps_ok False (c # cs)" "clean_path p = join_char slash (c # cs)"
proof (cases "is_abs p")
  case True
  then have "p \<noteq> []" by (simp add: is_abs_def)
  with True show thesis by (intro abs [OF True clean_comps_ok [of True p]]) (simp add: clean_path_def)
next
  case False
  show thesis
  proof (cases "p = [] \<or> clean_comps False (split_char slash p) = []")
    case True
    with False show thesis by (intro dot) (auto simp: clean_path_def)
  next
    case nonempty: False
    then obtain c cs where cs: "clean_comps False (split_char slash p) = c # cs"
      by (cases "clean_comps False (split_char slash p)") auto
    show thesis
      using False nonempty cs clean_comps_ok [of False p]
      by (intro rel [of c cs]) (auto simp: clean_path_def)
  qed
qed

lemma clean_abs: "comps_ok True cs \<Longrightarrow> clean_path (slash # join_char slash cs) = slash # join_char slash cs"
proof -
  assume ok: "comps_ok True cs"
  have "split_char slash (slash # join_char slash cs) =
      [] # (if cs = [] then [[]] else cs)"
    using split_join_comps [OF ok] by simp
  moreover have "clean_comps True [[], []] = []" by (simp add: clean_comps_def)
  ultimately show ?thesis
    using clean_comps_id [OF ok] by (simp add: clean_path_def is_abs_def clean_comps_skip_empty)
qed

lemma clean_rel:
  "comps_ok False (c # cs) \<Longrightarrow>
     clean_path (join_char slash (c # cs)) = join_char slash (c # cs) \<and> \<not> is_abs (join_char slash (c # cs))"
proof -
  assume ok: "comps_ok False (c # cs)"
  have c: "c \<noteq> []" "slash \<notin> set c" using comps_ok_mem [OF ok, of c] by auto
  then have "hd c \<noteq> slash" by (cases c) auto
  then have rel: "\<not> is_abs (join_char slash (c # cs))"
    using join_char_hd [OF c(1), of slash cs] by (simp add: is_abs_def)
  then show ?thesis
    using split_join_comps [OF ok] clean_comps_id [OF ok] join_char_hd [OF c(1), of slash cs]
    by (simp add: clean_path_def)
qed

lemma clean_path_idem [simp]: "clean_path (clean_path p) = clean_path p"
proof (cases p rule: clean_path_cases)
  case (abs cs)
  then show ?thesis by (simp add: clean_abs)
next
  case dot
  then show ?thesis by (simp add: clean_path_def is_abs_def slash_def clean_comps_def)
next
  case (rel c cs)
  then show ?thesis using clean_rel [OF rel(2)] by simp
qed

lemma is_abs_clean [simp]: "is_abs (clean_path p) = is_abs p"
proof (cases p rule: clean_path_cases)
  case (abs cs)
  then show ?thesis by (simp add: is_abs_def)
next
  case dot
  then show ?thesis by (simp add: is_abs_def slash_def)
next
  case (rel c cs)
  then show ?thesis using clean_rel [OF rel(2)] by simp
qed

subsection \<open>Relative paths\<close>

definition path_comps :: "string \<Rightarrow> string list" where
  "path_comps p =
     (if p = [] \<or> p = [slash] then []
      else if is_abs p then split_char slash (tl p) else split_char slash p)"

fun strip_common :: "string list \<Rightarrow> string list \<Rightarrow> string list \<times> string list" where
  "strip_common (a # as) (b # bs) = (if a = b then strip_common as bs else (a # as, b # bs))"
| "strip_common as bs = (as, bs)"

definition path_rel :: "string \<Rightarrow> string \<Rightarrow> string option" where
  "path_rel base targ =
     (let b = clean_path base; t = clean_path targ
      in if t = b then Some ''.''
         else let b' = (if b = ''.'' then [] else b)
              in if is_abs b' \<noteq> is_abs t then None
                 else let (br, tr) = strip_common (path_comps b') (path_comps t)
                      in if br \<noteq> [] \<and> hd br = ''..'' then None
                         else Some (join_char slash (replicate (length br) ''..'' @ tr)))"

lemma strip_common_spec:
  "strip_common as bs = (ra, rb) \<Longrightarrow> \<exists>p. as = p @ ra \<and> bs = p @ rb \<and> (ra = [] \<or> rb = [] \<or> hd ra \<noteq> hd rb)"
proof (induction as bs rule: strip_common.induct)
  case (1 a as b bs)
  show ?case
  proof (cases "a = b")
    case True
    with 1 obtain p where "as = p @ ra \<and> bs = p @ rb \<and> (ra = [] \<or> rb = [] \<or> hd ra \<noteq> hd rb)" by auto
    with True show ?thesis by (intro exI [of _ "a # p"]) auto
  next
    case False
    with 1 show ?thesis by auto
  qed
qed auto

lemma strip_common_prefix: "strip_common p (p @ xs) = ([], xs)"
  by (induction p) auto

lemma path_comps_abs: "comps_ok True cs \<Longrightarrow> path_comps (slash # join_char slash cs) = cs"
proof (cases cs)
  case (Cons c r)
  assume ok: "comps_ok True cs"
  then have "join_char slash cs \<noteq> []"
    using Cons join_char_hd [of c slash r] comps_ok_mem [OF ok, of c] by auto
  then show ?thesis
    using Cons split_join_comps [OF ok] by (simp add: path_comps_def is_abs_def)
qed (simp add: path_comps_def)

lemma comps_ok_append2: "comps_ok rooted (a @ b) \<Longrightarrow> comps_ok rooted a"
  unfolding comps_ok_def by (simp add: stack_ok_suffix)

subsection \<open>Paths in a manifest\<close>

definition clean_manifest_path :: "string \<Rightarrow> string" where
  "clean_manifest_path p =
     (let q = trim_prefix [slash] (clean_path p) in if q = ''.'' \<or> q = [] then ''.'' else q)"

definition path_base :: "string \<Rightarrow> string" where
  "path_base p =
     (if p = [] then ''.''
      else let q = rev (dropWhile (\<lambda>c. c = slash) (rev p))
           in if q = [] then [slash] else last (split_char slash q))"

lemma trim_prefix_slash_abs: "trim_prefix [slash] (slash # s) = s"
  by (simp add: trim_prefix_def)

lemma trim_prefix_slash_rel: "\<not> is_abs s \<Longrightarrow> trim_prefix [slash] s = s"
  by (cases s) (auto simp: trim_prefix_def is_abs_def)

lemma stack_ok_rooted_imp: "stack_ok True st \<Longrightarrow> stack_ok False st"
  by (induction st) auto

lemma comps_ok_rooted_imp: "comps_ok True cs \<Longrightarrow> comps_ok False cs"
  by (simp add: comps_ok_def stack_ok_rooted_imp)

lemma clean_manifest_path_cases:
  obtains (dot) "clean_manifest_path p = ''.''"
    | (comps) c cs where "comps_ok False (c # cs)" "clean_manifest_path p = join_char slash (c # cs)"
proof (cases p rule: clean_path_cases)
  case (abs cs)
  show thesis
  proof (cases cs)
    case Nil
    with abs show thesis by (intro dot) (simp add: clean_manifest_path_def trim_prefix_slash_abs)
  next
    case (Cons c r)
    have "comps_ok False (c # r)" using abs Cons comps_ok_rooted_imp by simp
    moreover have "clean_manifest_path p =
        (let q = join_char slash (c # r) in if q = ''.'' \<or> q = [] then ''.'' else q)"
      using abs(3) Cons by (simp add: clean_manifest_path_def trim_prefix_slash_abs)
    ultimately show thesis
      using that(1) that(2) [of c r]
      by (cases "join_char slash (c # r) = ''.'' \<or> join_char slash (c # r) = []") (auto simp: Let_def)
  qed
next
  case dot
  then show thesis by (intro that(1)) (simp add: clean_manifest_path_def trim_prefix_def slash_def)
next
  case (rel c cs)
  then have "\<not> is_abs (join_char slash (c # cs))" using clean_rel by blast
  then have "clean_manifest_path p =
      (let q = join_char slash (c # cs) in if q = ''.'' \<or> q = [] then ''.'' else q)"
    using rel(3) by (simp add: clean_manifest_path_def trim_prefix_slash_rel)
  with rel(2) show thesis
    using that(1) that(2) [of c cs]
    by (cases "join_char slash (c # cs) = ''.'' \<or> join_char slash (c # cs) = []") (auto simp: Let_def)
qed

lemma clean_manifest_path_dot [simp]: "clean_manifest_path ''.'' = ''.''"
  by (simp add: clean_manifest_path_def clean_path_def is_abs_def slash_def clean_comps_def
      trim_prefix_def)

lemma clean_manifest_path_comps:
  "comps_ok False (c # cs) \<Longrightarrow> clean_manifest_path (join_char slash (c # cs)) = join_char slash (c # cs)"
proof -
  assume ok: "comps_ok False (c # cs)"
  have c: "c \<noteq> []" "slash \<notin> set c" using comps_ok_mem [OF ok, of c] by auto
  show ?thesis
    using clean_rel [OF ok] join_char_hd [OF c(1), of slash cs]
    by (simp add: clean_manifest_path_def trim_prefix_slash_rel Let_def)
qed

lemma clean_manifest_path_idem [simp]:
  "clean_manifest_path (clean_manifest_path p) = clean_manifest_path p"
  by (cases p rule: clean_manifest_path_cases) (simp_all add: clean_manifest_path_comps)

lemma clean_manifest_path_rel: "\<not> is_abs (clean_manifest_path p) \<and> clean_manifest_path p \<noteq> []"
proof (cases p rule: clean_manifest_path_cases)
  case dot
  then show ?thesis by (simp add: is_abs_def slash_def)
next
  case (comps c cs)
  then have "c \<noteq> []" using comps_ok_mem [OF comps(1), of c] by simp
  then show ?thesis
    using clean_rel [OF comps(1)] comps(2) join_char_hd [of c slash cs] by simp
qed

subsection \<open>UTF-8\<close>

text \<open>
  \<open>utf8.DecodeRuneInString\<close>: the code point and its width; an invalid byte is U+FFFD with width
  1, the empty string U+FFFD with width 0.
\<close>

definition cont_byte :: "nat \<Rightarrow> nat \<Rightarrow> nat \<Rightarrow> bool" where
  "cont_byte lo hi b \<longleftrightarrow> lo \<le> b \<and> b \<le> hi"

definition decode_rune :: "string \<Rightarrow> nat \<times> nat" where
  "decode_rune s =
     (case map char_code (take 4 s) of
        [] \<Rightarrow> (0xFFFD, 0)
      | b0 # bs \<Rightarrow>
          if b0 < 0x80 then (b0, 1)
          else if 0xC2 \<le> b0 \<and> b0 \<le> 0xDF then
            (case bs of b1 # _ \<Rightarrow>
               if cont_byte 0x80 0xBF b1 then ((b0 - 0xC0) * 64 + (b1 - 0x80), 2) else (0xFFFD, 1)
             | [] \<Rightarrow> (0xFFFD, 1))
          else if 0xE0 \<le> b0 \<and> b0 \<le> 0xEF then
            (case bs of b1 # b2 # _ \<Rightarrow>
               if cont_byte (if b0 = 0xE0 then 0xA0 else 0x80) (if b0 = 0xED then 0x9F else 0xBF) b1
                  \<and> cont_byte 0x80 0xBF b2
               then ((b0 - 0xE0) * 4096 + (b1 - 0x80) * 64 + (b2 - 0x80), 3) else (0xFFFD, 1)
             | _ \<Rightarrow> (0xFFFD, 1))
          else if 0xF0 \<le> b0 \<and> b0 \<le> 0xF4 then
            (case bs of b1 # b2 # b3 # _ \<Rightarrow>
               if cont_byte (if b0 = 0xF0 then 0x90 else 0x80) (if b0 = 0xF4 then 0x8F else 0xBF) b1
                  \<and> cont_byte 0x80 0xBF b2 \<and> cont_byte 0x80 0xBF b3
               then ((b0 - 0xF0) * 262144 + (b1 - 0x80) * 4096 + (b2 - 0x80) * 64 + (b3 - 0x80), 4)
               else (0xFFFD, 1)
             | _ \<Rightarrow> (0xFFFD, 1))
          else (0xFFFD, 1))"

lemma decode_rune_width: "s \<noteq> [] \<Longrightarrow> 0 < snd (decode_rune s)"
  by (cases s) (auto simp: decode_rune_def split: list.splits)

end
