(* ===== verification/RootSet.thy ===== *)
theory RootSet
  imports GoPaths Prelude
begin

text \<open>
  Package \<open>internal/rootset\<close>: parsing and normalising the list of roots of a backup, and the
  prefix under which the entries of one root appear in a manifest of several roots.
\<close>

datatype root_error =
    RootNotAbsolute string
  | RootDuplicated string
  | RootRequired
  | RootNested string string

definition list_separator :: "char \<Rightarrow> bool" where
  "list_separator c \<longleftrightarrow> c = CHR '','' \<or> c = CHR 0x0A \<or> c = CHR 0x0D"

definition split_root_list :: "string \<Rightarrow> string list" where
  "split_root_list value = filter (\<lambda>f. f \<noteq> []) (map trim_space (fields_func list_separator value))"

definition is_nested_root :: "string \<Rightarrow> string \<Rightarrow> bool" where
  "is_nested_root parent child =
     (case path_rel parent child of
        None \<Rightarrow> False
      | Some rel \<Rightarrow>
          if rel = ''.'' \<or> rel = ''..'' then False
          else if is_abs rel then False
          else \<not> prefix (''..'' @ [slash]) rel)"

fun clean_roots :: "string list \<Rightarrow> string list \<Rightarrow> root_error + string list" where
  "clean_roots acc [] = Inr acc"
| "clean_roots acc (root # roots) =
     (let raw = trim_space root
      in if raw = [] then clean_roots acc roots
         else (let cleaned = clean_path raw
               in if \<not> is_abs cleaned then Inl (RootNotAbsolute root)
                  else if cleaned \<in> set acc then Inl (RootDuplicated cleaned)
                  else clean_roots (acc @ [cleaned]) roots))"

definition find_nested :: "string list \<Rightarrow> (nat \<times> nat) option" where
  "find_nested ns =
     find (\<lambda>(i, j). i \<noteq> j \<and> is_nested_root (ns ! i) (ns ! j))
       (List.product [0..<length ns] [0..<length ns])"

definition normalize_roots :: "string list \<Rightarrow> root_error + string list" where
  "normalize_roots roots =
     rbind (clean_roots [] roots) (\<lambda>ns.
       if ns = [] then Inl RootRequired
       else (case find_nested ns of
               Some (i, j) \<Rightarrow> Inl (RootNested (ns ! j) (ns ! i))
             | None \<Rightarrow> Inr ns))"

definition manifest_prefix :: "string \<Rightarrow> string" where
  "manifest_prefix root =
     (let r = trim_prefix [slash] (clean_path root) in if r = [] \<or> r = ''.'' then ''.'' else r)"

subsection \<open>Lemmas\<close>

lemma clean_abs_cases:
  assumes "is_abs p" "clean_path p = p"
  obtains cs where "comps_ok True cs" "p = slash # join_char slash cs"
proof (cases p rule: clean_path_cases)
  case (abs cs)
  with assms(2) show thesis by (intro that) auto
next
  case dot
  with assms show thesis by (auto simp: is_abs_def slash_def)
next
  case (rel c cs)
  then show thesis using assms clean_rel [OF rel(2)] by auto
qed

lemma comps_ok_True_no_dotdot: "comps_ok True cs \<Longrightarrow> ''..'' \<notin> set cs"
  unfolding comps_ok_def
proof -
  have "stack_ok True st \<Longrightarrow> ''..'' \<notin> set st" for st by (induction st) auto
  from this [of "rev cs"] show "stack_ok True (rev cs) \<Longrightarrow> ''..'' \<notin> set cs" by simp
qed

lemma join_hd_prefix:
  assumes "prefix (''..'' @ [slash]) (join_char slash (c # cs))" "slash \<notin> set c"
  shows "c = ''..''"
proof (cases cs)
  case Nil
  with assms show ?thesis by (auto simp: prefix_def slash_def)
next
  case (Cons d r)
  then obtain z where z: "c @ slash # join_char slash (d # r) = ''..'' @ slash # z"
    using assms(1) by (auto simp: prefix_def)
  have s: "slash \<notin> set ''..''" by (simp add: slash_def)
  have "split_char slash (c @ slash # join_char slash (d # r)) = split_char slash (''..'' @ slash # z)"
    by (simp only: z)
  then show ?thesis
    unfolding split_char_append [OF assms(2)] split_char_append [OF s] by simp
qed

lemma is_nested_root_abs:
  assumes P: "comps_ok True P" and C: "comps_ok True C"
  shows "is_nested_root (slash # join_char slash P) (slash # join_char slash C) \<longleftrightarrow>
    (\<exists>x xs. C = P @ x # xs)"
proof -
  let ?p = "slash # join_char slash P" and ?c = "slash # join_char slash C"
  have pc: "path_comps ?p = P" "path_comps ?c = C" using path_comps_abs P C by auto
  have cl: "clean_path ?p = ?p" "clean_path ?c = ?c" using clean_abs P C by auto
  have abs: "is_abs ?p" "is_abs ?c" by (auto simp: is_abs_def)
  have nd: "?p \<noteq> ''.''" by (simp add: slash_def)
  obtain br tr where s: "strip_common P C = (br, tr)" by fastforce
  obtain q where q: "P = q @ br" "C = q @ tr" using strip_common_spec [OF s] by blast
  have br: "''..'' \<notin> set br" using comps_ok_True_no_dotdot [OF P] q by auto
  have tr: "''..'' \<notin> set tr" using comps_ok_True_no_dotdot [OF C] q by auto
  have trs: "\<And>t. t \<in> set tr \<Longrightarrow> t \<noteq> [] \<and> t \<noteq> ''.'' \<and> slash \<notin> set t"
    using comps_ok_mem [OF C] q by auto
  show ?thesis
  proof (cases "?c = ?p")
    case True
    then have "C = P" using pc by metis
    then show ?thesis using True by (simp add: is_nested_root_def path_rel_def Let_def)
  next
    case False
    have rel: "path_rel ?p ?c = Some (join_char slash (replicate (length br) ''..'' @ tr))"
      using False cl abs nd pc s br by (cases br) (auto simp: path_rel_def Let_def)
    show ?thesis
    proof (cases br)
      case Nil
      then have "tr \<noteq> []" using False q by auto
      then obtain t ts where t: "tr = t # ts" by (cases tr) auto
      have hd: "hd (join_char slash (t # ts)) = hd t" "join_char slash (t # ts) \<noteq> []"
        using join_char_hd [of t slash ts] trs [of t] t by auto
      have "\<not> is_abs (join_char slash (t # ts))"
        using hd trs [of t] t by (auto simp: is_abs_def) (metis list.set_sel(1))
      moreover have "\<not> prefix (''..'' @ [slash]) (join_char slash (t # ts))"
        using join_hd_prefix [of t ts] trs [of t] t tr by auto
      moreover have "split_char slash (join_char slash (t # ts)) = t # ts"
        using trs t by (intro split_join) auto
      then have "join_char slash (t # ts) \<noteq> ''.''" "join_char slash (t # ts) \<noteq> ''..''"
        using trs [of t] t tr by (auto simp: slash_def)
      ultimately show ?thesis
        using rel Nil t q by (simp add: is_nested_root_def)
    next
      case (Cons b bs)
      have "\<not> is_nested_root ?p ?c"
      proof (cases "replicate (length bs) ''..'' @ tr")
        case Nil
        then show ?thesis using rel Cons by (simp add: is_nested_root_def)
      next
        case (Cons x xs)
        then have "path_rel ?p ?c = Some (''..'' @ slash # join_char slash (x # xs))"
          using rel \<open>br = b # bs\<close> by simp
        then show ?thesis by (simp add: is_nested_root_def)
      qed
      moreover have "\<not> (\<exists>x xs. C = P @ x # xs)"
        using q Cons strip_common_spec [OF s] by (auto simp: append_eq_append_conv2)
      ultimately show ?thesis by simp
    qed
  qed
qed

lemma clean_roots_ok:
  "clean_roots acc roots = Inr ns \<Longrightarrow> distinct acc \<Longrightarrow> \<forall>n \<in> set acc. is_abs n \<and> clean_path n = n \<Longrightarrow>
   distinct ns \<and> (\<forall>n \<in> set ns. is_abs n \<and> clean_path n = n)"
proof (induction acc roots rule: clean_roots.induct)
  case (1 acc)
  then show ?case by simp
next
  case (2 acc root roots)
  show ?case
  proof (cases "trim_space root = []")
    case True
    with 2 show ?thesis by simp
  next
    case False
    let ?c = "clean_path (trim_space root)"
    have e: "(if \<not> is_abs ?c then Inl (RootNotAbsolute root)
        else if ?c \<in> set acc then Inl (RootDuplicated ?c) else clean_roots (acc @ [?c]) roots) = Inr ns"
      using "2.prems"(1) False by (simp only: clean_roots.simps Let_def if_False)
    have a: "is_abs ?c" by (rule ccontr) (use e in \<open>simp only: not_False_eq_True if_True sum.distinct\<close>)
    have b: "?c \<notin> set acc"
      by (rule notI) (use e a in \<open>simp only: not_True_eq_False if_True if_False sum.distinct\<close>)
    have ok: "clean_roots (acc @ [?c]) roots = Inr ns"
      using e a b by (simp only: not_True_eq_False if_False)
    have "distinct (acc @ [?c])" using "2.prems"(2) b by simp
    moreover have "\<forall>n \<in> set (acc @ [?c]). is_abs n \<and> clean_path n = n"
      using "2.prems"(3) a by auto
    moreover have "\<not> \<not> is_abs ?c" using a by blast
    ultimately show ?thesis using "2.IH"(2) [OF refl False refl _ b ok] by blast
  qed
qed

lemma find_nested_None:
  "find_nested ns = None \<Longrightarrow> i < length ns \<Longrightarrow> j < length ns \<Longrightarrow> i \<noteq> j \<Longrightarrow> \<not> is_nested_root (ns ! i) (ns ! j)"
proof -
  assume a: "find_nested ns = None" "i < length ns" "j < length ns" "i \<noteq> j"
  have "(i, j) \<in> set (List.product [0..<length ns] [0..<length ns])" using a by simp
  then show "\<not> is_nested_root (ns ! i) (ns ! j)"
    using find_None_all [OF a(1) [unfolded find_nested_def]] a(4) by fastforce
qed

lemma normalize_roots_Inr:
  assumes "normalize_roots roots = Inr ns"
  shows "ns \<noteq> [] \<and> distinct ns \<and> (\<forall>n \<in> set ns. is_abs n \<and> clean_path n = n) \<and> find_nested ns = None"
  using assms clean_roots_ok [of "[]" roots ns]
  by (auto simp: normalize_roots_def result_simps split: if_splits option.splits)

lemma manifest_prefix_abs:
  assumes "comps_ok True cs"
  shows "manifest_prefix (slash # join_char slash cs) = (if cs = [] then ''.'' else join_char slash cs)"
proof (cases cs)
  case Nil
  then show ?thesis using clean_abs [OF assms] by (simp add: manifest_prefix_def trim_prefix_def)
next
  case (Cons c r)
  have c: "\<And>d. d \<in> set cs \<Longrightarrow> d \<noteq> [] \<and> d \<noteq> ''.'' \<and> slash \<notin> set d" using comps_ok_mem [OF assms] by auto
  have sj: "split_char slash (join_char slash cs) = cs" using Cons c by (intro split_join) auto
  have "join_char slash cs \<noteq> []" using join_char_hd [of c slash r] c Cons by auto
  moreover have "join_char slash cs \<noteq> ''.''"
  proof
    assume "join_char slash cs = ''.''"
    then have "cs = [''.'']" using sj by (auto simp: slash_def)
    then show False using c by auto
  qed
  ultimately show ?thesis using Cons clean_abs [OF assms]
    by (simp add: manifest_prefix_def trim_prefix_slash_abs Let_def)
qed

lemma normalized_comps:
  assumes "normalize_roots roots = Inr ns"
  obtains css where "ns = map (\<lambda>cs. slash # join_char slash cs) css" "\<forall>cs \<in> set css. comps_ok True cs"
proof -
  have "\<forall>n \<in> set ns. \<exists>cs. comps_ok True cs \<and> n = slash # join_char slash cs"
    using normalize_roots_Inr [OF assms] clean_abs_cases by metis
  then obtain f where f: "\<forall>n \<in> set ns. comps_ok True (f n) \<and> n = slash # join_char slash (f n)"
    by metis
  have "map (\<lambda>cs. slash # join_char slash cs) (map f ns) = ns"
    using f by (simp add: map_idI o_def)
  then show thesis using f by (intro that [of "map f ns"]) auto
qed

lemma normalized_not_prefix:
  assumes "normalize_roots roots = Inr ns" and i: "i < length ns" and j: "j < length ns" and ij: "i \<noteq> j"
    and css: "ns = map (\<lambda>cs. slash # join_char slash cs) css" "\<forall>cs \<in> set css. comps_ok True cs"
  shows "\<not> prefix (css ! i) (css ! j)"
proof
  assume "prefix (css ! i) (css ! j)"
  then obtain z where z: "css ! j = css ! i @ z" by (auto simp: prefix_def)
  have l: "i < length css" "j < length css" using i j css(1) by auto
  then have ok: "comps_ok True (css ! i)" "comps_ok True (css ! j)" using css(2) by auto
  have n: "ns ! i = slash # join_char slash (css ! i)" "ns ! j = slash # join_char slash (css ! j)"
    using l css(1) by auto
  have "\<not> is_nested_root (ns ! i) (ns ! j)"
    using normalize_roots_Inr [OF assms(1)] by (intro find_nested_None i j ij) simp
  then have "z = []" using z n ok is_nested_root_abs by (cases z) auto
  then have "ns ! i = ns ! j" using n z by simp
  then show False using normalize_roots_Inr [OF assms(1)] i j ij nth_eq_iff_index_eq by blast
qed

subsection \<open>Properties\<close>

text \<open>
  Property C40. The roots a backup runs over are absolute, clean and pairwise different, and none
  lies under another: no root's components are a prefix of another root's.
\<close>

theorem normalize_roots_sound:
  assumes "normalize_roots roots = Inr ns"
  shows "ns \<noteq> [] \<and> distinct ns \<and> (\<forall>n \<in> set ns. is_abs n \<and> clean_path n = n) \<and>
    (\<forall>i < length ns. \<forall>j < length ns. i \<noteq> j \<longrightarrow> \<not> prefix (path_comps (ns ! i)) (path_comps (ns ! j)))"
proof -
  obtain css where css: "ns = map (\<lambda>cs. slash # join_char slash cs) css" "\<forall>cs \<in> set css. comps_ok True cs"
    using normalized_comps [OF assms] by blast
  have "path_comps (ns ! i) = css ! i" if "i < length ns" for i
    using that css path_comps_abs by simp
  then show ?thesis
    using normalize_roots_Inr [OF assms] normalized_not_prefix [OF assms _ _ _ css] by auto
qed

lemma normalize_roots_sound_witness:
  "distinct [''/srv/data'', ''/etc''] \<and>
   \<not> prefix (path_comps (''/srv/data'')) (path_comps ''/etc'')"
proof -
  have "normalize_roots ['' /srv//data/'', '''', ''/etc''] = Inr [''/srv/data'', ''/etc'']" by code_simp
  from normalize_roots_sound [OF this] show ?thesis by fastforce
qed

text \<open>
  In a snapshot of several roots, entries of different roots never share a manifest
  path: below the manifest prefixes of two different roots there is no common path, whatever the
  relative paths are.
\<close>

theorem manifest_prefixes_disjoint:
  assumes "normalize_roots roots = Inr ns" and "i < length ns" and "j < length ns" and "i \<noteq> j"
  shows "manifest_prefix (ns ! i) @ slash # a \<noteq> manifest_prefix (ns ! j) @ slash # b \<and>
    manifest_prefix (ns ! i) @ slash # a \<noteq> manifest_prefix (ns ! j) \<and>
    manifest_prefix (ns ! i) \<noteq> manifest_prefix (ns ! j)"
proof -
  obtain css where css: "ns = map (\<lambda>cs. slash # join_char slash cs) css" "\<forall>cs \<in> set css. comps_ok True cs"
    using normalized_comps [OF assms(1)] by blast
  let ?P = "css ! i" and ?Q = "css ! j"
  have l: "i < length css" "j < length css" using assms(2,3) css(1) by auto
  have np: "\<not> prefix ?P ?Q" "\<not> prefix ?Q ?P"
    using normalized_not_prefix [OF assms(1) _ _ _ css] assms(2-4) by auto
  then have ne: "?P \<noteq> []" "?Q \<noteq> []" by auto
  have mp: "manifest_prefix (ns ! i) = join_char slash ?P" "manifest_prefix (ns ! j) = join_char slash ?Q"
    using l css ne by (auto simp: manifest_prefix_abs)
  have sep: "\<And>d. d \<in> set ?P \<union> set ?Q \<Longrightarrow> slash \<notin> set d" using css(2) l comps_ok_mem by fastforce
  have sj: "split_char slash (join_char slash ?P) = ?P" "split_char slash (join_char slash ?Q) = ?Q"
    using ne sep by (auto intro!: split_join)
  have app: "split_char slash (join_char slash R @ slash # x) = R @ split_char slash x"
    if "R \<noteq> []" "\<And>d. d \<in> set R \<Longrightarrow> slash \<notin> set d" for R x
    using that by (induction slash R rule: join_char.induct) (auto simp: split_char_append)
  have spP: "split_char slash (join_char slash ?P @ slash # x) = ?P @ split_char slash x" for x
    using ne sep by (intro app) auto
  have spQ: "split_char slash (join_char slash ?Q @ slash # x) = ?Q @ split_char slash x" for x
    using ne sep by (intro app) auto
  have "join_char slash ?P @ slash # a \<noteq> join_char slash ?Q @ slash # b"
  proof
    assume "join_char slash ?P @ slash # a = join_char slash ?Q @ slash # b"
    then have "?P @ split_char slash a = ?Q @ split_char slash b" using spP [of a] spQ [of b] by simp
    then have "prefix ?P ?Q \<or> prefix ?Q ?P"
      by (metis prefix_def prefix_same_cases)
    then show False using np by blast
  qed
  moreover have "join_char slash ?P @ slash # a \<noteq> join_char slash ?Q"
  proof
    assume "join_char slash ?P @ slash # a = join_char slash ?Q"
    then have "?P @ split_char slash a = ?Q" using spP [of a] sj(2) by simp
    then have "prefix ?P ?Q" by (rule prefixI [OF sym])
    then show False using np by blast
  qed
  moreover have "join_char slash ?P \<noteq> join_char slash ?Q"
  proof
    assume "join_char slash ?P = join_char slash ?Q"
    then have "?P = ?Q" using sj by metis
    then show False using np by simp
  qed
  ultimately show ?thesis unfolding mp by blast
qed

lemma manifest_prefixes_disjoint_witness:
  "manifest_prefix ''/srv/data'' @ slash # ''x'' \<noteq> manifest_prefix ''/srv/data2'' @ slash # ''x''"
proof -
  have "normalize_roots [''/srv/data'', ''/srv/data2''] = Inr [''/srv/data'', ''/srv/data2'']" by code_simp
  from manifest_prefixes_disjoint [OF this, of 0 1 "''x''" "''x''"] show ?thesis by simp
qed

end
