(* ===== verification/GoMatch.thy ===== *)
theory GoMatch
  imports GoPaths
begin

text \<open>
  \<open>path.Match\<close> of Go's standard library (\<open>scanChunk\<close>, \<open>matchChunk\<close>, \<open>getEsc\<close>): shell patterns with
  \<open>*\<close>, \<open>?\<close>, character classes and escapes. \<open>None\<close> is \<open>ErrBadPattern\<close>.
\<close>

definition backslash :: char where
  "backslash = CHR 0x5C"

fun scan_body :: "bool \<Rightarrow> string \<Rightarrow> string \<times> string" where
  "scan_body inrange [] = ([], [])"
| "scan_body inrange (c # cs) =
     (if c = backslash then
        (case cs of [] \<Rightarrow> ([c], [])
         | d # ds \<Rightarrow> let (a, b) = scan_body inrange ds in (c # d # a, b))
      else if c = CHR ''*'' \<and> \<not> inrange then ([], c # cs)
      else let (a, b) = scan_body (if c = CHR ''['' then True else if c = CHR '']'' then False else inrange) cs
           in (c # a, b))"

definition scan_chunk :: "string \<Rightarrow> bool \<times> string \<times> string" where
  "scan_chunk pattern =
     (let star = (pattern \<noteq> [] \<and> hd pattern = CHR ''*'')
      in (star, scan_body False (dropWhile (\<lambda>c. c = CHR ''*'') pattern)))"

definition get_esc :: "string \<Rightarrow> (nat \<times> string) option" where
  "get_esc chunk0 =
     (if chunk0 = [] \<or> hd chunk0 = CHR ''-'' \<or> hd chunk0 = CHR '']'' then None
      else let chunk = (if hd chunk0 = backslash then tl chunk0 else chunk0)
           in if chunk = [] then None
              else let (r, n) = decode_rune chunk
                   in if (r = 0xFFFD \<and> n = 1) \<or> drop n chunk = [] then None
                      else Some (r, drop n chunk))"

lemma get_esc_shorter: "get_esc s = Some (r, t) \<Longrightarrow> t \<noteq> [] \<and> length t < length s"
proof -
  assume g: "get_esc s = Some (r, t)"
  let ?c = "if hd s = backslash then tl s else s"
  have s: "s \<noteq> []" "?c \<noteq> []" using g by (auto simp: get_esc_def Let_def split: if_splits)
  have t: "t = drop (snd (decode_rune ?c)) ?c" "t \<noteq> []"
    using g s by (auto simp: get_esc_def Let_def split: if_splits prod.splits)
  have "length t < length ?c" using t(1) decode_rune_width [OF s(2)] s(2) by simp
  also have "length ?c \<le> length s" by simp
  finally show ?thesis using t(2) by simp
qed

function match_ranges :: "nat \<Rightarrow> bool \<Rightarrow> bool \<Rightarrow> string \<Rightarrow> (bool \<times> string) option" where
  "match_ranges r matched seen chunk =
     (if seen \<and> chunk \<noteq> [] \<and> hd chunk = CHR '']'' then Some (matched, tl chunk)
      else (case get_esc chunk of
              None \<Rightarrow> None
            | Some (lo, ch1) \<Rightarrow>
                if hd ch1 = CHR ''-'' then
                  (case get_esc (tl ch1) of
                     None \<Rightarrow> None
                   | Some (hi, ch2) \<Rightarrow> match_ranges r (matched \<or> (lo \<le> r \<and> r \<le> hi)) True ch2)
                else match_ranges r (matched \<or> r = lo) True ch1))"
  by pat_completeness auto
termination
  by (relation "measure (\<lambda>(r, m, s, c). length c)")
     (auto dest!: get_esc_shorter simp: less_diff_conv)

declare match_ranges.simps [simp del]

lemma match_ranges_shorter: "match_ranges r m so c = Some (m', c') \<Longrightarrow> length c' \<le> length c"
proof (induction r m so c rule: match_ranges.induct)
  case (1 r m so c)
  show ?case
  proof (cases "so \<and> c \<noteq> [] \<and> hd c = CHR '']''")
    case True
    with "1.prems" show ?thesis by (subst (asm) match_ranges.simps) auto
  next
    case False
    then obtain lo ch1 where g: "get_esc c = Some (lo, ch1)"
      using "1.prems" by (subst (asm) match_ranges.simps) (auto split: option.splits)
    note s = get_esc_shorter [OF g]
    show ?thesis
    proof (cases "hd ch1 = CHR ''-''")
      case True
      then obtain hi ch2 where h: "get_esc (tl ch1) = Some (hi, ch2)"
        and m: "match_ranges r (m \<or> (lo \<le> r \<and> r \<le> hi)) True ch2 = Some (m', c')"
        using "1.prems" False g by (subst (asm) match_ranges.simps) (auto split: option.splits)
      have "length c' \<le> length ch2"
        using "1.IH"(1) [OF False g refl True h refl m] .
      then show ?thesis using get_esc_shorter [OF h] s by auto
    next
      case nd: False
      then have m: "match_ranges r (m \<or> r = lo) True ch1 = Some (m', c')"
        using "1.prems" False g by (subst (asm) match_ranges.simps) auto
      have "length c' \<le> length ch1" using "1.IH"(2) [OF False g refl nd m] .
      then show ?thesis using s by simp
    qed
  qed
qed

function match_chunk :: "bool \<Rightarrow> string \<Rightarrow> string \<Rightarrow> string option option" where
  "match_chunk failed0 [] s = Some (if failed0 then None else Some s)"
| "match_chunk failed0 (c # ch) s =
     (let failed = (failed0 \<or> s = [])
      in if c = CHR ''['' then
           (let rs = (if failed then (0, s) else let (r, n) = decode_rune s in (r, drop n s));
                neg = (ch \<noteq> [] \<and> hd ch = CHR ''^'');
                ch1 = (if neg then tl ch else ch)
            in case match_ranges (fst rs) False False ch1 of
                 None \<Rightarrow> None
               | Some (m, ch2) \<Rightarrow> match_chunk (failed \<or> m = neg) ch2 (snd rs))
         else if c = CHR ''?'' then
           match_chunk (failed \<or> hd s = slash) ch
             (if failed then s else drop (snd (decode_rune s)) s)
         else if c = backslash then
           (case ch of [] \<Rightarrow> None
            | d # ds \<Rightarrow> match_chunk (failed \<or> d \<noteq> hd s) ds (if failed then s else tl s))
         else match_chunk (failed \<or> c \<noteq> hd s) ch (if failed then s else tl s))"
  by pat_completeness auto
termination
  by (relation "measure (\<lambda>(f, c, s). length c)")
     (auto dest!: match_ranges_shorter split: if_splits)

fun star_skip :: "string \<Rightarrow> bool \<Rightarrow> string \<Rightarrow> string option option" where
  "star_skip chunk final [] = Some None"
| "star_skip chunk final (c # name) =
     (if c = slash then Some None
      else (case match_chunk False chunk name of
              None \<Rightarrow> None
            | Some None \<Rightarrow> star_skip chunk final name
            | Some (Some t) \<Rightarrow> if final \<and> t \<noteq> [] then star_skip chunk final name else Some (Some t)))"

lemma scan_body_length: "scan_body b s = (x, y) \<Longrightarrow> length x + length y = length s"
  by (induction b s arbitrary: x y rule: scan_body.induct)
     (auto split: if_splits list.splits prod.splits)

lemma scan_body_consumes:
  "s \<noteq> [] \<Longrightarrow> hd s \<noteq> CHR ''*'' \<Longrightarrow> scan_body False s = (x, y) \<Longrightarrow> x \<noteq> []"
  by (cases s) (auto split: if_splits list.splits prod.splits)

lemma scan_chunk_shorter:
  assumes "scan_chunk p = (star, chunk, rest)" "p \<noteq> []"
  shows "length rest < length p"
proof -
  let ?q = "dropWhile (\<lambda>c. c = CHR ''*'') p"
  have b: "scan_body False ?q = (chunk, rest)" using assms by (simp add: scan_chunk_def Let_def)
  have len: "length chunk + length rest = length ?q" using scan_body_length [OF b] .
  show ?thesis
  proof (cases "hd p = CHR ''*''")
    case True
    then have "length ?q < length p"
      using assms(2) by (cases p) (auto simp: le_imp_less_Suc length_dropWhile_le)
    then show ?thesis using len by simp
  next
    case False
    then have q: "?q = p" using assms(2) by (cases p) auto
    then have "chunk \<noteq> []" using scan_body_consumes [of p chunk rest] b assms(2) False by simp
    then show ?thesis using len q by (cases chunk) auto
  qed
qed

function pattern_rest_ok :: "string \<Rightarrow> bool" where
  "pattern_rest_ok p =
     (if p = [] then True
      else (case scan_chunk p of (star, chunk, rest) \<Rightarrow>
              match_chunk False chunk [] \<noteq> None \<and> pattern_rest_ok rest))"
  by pat_completeness auto
termination
  by (relation "measure length") (auto dest: scan_chunk_shorter [OF sym])

declare pattern_rest_ok.simps [simp del]

function path_match :: "string \<Rightarrow> string \<Rightarrow> bool option" where
  "path_match p name =
     (if p = [] then Some (name = [])
      else (case scan_chunk p of (star, chunk, rest) \<Rightarrow>
        if star \<and> chunk = [] then Some (slash \<notin> set name)
        else (case match_chunk False chunk name of
            None \<Rightarrow> None
          | Some first \<Rightarrow>
              (let taken =
                 (case first of
                    Some t \<Rightarrow> if t = [] \<or> rest \<noteq> [] then Some (Some t)
                              else if star then star_skip chunk (rest = []) name else Some None
                  | None \<Rightarrow> if star then star_skip chunk (rest = []) name else Some None)
               in case taken of
                    None \<Rightarrow> None
                  | Some (Some t) \<Rightarrow> path_match rest t
                  | Some None \<Rightarrow> if pattern_rest_ok rest then Some False else None))))"
  by pat_completeness auto
termination
  by (relation "measure (\<lambda>(p, n). length p)") (auto dest: scan_chunk_shorter [OF sym])

declare path_match.simps [simp del]

subsection \<open>Patterns without special characters\<close>

definition literal_pattern :: "string \<Rightarrow> bool" where
  "literal_pattern p \<longleftrightarrow> (\<forall>c \<in> set p. c \<noteq> CHR ''*'' \<and> c \<noteq> CHR ''?'' \<and> c \<noteq> CHR ''['' \<and> c \<noteq> backslash)"

lemma literal_pattern_Cons:
  "literal_pattern (c # p) \<longleftrightarrow>
    c \<noteq> CHR ''*'' \<and> c \<noteq> CHR ''?'' \<and> c \<noteq> CHR ''['' \<and> c \<noteq> backslash \<and> literal_pattern p"
  by (auto simp: literal_pattern_def)

lemma scan_body_literal: "literal_pattern p \<Longrightarrow> scan_body False p = (p, [])"
  by (induction p) (auto simp: literal_pattern_Cons)

lemma match_chunk_failed: "literal_pattern p \<Longrightarrow> match_chunk True p s = Some None"
  by (induction p) (auto simp: literal_pattern_Cons Let_def)

lemma match_chunk_literal:
  "literal_pattern p \<Longrightarrow> match_chunk False p s = Some (if prefix p s then Some (drop (length p) s) else None)"
proof (induction p arbitrary: s)
  case Nil
  then show ?case by simp
next
  case (Cons c p)
  then have l: "literal_pattern p" and c: "c \<noteq> CHR ''?''" "c \<noteq> CHR ''[''" "c \<noteq> backslash"
    by (auto simp: literal_pattern_Cons)
  show ?case
  proof (cases s)
    case Nil
    then show ?thesis using l c by (simp add: match_chunk_failed)
  next
    case (Cons d s')
    then show ?thesis
      using l c Cons.IH [OF l] by (cases "c = d") (simp_all add: match_chunk_failed)
  qed
qed

lemma path_match_literal: "literal_pattern p \<Longrightarrow> path_match p name = Some (p = name)"
proof (cases p)
  case Nil
  then show ?thesis by (subst path_match.simps) auto
next
  case (Cons c q)
  assume l: "literal_pattern p"
  then have c: "c \<noteq> CHR ''*''" using Cons by (simp add: literal_pattern_Cons)
  have sc: "scan_chunk p = (False, p, [])"
    using Cons c scan_body_literal [OF l] by (simp add: scan_chunk_def)
  have p: "p \<noteq> []" using Cons by simp
  have nil: "path_match [] t = Some (t = [])" for t by (subst path_match.simps) simp
  have rest: "pattern_rest_ok []" by (subst pattern_rest_ok.simps) simp
  show ?thesis
    using p by (subst path_match.simps)
      (auto simp: sc match_chunk_literal [OF l] nil rest prefix_def drop_eq_Nil)
qed

lemma star_skip_literal:
  "literal_pattern p \<Longrightarrow> p \<noteq> [] \<Longrightarrow>
   star_skip p True name =
     Some (if \<exists>pre c. name = c # pre @ p \<and> slash \<notin> set (c # pre) then Some [] else None)"
proof (induction name)
  case Nil
  then show ?case by simp
next
  case (Cons d name)
  show ?case
  proof (cases "d = slash")
    case True
    then show ?thesis by auto
  next
    case False
    have split: "(\<exists>pre c. d # name = c # pre @ p \<and> slash \<notin> set (c # pre)) \<longleftrightarrow>
        name = p \<or> (\<exists>pre c. name = c # pre @ p \<and> slash \<notin> set (c # pre))"
    proof
      assume "\<exists>pre c. d # name = c # pre @ p \<and> slash \<notin> set (c # pre)"
      then obtain pre where "name = pre @ p" "slash \<notin> set pre" by auto
      then show "name = p \<or> (\<exists>pre c. name = c # pre @ p \<and> slash \<notin> set (c # pre))"
        by (cases pre) auto
    next
      assume "name = p \<or> (\<exists>pre c. name = c # pre @ p \<and> slash \<notin> set (c # pre))"
      then have "\<exists>pre. name = pre @ p \<and> slash \<notin> set pre"
        by (metis append_Nil append_Cons empty_iff empty_set)
      then show "\<exists>pre c. d # name = c # pre @ p \<and> slash \<notin> set (c # pre)" using False by auto
    qed
    show ?thesis
    proof (cases "prefix p name")
      case True
      then obtain z where z: "name = p @ z" by (auto simp: prefix_def)
      show ?thesis
      proof (cases "z = []")
        case True
        then show ?thesis using z False Cons.prems split by (auto simp: match_chunk_literal)
      next
        case nz: False
        then have "star_skip p True (d # name) = star_skip p True name"
          using False z Cons.prems by (simp add: match_chunk_literal)
        then show ?thesis using Cons split nz z by simp
      qed
    next
      case np: False
      then have "star_skip p True (d # name) = star_skip p True name"
        using False Cons.prems by (simp add: match_chunk_literal)
      then show ?thesis using Cons split np by auto
    qed
  qed
qed

lemma path_match_star_literal:
  assumes l: "literal_pattern p" and p: "p \<noteq> []"
  shows "path_match (CHR ''*'' # p) name = Some (\<exists>pre. name = pre @ p \<and> slash \<notin> set pre)"
proof -
  have hd: "hd p \<noteq> CHR ''*''" using l p by (cases p) (auto simp: literal_pattern_Cons)
  then have "dropWhile (\<lambda>c. c = CHR ''*'') p = p" using p by (cases p) auto
  then have sc: "scan_chunk (CHR ''*'' # p) = (True, p, [])"
    using scan_body_literal [OF l] by (simp add: scan_chunk_def)
  have nil: "path_match [] t = Some (t = [])" for t by (subst path_match.simps) simp
  have rest: "pattern_rest_ok []" by (subst pattern_rest_ok.simps) simp
  have ex: "(\<exists>pre. name = pre @ p \<and> slash \<notin> set pre) \<longleftrightarrow>
      name = p \<or> (\<exists>pre c. name = c # pre @ p \<and> slash \<notin> set (c # pre))"
  proof
    assume "\<exists>pre. name = pre @ p \<and> slash \<notin> set pre"
    then obtain pre where "name = pre @ p" "slash \<notin> set pre" by blast
    then show "name = p \<or> (\<exists>pre c. name = c # pre @ p \<and> slash \<notin> set (c # pre))"
      by (cases pre) auto
  next
    assume "name = p \<or> (\<exists>pre c. name = c # pre @ p \<and> slash \<notin> set (c # pre))"
    then show "\<exists>pre. name = pre @ p \<and> slash \<notin> set pre"
      by (metis append_Nil append_Cons empty_iff empty_set)
  qed
  have pre: "prefix p name \<and> drop (length p) name = [] \<longleftrightarrow> name = p"
    by (auto simp: prefix_def)
  show ?thesis
  proof (cases "name = p")
    case True
    then show ?thesis using p ex by (subst path_match.simps) (simp add: sc match_chunk_literal [OF l] nil)
  next
    case False
    have skip: "(case (if prefix p name then Some (drop (length p) name) else None) of
          Some t \<Rightarrow> if t = [] \<or> [] \<noteq> [] then Some (Some t)
                    else if True then star_skip p ([] = []) name else Some None
        | None \<Rightarrow> if True then star_skip p ([] = []) name else Some None) = star_skip p True name"
      using False pre by auto
    show ?thesis
      using p False ex by (subst path_match.simps)
        (simp add: sc match_chunk_literal [OF l] skip [simplified] star_skip_literal [OF l p] nil rest Let_def)
  qed
qed

end
