(* ===== verification/FsFilter.thy ===== *)
theory FsFilter
  imports GoMatch RootSet
begin

text \<open>
  Package \<open>internal/fsfilter\<close>: which paths a backup leaves out, by exclude patterns or because they
  lie on a pseudo file system. What \<open>statfs\<close> reports is the argument \<open>statfs\<close> (the type of the
  file system at a path, \<open>None\<close> for an error).
\<close>

record filter_options =
  fo_patterns :: "string list"
  fo_skip_pseudo :: bool

datatype skip_reason = ExcludedByPattern string | PseudoFilesystem string

record skip_event =
  se_path :: string
  se_rel :: string
  se_reason :: skip_reason

subsection \<open>Pseudo file systems\<close>

definition pseudo_filesystem_names :: "(int \<times> string) list" where
  "pseudo_filesystem_names =
     [(0x9fa0, ''proc''), (0x62656572, ''sysfs''), (0x1cd1, ''devpts''), (0x27e0eb, ''cgroup''),
      (0x63677270, ''cgroup2''), (0x73636673, ''securityfs''), (0x64626720, ''debugfs''),
      (0x74726163, ''tracefs''), (0x6165676c, ''pstore''), (0xcafe4a11, ''bpf''),
      (0x42494e4d, ''binfmt_misc''), (0x62656570, ''configfs''), (0x65735543, ''fusectl''),
      (0x19800202, ''mqueue''), (0x6e736673, ''nsfs''), (0xf97cff8c, ''selinuxfs''),
      (0x67596969, ''rpc_pipefs''), (0x958458f6, ''hugetlbfs''), (0xde5e81e4, ''efivarfs'')]"

text \<open>The outer \<open>None\<close> is an error of \<open>statfs\<close>, the inner one a file system that is not pseudo.\<close>

definition pseudo_filesystem_name :: "(string \<Rightarrow> int option) \<Rightarrow> string \<Rightarrow> string option option" where
  "pseudo_filesystem_name statfs p = map_option (map_of pseudo_filesystem_names) (statfs p)"

subsection \<open>Matching\<close>

definition clean_pattern :: "string \<Rightarrow> string" where
  "clean_pattern pattern =
     (let p = clean_path (trim_prefix [slash] (trim_space pattern)) in if p = ''.'' then [] else p)"

definition clean_rel :: "string \<Rightarrow> string" where
  "clean_rel rel = clean_path (trim_prefix [slash] (trim_space rel))"

definition split_path :: "string \<Rightarrow> string list" where
  "split_path value = (if value = ''.'' then [''.''] else split_char slash value)"

function match_parts :: "string list \<Rightarrow> string list \<Rightarrow> bool" where
  "match_parts [] rs = (rs = [])"
| "match_parts (p # ps) rs =
     (if p = ''**'' then
        match_parts ps rs \<or> (case rs of [] \<Rightarrow> False | r # rs' \<Rightarrow> match_parts (p # ps) rs')
      else (case rs of [] \<Rightarrow> False
            | r # rs' \<Rightarrow> if path_match p r = Some True then match_parts ps rs' else False))"
  by pat_completeness auto
termination
  by (relation "measure (\<lambda>(ps, rs). length ps + length rs)") auto

declare match_parts.simps(2) [simp del]

definition match_pattern :: "string \<Rightarrow> string \<Rightarrow> bool" where
  "match_pattern pattern0 rel0 =
     (let pattern = clean_pattern pattern0; rel = clean_rel rel0
      in if pattern = [] \<or> rel = [] then False
         else if pattern = rel then True
         else (let ps = split_path pattern; rs = split_path rel
               in if length ps = 1 \<and> (\<exists>r \<in> set rs. path_match (hd ps) r = Some True) then True
                  else match_parts ps rs))"

definition should_skip ::
    "(string \<Rightarrow> int option) \<Rightarrow> string \<Rightarrow> string \<Rightarrow> bool option \<Rightarrow> filter_options \<Rightarrow> skip_event option" where
  "should_skip statfs root current info opts =
     (let rel = clean_rel (case path_rel root current of None \<Rightarrow> current | Some r \<Rightarrow> r)
      in case find (\<lambda>p. p \<noteq> [] \<and> match_pattern p rel) (map trim_space (fo_patterns opts)) of
           Some p \<Rightarrow> Some \<lparr>se_path = current, se_rel = rel, se_reason = ExcludedByPattern p\<rparr>
         | None \<Rightarrow>
             if fo_skip_pseudo opts \<and> info = Some False then
               (case pseudo_filesystem_name statfs current of
                  Some (Some name) \<Rightarrow>
                    Some \<lparr>se_path = current, se_rel = rel, se_reason = PseudoFilesystem name\<rparr>
                | _ \<Rightarrow> None)
             else None)"

definition split_patterns :: "string \<Rightarrow> string list" where
  "split_patterns value =
     (if trim_space value = [] then []
      else filter (\<lambda>f. f \<noteq> []) (map trim_space (fields_func list_separator value)))"

subsection \<open>What a pattern denotes\<close>

text \<open>
  A list of pattern parts matches a list of path components if the components can be cut into one
  block per part such that a \<open>**\<close> part takes any block and every other part takes one component
  that \<open>path.Match\<close> accepts.
\<close>

definition part_takes :: "string \<Rightarrow> string list \<Rightarrow> bool" where
  "part_takes p block \<longleftrightarrow> (if p = ''**'' then True else \<exists>r. block = [r] \<and> path_match p r = Some True)"

definition parts_denote :: "string list \<Rightarrow> string list \<Rightarrow> bool" where
  "parts_denote ps rs \<longleftrightarrow> (\<exists>blocks. list_all2 part_takes ps blocks \<and> rs = concat blocks)"

lemma parts_denote_Nil [simp]: "parts_denote [] rs \<longleftrightarrow> rs = []"
  by (auto simp: parts_denote_def)

lemma parts_denote_Cons:
  "parts_denote (p # ps) rs \<longleftrightarrow> (\<exists>b r. rs = b @ r \<and> part_takes p b \<and> parts_denote ps r)"
proof
  assume "parts_denote (p # ps) rs"
  then show "\<exists>b r. rs = b @ r \<and> part_takes p b \<and> parts_denote ps r"
    unfolding parts_denote_def by (auto simp: list_all2_Cons1) blast
next
  assume "\<exists>b r. rs = b @ r \<and> part_takes p b \<and> parts_denote ps r"
  then obtain b blocks where "rs = concat (b # blocks)" "list_all2 part_takes (p # ps) (b # blocks)"
    unfolding parts_denote_def by auto
  then show "parts_denote (p # ps) rs" unfolding parts_denote_def by blast
qed

lemma parts_denote_star:
  "parts_denote (''**'' # ps) rs \<longleftrightarrow>
    parts_denote ps rs \<or> (\<exists>x xs. rs = x # xs \<and> parts_denote (''**'' # ps) xs)"
proof -
  have e: "parts_denote (''**'' # ps) rs \<longleftrightarrow> (\<exists>b r. rs = b @ r \<and> parts_denote ps r)" for rs
    by (simp add: parts_denote_Cons part_takes_def)
  show ?thesis
  proof (cases rs)
    case Nil
    then show ?thesis by (simp add: e)
  next
    case (Cons x xs)
    have "(\<exists>b r. x # xs = b @ r \<and> parts_denote ps r) \<longleftrightarrow>
        parts_denote ps (x # xs) \<or> (\<exists>b r. xs = b @ r \<and> parts_denote ps r)"
      by (auto simp: Cons_eq_append_conv)
    then show ?thesis using Cons by (simp add: e)
  qed
qed

lemma parts_denote_single:
  assumes "p \<noteq> ''**''"
  shows "parts_denote (p # ps) rs \<longleftrightarrow> (\<exists>r rs'. rs = r # rs' \<and> path_match p r = Some True \<and> parts_denote ps rs')"
proof -
  have t: "part_takes p b \<longleftrightarrow> (\<exists>r. b = [r] \<and> path_match p r = Some True)" for b
    using assms by (simp add: part_takes_def)
  show ?thesis
    unfolding parts_denote_Cons t by (metis append_Cons append_Nil)
qed

lemma match_parts_denote: "match_parts ps rs \<longleftrightarrow> parts_denote ps rs"
proof (induction ps rs rule: match_parts.induct)
  case (1 rs)
  then show ?case by simp
next
  case (2 p ps rs)
  show ?case
  proof (cases "p = ''**''")
    case True
    have m: "match_parts (p # ps) rs \<longleftrightarrow>
        match_parts ps rs \<or> (case rs of [] \<Rightarrow> False | r # rs' \<Rightarrow> match_parts (p # ps) rs')"
      using True by (subst match_parts.simps(2)) simp
    show ?thesis
      unfolding m using 2(1,2) True by (subst True, subst parts_denote_star) (cases rs; simp)
  next
    case False
    have m: "match_parts (p # ps) rs \<longleftrightarrow>
        (case rs of [] \<Rightarrow> False | r # rs' \<Rightarrow> path_match p r = Some True \<and> match_parts ps rs')"
      using False by (subst match_parts.simps(2)) (auto split: list.splits)
    show ?thesis
      unfolding m parts_denote_single [OF False] using 2(3) [OF False] by (auto split: list.splits)
  qed
qed

lemma parts_denote_literal:
  "\<forall>d \<in> set ds. literal_pattern d \<Longrightarrow> parts_denote (ds @ ps) rs \<longleftrightarrow> (\<exists>r. rs = ds @ r \<and> parts_denote ps r)"
proof (induction ds arbitrary: rs)
  case Nil
  then show ?case by simp
next
  case (Cons d ds)
  have l: "literal_pattern d" using Cons.prems by simp
  then have "d \<noteq> ''**''" by (rule contrapos_pn) (simp add: literal_pattern_Cons)
  note d = this l
  have "parts_denote ((d # ds) @ ps) rs \<longleftrightarrow> (\<exists>rs'. rs = d # rs' \<and> parts_denote (ds @ ps) rs')"
    using parts_denote_single [OF d(1)] by (simp add: path_match_literal [OF d(2)])
  also have "\<dots> \<longleftrightarrow> (\<exists>rs' r. rs = d # rs' \<and> rs' = ds @ r \<and> parts_denote ps r)"
  proof -
    have "\<forall>d \<in> set ds. literal_pattern d" using Cons.prems by auto
    then show ?thesis using Cons.IH by blast
  qed
  also have "\<dots> \<longleftrightarrow> (\<exists>r. rs = (d # ds) @ r \<and> parts_denote ps r)" by auto
  finally show ?case .
qed

lemma match_pattern_unfold:
  "match_pattern pat rel \<longleftrightarrow>
    (let p = clean_pattern pat; r = clean_rel rel
     in p \<noteq> [] \<and> r \<noteq> [] \<and>
        (p = r \<or> (length (split_path p) = 1 \<and> (\<exists>x \<in> set (split_path r). path_match (hd (split_path p)) x = Some True)) \<or>
         parts_denote (split_path p) (split_path r)))"
  by (auto simp: match_pattern_def Let_def match_parts_denote)

lemma clean_path_nonempty [simp]: "clean_path p \<noteq> []"
proof (cases p rule: clean_path_cases)
  case (rel c cs)
  then have "c \<noteq> []" using comps_ok_mem [OF rel(2), of c] by auto
  then show ?thesis using rel(3) join_char_hd [of c slash cs] by simp
qed simp_all

lemma clean_rel_nonempty [simp]: "clean_rel r \<noteq> []"
  by (simp add: clean_rel_def)

subsection \<open>Properties\<close>

text \<open>
  An exclude pattern that is a single path component without special characters, such
  as \<open>node_modules\<close>, matches exactly the paths that have this component somewhere.
\<close>

theorem match_pattern_component:
  assumes "clean_pattern pat = c" and "c \<noteq> []" and "slash \<notin> set c" and "literal_pattern c"
  shows "match_pattern pat rel \<longleftrightarrow> c \<in> set (split_path (clean_rel rel))"
proof -
  have sp: "split_path c = [c]" using assms(3) by (simp add: split_path_def split_char_single)
  have den: "parts_denote [c] rs \<longleftrightarrow> rs = [c]" for rs
    using parts_denote_literal [of "[c]" "[]" rs] assms(4) by simp
  have self: "c = clean_rel rel \<Longrightarrow> split_path (clean_rel rel) = [c]" using sp by metis
  have "match_pattern pat rel \<longleftrightarrow>
      c = clean_rel rel \<or> c \<in> set (split_path (clean_rel rel)) \<or> split_path (clean_rel rel) = [c]"
    unfolding match_pattern_unfold Let_def assms(1) sp den
    using assms(2) by (auto simp: path_match_literal [OF assms(4)])
  then show ?thesis using self by force
qed

lemma match_pattern_component_witness:
  "match_pattern ''/node_modules/'' ''web/node_modules/x.js'' \<longleftrightarrow>
    ''node_modules'' \<in> set (split_path (clean_rel ''web/node_modules/x.js''))"
proof -
  have "clean_pattern ''/node_modules/'' = ''node_modules''" by code_simp
  from match_pattern_component [OF this] show ?thesis
    by (simp add: slash_def literal_pattern_def backslash_def)
qed

text \<open>
  A pattern \<open>d/**\<close> whose directory \<open>d\<close> has no special characters matches exactly the
  directory and what lies below it.
\<close>

theorem match_pattern_subtree:
  assumes "clean_pattern pat = join_char slash (ds @ [''**''])" and "ds \<noteq> []"
    and "\<forall>d \<in> set ds. slash \<notin> set d \<and> literal_pattern d"
  shows "match_pattern pat rel \<longleftrightarrow> prefix ds (split_path (clean_rel rel))"
proof -
  let ?p = "join_char slash (ds @ [''**''])"
  have sj: "split_char slash ?p = ds @ [''**'']"
    using assms(3) by (intro split_join) (auto simp: slash_def)
  then have "?p \<noteq> ''.''" using assms(2) by (auto simp: slash_def)
  then have sp: "split_path ?p = ds @ [''**'']" by (simp add: split_path_def sj)
  have "?p \<noteq> []" using sj assms(2) by auto
  moreover have "length (split_path ?p) \<noteq> 1" using sp assms(2) by simp
  moreover have "parts_denote (ds @ [''**'']) rs \<longleftrightarrow> prefix ds rs" for rs
  proof -
    have "parts_denote [''**''] r" for r by (simp add: parts_denote_Cons part_takes_def)
    then show ?thesis using parts_denote_literal [of ds "[''**'']" rs] assms(3) by (auto simp: prefix_def)
  qed
  moreover have "?p = clean_rel rel \<Longrightarrow> prefix ds (split_path (clean_rel rel))"
    using sp by (metis prefixI)
  ultimately show ?thesis
    using sp assms(1) by (auto simp: match_pattern_unfold Let_def)
qed

lemma match_pattern_subtree_witness:
  "match_pattern ''var/cache/**'' ''var/cache/apt/x'' \<longleftrightarrow>
    prefix [''var'', ''cache''] (split_path (clean_rel ''var/cache/apt/x''))"
proof -
  have "clean_pattern ''var/cache/**'' = join_char slash ([''var'', ''cache''] @ [''**''])" by code_simp
  from match_pattern_subtree [OF this] show ?thesis
    by (simp add: slash_def literal_pattern_def backslash_def)
qed

lemma clean_rel_dot: "clean_rel ''.'' = ''.''"
  by code_simp

lemma path_rel_self: "path_rel p p = Some ''.''"
  by (simp add: path_rel_def Let_def)

text \<open>
  A one-component pattern that accepts a lone dot, such as \<open>.*\<close> for hidden files,
  makes the root of the backup itself skipped, and with it the whole tree.
\<close>

theorem dot_pattern_skips_root:
  assumes "pat \<in> set (fo_patterns opts)" and "trim_space pat \<noteq> []"
    and "clean_pattern (trim_space pat) = p" and "p \<noteq> []" and "slash \<notin> set p"
    and "path_match p ''.'' = Some True"
  shows "should_skip statfs root root info opts \<noteq> None"
proof -
  have sp: "split_path p = [p]" using assms(5) by (simp add: split_path_def split_char_single)
  have dot: "split_path ''.'' = [''.'']" by (simp add: split_path_def)
  have m: "match_pattern (trim_space pat) ''.''"
    unfolding match_pattern_unfold Let_def assms(3) clean_rel_dot dot sp using assms(4,6) by simp
  have "find (\<lambda>p. p \<noteq> [] \<and> match_pattern p ''.'') (map trim_space (fo_patterns opts)) \<noteq> None"
  proof
    assume "find (\<lambda>p. p \<noteq> [] \<and> match_pattern p ''.'') (map trim_space (fo_patterns opts)) = None"
    from find_None_all [OF this] show False using assms(1,2) m by auto
  qed
  then show ?thesis by (auto simp: should_skip_def path_rel_self clean_rel_dot Let_def split: option.splits)
qed

lemma dot_pattern_skips_root_witness:
  "should_skip (\<lambda>p. None) ''/home'' ''/home'' (Some False)
     \<lparr>fo_patterns = [''.*''], fo_skip_pseudo = True\<rparr> \<noteq> None"
proof -
  have a: "trim_space ''.*'' \<noteq> []" by code_simp
  have b: "clean_pattern (trim_space ''.*'') = ''.*''" by code_simp
  have c: "path_match ''.*'' ''.'' = Some True" by code_simp
  show ?thesis by (rule dot_pattern_skips_root [OF _ a b _ _ c]) (simp_all add: slash_def)
qed

end
