(* ===== verification/GoBytes.thy ===== *)
theory GoBytes
  imports GoStrings Prelude
begin

text \<open>
  Byte strings and the encodings of \<open>encoding/binary\<close> and \<open>encoding/hex\<close>: fixed-width integers
  in big and little endian, unsigned varints, and lower-case hexadecimal. A byte is an 8-bit word.
\<close>

type_synonym byte = "8 word"
type_synonym bytes = "8 word list"
type_synonym u32 = "32 word"
type_synonym u64 = "64 word"

named_theorems codec_simps \<open>decoding what was encoded\<close>

subsection \<open>Strings as bytes\<close>

definition bytes_of :: "string \<Rightarrow> bytes" where
  "bytes_of s = map (\<lambda>c. of_nat (char_code c)) s"

definition string_of :: "bytes \<Rightarrow> string" where
  "string_of bs = map (\<lambda>b. char_of (unat b)) bs"

lemma char_code_less: "char_code c < 256"
  unfolding char_code_def by (metis char_of_char mod_less_divisor of_char_of zero_less_numeral)

lemma unat_byte_less: "unat (b :: byte) < 256"
  by (rule order_less_le_trans [OF unsigned_less]) simp

lemma string_of_bytes_of [simp]: "string_of (bytes_of s) = s"
proof -
  have "char_of (unat (of_nat (char_code c) :: byte)) = c" for c
    using char_code_less [of c] by (simp add: unat_of_nat char_code_def)
  then show ?thesis by (simp add: string_of_def bytes_of_def map_idI)
qed

lemma bytes_of_string_of [simp]: "bytes_of (string_of bs) = bs"
proof -
  have "(of_nat (char_code (char_of (unat b))) :: byte) = b" for b :: byte
    using unat_byte_less [of b] by simp
  then show ?thesis by (simp add: string_of_def bytes_of_def map_idI)
qed

lemma length_bytes_of [simp]: "length (bytes_of s) = length s"
  by (simp add: bytes_of_def)

lemma length_string_of [simp]: "length (string_of bs) = length bs"
  by (simp add: string_of_def)

lemma bytes_of_inj [simp]: "bytes_of s = bytes_of t \<longleftrightarrow> s = t"
  by (metis string_of_bytes_of)

lemma string_of_inj [simp]: "string_of s = string_of t \<longleftrightarrow> s = t"
  by (metis bytes_of_string_of)

subsection \<open>Fixed-width integers\<close>

fun be_encode :: "nat \<Rightarrow> nat \<Rightarrow> bytes" where
  "be_encode 0 n = []"
| "be_encode (Suc k) n = of_nat (n div 256 ^ k) # be_encode k n"

text \<open>Evaluation peels off the digits from the low end.\<close>

fun le_digits :: "nat \<Rightarrow> nat \<Rightarrow> bytes" where
  "le_digits 0 n = []"
| "le_digits (Suc k) n = of_nat (n mod 256) # le_digits k (n div 256)"

lemma be_encode_snoc: "be_encode (Suc k) n = be_encode k (n div 256) @ [of_nat (n mod 256)]"
proof (induction k)
  case 0
  have "(of_nat (n mod 256) :: byte) = of_nat n" by (simp add: word_unat_eq_iff unat_of_nat)
  then show ?case by simp
next
  case (Suc k)
  have "n div 256 ^ Suc k = n div 256 div 256 ^ k" by (simp add: div_mult2_eq)
  then show ?case using Suc by (simp del: power_Suc)
qed

lemma be_encode_code [code]: "be_encode k n = rev (le_digits k n)"
proof (induction k arbitrary: n)
  case 0
  then show ?case by simp
next
  case (Suc k)
  then show ?case by (simp add: be_encode_snoc del: be_encode.simps)
qed

definition be_step :: "nat \<Rightarrow> byte \<Rightarrow> nat" where
  "be_step a b = a * 256 + unat b"

definition be_decode :: "bytes \<Rightarrow> nat" where
  "be_decode bs = foldl be_step 0 bs"

definition le_encode :: "nat \<Rightarrow> nat \<Rightarrow> bytes" where
  "le_encode k n = rev (be_encode k n)"

definition le_decode :: "bytes \<Rightarrow> nat" where
  "le_decode bs = be_decode (rev bs)"

lemma length_be_encode [simp]: "length (be_encode k n) = k"
  by (induction k) auto

lemma length_le_encode [simp]: "length (le_encode k n) = k"
  by (simp add: le_encode_def)

lemma be_step_0: "be_step x b = x * 256 + be_step 0 b"
  by (simp add: be_step_def)

lemma foldl_be: "foldl be_step x bs = x * 256 ^ length bs + foldl be_step 0 bs"
proof (induction bs arbitrary: x)
  case Nil
  then show ?case by simp
next
  case (Cons b bs)
  have "foldl be_step x (b # bs) = be_step x b * 256 ^ length bs + foldl be_step 0 bs"
    by (simp add: Cons [of "be_step x b"])
  also have "\<dots> = x * 256 ^ length (b # bs) + (be_step 0 b * 256 ^ length bs + foldl be_step 0 bs)"
    by (simp add: be_step_0 [of x b] add_mult_distrib)
  also have "be_step 0 b * 256 ^ length bs + foldl be_step 0 bs = foldl be_step 0 (b # bs)"
    by (simp add: Cons [of "be_step 0 b"])
  finally show ?case .
qed

lemma be_decode_Nil [simp]: "be_decode [] = 0"
  by (simp add: be_decode_def)

lemma be_decode_Cons: "be_decode (b # bs) = unat b * 256 ^ length bs + be_decode bs"
  unfolding be_decode_def by (simp add: foldl_be [of "be_step 0 b"]) (simp add: be_step_def)

lemma be_decode_less: "be_decode bs < 256 ^ length bs"
proof (induction bs)
  case Nil
  then show ?case by simp
next
  case (Cons b bs)
  have "unat b * 256 ^ length bs + be_decode bs < (unat b + 1) * 256 ^ length bs"
    using Cons by simp
  also have "\<dots> \<le> 256 * 256 ^ length bs"
    using unat_byte_less [of b] by (intro mult_right_mono) auto
  finally show ?case by (simp add: be_decode_Cons)
qed

lemma be_decode_encode [codec_simps]: "be_decode (be_encode k n) = n mod 256 ^ k"
proof (induction k)
  case 0
  then show ?case by simp
next
  case (Suc k)
  have "(256 :: nat) ^ Suc k = 256 ^ k * 256" by simp
  then have "n mod 256 ^ Suc k = 256 ^ k * (n div 256 ^ k mod 256) + n mod 256 ^ k"
    by (simp only: mod_mult2_eq)
  with Suc show ?case by (simp add: be_decode_Cons unat_of_nat mult.commute del: power_Suc)
qed

lemma le_decode_encode [codec_simps]: "le_decode (le_encode k n) = n mod 256 ^ k"
  by (simp add: le_decode_def le_encode_def be_decode_encode)

definition put_be32 :: "u32 \<Rightarrow> bytes" where "put_be32 w = be_encode 4 (unat w)"
definition put_be64 :: "u64 \<Rightarrow> bytes" where "put_be64 w = be_encode 8 (unat w)"
definition get_be32 :: "bytes \<Rightarrow> u32" where "get_be32 bs = of_nat (be_decode bs)"
definition get_be64 :: "bytes \<Rightarrow> u64" where "get_be64 bs = of_nat (be_decode bs)"

lemma length_put_be [simp]: "length (put_be32 v) = 4" "length (put_be64 w) = 8"
  by (simp_all add: put_be32_def put_be64_def)

lemma unat_u32_less: "unat (w :: u32) < 2 ^ 32"
  by (rule order_less_le_trans [OF unsigned_less]) simp

lemma unat_u64_less: "unat (w :: u64) < 2 ^ 64"
  by (rule order_less_le_trans [OF unsigned_less]) simp

lemma get_put_be32 [codec_simps, simp]: "get_be32 (put_be32 w) = w"
  using unat_u32_less [of w] by (simp add: get_be32_def put_be32_def be_decode_encode)

lemma get_put_be64 [codec_simps, simp]: "get_be64 (put_be64 w) = w"
  using unat_u64_less [of w] by (simp add: get_be64_def put_be64_def be_decode_encode)

text \<open>
  A signed 64-bit field is kept as an \<open>int\<close>; the conversions \<open>uint64(x)\<close> and \<open>int64(w)\<close> of Go are
  \<open>u64_of\<close> and \<open>sint\<close>.
\<close>

definition u64_of :: "int \<Rightarrow> u64" where
  "u64_of x = word_of_int x"

lemma sint_u64_of [simp, codec_simps]: "int64 x \<Longrightarrow> sint (u64_of x) = x"
  unfolding u64_of_def int64_def by (simp add: sint_sbintrunc' signed_take_bit_int_eq_self)

lemma int64_sint [simp]: "int64 (sint (w :: u64))"
  using sint_lt [of w] sint_ge [of w] by (simp add: int64_def)

lemma u64_of_sint [simp]: "u64_of (sint w) = w"
  by (simp add: u64_of_def)

text \<open>Wrapping a signed 64-bit result.\<close>

definition wrap64 :: "int \<Rightarrow> int" where
  "wrap64 x = sint (u64_of x)"

lemma wrap64_id [simp]: "int64 x \<Longrightarrow> wrap64 x = x"
  by (simp add: wrap64_def)

lemma int64_wrap64 [simp]: "int64 (wrap64 x)"
  by (simp add: wrap64_def)

lemma unat_u64_of: "0 \<le> x \<Longrightarrow> int64 x \<Longrightarrow> unat (u64_of x) = nat x"
  by (simp add: u64_of_def int64_def unsigned_of_int take_bit_int_eq_self)

lemma sint_small: "unat (w :: u64) < 2 ^ 63 \<Longrightarrow> sint w = int (unat w)"
proof -
  assume w: "unat w < 2 ^ 63"
  have "w = u64_of (int (unat w))" by (simp add: u64_of_def)
  moreover have "int (unat w) < int (2 ^ 63)" using w by (simp only: of_nat_less_iff)
  then have "int64 (int (unat w))" by (simp add: int64_def del: of_nat_unat)
  ultimately show ?thesis by (metis sint_u64_of)
qed

subsection \<open>Unsigned varints\<close>

fun put_uvarint :: "nat \<Rightarrow> bytes" where
  "put_uvarint n = (if n < 128 then [of_nat n] else of_nat (n mod 128 + 128) # put_uvarint (n div 128))"

declare put_uvarint.simps [simp del]

text \<open>
  \<open>binary.Uvarint\<close>: at most ten bytes, the tenth at most 1; the value and the bytes read, or
  \<open>None\<close> where Go returns a count that is not positive (buffer too small, or overflow).
\<close>

fun get_uvarint_from :: "nat \<Rightarrow> nat \<Rightarrow> bytes \<Rightarrow> (nat \<times> nat) option" where
  "get_uvarint_from i x [] = None"
| "get_uvarint_from i x (b # bs) =
     (if i = 10 then None
      else if unat b < 128 then
        (if i = 9 \<and> 1 < unat b then None else Some (x + unat b * 2 ^ (7 * i), Suc i))
      else get_uvarint_from (Suc i) (x + (unat b - 128) * 2 ^ (7 * i)) bs)"

definition get_uvarint :: "bytes \<Rightarrow> (nat \<times> nat) option" where
  "get_uvarint bs = get_uvarint_from 0 0 bs"

lemma put_uvarint_nonempty [simp]: "put_uvarint n \<noteq> []"
  by (subst put_uvarint.simps) simp

lemma uvarint_digit_sum:
  "x + n mod 128 * 2 ^ (7 * i) + n div 128 * 2 ^ (7 * Suc i) = x + n * (2 :: nat) ^ (7 * i)"
proof -
  have p: "(2 :: nat) ^ (7 * Suc i) = 128 * 2 ^ (7 * i)" by (simp add: power_add)
  have "n mod 128 * 2 ^ (7 * i) + n div 128 * (128 * 2 ^ (7 * i)) =
      (n mod 128 + n div 128 * 128) * (2 :: nat) ^ (7 * i)"
    by (simp only: add_mult_distrib mult.assoc)
  also have "n mod 128 + n div 128 * 128 = n" by simp
  finally show ?thesis unfolding p by simp
qed

lemma uvarint_bound_step:
  assumes "n < (2 :: nat) ^ (64 - 7 * i)" "i < 9"
  shows "n div 128 < 2 ^ (64 - 7 * Suc i)"
proof -
  have "64 - 7 * i = 7 + (64 - 7 * Suc i)" using assms(2) by simp
  then have "(2 :: nat) ^ (64 - 7 * i) = 2 ^ 7 * 2 ^ (64 - 7 * Suc i)"
    by (simp only: power_add)
  then have "(2 :: nat) ^ (64 - 7 * i) = 128 * 2 ^ (64 - 7 * Suc i)"
    by simp
  then show ?thesis using assms(1) by (simp only: less_mult_imp_div_less mult.commute)
qed

lemma put_uvarint_small: "n < 128 \<Longrightarrow> put_uvarint n = [of_nat n]"
  by (subst put_uvarint.simps) simp

lemma put_uvarint_large:
  "\<not> n < 128 \<Longrightarrow> put_uvarint n = of_nat (n mod 128 + 128) # put_uvarint (n div 128)"
  by (subst put_uvarint.simps) (simp del: of_nat_add)

lemma get_uvarint_from_large:
  "i < 9 \<Longrightarrow> get_uvarint_from i x (of_nat (m mod 128 + 128) # bs) =
    get_uvarint_from (Suc i) (x + m mod 128 * 2 ^ (7 * i)) bs"
proof -
  assume i: "i < 9"
  have b: "unat (of_nat (m mod 128 + 128) :: byte) = m mod 128 + 128"
    by (subst unat_of_nat) simp
  show ?thesis using i by (simp del: of_nat_add add: b)
qed

lemma get_put_uvarint_from:
  assumes "n < 2 ^ (64 - 7 * i)" "i \<le> 9"
  shows "get_uvarint_from i x (put_uvarint n @ rest) =
    Some (x + n * 2 ^ (7 * i), i + length (put_uvarint n))"
  using assms
proof (induction n arbitrary: i x rule: put_uvarint.induct)
  case (1 n)
  show ?case
  proof (cases "n < 128")
    case True
    have n: "i = 9 \<Longrightarrow> n \<le> 1" using "1.prems" by simp
    have b: "unat (of_nat n :: byte) = n" using True by (subst unat_of_nat) simp
    show ?thesis using True n "1.prems"(2) b by (auto simp: put_uvarint_small)
  next
    case False
    have i: "i < 9"
    proof (rule ccontr)
      assume "\<not> i < 9"
      with "1.prems"(2) have "i = 9" by simp
      with "1.prems"(1) False show False by simp
    qed
    have IH: "get_uvarint_from (Suc i) (x + n mod 128 * 2 ^ (7 * i)) (put_uvarint (n div 128) @ rest) =
        Some (x + n mod 128 * 2 ^ (7 * i) + n div 128 * 2 ^ (7 * Suc i),
          Suc i + length (put_uvarint (n div 128)))"
      using "1.IH" [OF False uvarint_bound_step [OF "1.prems"(1) i]] i by simp
    have "get_uvarint_from i x (put_uvarint n @ rest) =
        get_uvarint_from (Suc i) (x + n mod 128 * 2 ^ (7 * i)) (put_uvarint (n div 128) @ rest)"
      by (simp only: put_uvarint_large [OF False] append_Cons get_uvarint_from_large [OF i])
    then show ?thesis
      by (simp only: IH uvarint_digit_sum put_uvarint_large [OF False] list.size)
         (simp only: add_Suc_right add_Suc add_0_right)
  qed
qed

lemma get_put_uvarint [codec_simps]:
  "n < 2 ^ 64 \<Longrightarrow> get_uvarint (put_uvarint n @ rest) = Some (n, length (put_uvarint n))"
  using get_put_uvarint_from [of n 0 0 rest] by (simp add: get_uvarint_def)

lemma get_uvarint_from_read: "get_uvarint_from i x bs = Some (v, k) \<Longrightarrow> i < k \<and> k \<le> i + length bs"
  by (induction i x bs rule: get_uvarint_from.induct) (fastforce split: if_splits)+

lemma get_uvarint_read: "get_uvarint bs = Some (v, k) \<Longrightarrow> 0 < k \<and> k \<le> length bs"
  using get_uvarint_from_read [of 0 0 bs v k] by (simp add: get_uvarint_def)

subsection \<open>Hexadecimal\<close>

definition hex_char :: "nat \<Rightarrow> char" where
  "hex_char n = (if n < 10 then char_of (48 + n) else char_of (87 + n))"

definition hex_val :: "char \<Rightarrow> nat option" where
  "hex_val c =
     (let n = char_code c
      in if 48 \<le> n \<and> n \<le> 57 then Some (n - 48)
         else if 97 \<le> n \<and> n \<le> 102 then Some (n - 87)
         else if 65 \<le> n \<and> n \<le> 70 then Some (n - 55) else None)"

fun hex_encode :: "bytes \<Rightarrow> string" where
  "hex_encode [] = []"
| "hex_encode (b # bs) = hex_char (unat b div 16) # hex_char (unat b mod 16) # hex_encode bs"

fun hex_decode :: "string \<Rightarrow> bytes option" where
  "hex_decode [] = Some []"
| "hex_decode [c] = None"
| "hex_decode (c # d # s) =
     (case (hex_val c, hex_val d, hex_decode s) of
        (Some x, Some y, Some bs) \<Rightarrow> Some (of_nat (16 * x + y) # bs)
      | _ \<Rightarrow> None)"

lemma length_hex_encode [simp]: "length (hex_encode bs) = 2 * length bs"
  by (induction bs) auto

lemma hex_val_char: "n < 16 \<Longrightarrow> hex_val (hex_char n) = Some n"
  by (auto simp: hex_val_def hex_char_def)

lemma hex_decode_encode [codec_simps, simp]: "hex_decode (hex_encode bs) = Some bs"
proof (induction bs)
  case Nil
  then show ?case by simp
next
  case (Cons b bs)
  have "unat b div 16 < 16" using unat_byte_less [of b] by (simp add: div_less_iff_less_mult)
  moreover have "16 * (unat b div 16) + unat b mod 16 = unat b" by simp
  ultimately show ?case using Cons by (simp add: hex_val_char)
qed

lemma hex_encode_inj [simp]: "hex_encode a = hex_encode b \<longleftrightarrow> a = b"
  by (metis hex_decode_encode option.inject)

lemma hex_decode_length: "hex_decode s = Some bs \<Longrightarrow> length s = 2 * length bs"
  by (induction s arbitrary: bs rule: hex_decode.induct) (auto split: option.splits)

lemma graphic_hex_char: "n < 16 \<Longrightarrow> graphic (hex_char n)"
  by (auto simp: graphic_def hex_char_def)

lemma graphic_hex_encode: "c \<in> set (hex_encode bs) \<Longrightarrow> graphic c"
proof (induction bs)
  case Nil
  then show ?case by simp
next
  case (Cons b bs)
  have "unat b div 16 < 16" using unat_byte_less [of b] by (simp add: div_less_iff_less_mult)
  then show ?case using Cons by (auto simp: graphic_hex_char)
qed

lemma trim_space_hex [simp]: "trim_space (hex_encode bs) = hex_encode bs"
  by (rule trim_space_graphic) (auto dest: graphic_hex_encode)

text \<open>Lower case, on ASCII: what \<open>strings.ToLower\<close> does to a string without other letters.\<close>

definition lower_char :: "char \<Rightarrow> char" where
  "lower_char c = (if 65 \<le> char_code c \<and> char_code c \<le> 90 then char_of (char_code c + 32) else c)"

definition to_lower :: "string \<Rightarrow> string" where
  "to_lower s = map lower_char s"

lemma hex_char_not_upper: "n < 16 \<Longrightarrow> lower_char (hex_char n) = hex_char n"
  by (auto simp: lower_char_def hex_char_def)

lemma to_lower_hex [simp]: "to_lower (hex_encode bs) = hex_encode bs"
proof (induction bs)
  case Nil
  then show ?case by (simp add: to_lower_def)
next
  case (Cons b bs)
  have "unat b div 16 < 16" using unat_byte_less [of b] by (simp add: div_less_iff_less_mult)
  then show ?case using Cons by (simp add: to_lower_def hex_char_not_upper)
qed

lemma hex_val_lower: "hex_val c = Some n \<Longrightarrow> lower_char c = c \<Longrightarrow> hex_char n = c"
proof -
  assume v: "hex_val c = Some n" and l: "lower_char c = c"
  have c: "char_of (char_code c) = c" by (simp add: char_code_def)
  have "\<not> (65 \<le> char_code c \<and> char_code c \<le> 70)"
  proof
    assume u: "65 \<le> char_code c \<and> char_code c \<le> 70"
    then have "lower_char c = char_of (char_code c + 32)" by (simp add: lower_char_def)
    with l have "char_code c = char_code (char_of (char_code c + 32))" by simp
    with u show False by simp
  qed
  with v c show "hex_char n = c"
    by (auto simp: hex_val_def hex_char_def Let_def split: if_splits)
qed

text \<open>A lower-case hexadecimal string is the encoding of what it decodes to.\<close>

lemma hex_encode_decode:
  "hex_decode s = Some bs \<Longrightarrow> to_lower s = s \<Longrightarrow> hex_encode bs = s"
proof (induction s arbitrary: bs rule: hex_decode.induct)
  case (3 c d s)
  then obtain x y r where v: "hex_val c = Some x" "hex_val d = Some y" "hex_decode s = Some r"
    and bs: "bs = of_nat (16 * x + y) # r"
    by (auto split: option.splits)
  have "x < 16" "y < 16" using v by (auto simp: hex_val_def Let_def split: if_splits)
  then have b: "unat (of_nat (16 * x + y) :: byte) = 16 * x + y" by (subst unat_of_nat) simp
  have "lower_char c = c" "lower_char d = d" "to_lower s = s"
    using "3.prems"(2) by (auto simp: to_lower_def)
  then show ?case
    using v bs b \<open>y < 16\<close> "3.IH" [OF v(3)] hex_val_lower
    by (simp del: of_nat_add of_nat_mult)
qed (auto simp: to_lower_def)

end
