(* ===== verification/Chunker.thy ===== *)
theory Chunker
  imports GoBytes Prelude
begin

text \<open>
  \<open>internal/repository/chunker.go\<close>: content-defined chunking with a gear fingerprint. The reader is
  the list of what its successive calls of \<open>Read\<close> return; a reader whose list has run out returns
  \<open>io.EOF\<close>. The callback \<open>emit\<close> works on a state of its own and may fail.
\<close>

unbundle bit_operations_syntax

subsection \<open>The code\<close>

record chunker =
  ck_min :: int
  ck_avg :: int
  ck_max :: int
  ck_mask :: u64
  ck_table :: "u64 list"

definition default_chunk_avg_size :: int where
  "default_chunk_avg_size = 1048576"

text \<open>The loop of \<open>nextPowerOfTwo\<close>; \<open>None\<close> is a loop that never ends.\<close>

partial_function (option) next_power_loop :: "int \<Rightarrow> int \<Rightarrow> int option" where
  "next_power_loop want out = (if out < want then next_power_loop want (wrap64 (out * 2)) else Some out)"

definition next_power_of_two :: "int \<Rightarrow> int option" where
  "next_power_of_two want = next_power_loop want 1"

definition gear_step :: "u64 \<Rightarrow> u64" where
  "gear_step x0 =
     (let x1 = x0 XOR drop_bit 12 x0; x2 = x1 XOR push_bit 25 x1 in x2 XOR drop_bit 27 x2)"

fun gear_from :: "nat \<Rightarrow> u64 \<Rightarrow> u64 list" where
  "gear_from 0 x = []"
| "gear_from (Suc n) x = (let y = gear_step x in y * 0x2545f4914f6cdd1d # gear_from n y)"

definition gear_table :: "u64 list" where
  "gear_table = gear_from 256 0x9e3779b97f4a7c15"

definition new_chunker :: "int \<Rightarrow> chunker option" where
  "new_chunker avg0 =
     (let avg = (if avg0 \<le> 0 then default_chunk_avg_size else avg0);
          min0 = avg div 4;
          minv = (if min0 < 64 * 1024 then min avg (64 * 1024) else min0);
          max0 = wrap64 (avg * 4);
          maxv = (if max0 < avg then avg else max0)
      in case next_power_of_two avg of
           None \<Rightarrow> None
         | Some p \<Rightarrow>
             let mask = u64_of (p - 1)
             in Some \<lparr>ck_min = minv, ck_avg = avg, ck_max = maxv,
                      ck_mask = (if mask = 0 then u64_of (avg - 1) else mask),
                      ck_table = gear_table\<rparr>)"

datatype read_outcome = ReadMore | ReadEOF | ReadFails

type_synonym reader = "(bytes \<times> read_outcome) list"

datatype 'e split_error = EmitError 'e | ReadError

definition gear_hash :: "chunker \<Rightarrow> u64 \<Rightarrow> byte \<Rightarrow> u64" where
  "gear_hash c fp b = push_bit 1 fp + ck_table c ! unat b"

definition is_boundary :: "chunker \<Rightarrow> nat \<Rightarrow> u64 \<Rightarrow> bool" where
  "is_boundary c n fp \<longleftrightarrow>
     ck_max c \<le> int n \<or> (ck_min c \<le> int n \<and> fp AND ck_mask c = 0)"

fun split_buffer ::
    "chunker \<Rightarrow> (bytes \<Rightarrow> 's \<Rightarrow> ('e + unit) \<times> 's) \<Rightarrow> bytes \<Rightarrow> u64 \<Rightarrow> bytes \<Rightarrow> 's \<Rightarrow>
     ('e + bytes \<times> u64) \<times> 's" where
  "split_buffer c emit chunk fp [] s = (Inr (chunk, fp), s)"
| "split_buffer c emit chunk fp (b # bs) s =
     (let chunk' = chunk @ [b]; fp' = gear_hash c fp b
      in if is_boundary c (length chunk') fp'
         then sbind (emit chunk' s) (\<lambda>_ s'. split_buffer c emit [] 0 bs s')
         else split_buffer c emit chunk' fp' bs s)"

definition split_finish ::
    "(bytes \<Rightarrow> 's \<Rightarrow> ('e + unit) \<times> 's) \<Rightarrow> bytes \<Rightarrow> 's \<Rightarrow> ('e split_error + unit) \<times> 's" where
  "split_finish emit chunk s =
     (if chunk = [] then (Inr (), s)
      else (case emit chunk s of (Inl e, s') \<Rightarrow> (Inl (EmitError e), s') | (Inr u, s') \<Rightarrow> (Inr (), s')))"

fun split_loop ::
    "chunker \<Rightarrow> (bytes \<Rightarrow> 's \<Rightarrow> ('e + unit) \<times> 's) \<Rightarrow> bytes \<Rightarrow> u64 \<Rightarrow> reader \<Rightarrow> 's \<Rightarrow>
     ('e split_error + unit) \<times> 's" where
  "split_loop c emit chunk fp [] s = split_finish emit chunk s"
| "split_loop c emit chunk fp ((bs, outcome) # rs) s =
     (case split_buffer c emit chunk fp bs s of
        (Inl e, s') \<Rightarrow> (Inl (EmitError e), s')
      | (Inr (chunk', fp'), s') \<Rightarrow>
          (case outcome of
             ReadEOF \<Rightarrow> split_finish emit chunk' s'
           | ReadFails \<Rightarrow> (Inl ReadError, s')
           | ReadMore \<Rightarrow> split_loop c emit chunk' fp' rs s'))"

definition chunker_split ::
    "chunker \<Rightarrow> (bytes \<Rightarrow> 's \<Rightarrow> ('e + unit) \<times> 's) \<Rightarrow> reader \<Rightarrow> 's \<Rightarrow> ('e split_error + unit) \<times> 's" where
  "chunker_split c emit rs s = split_loop c emit [] 0 rs s"

subsection \<open>The reference: the chunks of a byte string\<close>

fun chunks_from :: "chunker \<Rightarrow> bytes \<Rightarrow> u64 \<Rightarrow> bytes \<Rightarrow> bytes list" where
  "chunks_from c buf fp [] = (if buf = [] then [] else [buf])"
| "chunks_from c buf fp (b # bs) =
     (let buf' = buf @ [b]; fp' = gear_hash c fp b
      in if is_boundary c (length buf') fp' then buf' # chunks_from c [] 0 bs
         else chunks_from c buf' fp' bs)"

definition chunk_list :: "chunker \<Rightarrow> bytes \<Rightarrow> bytes list" where
  "chunk_list c data = chunks_from c [] 0 data"

fun emit_all :: "(bytes \<Rightarrow> 's \<Rightarrow> ('e + unit) \<times> 's) \<Rightarrow> bytes list \<Rightarrow> 's \<Rightarrow> ('e + unit) \<times> 's" where
  "emit_all emit [] s = (Inr (), s)"
| "emit_all emit (x # xs) s = sbind (emit x s) (\<lambda>_ s'. emit_all emit xs s')"

definition lift_emit :: "('e + unit) \<times> 's \<Rightarrow> ('e split_error + unit) \<times> 's" where
  "lift_emit r = (case r of (Inl e, s) \<Rightarrow> (Inl (EmitError e), s) | (Inr u, s) \<Rightarrow> (Inr (), s))"

text \<open>What the reader delivers up to \<open>io.EOF\<close>; \<open>None\<close> if it fails first.\<close>

fun reader_data :: "reader \<Rightarrow> bytes option" where
  "reader_data [] = Some []"
| "reader_data ((bs, ReadEOF) # rs) = Some bs"
| "reader_data ((bs, ReadFails) # rs) = None"
| "reader_data ((bs, ReadMore) # rs) = map_option (\<lambda>d. bs @ d) (reader_data rs)"

lemma lift_emit_simps [simp]:
  "lift_emit (Inr u, s) = (Inr (), s)" "lift_emit (Inl e, s) = (Inl (EmitError e), s)"
  by (simp_all add: lift_emit_def)

lemma split_finish_chunks:
  "split_finish emit chunk s = lift_emit (emit_all emit (chunks_from c chunk fp []) s)"
  by (cases "emit chunk s"; cases "fst (emit chunk s)") (auto simp: split_finish_def)

lemma split_buffer_chunks:
  "lift_emit (emit_all emit (chunks_from c chunk fp (bs @ rest)) s) =
    (case split_buffer c emit chunk fp bs s of
       (Inl e, s') \<Rightarrow> (Inl (EmitError e), s')
     | (Inr (chunk', fp'), s') \<Rightarrow> lift_emit (emit_all emit (chunks_from c chunk' fp' rest) s'))"
proof (induction bs arbitrary: chunk fp s)
  case Nil
  then show ?case by simp
next
  case (Cons b bs)
  show ?case
  proof (cases "is_boundary c (length (chunk @ [b])) (gear_hash c fp b)")
    case True
    obtain r s' where e: "emit (chunk @ [b]) s = (r, s')" by fastforce
    show ?thesis using True e Cons by (cases r) (simp_all add: Let_def)
  next
    case False
    then show ?thesis using Cons by (simp add: Let_def)
  qed
qed

lemma split_loop_chunks:
  "reader_data rs = Some data \<Longrightarrow>
   split_loop c emit chunk fp rs s = lift_emit (emit_all emit (chunks_from c chunk fp data) s)"
proof (induction rs arbitrary: chunk fp s data)
  case Nil
  then show ?case using split_finish_chunks [of emit chunk s c fp] by simp
next
  case (Cons r rs)
  obtain bs oc where r: "r = (bs, oc)" by fastforce
  show ?case
  proof (cases oc)
    case ReadMore
    then obtain d where d: "reader_data rs = Some d" "data = bs @ d" using Cons.prems r by auto
    have ih: "split_loop c emit ch f rs t = lift_emit (emit_all emit (chunks_from c ch f d) t)" for ch f t
      by (rule Cons.IH [OF d(1)])
    show ?thesis
      unfolding d(2) split_buffer_chunks using r ReadMore by (simp add: ih split: sum.splits prod.splits)
  next
    case ReadEOF
    obtain res s' where sb: "split_buffer c emit chunk fp bs s = (res, s')" by fastforce
    have "data = bs @ []" using Cons.prems r ReadEOF by simp
    then show ?thesis
      using split_buffer_chunks [of emit c chunk fp bs "[]" s] r ReadEOF sb
        split_finish_chunks [of emit "fst (projr res)" s' c "snd (projr res)"]
      by (cases res) auto
  next
    case ReadFails
    then show ?thesis using Cons.prems r by simp
  qed
qed

lemma concat_chunks_from: "concat (chunks_from c buf fp bs) = buf @ bs"
  by (induction c buf fp bs rule: chunks_from.induct) (auto simp: Let_def)

definition chunker_ok :: "chunker \<Rightarrow> bool" where
  "chunker_ok c \<longleftrightarrow> 0 < ck_min c \<and> ck_min c \<le> ck_max c"

lemma chunks_from_sizes:
  assumes "chunker_ok c" "int (length buf) < ck_max c"
  shows "(\<forall>x \<in> set (chunks_from c buf fp bs). x \<noteq> [] \<and> int (length x) \<le> ck_max c) \<and>
    (\<forall>x \<in> set (butlast (chunks_from c buf fp bs)). ck_min c \<le> int (length x))"
  using assms
proof (induction c buf fp bs rule: chunks_from.induct)
  case (1 c buf fp)
  then show ?case by simp
next
  case (2 c buf fp b bs)
  let ?buf = "buf @ [b]" and ?fp = "gear_hash c fp b"
  show ?case
  proof (cases "is_boundary c (length ?buf) ?fp")
    case True
    have m: "ck_min c \<le> int (length ?buf)"
      using True "2.prems"(1) unfolding is_boundary_def chunker_ok_def by linarith
    have "int (length ([] :: bytes)) < ck_max c" using "2.prems" by simp
    note ih = "2.IH"(1) [OF refl refl True "2.prems"(1) this]
    then show ?thesis using True m "2.prems"(2) by (simp add: Let_def)
  next
    case False
    then have "int (length ?buf) < ck_max c" by (auto simp: is_boundary_def)
    from "2.IH"(2) [OF refl refl False "2.prems"(1) this] show ?thesis
      using False by (simp add: Let_def)
  qed
qed

text \<open>The bytes after a boundary are cut as if they stood alone.\<close>

lemma chunks_from_tl: "chunks_from c buf fp bs = x # xs \<Longrightarrow> xs = chunk_list c (concat xs)"
proof (induction c buf fp bs rule: chunks_from.induct)
  case (1 c buf fp)
  then show ?case by (auto simp: chunk_list_def split: if_splits)
next
  case (2 c buf fp b bs)
  show ?case
  proof (cases "is_boundary c (length (buf @ [b])) (gear_hash c fp b)")
    case True
    with "2.prems" have "xs = chunks_from c [] 0 bs" by (simp add: Let_def)
    then show ?thesis by (simp add: chunk_list_def concat_chunks_from)
  next
    case False
    with "2.prems" have "chunks_from c (buf @ [b]) (gear_hash c fp b) bs = x # xs" by (simp add: Let_def)
    from "2.IH"(2) [OF refl refl False this] show ?thesis .
  qed
qed

lemma chunk_list_suffix: "chunk_list c bs = xs @ ys \<Longrightarrow> ys = chunk_list c (concat ys)"
proof (induction xs arbitrary: bs)
  case Nil
  then have "concat ys = bs" by (metis append_Nil chunk_list_def concat_chunks_from)
  then show ?case using Nil by simp
next
  case (Cons x xs)
  have "xs @ ys = chunk_list c (concat (xs @ ys))"
    using Cons.prems chunks_from_tl [of c "[]" 0 bs x "xs @ ys"] unfolding chunk_list_def by (metis append_Cons)
  then show ?case using Cons.IH by metis
qed

lemma chunks_from_append:
  "prefix (butlast (chunks_from c buf fp a)) (chunks_from c buf fp (a @ b))"
  by (induction c buf fp a rule: chunks_from.induct) (auto simp: Let_def)

lemma chunk_list_concat [simp]: "concat (chunk_list c data) = data"
  by (simp add: chunk_list_def concat_chunks_from)

lemma chunk_list_Nil [simp]: "chunk_list c [] = []"
  by (simp add: chunk_list_def)

subsection \<open>The chunker that \<open>NewChunker\<close> builds\<close>

lemma int64_pow: "k \<le> 62 \<Longrightarrow> int64 (2 ^ k)"
proof -
  assume "k \<le> 62"
  then have "(2 :: int) ^ k \<le> 2 ^ 62" by (rule power_increasing) simp
  also have "(2 :: int) ^ 62 < 2 ^ 63" by simp
  finally show ?thesis by (simp add: int64_def) (smt (verit) zero_le_power)
qed

lemma next_power_loop_ok:
  assumes "want \<le> 2 ^ (k + n)" "k + n \<le> 62"
  shows "\<exists>j. k \<le> j \<and> j \<le> k + n \<and> next_power_loop want (2 ^ k) = Some (2 ^ j) \<and> want \<le> 2 ^ j \<and>
    (j = k \<or> 2 ^ j < 2 * want)"
  using assms
proof (induction n arbitrary: k)
  case 0
  then show ?case by (intro exI [of _ k]) (simp add: next_power_loop.simps)
next
  case (Suc n)
  show ?case
  proof (cases "2 ^ k < want")
    case True
    have "int64 (2 ^ Suc k)" using Suc.prems(2) by (intro int64_pow) simp
    then have w: "wrap64 (2 ^ k * 2) = 2 ^ Suc k" by (simp add: mult.commute)
    have loop: "next_power_loop want (2 ^ k) = next_power_loop want (2 ^ Suc k)"
      using True w by (subst next_power_loop.simps) simp
    obtain j where j: "Suc k \<le> j" "j \<le> Suc k + n" "next_power_loop want (2 ^ Suc k) = Some (2 ^ j)"
      "want \<le> 2 ^ j" "j = Suc k \<or> 2 ^ j < 2 * want"
      using Suc.IH [of "Suc k"] Suc.prems by (metis add_Suc_shift)
    have "2 ^ j < 2 * want" using j(5) True by auto
    then show ?thesis using j loop by (intro exI [of _ j]) auto
  next
    case False
    then show ?thesis by (intro exI [of _ k]) (simp add: next_power_loop.simps)
  qed
qed

text \<open>The values the loop variable runs through: the powers of two, then the sign bit, then 0.\<close>

definition power_state :: "int \<Rightarrow> bool" where
  "power_state x \<longleftrightarrow> x = 0 \<or> x = - (2 ^ 63) \<or> (\<exists>k \<le> 62. x = 2 ^ k)"

lemma power_state_step: "power_state x \<Longrightarrow> power_state (wrap64 (x * 2))"
proof -
  assume "power_state x"
  then consider "x = 0" | "x = - (2 ^ 63)" | k where "k \<le> 62" "x = 2 ^ k" unfolding power_state_def by blast
  then show ?thesis
  proof cases
    case 1
    then show ?thesis by (simp add: power_state_def int64_def)
  next
    case 2
    have "wrap64 (x * 2) = 0" unfolding 2 by (simp add: wrap64_def u64_of_def)
    then show ?thesis by (simp add: power_state_def)
  next
    case 3
    show ?thesis
    proof (cases "k = 62")
      case True
      have "wrap64 (x * 2) = - (2 ^ 63)" unfolding 3(2) True by (simp add: wrap64_def u64_of_def)
      then show ?thesis by (simp add: power_state_def)
    next
      case False
      then have "Suc k \<le> 62" using 3 by simp
      moreover from this have "wrap64 (x * 2) = 2 ^ Suc k" using int64_pow [of "Suc k"] 3 by (simp add: mult.commute)
      ultimately show ?thesis unfolding power_state_def by blast
    qed
  qed
qed

lemma next_power_loop_state:
  "next_power_loop want out = Some p \<Longrightarrow> power_state out \<Longrightarrow> power_state p \<and> want \<le> p"
proof -
  have "next_power_loop want out = Some p \<Longrightarrow> power_state out \<longrightarrow> power_state p \<and> want \<le> p"
    by (rule next_power_loop.raw_induct [where P = "\<lambda>v out p. power_state out \<longrightarrow> power_state p \<and> v \<le> p"])
       (auto split: if_splits dest: power_state_step)
  then show "next_power_loop want out = Some p \<Longrightarrow> power_state out \<Longrightarrow> power_state p \<and> want \<le> p"
    by blast
qed

lemma power_state_max: "power_state x \<Longrightarrow> x \<le> 2 ^ 62"
proof -
  assume "power_state x"
  then consider "x = 0" | "x = - (2 ^ 63)" | k where "k \<le> 62" "x = 2 ^ k" unfolding power_state_def by blast
  then show ?thesis
  proof cases
    case 3
    then have "x \<le> 2 ^ 62" unfolding 3(2) by (intro power_increasing) simp_all
    then show ?thesis .
  qed simp_all
qed

lemma new_chunker_ok:
  assumes "new_chunker avg = Some c" "int64 avg"
  shows "chunker_ok c \<and> ck_min c \<le> ck_avg c \<and> ck_avg c \<le> ck_max c \<and> length (ck_table c) = 256"
proof -
  have gl: "length (gear_from n x) = n" for n x
    by (induction n arbitrary: x) (simp_all add: Let_def)
  obtain a where a: "0 < a" "ck_avg c = a" "ck_table c = gear_table"
    and m: "ck_min c = (if a div 4 < 65536 then min a 65536 else a div 4)"
    and M: "ck_max c = (if wrap64 (a * 4) < a then a else wrap64 (a * 4))"
    using assms(1) unfolding new_chunker_def Let_def
    by (cases "avg \<le> 0") (auto simp: default_chunk_avg_size_def split: option.splits)
  have d: "0 \<le> a div 4" "a div 4 \<le> a" using a(1) by auto
  then have min: "0 < ck_min c" "ck_min c \<le> a" using m a(1) by auto
  have "a \<le> ck_max c" using M by auto
  then show ?thesis using min a gl by (simp add: chunker_ok_def gear_table_def)
qed

subsection \<open>Properties\<close>

text \<open>
  Property C35. Whatever blocks the reader delivers its data in, the chunker hands its callback the
  same chunks in the same order, namely those of the reference cut of the data as a whole, and it
  stops with the callback's error if there is one.
\<close>

theorem chunker_split_reads:
  assumes "reader_data rs = Some data"
  shows "chunker_split c emit rs s = lift_emit (emit_all emit (chunk_list c data) s)"
  using split_loop_chunks [OF assms] by (simp add: chunker_split_def chunk_list_def)

definition small_chunker :: chunker where
  "small_chunker = \<lparr>ck_min = 2, ck_avg = 2, ck_max = 3, ck_mask = 1, ck_table = map of_nat [0..<256]\<rparr>"

definition collect :: "bytes \<Rightarrow> bytes list \<Rightarrow> (unit + unit) \<times> bytes list" where
  "collect x xs = (Inr (), xs @ [x])"

lemma chunker_split_reads_witness:
  "chunker_split small_chunker collect [([1, 1], ReadMore), ([2, 5, 7, 1], ReadEOF)] [] =
     lift_emit (emit_all collect (chunk_list small_chunker [1, 1, 2, 5, 7, 1]) [])"
  by (rule chunker_split_reads) simp

text \<open>
  The chunks of a byte string are its pieces in order: none is empty or longer than
  the maximum size, and all but the last have at least the minimum size.
\<close>

theorem chunk_list_sizes:
  assumes "chunker_ok c"
  shows "concat (chunk_list c data) = data \<and>
    (\<forall>x \<in> set (chunk_list c data). x \<noteq> [] \<and> int (length x) \<le> ck_max c) \<and>
    (\<forall>x \<in> set (butlast (chunk_list c data)). ck_min c \<le> int (length x))"
proof -
  have "int (length ([] :: bytes)) < ck_max c" using assms by (simp add: chunker_ok_def)
  from chunks_from_sizes [OF assms this, of 0 data] show ?thesis
    unfolding chunk_list_def by (simp add: concat_chunks_from)
qed

lemma chunk_list_sizes_witness:
  "concat (chunk_list small_chunker [1, 1, 2, 5, 7, 1, 3]) = [1, 1, 2, 5, 7, 1, 3] \<and>
   chunker_ok small_chunker"
proof -
  have "chunker_ok small_chunker" by (simp add: chunker_ok_def small_chunker_def)
  with chunk_list_sizes [OF this, of "[1, 1, 2, 5, 7, 1, 3]"] show ?thesis by blast
qed



text \<open>
  Property C37. For an average size of at most \<open>2 ^ 62\<close> the search for the mask's power of two ends
  with the least power that is not below it; above that bound the variable of the loop overflows to
  0 and the search never ends.
\<close>

theorem next_power_of_two_spec:
  "(1 \<le> want \<and> want \<le> 2 ^ 62 \<longrightarrow>
     (\<exists>j \<le> 62. next_power_of_two want = Some (2 ^ j) \<and> want \<le> 2 ^ j \<and> 2 ^ j < 2 * want)) \<and>
   (2 ^ 62 < want \<longrightarrow> next_power_of_two want = None)"
proof (intro conjI impI)
  assume v: "1 \<le> want \<and> want \<le> 2 ^ 62"
  then obtain j where j: "j \<le> 62" "next_power_loop want (2 ^ 0) = Some (2 ^ j)" "want \<le> 2 ^ j"
    "j = 0 \<or> 2 ^ j < 2 * want"
    using next_power_loop_ok [of want 0 62] by auto
  have "2 ^ j < 2 * want" using j(4) v by auto
  then show "\<exists>j \<le> 62. next_power_of_two want = Some (2 ^ j) \<and> want \<le> 2 ^ j \<and> 2 ^ j < 2 * want"
    using j by (intro exI [of _ j]) (simp add: next_power_of_two_def)
next
  assume v: "2 ^ 62 < want"
  show "next_power_of_two want = None"
  proof (cases "next_power_of_two want")
    case (Some p)
    have "power_state 1" unfolding power_state_def by (intro disjI2 exI [of _ 0]) simp
    then have "power_state p \<and> want \<le> p"
      using next_power_loop_state Some by (simp add: next_power_of_two_def)
    then show ?thesis using power_state_max [of p] v by linarith
  qed simp
qed

lemma next_power_of_two_spec_witness: "\<exists>j \<le> 62. next_power_of_two 1048576 = Some (2 ^ j)"
  using conjunct1 [OF next_power_of_two_spec [of 1048576]] by auto

end
