(* ===== verification/RepoTypes.thy ===== *)
theory RepoTypes
  imports GoBytes GoPaths Prelude
begin

text \<open>
  The data of the repository: \<open>internal/repository/types.go\<close>, the manifest types of
  \<open>manifest.go\<close> and the pack types of \<open>pack.go\<close>. Times are nanoseconds, sizes are signed 64-bit
  integers.
\<close>

text \<open>\<open>EntryType\<close> is a string in Go; a manifest that an agent sends may hold any other value.\<close>

datatype entry_type = EntryFile | EntryPackedFile | EntryDir | EntrySymlink | EntryOther string

record chunk_ref =
  cr_hash :: string
  cr_segment :: int
  cr_offset :: int
  cr_length :: int
  cr_original :: int
  cr_compressed :: int
  cr_created :: int

record pack_file_ref =
  pr_id :: string
  pr_offset :: int
  pr_length :: int

record pack_manifest =
  pm_id :: string
  pm_format :: string
  pm_chunks :: "chunk_ref list"

record file_entry =
  fe_path :: string
  fe_type :: entry_type
  fe_size :: int
  fe_mode :: u32
  fe_uid :: int
  fe_gid :: int
  fe_mtime :: int
  fe_link :: string
  fe_chunks :: "chunk_ref list"
  fe_pack :: "pack_file_ref option"

record snapshot_manifest =
  sm_id :: string
  sm_created :: int
  sm_source_type :: string
  sm_source_root :: string
  sm_source_roots :: "string list"
  sm_packs :: "pack_manifest list"
  sm_entries :: "file_entry list"

record repo_options =
  ro_state_dir :: string
  ro_repo_dir :: string
  ro_segment_size :: int
  ro_chunk_avg :: int

record cleanup_stats =
  cs_count :: int
  cs_logical :: int
  cs_compressed :: int
  cs_hashes :: "string list"

record repo_stats =
  rs_segments :: int
  rs_segment_bytes :: int
  rs_chunks :: int
  rs_logical :: int
  rs_compressed :: int
  rs_segment_size :: int
  rs_chunk_avg :: int
  rs_manifests :: int
  rs_append_only :: bool

definition default_segment_size :: int where
  "default_segment_size = 536870912"

definition pack_format_tbkpack1 :: string where
  "pack_format_tbkpack1 = ''TBKPACK1''"

text \<open>\<open>SnapshotManifest.Find\<close> and \<open>FindPack\<close>.\<close>

definition manifest_find :: "snapshot_manifest \<Rightarrow> string \<Rightarrow> file_entry option" where
  "manifest_find m p = find (\<lambda>e. fe_path e = clean_manifest_path p) (sm_entries m)"

definition find_pack :: "snapshot_manifest option \<Rightarrow> string \<Rightarrow> pack_manifest option" where
  "find_pack m pid = (case m of None \<Rightarrow> None | Some sm \<Rightarrow> find (\<lambda>p. pm_id p = pid) (sm_packs sm))"

end
