(* ===== verification/SegmentStore.thy ===== *)
theory SegmentStore
  imports RepoTypes "HOL-Library.AList"
begin

text \<open>
  \<open>internal/repository/segment.go\<close>, \<open>hash.go\<close> and \<open>key.go\<close>: chunks are compressed, encrypted and
  appended as self-describing records to numbered segment files. BLAKE3, zstd and AES-GCM are not
  part of the repository: they are the fields of the record \<open>crypto\<close>, and \<open>crypto_laws\<close> states
  what the code relies on. The directory of segments is an association list from names to nodes;
  the outcome of every call to the operating system is asked of the environment.
\<close>

unbundle bit_operations_syntax

subsection \<open>Cryptography and compression\<close>

record crypto =
  cy_blake3 :: "bytes \<Rightarrow> bytes"
  cy_zip :: "bytes \<Rightarrow> bytes"
  cy_unzip :: "bytes \<Rightarrow> bytes option"
  cy_seal :: "bytes \<Rightarrow> bytes \<Rightarrow> bytes \<Rightarrow> bytes \<Rightarrow> bytes"
  cy_open :: "bytes \<Rightarrow> bytes \<Rightarrow> bytes \<Rightarrow> bytes \<Rightarrow> bytes option"

text \<open>
  A digest has 32 bytes, decompression inverts compression, and opening what was sealed with the
  same key, nonce and associated data gives the plain text. The arguments of \<open>cy_seal\<close> and
  \<open>cy_open\<close> are the key, the nonce, the text and the associated data.
\<close>

definition crypto_laws :: "crypto \<Rightarrow> bool" where
  "crypto_laws cy \<longleftrightarrow>
     (\<forall>d. length (cy_blake3 cy d) = 32) \<and> (\<forall>d. cy_unzip cy (cy_zip cy d) = Some d) \<and>
     (\<forall>k n p a. cy_open cy k n (cy_seal cy k n p a) a = Some p)"

lemma crypto_lawsD:
  assumes "crypto_laws cy"
  shows "length (cy_blake3 cy d) = 32" "cy_unzip cy (cy_zip cy d) = Some d"
    "cy_open cy k n (cy_seal cy k n p a) a = Some p"
  using assms by (auto simp: crypto_laws_def)

definition hash_bytes :: "crypto \<Rightarrow> bytes \<Rightarrow> string" where
  "hash_bytes cy data = hex_encode (cy_blake3 cy data)"

definition nonce_size :: nat where
  "nonce_size = 12"

subsection \<open>Files\<close>

datatype fnode = FileNode bytes | DirNode

type_synonym files = "(string \<times> fnode) list"

definition read_file :: "files \<Rightarrow> string \<Rightarrow> bytes option" where
  "read_file fs n = (case map_of fs n of Some (FileNode d) \<Rightarrow> Some d | _ \<Rightarrow> None)"

definition append_file :: "string \<Rightarrow> bytes \<Rightarrow> files \<Rightarrow> files" where
  "append_file n d fs =
     (case read_file fs n of Some d0 \<Rightarrow> AList.update n (FileNode (d0 @ d)) fs | None \<Rightarrow> fs)"

lemma read_file_update [simp]:
  "read_file (AList.update n (FileNode d) fs) m = (if m = n then Some d else read_file fs m)"
  by (auto simp: read_file_def update_conv')

lemma read_append_file:
  "read_file (append_file n d fs) m =
    (if m = n then map_option (\<lambda>d0. d0 @ d) (read_file fs n) else read_file fs m)"
  by (auto simp: append_file_def split: option.splits)

text \<open>One directory extends another if every file of the first is there with at least its bytes.\<close>

definition extends :: "files \<Rightarrow> files \<Rightarrow> bool" where
  "extends fs gs \<longleftrightarrow> (\<forall>n d. read_file fs n = Some d \<longrightarrow> (\<exists>e. read_file gs n = Some (d @ e)))"

lemma extends_refl [simp]: "extends fs fs"
  by (simp add: extends_def)

lemma extends_trans: "extends fs gs \<Longrightarrow> extends gs hs \<Longrightarrow> extends fs hs"
  unfolding extends_def by (metis append.assoc)

lemma extends_append [simp]: "extends fs (append_file n d fs)"
  by (auto simp: extends_def read_append_file)

lemma extends_create: "read_file fs n = None \<Longrightarrow> extends fs (AList.update n (FileNode d) fs)"
  by (auto simp: extends_def)

subsection \<open>The segment writer\<close>

datatype segment_error =
    SegListFailed
  | SegOpenFailed int
  | SegStatFailed int
  | SegCloseFailed
  | SegSyncFailed
  | SegWriteFailed
  | SegNonceFailed
  | SegReadFailed
  | SegRefLengthNegative
  | SegRecordTooShort
  | SegBadMagic
  | SegBadHeaderLen
  | SegBadVersion
  | SegBadFlags
  | SegHashMismatch
  | SegPayloadMismatch
  | SegChecksumMismatch
  | SegDecryptFailed
  | SegCompressedMismatch
  | SegDecompressFailed
  | SegOriginalMismatch
  | SegDataHashMismatch
  | SegRefCount

record seg_state =
  sg_files :: files
  sg_max :: int
  sg_id :: int
  sg_offset :: int
  sg_step :: nat

type_synonym 'a seg_result = "(segment_error + 'a) \<times> seg_state"

definition tick :: "seg_state \<Rightarrow> seg_state" where
  "tick s = s\<lparr>sg_step := Suc (sg_step s)\<rparr>"

definition segment_name :: "int \<Rightarrow> string" where
  "segment_name i = format_pad16 i @ ''.seg''"

definition record_magic :: bytes where
  "record_magic = bytes_of (''TBKREC1'' @ [CHR 0x0A])"

definition record_header_len :: nat where "record_header_len = 116"
definition record_prefix_len :: nat where "record_prefix_len = 84"

definition put_le16 :: "nat \<Rightarrow> bytes" where "put_le16 n = le_encode 2 n"
definition put_le32 :: "nat \<Rightarrow> bytes" where "put_le32 n = le_encode 4 n"
definition put_le64 :: "nat \<Rightarrow> bytes" where "put_le64 n = le_encode 8 n"

definition record_prefix :: "bytes \<Rightarrow> nat \<Rightarrow> nat \<Rightarrow> nat \<Rightarrow> bytes \<Rightarrow> bytes" where
  "record_prefix hash original compressed payload nonce =
     record_magic @ put_le16 record_header_len @ put_le16 1 @ put_le32 3 @ hash @
     put_le64 original @ put_le64 compressed @ put_le64 payload @ nonce"

definition build_record :: "crypto \<Rightarrow> bytes \<Rightarrow> bytes \<Rightarrow> bytes \<Rightarrow> bytes \<Rightarrow> bytes" where
  "build_record cy key hash data nonce =
     (let compressed = cy_zip cy data;
          payload = cy_seal cy key nonce compressed hash;
          prefix = record_prefix hash (length data) (length compressed) (length payload) nonce
      in prefix @ cy_blake3 cy (prefix @ payload) @ payload)"

definition encode_record ::
    "env \<Rightarrow> crypto \<Rightarrow> bytes \<Rightarrow> bytes \<Rightarrow> bytes \<Rightarrow> seg_state \<Rightarrow> (bytes \<times> nat) seg_result" where
  "encode_record ev cy key hash data s =
     (if env_io ev (sg_step s) \<noteq> None then (Inl SegNonceFailed, tick s)
      else (Inr (build_record cy key hash data (env_rand ev (sg_step s) nonce_size),
                 length (cy_zip cy data)), tick s))"

definition open_segment :: "env \<Rightarrow> int \<Rightarrow> seg_state \<Rightarrow> unit seg_result" where
  "open_segment ev i s =
     (let n = segment_name i
      in if env_io ev (sg_step s) \<noteq> None \<or> map_of (sg_files s) n = Some DirNode
         then (Inl (SegOpenFailed i), tick s)
         else let fs = (if map_of (sg_files s) n = None then AList.update n (FileNode []) (sg_files s)
                        else sg_files s);
                  s1 = tick (s\<lparr>sg_files := fs\<rparr>)
              in if env_io ev (sg_step s1) \<noteq> None then (Inl (SegStatFailed i), tick s1)
                 else (Inr (), (tick s1)\<lparr>sg_id := i,
                         sg_offset := (case read_file fs n of Some d \<Rightarrow> int (length d) | None \<Rightarrow> 0)\<rparr>))"

definition rotate_segment :: "env \<Rightarrow> seg_state \<Rightarrow> unit seg_result" where
  "rotate_segment ev s =
     (if env_io ev (sg_step s) \<noteq> None then (Inl SegCloseFailed, tick s)
      else open_segment ev (wrap64 (sg_id s + 1)) (tick s))"

definition sync_dirty :: "env \<Rightarrow> bool \<Rightarrow> seg_state \<Rightarrow> unit seg_result" where
  "sync_dirty ev dirty s =
     (if \<not> dirty then (Inr (), s)
      else if env_io ev (sg_step s) \<noteq> None then (Inl SegSyncFailed, tick s) else (Inr (), tick s))"

text \<open>One \<open>Write\<close> on a file opened with \<open>O_APPEND\<close>; a failing write may leave some bytes behind.\<close>

definition append_record :: "env \<Rightarrow> bytes \<Rightarrow> seg_state \<Rightarrow> unit seg_result" where
  "append_record ev record s =
     (let n = segment_name (sg_id s)
      in case env_io ev (sg_step s) of
           Some k \<Rightarrow> (Inl SegWriteFailed,
                     tick (s\<lparr>sg_files := append_file n (take k record) (sg_files s)\<rparr>))
         | None \<Rightarrow> (Inr (), tick (s\<lparr>sg_files := append_file n record (sg_files s)\<rparr>)))"

type_synonym write_chunk = "bytes \<times> bytes"

text \<open>The body of the loop of \<open>WriteChunks\<close>, for a chunk given as its hash and its data.\<close>

definition write_step ::
    "env \<Rightarrow> crypto \<Rightarrow> bytes \<Rightarrow> bool \<Rightarrow> write_chunk \<Rightarrow> seg_state \<Rightarrow> chunk_ref seg_result" where
  "write_step ev cy key dirty ch s =
     (case ch of (hash, data) \<Rightarrow>
       sbind (encode_record ev cy key hash data s) (\<lambda>(record, csize) s1.
       sbind (if 0 < sg_offset s1 \<and> sg_max s1 < sg_offset s1 + int (length record)
              then sbind (sync_dirty ev dirty s1) (\<lambda>_ s2. rotate_segment ev s2)
              else (Inr (), s1)) (\<lambda>_ s3.
         let off = sg_offset s3
         in sbind (append_record ev record s3) (\<lambda>_ s4.
              (Inr \<lparr>cr_hash = hex_encode hash, cr_segment = sg_id s4, cr_offset = off,
                    cr_length = int (length record), cr_original = int (length data),
                    cr_compressed = int csize, cr_created = env_now ev (sg_step s4)\<rparr>,
               tick (s4\<lparr>sg_offset := off + int (length record)\<rparr>))))))"

fun write_loop ::
    "env \<Rightarrow> crypto \<Rightarrow> bytes \<Rightarrow> bool \<Rightarrow> write_chunk list \<Rightarrow> seg_state \<Rightarrow> (chunk_ref list) seg_result" where
  "write_loop ev cy key dirty [] s = sbind (sync_dirty ev dirty s) (\<lambda>_ s'. (Inr [], s'))"
| "write_loop ev cy key dirty (ch # chs) s =
     sbind (write_step ev cy key dirty ch s) (\<lambda>ref s1.
     sbind (write_loop ev cy key True chs s1) (\<lambda>refs s2. (Inr (ref # refs), s2)))"

definition write_chunks ::
    "env \<Rightarrow> crypto \<Rightarrow> bytes \<Rightarrow> write_chunk list \<Rightarrow> seg_state \<Rightarrow> (chunk_ref list) seg_result" where
  "write_chunks ev cy key chs s = write_loop ev cy key False chs s"

definition write_chunk_one ::
    "env \<Rightarrow> crypto \<Rightarrow> bytes \<Rightarrow> bytes \<Rightarrow> bytes \<Rightarrow> seg_state \<Rightarrow> chunk_ref seg_result" where
  "write_chunk_one ev cy key hash data s =
     sbind (write_chunks ev cy key [(hash, data)] s) (\<lambda>refs s'.
       case refs of [r] \<Rightarrow> (Inr r, s') | _ \<Rightarrow> (Inl SegRefCount, s'))"

definition list_segment_ids :: "files \<Rightarrow> int list" where
  "list_segment_ids fs =
     sort (List.map_filter (\<lambda>(n, d). if d = DirNode \<or> \<not> suffix ''.seg'' n then None
                                      else atoi (trim_suffix ''.seg'' n)) fs)"

text \<open>\<open>openSegmentWriter\<close>: it goes on with the newest segment, or starts a new one if that is full.\<close>

definition open_segment_writer :: "env \<Rightarrow> int \<Rightarrow> files \<Rightarrow> nat \<Rightarrow> unit seg_result" where
  "open_segment_writer ev maxs fs step =
     (let s0 = \<lparr>sg_files = fs, sg_max = maxs, sg_id = 0, sg_offset = 0, sg_step = step\<rparr>
      in if env_io ev step \<noteq> None then (Inl SegListFailed, tick s0)
         else let s1 = tick s0
              in if env_io ev (sg_step s1) \<noteq> None then (Inl SegListFailed, tick s1)
                 else let ids = list_segment_ids fs; i = (if ids = [] then 1 else last ids)
                      in sbind (open_segment ev i (tick s1)) (\<lambda>_ s2.
                           if maxs \<le> sg_offset s2 \<and> 0 < sg_offset s2 then rotate_segment ev s2
                           else (Inr (), s2)))"

subsection \<open>The segment reader\<close>

definition byte_range :: "nat \<Rightarrow> nat \<Rightarrow> bytes \<Rightarrow> bytes" where
  "byte_range a b bs = take (b - a) (drop a bs)"

definition parse_record :: "crypto \<Rightarrow> bytes \<Rightarrow> string \<Rightarrow> bytes \<Rightarrow> segment_error + bytes" where
  "parse_record cy key ref_hash record =
     (if length record < record_header_len then Inl SegRecordTooShort
      else let prefix = take record_prefix_len record;
               stored = byte_range record_prefix_len record_header_len record;
               payload = drop record_header_len record;
               flags = (of_nat (le_decode (byte_range 12 16 prefix)) :: u32);
               hash = byte_range 16 48 prefix;
               original = (of_nat (le_decode (byte_range 48 56 prefix)) :: u64);
               compressed_size = (of_nat (le_decode (byte_range 56 64 prefix)) :: u64);
               payload_size = (of_nat (le_decode (byte_range 64 72 prefix)) :: u64)
           in if take 8 prefix \<noteq> record_magic then Inl SegBadMagic
              else if le_decode (byte_range 8 10 prefix) \<noteq> record_header_len then Inl SegBadHeaderLen
              else if le_decode (byte_range 10 12 prefix) \<noteq> 1 then Inl SegBadVersion
              else if flags AND 3 \<noteq> 3 then Inl SegBadFlags
              else if hex_encode hash \<noteq> ref_hash then Inl SegHashMismatch
              else if sint payload_size \<noteq> int (length payload) then Inl SegPayloadMismatch
              else if cy_blake3 cy (prefix @ payload) \<noteq> stored then Inl SegChecksumMismatch
              else (case cy_open cy key (byte_range 72 84 prefix) payload hash of
                      None \<Rightarrow> Inl SegDecryptFailed
                    | Some compressed \<Rightarrow>
                        if (of_nat (length compressed) :: u64) \<noteq> compressed_size then Inl SegCompressedMismatch
                        else (case cy_unzip cy compressed of
                                None \<Rightarrow> Inl SegDecompressFailed
                              | Some data \<Rightarrow>
                                  if (of_nat (length data) :: u64) \<noteq> original then Inl SegOriginalMismatch
                                  else if cy_blake3 cy data \<noteq> hash then Inl SegDataHashMismatch
                                  else Inr data)))"

text \<open>
  \<open>segmentReader.Read\<close>; \<open>fault\<close> says that the operating system failed. A negative length in the
  reference makes \<open>make\<close> panic, which is the error \<open>SegRefLengthNegative\<close>.
\<close>

definition segment_read :: "crypto \<Rightarrow> bytes \<Rightarrow> bool \<Rightarrow> files \<Rightarrow> chunk_ref \<Rightarrow> segment_error + bytes" where
  "segment_read cy key fault fs ref =
     (case map_of fs (segment_name (cr_segment ref)) of
        None \<Rightarrow> Inl (SegOpenFailed (cr_segment ref))
      | Some node \<Rightarrow>
          if cr_length ref < 0 then Inl SegRefLengthNegative
          else (case node of
             DirNode \<Rightarrow> Inl SegReadFailed
           | FileNode d \<Rightarrow>
               if fault \<or> cr_offset ref < 0 \<or>
                  (0 < cr_length ref \<and> int (length d) < cr_offset ref + cr_length ref)
               then Inl SegReadFailed
               else parse_record cy key (cr_hash ref)
                      (take (nat (cr_length ref)) (drop (nat (cr_offset ref)) d))))"

definition segment_stats :: "files \<Rightarrow> int \<times> int" where
  "segment_stats fs =
     (let segs = filter (\<lambda>(n, d). d \<noteq> DirNode \<and> suffix ''.seg'' n) fs
      in (int (length segs),
          sum_list (map (\<lambda>(n, d). case d of FileNode b \<Rightarrow> int (length b) | DirNode \<Rightarrow> 0) segs)))"

subsection \<open>The master key\<close>

datatype key_error = KeyDirFailed | KeyBadSize nat | KeyReadFailed | KeyRandFailed | KeyWriteFailed

definition repository_key_size :: nat where
  "repository_key_size = 32"

text \<open>
  \<open>loadOrCreateMasterKey\<close>: the key file of the state directory is an option; the result is the key
  and the new key file. A write that fails may leave a truncated file.
\<close>

definition load_or_create_key ::
    "env \<Rightarrow> nat \<Rightarrow> bytes option \<Rightarrow> (key_error + bytes) \<times> bytes option" where
  "load_or_create_key ev n file =
     (if env_io ev n \<noteq> None then (Inl KeyDirFailed, file)
      else if file \<noteq> None \<and> env_io ev (n + 1) \<noteq> None then (Inl KeyReadFailed, file)
      else (case file of
        Some data \<Rightarrow>
          if length data \<noteq> repository_key_size then (Inl (KeyBadSize (length data)), file)
          else (Inr data, file)
      | None \<Rightarrow>
          if env_io ev (n + 2) \<noteq> None then (Inl KeyRandFailed, file)
          else let key = env_rand ev (n + 2) repository_key_size
               in (case env_io ev (n + 3) of
                     Some k \<Rightarrow> (Inl KeyWriteFailed, Some (take k key))
                   | None \<Rightarrow> (Inr key, Some key))))"

subsection \<open>A record reads back\<close>

lemma byte_range_skip: "length p \<le> a \<Longrightarrow> byte_range a b (p @ q) = byte_range (a - length p) (b - length p) q"
  by (simp add: byte_range_def)

lemma byte_range_take: "b \<le> length p \<Longrightarrow> byte_range a b (p @ q) = byte_range a b p"
  by (simp add: byte_range_def)

lemma byte_range_all [simp]: "length p = b \<Longrightarrow> byte_range 0 b p = p"
  by (simp add: byte_range_def)

lemma byte_range_exact: "length p = a \<Longrightarrow> length q = b - a \<Longrightarrow> byte_range a b (p @ q @ r) = q"
  by (simp add: byte_range_def)

lemma length_put_le [simp]: "length (put_le16 n) = 2" "length (put_le32 n) = 4" "length (put_le64 n) = 8"
  by (simp_all add: put_le16_def put_le32_def put_le64_def)

lemma length_record_magic [simp]: "length record_magic = 8"
  by (simp add: record_magic_def)

lemma length_record_prefix:
  "length hash = 32 \<Longrightarrow> length nonce = 12 \<Longrightarrow> length (record_prefix hash a b c nonce) = 84"
  by (simp add: record_prefix_def)

lemma record_prefix_slices:
  assumes "length hash = 32" "length nonce = 12" and p_def: "p = record_prefix hash a b c nonce"
  shows "take 8 p = record_magic" "byte_range 8 10 p = put_le16 record_header_len" "byte_range 10 12 p = put_le16 1"
    "byte_range 12 16 p = put_le32 3" "byte_range 16 48 p = hash" "byte_range 48 56 p = put_le64 a"
    "byte_range 56 64 p = put_le64 b" "byte_range 64 72 p = put_le64 c" "byte_range 72 84 p = nonce"
  using assms(1,2) by (simp_all add: p_def record_prefix_def byte_range_def)

lemma le_decode_put [simp]:
  "le_decode (put_le16 n) = n mod 65536" "le_decode (put_le32 n) = n mod 4294967296"
  "le_decode (put_le64 n) = n mod 18446744073709551616"
  by (simp_all add: put_le16_def put_le32_def put_le64_def le_decode_encode)

lemma of_nat_mod64 [simp]: "(of_nat (n mod 18446744073709551616) :: u64) = of_nat n"
proof -
  have "unat (of_nat (n mod 18446744073709551616) :: u64) = unat (of_nat n :: u64)"
    by (simp add: unat_of_nat)
  then show ?thesis by (simp only: word_unat_eq_iff)
qed

lemma sint_of_nat_64: "n < 2 ^ 63 \<Longrightarrow> sint (of_nat n :: u64) = int n"
proof -
  assume n: "n < 2 ^ 63"
  then have "int n < int (2 ^ 63)" by (simp only: of_nat_less_iff)
  then have "int64 (int n)" by (simp add: int64_def)
  moreover have "(of_nat n :: u64) = u64_of (int n)" by (simp add: u64_of_def)
  ultimately show ?thesis by simp
qed

text \<open>The payload of a record for these data fits into memory, whatever the nonce is.\<close>

definition data_fits :: "crypto \<Rightarrow> bytes \<Rightarrow> bytes \<Rightarrow> bool" where
  "data_fits cy key data \<longleftrightarrow>
     length data < 2 ^ 62 \<and> length (cy_zip cy data) < 2 ^ 62 \<and>
     (\<forall>nonce. length (cy_seal cy key nonce (cy_zip cy data) (cy_blake3 cy data)) < 2 ^ 62)"

lemma parse_build_record:
  assumes laws: "crypto_laws cy" and nonce: "length nonce = 12" and fits: "data_fits cy key data"
    and hash: "hash = cy_blake3 cy data"
  shows "parse_record cy key (hex_encode hash) (build_record cy key hash data nonce) = Inr data"
proof -
  have h: "length hash = 32" using laws hash by (simp add: crypto_lawsD)
  let ?z = "cy_zip cy data"
  let ?pay = "cy_seal cy key nonce ?z hash"
  let ?pre = "record_prefix hash (length data) (length ?z) (length ?pay) nonce"
  let ?sum = "cy_blake3 cy (?pre @ ?pay)"
  have rec: "build_record cy key hash data nonce = ?pre @ ?sum @ ?pay"
    by (simp add: build_record_def Let_def)
  have pre: "length ?pre = 84" by (rule length_record_prefix [OF h nonce])
  have sum: "length ?sum = 32" using laws by (simp add: crypto_lawsD)
  have pay: "length ?pay < 2 ^ 63"
  proof -
    have "length ?pay < 2 ^ 62" using fits hash by (simp add: data_fits_def)
    then show ?thesis by simp
  qed
  have parts: "take 84 (?pre @ ?sum @ ?pay) = ?pre" "byte_range 84 116 (?pre @ ?sum @ ?pay) = ?sum"
    "drop 116 (?pre @ ?sum @ ?pay) = ?pay"
    using pre sum by (simp_all add: byte_range_def)
  have flags: "(of_nat (3 mod 4294967296) :: u32) AND 3 = 3" by simp
  note sl = record_prefix_slices [OF h nonce refl, of "length data" "length ?z" "length ?pay"]
  have opn: "cy_open cy key nonce ?pay hash = Some ?z" and unz: "cy_unzip cy ?z = Some data"
    using laws by (simp_all add: crypto_lawsD)
  have len: "\<not> length (?pre @ ?sum @ ?pay) < 116" using pre sum by simp
  have hl: "record_header_len mod 65536 = record_header_len" by (simp add: record_header_len_def)
  show ?thesis
    unfolding parse_record_def rec Let_def record_header_len_def [symmetric]
    unfolding record_prefix_len_def record_header_len_def parts if_not_P [OF len]
    using opn unz pay
    by (simp add: sl record_header_len_def sint_of_nat_64 hash [symmetric])
qed

lemma segment_read_extends:
  assumes "segment_read cy key fault fs ref = Inr data" "extends fs gs"
  shows "segment_read cy key fault gs ref = Inr data"
proof -
  let ?n = "segment_name (cr_segment ref)"
  obtain d where d: "map_of fs ?n = Some (FileNode d)" "\<not> fault" "0 \<le> cr_offset ref" "0 \<le> cr_length ref"
    and l: "0 < cr_length ref \<longrightarrow> cr_offset ref + cr_length ref \<le> int (length d)"
    and p: "parse_record cy key (cr_hash ref) (take (nat (cr_length ref)) (drop (nat (cr_offset ref)) d)) = Inr data"
    using assms(1) by (auto simp: segment_read_def split: option.splits if_splits fnode.splits)
  have pos: "0 < cr_length ref"
  proof (rule ccontr)
    assume "\<not> 0 < cr_length ref"
    then show False using p d(4) by (simp add: parse_record_def record_header_len_def)
  qed
  have "read_file fs ?n = Some d" using d(1) by (simp add: read_file_def)
  then obtain e where "read_file gs ?n = Some (d @ e)" using assms(2) by (auto simp: extends_def)
  then have g: "map_of gs ?n = Some (FileNode (d @ e))"
    by (auto simp: read_file_def split: option.splits fnode.splits)
  have "nat (cr_offset ref) + nat (cr_length ref) \<le> length d" using l pos d(3,4) by linarith
  then have "take (nat (cr_length ref)) (drop (nat (cr_offset ref)) (d @ e)) =
      take (nat (cr_length ref)) (drop (nat (cr_offset ref)) d)" by simp
  then show ?thesis using g d p l pos by (simp add: segment_read_def)
qed

lemma segment_read_hash:
  assumes "segment_read cy key fault fs ref = Inr data"
  shows "hash_bytes cy data = cr_hash ref"
proof -
  obtain rcd where "parse_record cy key (cr_hash ref) rcd = Inr data"
    using assms by (auto simp: segment_read_def split: option.splits if_splits fnode.splits)
  then show ?thesis
    by (auto simp: parse_record_def Let_def hash_bytes_def split: if_splits option.splits)
qed

subsection \<open>The writer keeps what is there\<close>

definition seg_inv :: "seg_state \<Rightarrow> bool" where
  "seg_inv s \<longleftrightarrow>
     (\<exists>d. read_file (sg_files s) (segment_name (sg_id s)) = Some d \<and> sg_offset s = int (length d))"

abbreviation seg_extends :: "seg_state \<Rightarrow> seg_state \<Rightarrow> bool" where
  "seg_extends s t \<equiv> extends (sg_files s) (sg_files t)"

lemma tick_simps [simp]:
  "sg_files (tick s) = sg_files s" "sg_id (tick s) = sg_id s" "sg_offset (tick s) = sg_offset s"
  "sg_max (tick s) = sg_max s" "sg_step (tick s) = Suc (sg_step s)"
  by (simp_all add: tick_def)

lemma seg_inv_tick [simp]: "seg_inv (tick s) \<longleftrightarrow> seg_inv s"
  by (simp add: seg_inv_def)

lemma seg_extends_sbind:
  assumes "seg_extends s (snd m)"
    and "\<And>x t. m = (Inr x, t) \<Longrightarrow> seg_extends t (snd (f x t))"
  shows "seg_extends s (snd (sbind m f))"
proof (cases m)
  case (Pair r t)
  show ?thesis
  proof (cases r)
    case (Inl e)
    then show ?thesis using assms(1) Pair by simp
  next
    case (Inr x)
    then show ?thesis using assms(1) assms(2) [of x t] Pair by (auto intro: extends_trans)
  qed
qed

lemma open_segment_extends: "seg_extends s (snd (open_segment ev i s))"
proof -
  have "map_of (sg_files s) (segment_name i) = None \<Longrightarrow>
      extends (sg_files s) (AList.update (segment_name i) (FileNode []) (sg_files s))"
    by (rule extends_create) (simp add: read_file_def)
  then show ?thesis by (auto simp: open_segment_def Let_def)
qed

lemma open_segment_inv: "open_segment ev i s = (Inr u, t) \<Longrightarrow> seg_inv t \<and> sg_id t = i \<and> sg_max t = sg_max s"
proof -
  assume o: "open_segment ev i s = (Inr u, t)"
  let ?n = "segment_name i"
  let ?fs = "if map_of (sg_files s) ?n = None then AList.update ?n (FileNode []) (sg_files s) else sg_files s"
  have nd: "map_of (sg_files s) ?n \<noteq> Some DirNode"
    and t: "sg_files t = ?fs" "sg_id t = i" "sg_max t = sg_max s"
      "sg_offset t = (case read_file ?fs ?n of Some d \<Rightarrow> int (length d) | None \<Rightarrow> 0)"
    using o by (auto simp: open_segment_def Let_def split: if_splits)
  have "\<exists>d. read_file ?fs ?n = Some d"
    using nd by (auto simp: read_file_def update_conv' split: option.splits fnode.splits)
  then show ?thesis using t by (auto simp: seg_inv_def)
qed

lemma rotate_segment_extends: "seg_extends s (snd (rotate_segment ev s))"
  using open_segment_extends [of "tick s" ev "wrap64 (sg_id s + 1)"] by (simp add: rotate_segment_def)

lemma rotate_segment_inv:
  "rotate_segment ev s = (Inr u, t) \<Longrightarrow> seg_inv t \<and> sg_id t = wrap64 (sg_id s + 1) \<and> sg_max t = sg_max s"
proof -
  assume "rotate_segment ev s = (Inr u, t)"
  then have "open_segment ev (wrap64 (sg_id s + 1)) (tick s) = (Inr u, t)"
    by (simp add: rotate_segment_def split: if_splits)
  from open_segment_inv [OF this] show ?thesis by simp
qed

lemma encode_record_state: "snd (encode_record ev cy key hash data s) = tick s"
  by (simp add: encode_record_def)

lemma sync_dirty_state: "sg_files (snd (sync_dirty ev d s)) = sg_files s"
  by (simp add: sync_dirty_def)

lemma sync_dirty_Inr: "sync_dirty ev d s = (Inr u, t) \<Longrightarrow> t = s \<or> t = tick s"
  by (auto simp: sync_dirty_def split: if_splits)

lemma append_record_extends: "seg_extends s (snd (append_record ev r s))"
  by (simp add: append_record_def Let_def split: option.splits)

lemma write_step_extends: "seg_extends s (snd (write_step ev cy key dirty ch s))"
  unfolding write_step_def
  by (auto simp: encode_record_state sync_dirty_state Let_def
      intro!: seg_extends_sbind rotate_segment_extends append_record_extends split: prod.splits)

lemma write_loop_extends: "seg_extends s (snd (write_loop ev cy key dirty chs s))"
proof (induction chs arbitrary: s dirty)
  case Nil
  then show ?case by (auto simp: sync_dirty_state intro!: seg_extends_sbind)
next
  case (Cons ch chs)
  then show ?case by (auto intro!: seg_extends_sbind write_step_extends)
qed

text \<open>A successful step puts the record right behind what the current segment holds.\<close>

lemma write_step_ok:
  assumes "write_step ev cy key dirty (hash, data) s = (Inr ref, t)" "seg_inv s"
  shows "\<exists>d nonce. read_file (sg_files t) (segment_name (cr_segment ref)) =
      Some (d @ build_record cy key hash data (env_rand ev nonce nonce_size)) \<and>
    cr_offset ref = int (length d) \<and>
    cr_length ref = int (length (build_record cy key hash data (env_rand ev nonce nonce_size))) \<and>
    cr_hash ref = hex_encode hash \<and> cr_original ref = int (length data) \<and>
    cr_compressed ref = int (length (cy_zip cy data)) \<and> cr_segment ref = sg_id t \<and>
    (\<exists>n. cr_created ref = env_now ev n) \<and> (int64 (sg_id s) \<longrightarrow> int64 (sg_id t)) \<and>
    seg_inv t \<and> sg_max t = sg_max s"
proof -
  obtain rcd csize s1 u s3 s4 where
    e: "encode_record ev cy key hash data s = (Inr (rcd, csize), s1)"
    and rot: "(if 0 < sg_offset s1 \<and> sg_max s1 < sg_offset s1 + int (length rcd)
        then sbind (sync_dirty ev dirty s1) (\<lambda>_ s2. rotate_segment ev s2) else (Inr (), s1)) = (Inr u, s3)"
    and a: "append_record ev rcd s3 = (Inr (), s4)"
    and ref: "ref = \<lparr>cr_hash = hex_encode hash, cr_segment = sg_id s4, cr_offset = sg_offset s3,
        cr_length = int (length rcd), cr_original = int (length data),
        cr_compressed = int csize, cr_created = env_now ev (sg_step s4)\<rparr>"
    and t: "t = tick (s4\<lparr>sg_offset := sg_offset s3 + int (length rcd)\<rparr>)"
    using assms(1) unfolding write_step_def
    by (auto simp: result_simps Let_def split: prod.splits)
  have rec: "rcd = build_record cy key hash data (env_rand ev (sg_step s) nonce_size)"
    "csize = length (cy_zip cy data)" "s1 = tick s"
    using e by (auto simp: encode_record_def split: if_splits)
  have i3: "seg_inv s3 \<and> sg_max s3 = sg_max s \<and> (int64 (sg_id s) \<longrightarrow> int64 (sg_id s3))"
  proof (cases "0 < sg_offset s1 \<and> sg_max s1 < sg_offset s1 + int (length rcd)")
    case True
    then obtain s2 v where s2: "sync_dirty ev dirty s1 = (Inr v, s2)" "rotate_segment ev s2 = (Inr u, s3)"
      using rot by (auto simp: result_simps)
    then have "sg_max s2 = sg_max s" using sync_dirty_Inr [OF s2(1)] rec(3) by auto
    then show ?thesis using rotate_segment_inv [OF s2(2)] by simp
  next
    case False
    then show ?thesis using rot rec(3) assms(2) by auto
  qed
  then obtain d where d: "read_file (sg_files s3) (segment_name (sg_id s3)) = Some d" "sg_offset s3 = int (length d)"
    by (auto simp: seg_inv_def)
  have s4: "s4 = tick (s3\<lparr>sg_files := append_file (segment_name (sg_id s3)) rcd (sg_files s3)\<rparr>)"
    using a by (auto simp: append_record_def Let_def split: option.splits)
  have "read_file (sg_files t) (segment_name (sg_id s3)) = Some (d @ rcd)"
    using d by (simp add: t s4 read_append_file)
  then show ?thesis
    using d i3 rec by (intro exI [of _ d] exI [of _ "sg_step s"]) (auto simp: ref t s4 seg_inv_def)
qed

definition good_rand :: "env \<Rightarrow> bool" where
  "good_rand ev \<longleftrightarrow> (\<forall>n k. length (env_rand ev n k) = k)"

lemma write_step_reads:
  assumes w: "write_step ev cy key dirty (cy_blake3 cy data, data) s = (Inr ref, t)" and "seg_inv s"
    and "crypto_laws cy" "data_fits cy key data" "good_rand ev"
  shows "segment_read cy key False (sg_files t) ref = Inr data \<and> cr_hash ref = hash_bytes cy data \<and> seg_inv t"
proof -
  obtain d n where
    r: "read_file (sg_files t) (segment_name (cr_segment ref)) =
      Some (d @ build_record cy key (cy_blake3 cy data) data (env_rand ev n nonce_size))"
    and ref: "cr_offset ref = int (length d)"
      "cr_length ref = int (length (build_record cy key (cy_blake3 cy data) data (env_rand ev n nonce_size)))"
      "cr_hash ref = hex_encode (cy_blake3 cy data)" and i: "seg_inv t"
    using write_step_ok [OF w assms(2)] by blast
  let ?rec = "build_record cy key (cy_blake3 cy data) data (env_rand ev n nonce_size)"
  have nonce: "length (env_rand ev n nonce_size) = 12" using assms(5) by (simp add: good_rand_def nonce_size_def)
  have m: "map_of (sg_files t) (segment_name (cr_segment ref)) = Some (FileNode (d @ ?rec))"
    using r by (auto simp: read_file_def split: option.splits fnode.splits)
  have "parse_record cy key (hex_encode (cy_blake3 cy data)) ?rec = Inr data"
    by (rule parse_build_record [OF assms(3) nonce assms(4) refl])
  then show ?thesis using m ref i by (simp add: segment_read_def hash_bytes_def)
qed

lemma write_loop_reads:
  assumes "write_loop ev cy key dirty chs s = (Inr refs, t)" "seg_inv s"
    and "crypto_laws cy" "good_rand ev"
    and "\<forall>(h, d) \<in> set chs. h = cy_blake3 cy d \<and> data_fits cy key d"
  shows "list_all2 (\<lambda>(h, d) ref. segment_read cy key False (sg_files t) ref = Inr d \<and>
      cr_hash ref = hash_bytes cy d) chs refs \<and> seg_inv t"
  using assms(1,2,5)
proof (induction chs arbitrary: dirty s refs)
  case Nil
  then show ?case by (auto simp: result_simps dest!: sync_dirty_Inr)
next
  case (Cons ch chs)
  obtain h d where ch: "ch = (h, d)" by fastforce
  obtain ref s1 refs' where w: "write_step ev cy key dirty (h, d) s = (Inr ref, s1)"
    and l: "write_loop ev cy key True chs s1 = (Inr refs', t)" and refs: "refs = ref # refs'"
    using Cons.prems(1) ch by (auto simp: result_simps)
  have h: "h = cy_blake3 cy d" "data_fits cy key d" using Cons.prems(3) ch by auto
  note st = write_step_reads [OF w [unfolded h(1)] Cons.prems(2) assms(3) h(2) assms(4)]
  have ext: "seg_extends s1 t" using write_loop_extends [of s1 ev cy key True chs] l by simp
  have "segment_read cy key False (sg_files t) ref = Inr d"
    using segment_read_extends [OF _ ext] st by blast
  moreover have "list_all2 (\<lambda>(h, d) ref. segment_read cy key False (sg_files t) ref = Inr d \<and>
      cr_hash ref = hash_bytes cy d) chs refs' \<and> seg_inv t"
    using Cons.IH [OF l] st Cons.prems(3) by simp
  ultimately show ?case using st refs ch by simp
qed

subsection \<open>A concrete instance of the parameters\<close>

text \<open>
  Identity compression and encryption with a digest that keeps the first 32 bytes: it satisfies the
  laws, so they can hold together, and the witnesses evaluate the code on it.
\<close>

definition plain_crypto :: crypto where
  "plain_crypto = \<lparr>cy_blake3 = (\<lambda>d. take 32 (d @ replicate 32 0)), cy_zip = (\<lambda>d. d), cy_unzip = Some,
     cy_seal = (\<lambda>k n p a. p), cy_open = (\<lambda>k n c a. Some c)\<rparr>"

lemma plain_crypto_laws: "crypto_laws plain_crypto"
  by (auto simp: crypto_laws_def plain_crypto_def min_def)

lemma good_rand_good_env [simp]: "good_rand good_env"
  by (simp add: good_rand_def)

definition empty_segments :: seg_state where
  "empty_segments = \<lparr>sg_files = [(''0000000000000001.seg'', FileNode [])], sg_max = 1000, sg_id = 1,
     sg_offset = 0, sg_step = 0\<rparr>"

lemma empty_segments_inv: "seg_inv empty_segments"
proof -
  have "read_file (sg_files empty_segments) (segment_name (sg_id empty_segments)) = Some []" by code_simp
  then show ?thesis by (simp add: seg_inv_def empty_segments_def)
qed

subsection \<open>Properties\<close>

text \<open>
  Property C2. Chunks that were written successfully read back: every reference that \<open>WriteChunks\<close>
  returns carries the hash of its chunk and reads exactly the chunk's data, also when the writer
  went over to a new segment in between, and the writer's offset is again the end of its file.
\<close>

theorem write_chunks_read_back:
  assumes "write_chunks ev cy key chs s = (Inr refs, t)" and "seg_inv s" and "crypto_laws cy"
    and "good_rand ev" and "\<forall>(h, d) \<in> set chs. h = cy_blake3 cy d \<and> data_fits cy key d"
  shows "list_all2 (\<lambda>(h, d) ref. segment_read cy key False (sg_files t) ref = Inr d \<and>
      cr_hash ref = hash_bytes cy d) chs refs \<and> seg_inv t"
  using assms unfolding write_chunks_def by (intro write_loop_reads) auto

lemma write_chunks_read_back_witness:
  "let chs = map (\<lambda>d. (cy_blake3 plain_crypto d, d)) [[1, 2, 3], [4]];
       (r, t) = write_chunks good_env plain_crypto [] chs empty_segments
   in \<exists>refs. r = Inr refs \<and> list_all2 (\<lambda>(h, d) ref. segment_read plain_crypto [] False (sg_files t) ref = Inr d \<and>
        cr_hash ref = hash_bytes plain_crypto d) chs refs \<and> seg_inv t"
proof -
  let ?chs = "map (\<lambda>d. (cy_blake3 plain_crypto d, d)) [[1, 2, 3], [4]]"
  have "case write_chunks good_env plain_crypto [] ?chs empty_segments of (Inr refs, t) \<Rightarrow> True | _ \<Rightarrow> False"
    by code_simp
  then obtain refs t where w: "write_chunks good_env plain_crypto [] ?chs empty_segments = (Inr refs, t)"
    by (auto split: prod.splits sum.splits)
  have "\<forall>(h, d) \<in> set ?chs. h = cy_blake3 plain_crypto d \<and> data_fits plain_crypto [] d"
    by (auto simp: data_fits_def plain_crypto_def)
  from write_chunks_read_back [OF w empty_segments_inv plain_crypto_laws good_rand_good_env this]
  show ?thesis using w by (simp add: Let_def)
qed

text \<open>
  The segment store only appends: whatever \<open>WriteChunks\<close> does afterwards, also when it
  fails half-way with a write, sync or open error, a reference that could be read still reads the
  same data.
\<close>

theorem write_chunks_append_only:
  assumes "segment_read cy key False (sg_files s) ref = Inr data"
  shows "segment_read cy key False (sg_files (snd (write_chunks ev cy key' chs s))) ref = Inr data"
  using segment_read_extends [OF assms] write_loop_extends unfolding write_chunks_def by blast

definition full_disk :: env where
  "full_disk = good_env\<lparr>env_io := (\<lambda>n. if n = 1 then Some 1 else None)\<rparr>"

definition one_chunk_store :: "chunk_ref list \<times> seg_state" where
  "one_chunk_store =
     (case write_chunks good_env plain_crypto [] [(cy_blake3 plain_crypto [7], [7])]
        (empty_segments\<lparr>sg_step := 2\<rparr>) of
        (Inr refs, t) \<Rightarrow> (refs, t\<lparr>sg_step := 0\<rparr>) | (Inl e, t) \<Rightarrow> ([], t))"

lemma write_chunks_append_only_witness:
  "let (refs, s) = one_chunk_store;
       (r, t) = write_chunks full_disk plain_crypto [] [(cy_blake3 plain_crypto [8], [8])] s
   in r = Inl SegWriteFailed \<and> segment_read plain_crypto [] False (sg_files t) (hd refs) = Inr [7]"
proof -
  have a: "segment_read plain_crypto [] False (sg_files (snd one_chunk_store)) (hd (fst one_chunk_store)) = Inr [7]"
    by code_simp
  have b: "fst (write_chunks full_disk plain_crypto [] [(cy_blake3 plain_crypto [8], [8])] (snd one_chunk_store)) =
      Inl SegWriteFailed"
    by code_simp
  from write_chunks_append_only [OF a, of full_disk "[]" "[(cy_blake3 plain_crypto [8], [8])]"] b
  show ?thesis by (simp add: case_prod_unfold Let_def)
qed

text \<open>
  Property C32. A read never returns wrong data: for any contents of the segment files, what a read
  returns has the hash that the reference names; everything else is an error.
\<close>

theorem segment_read_integrity:
  assumes "segment_read cy key fault fs ref = Inr data"
  shows "hash_bytes cy data = cr_hash ref"
  by (rule segment_read_hash [OF assms])

lemma segment_read_integrity_witness:
  "hash_bytes plain_crypto [7] = cr_hash (hd (fst one_chunk_store))"
proof -
  have "segment_read plain_crypto [] False (sg_files (snd one_chunk_store)) (hd (fst one_chunk_store)) = Inr [7]"
    by code_simp
  then show ?thesis by (rule segment_read_integrity)
qed

lemma wrap64_succ: "wrap64 (x + 1) \<noteq> x"
proof
  assume "wrap64 (x + 1) = x"
  then have "u64_of (x + 1) = u64_of x" unfolding wrap64_def by (metis u64_of_sint)
  then show False by (simp add: u64_of_def)
qed


definition cut_short :: env where
  "cut_short = good_env\<lparr>env_io := (\<lambda>n. Some 1)\<rparr>"


end
