(* ===== verification/KvStore.thy ===== *)
theory KvStore
  imports GoBytes "HOL-Library.AList" "HOL-Library.List_Lexorder"
begin

text \<open>
  The ordered key-value store (\<open>github.com/cockroachdb/pebble\<close>) that the chunk index of the server
  and the catalog of the agent use. It is not part of the repository: its operations are the fields
  of the record \<open>kv_ops\<close>, and \<open>kv_laws\<close> states what the code relies on: a get after a batch sees
  the batch's last operation on the key, and an iterator between two bounds yields the keys between
  them with their values, in byte order. An instance shows that the laws can hold.
\<close>

datatype kv_op = KvSet bytes bytes | KvDelete bytes

record 'db kv_ops =
  kv_get :: "'db \<Rightarrow> bytes \<Rightarrow> bytes option"
  kv_apply :: "'db \<Rightarrow> kv_op list \<Rightarrow> 'db"
  kv_range :: "'db \<Rightarrow> bytes \<Rightarrow> bytes \<Rightarrow> (bytes \<times> bytes) list"

fun kv_effect :: "(bytes \<Rightarrow> bytes option) \<Rightarrow> kv_op list \<Rightarrow> bytes \<Rightarrow> bytes option" where
  "kv_effect m [] = m"
| "kv_effect m (KvSet k v # ops) = kv_effect (m(k \<mapsto> v)) ops"
| "kv_effect m (KvDelete k # ops) = kv_effect (m(k := None)) ops"

definition kv_laws :: "'db kv_ops \<Rightarrow> bool" where
  "kv_laws kv \<longleftrightarrow>
     (\<forall>db ops. kv_get kv (kv_apply kv db ops) = kv_effect (kv_get kv db) ops) \<and>
     (\<forall>db lo hi. distinct (map fst (kv_range kv db lo hi)) \<and> sorted (map fst (kv_range kv db lo hi)) \<and>
        set (kv_range kv db lo hi) = {(k, v). kv_get kv db k = Some v \<and> lo \<le> k \<and> k < hi})"

lemma kv_lawsD:
  assumes "kv_laws kv"
  shows "kv_get kv (kv_apply kv db ops) = kv_effect (kv_get kv db) ops"
    "distinct (map fst (kv_range kv db lo hi))" "sorted (map fst (kv_range kv db lo hi))"
    "set (kv_range kv db lo hi) = {(k, v). kv_get kv db k = Some v \<and> lo \<le> k \<and> k < hi}"
  using assms by (auto simp: kv_laws_def)

definition kv_key :: "kv_op \<Rightarrow> bytes" where
  "kv_key o1 = (case o1 of KvSet k v \<Rightarrow> k | KvDelete k \<Rightarrow> k)"

lemma kv_effect_append: "kv_effect m (a @ b) = kv_effect (kv_effect m a) b"
  by (induction m a rule: kv_effect.induct) (auto simp: fun_upd_def)

lemma kv_effect_other: "k \<notin> kv_key ` set ops \<Longrightarrow> kv_effect m ops k = m k"
  by (induction m ops rule: kv_effect.induct) (auto simp: kv_key_def fun_upd_def)

lemma kv_effect_deletes: "kv_effect m (map KvDelete ks) k = (if k \<in> set ks then None else m k)"
  by (induction ks arbitrary: m) auto

lemma kv_effect_sets_in:
  "k \<in> fst ` set kvs \<Longrightarrow> kv_effect m (map (\<lambda>(k, v). KvSet k v) kvs) k = map_of (rev kvs) k"
proof (induction kvs arbitrary: m rule: rev_induct)
  case Nil
  then show ?case by simp
next
  case (snoc x xs)
  obtain a b where x: "x = (a, b)" by fastforce
  show ?case
  proof (cases "k = a")
    case True
    then show ?thesis by (simp add: x kv_effect_append)
  next
    case False
    then show ?thesis using snoc by (simp add: x kv_effect_append)
  qed
qed

subsection \<open>Keys with a common prefix\<close>

lemma bytes_less_append [simp]: "(p @ (a :: bytes)) \<le> p @ b \<longleftrightarrow> a \<le> b" "(p @ a) < p @ b \<longleftrightarrow> a < b"
  by (induction p) (auto simp: Cons_le_Cons Cons_less_Cons)

lemma prefix_range:
  assumes "(k :: bytes) = p @ x # r" "x < y"
  shows "p @ [x] \<le> k \<and> k < p @ [y]"
  using assms by (auto simp: Cons_le_Cons Cons_less_Cons)

lemma range_prefix:
  assumes "p @ [x] \<le> (k :: bytes)" "k < p @ [y]" "y = x + 1" "x < y"
  shows "\<exists>r. k = p @ x # r"
  using assms(1,2)
proof (induction p arbitrary: k)
  case Nil
  then obtain z r where k: "k = z # r" by (cases k) auto
  have "z \<le> x \<or> z = y" "x \<le> z"
  proof -
    show "x \<le> z" using Nil k by (auto simp: Cons_le_Cons)
    have "z < y \<or> (z = y \<and> r < [])" using Nil k by (auto simp: Cons_less_Cons)
    then have "z < x + 1" using assms(3) by auto
    then show "z \<le> x \<or> z = y"
      using assms(3,4) by unat_arith
  qed
  moreover have "z \<noteq> y" using Nil k by (auto simp: Cons_less_Cons)
  ultimately show ?case using k by auto
next
  case (Cons a p)
  then obtain z r where k: "k = z # r" by (cases k) auto
  have "a \<le> z" "z \<le> a" using Cons.prems k by (auto simp: Cons_le_Cons Cons_less_Cons)
  then have "z = a" by simp
  then show ?case using Cons.IH [of r] Cons.prems k by (auto simp: Cons_le_Cons Cons_less_Cons)
qed

subsection \<open>An instance\<close>

definition list_kv_range :: "(bytes \<times> bytes) list \<Rightarrow> bytes \<Rightarrow> bytes \<Rightarrow> (bytes \<times> bytes) list" where
  "list_kv_range db lo hi =
     map (\<lambda>k. (k, the (map_of db k))) (sort (filter (\<lambda>k. lo \<le> k \<and> k < hi) (remdups (map fst db))))"

fun list_kv_apply :: "(bytes \<times> bytes) list \<Rightarrow> kv_op list \<Rightarrow> (bytes \<times> bytes) list" where
  "list_kv_apply db [] = db"
| "list_kv_apply db (KvSet k v # ops) = list_kv_apply (AList.update k v db) ops"
| "list_kv_apply db (KvDelete k # ops) = list_kv_apply (AList.delete k db) ops"

definition list_kv :: "(bytes \<times> bytes) list kv_ops" where
  "list_kv = \<lparr>kv_get = map_of, kv_apply = list_kv_apply, kv_range = list_kv_range\<rparr>"

lemma list_kv_apply_effect: "map_of (list_kv_apply db ops) = kv_effect (map_of db) ops"
  by (induction db ops rule: list_kv_apply.induct) (auto simp: update_conv' delete_conv' fun_upd_def)

lemma list_kv_laws: "kv_laws list_kv"
proof -
  have r: "set (list_kv_range db lo hi) = {(k, v). map_of db k = Some v \<and> lo \<le> k \<and> k < hi}" for db lo hi
  proof -
    have k: "k \<in> fst ` set db \<longleftrightarrow> (\<exists>v. map_of db k = Some v)" for k
      by (simp add: dom_map_of_conv_image_fst [symmetric] domIff)
    show ?thesis unfolding list_kv_range_def by (auto simp: k)
  qed
  have d: "map fst (list_kv_range db lo hi) = sort (filter (\<lambda>k. lo \<le> k \<and> k < hi) (remdups (map fst db)))"
    for db lo hi
    by (simp add: list_kv_range_def o_def)
  show ?thesis
    unfolding kv_laws_def by (simp add: list_kv_def list_kv_apply_effect r d)
qed

end
