(* ===== verification/ChunkIndex.thy ===== *)
theory ChunkIndex
  imports KvStore RepoTypes
begin

text \<open>
  \<open>internal/repository/index.go\<close>: the index from chunk hashes to references, kept in the key-value
  store under keys \<open>chunk:<hash>\<close>. Values are JSON; encoding and decoding of a reference are fields
  of \<open>index_deps\<close>, and \<open>index_laws\<close> states that decoding inverts encoding for references whose hash
  is plain ASCII and whose time is in the years 0 to 9999. Every call of the store may fail, which
  the argument \<open>fault\<close> decides.
\<close>

record 'db index_deps =
  ix_kv :: "'db kv_ops"
  ix_enc :: "chunk_ref \<Rightarrow> bytes option"
  ix_dec :: "bytes \<Rightarrow> chunk_ref option"

definition json_time_ok :: "int \<Rightarrow> bool" where
  "json_time_ok t \<longleftrightarrow> -62167219200000000000 \<le> t \<and> t < 253402300800000000000"

definition ref_json_ok :: "chunk_ref \<Rightarrow> bool" where
  "ref_json_ok r \<longleftrightarrow> list_all graphic (cr_hash r) \<and> json_time_ok (cr_created r) \<and>
     int64 (cr_segment r) \<and> int64 (cr_offset r) \<and> int64 (cr_length r) \<and>
     int64 (cr_original r) \<and> int64 (cr_compressed r)"

definition index_laws :: "'db index_deps \<Rightarrow> bool" where
  "index_laws d \<longleftrightarrow> kv_laws (ix_kv d) \<and>
     (\<forall>r. ref_json_ok r \<longrightarrow> (\<exists>b. ix_enc d r = Some b \<and> ix_dec d b = Some r))"

datatype index_error =
    IndexGetFailed
  | IndexDecodeFailed
  | IndexHashRequired
  | IndexEncodeFailed
  | IndexCommitFailed
  | IndexIterFailed

definition index_prefix :: bytes where
  "index_prefix = bytes_of ''chunk:''"

definition index_upper :: bytes where
  "index_upper = bytes_of ''chunk;''"

definition index_key :: "string \<Rightarrow> bytes" where
  "index_key hash = bytes_of (''chunk:'' @ hash)"

subsection \<open>Operations\<close>

definition index_get :: "'db index_deps \<Rightarrow> 'db \<Rightarrow> bool \<Rightarrow> string \<Rightarrow> index_error + chunk_ref option" where
  "index_get d db fault hash =
     (if fault then Inl IndexGetFailed
      else (case kv_get (ix_kv d) db (index_key hash) of
              None \<Rightarrow> Inr None
            | Some b \<Rightarrow> (case ix_dec d b of None \<Rightarrow> Inl IndexDecodeFailed | Some r \<Rightarrow> Inr (Some r))))"

text \<open>\<open>GetBatch\<close>: \<open>fault i\<close> is the fate of the lookup for the \<open>i\<close>-th hash of the argument list.\<close>

fun index_get_loop ::
    "'db index_deps \<Rightarrow> 'db \<Rightarrow> (nat \<Rightarrow> bool) \<Rightarrow> nat \<Rightarrow> string list \<Rightarrow> string list \<Rightarrow>
     (string \<times> chunk_ref) list \<Rightarrow> index_error + (string \<times> chunk_ref) list" where
  "index_get_loop d db fault i seen [] refs = Inr refs"
| "index_get_loop d db fault i seen (h # hs) refs =
     (if h = [] \<or> h \<in> set seen then index_get_loop d db fault (Suc i) seen hs refs
      else rbind (index_get d db (fault i) h) (\<lambda>r.
             index_get_loop d db fault (Suc i) (h # seen) hs
               (case r of None \<Rightarrow> refs | Some ref \<Rightarrow> AList.update h ref refs)))"

definition index_get_batch ::
    "'db index_deps \<Rightarrow> 'db \<Rightarrow> (nat \<Rightarrow> bool) \<Rightarrow> string list \<Rightarrow> index_error + (string \<times> chunk_ref) list" where
  "index_get_batch d db fault hs = index_get_loop d db fault 0 [] hs []"

definition stage_ref :: "'db index_deps \<Rightarrow> chunk_ref \<Rightarrow> index_error + kv_op" where
  "stage_ref d ref =
     (if cr_hash ref = [] then Inl IndexHashRequired
      else (case ix_enc d ref of
              None \<Rightarrow> Inl IndexEncodeFailed
            | Some b \<Rightarrow> Inr (KvSet (index_key (cr_hash ref)) b)))"

definition index_put_batch ::
    "'db index_deps \<Rightarrow> 'db \<Rightarrow> bool \<Rightarrow> chunk_ref list \<Rightarrow> (index_error + unit) \<times> 'db" where
  "index_put_batch d db fault refs =
     (if refs = [] then (Inr (), db)
      else (case rmap_list (stage_ref d) refs of
              Inl e \<Rightarrow> (Inl e, db)
            | Inr ops \<Rightarrow> if fault then (Inl IndexCommitFailed, db)
                         else (Inr (), kv_apply (ix_kv d) db ops)))"

definition index_put :: "'db index_deps \<Rightarrow> 'db \<Rightarrow> bool \<Rightarrow> chunk_ref \<Rightarrow> (index_error + unit) \<times> 'db" where
  "index_put d db fault ref = index_put_batch d db fault [ref]"

definition empty_cleanup :: cleanup_stats where
  "empty_cleanup = \<lparr>cs_count = 0, cs_logical = 0, cs_compressed = 0, cs_hashes = []\<rparr>"

definition add_cleanup :: "cleanup_stats \<Rightarrow> string \<Rightarrow> chunk_ref \<Rightarrow> cleanup_stats" where
  "add_cleanup st hash ref =
     \<lparr>cs_count = cs_count st + 1, cs_logical = wrap64 (cs_logical st + cr_original ref),
      cs_compressed = wrap64 (cs_compressed st + cr_compressed ref), cs_hashes = cs_hashes st @ [hash]\<rparr>"

fun collect_unreferenced ::
    "'db index_deps \<Rightarrow> string set \<Rightarrow> int \<Rightarrow> (bytes \<times> bytes) list \<Rightarrow> cleanup_stats \<Rightarrow> bytes list \<Rightarrow>
     index_error + cleanup_stats \<times> bytes list" where
  "collect_unreferenced d keep cutoff [] st dels = Inr (st, dels)"
| "collect_unreferenced d keep cutoff ((k, v) # kvs) st dels =
     (if \<not> prefix index_prefix k then collect_unreferenced d keep cutoff kvs st dels
      else let hash = string_of (drop (length index_prefix) k)
           in if hash \<in> keep then collect_unreferenced d keep cutoff kvs st dels
              else (case ix_dec d v of
                 None \<Rightarrow> Inl IndexDecodeFailed
               | Some ref \<Rightarrow>
                   if cutoff \<noteq> zero_time \<and> cr_created ref \<noteq> zero_time \<and> cutoff < cr_created ref
                   then collect_unreferenced d keep cutoff kvs st dels
                   else collect_unreferenced d keep cutoff kvs (add_cleanup st hash ref) (dels @ [k])))"

definition delete_unreferenced ::
    "'db index_deps \<Rightarrow> 'db \<Rightarrow> bool \<Rightarrow> bool \<Rightarrow> string set \<Rightarrow> int \<Rightarrow> (index_error + cleanup_stats) \<times> 'db" where
  "delete_unreferenced d db iter_fault commit_fault keep cutoff =
     (if iter_fault then (Inl IndexIterFailed, db)
      else (case collect_unreferenced d keep cutoff (kv_range (ix_kv d) db index_prefix index_upper)
                   empty_cleanup [] of
              Inl e \<Rightarrow> (Inl e, db)
            | Inr (st, dels) \<Rightarrow>
                if commit_fault then (Inl IndexCommitFailed, db)
                else (Inr st, kv_apply (ix_kv d) db (map KvDelete dels))))"

fun sum_index ::
    "'db index_deps \<Rightarrow> (bytes \<times> bytes) list \<Rightarrow> int \<times> int \<times> int \<Rightarrow> index_error + int \<times> int \<times> int" where
  "sum_index d [] acc = Inr acc"
| "sum_index d ((k, v) # kvs) acc =
     (if \<not> prefix index_prefix k then sum_index d kvs acc
      else (case ix_dec d v of
              None \<Rightarrow> Inl IndexDecodeFailed
            | Some ref \<Rightarrow> (case acc of (n, l, c) \<Rightarrow>
                sum_index d kvs (n + 1, wrap64 (l + cr_original ref), wrap64 (c + cr_compressed ref)))))"

definition index_stats :: "'db index_deps \<Rightarrow> 'db \<Rightarrow> bool \<Rightarrow> index_error + int \<times> int \<times> int" where
  "index_stats d db fault =
     (if fault then Inl IndexIterFailed
      else sum_index d (kv_range (ix_kv d) db index_prefix index_upper) (0, 0, 0))"

subsection \<open>The index as a map\<close>

definition index_view :: "'db index_deps \<Rightarrow> 'db \<Rightarrow> string \<Rightarrow> chunk_ref option" where
  "index_view d db hash =
     (case kv_get (ix_kv d) db (index_key hash) of None \<Rightarrow> None | Some b \<Rightarrow> ix_dec d b)"

text \<open>Every stored value decodes to a reference that carries the hash of its key.\<close>

definition index_wf :: "'db index_deps \<Rightarrow> 'db \<Rightarrow> bool" where
  "index_wf d db \<longleftrightarrow>
     (\<forall>h b. kv_get (ix_kv d) db (index_key h) = Some b \<longrightarrow> (\<exists>r. ix_dec d b = Some r \<and> cr_hash r = h))"

lemma index_key_inj [simp]: "index_key a = index_key b \<longleftrightarrow> a = b"
  by (simp add: index_key_def)

lemma index_wf_view: "index_wf d db \<Longrightarrow> index_view d db h = Some r \<Longrightarrow> cr_hash r = h"
  unfolding index_wf_def index_view_def by (fastforce split: option.splits)

lemma index_get_view: "index_wf d db \<Longrightarrow> index_get d db False h = Inr (index_view d db h)"
  unfolding index_wf_def index_get_def index_view_def by (fastforce split: option.splits)

lemma index_get_Inr: "index_get d db fault h = Inr r \<Longrightarrow> r = index_view d db h \<and> \<not> fault"
  by (auto simp: index_get_def index_view_def split: if_splits option.splits)

fun put_refs :: "(string \<Rightarrow> chunk_ref option) \<Rightarrow> chunk_ref list \<Rightarrow> string \<Rightarrow> chunk_ref option" where
  "put_refs m [] = m"
| "put_refs m (r # rs) = put_refs (m(cr_hash r \<mapsto> r)) rs"

lemma stage_ref_Inr:
  "index_laws d \<Longrightarrow> ref_json_ok r \<Longrightarrow> stage_ref d r = Inr op1 \<Longrightarrow>
   \<exists>b. op1 = KvSet (index_key (cr_hash r)) b \<and> ix_dec d b = Some r"
  unfolding index_laws_def stage_ref_def by (auto split: if_splits option.splits)

lemma kv_effect_stage:
  assumes laws: "index_laws d"
  shows "rmap_list (stage_ref d) refs = Inr ops \<Longrightarrow> \<forall>r \<in> set refs. ref_json_ok r \<Longrightarrow>
    \<forall>h. (case m (index_key h) of None \<Rightarrow> None | Some b \<Rightarrow> ix_dec d b) = v h \<Longrightarrow>
    \<forall>h b. m (index_key h) = Some b \<longrightarrow> (\<exists>r. ix_dec d b = Some r \<and> cr_hash r = h) \<Longrightarrow>
    (\<forall>h. (case kv_effect m ops (index_key h) of None \<Rightarrow> None | Some b \<Rightarrow> ix_dec d b) = put_refs v refs h) \<and>
    (\<forall>h b. kv_effect m ops (index_key h) = Some b \<longrightarrow> (\<exists>r. ix_dec d b = Some r \<and> cr_hash r = h))"
proof (induction refs arbitrary: ops m v)
  case Nil
  then show ?case by simp
next
  case (Cons r rs)
  obtain op1 ops' where o: "stage_ref d r = Inr op1" "rmap_list (stage_ref d) rs = Inr ops'" "ops = op1 # ops'"
    using Cons.prems(1) by (auto simp: result_simps)
  obtain b where b: "op1 = KvSet (index_key (cr_hash r)) b" "ix_dec d b = Some r"
    using stage_ref_Inr [OF laws _ o(1)] Cons.prems(2) by auto
  let ?m = "m(index_key (cr_hash r) \<mapsto> b)" and ?v = "v(cr_hash r \<mapsto> r)"
  have v: "\<forall>h. (case ?m (index_key h) of None \<Rightarrow> None | Some b \<Rightarrow> ix_dec d b) = ?v h"
    using Cons.prems(3) b(2) by auto
  have w: "\<forall>h b. ?m (index_key h) = Some b \<longrightarrow> (\<exists>r. ix_dec d b = Some r \<and> cr_hash r = h)"
    using Cons.prems(4) b(2) by auto
  have ok: "\<forall>r \<in> set rs. ref_json_ok r" using Cons.prems(2) by simp
  have e: "kv_effect m ops = kv_effect ?m ops'" "put_refs v (r # rs) = put_refs ?v rs"
    using o(3) b(1) by simp_all
  show ?case unfolding e by (rule Cons.IH [OF o(2) ok v w])
qed

lemma index_put_batch_view:
  assumes "index_laws d" "index_wf d db" "\<forall>r \<in> set refs. ref_json_ok r"
    and "index_put_batch d db fault refs = (Inr u, db')"
  shows "index_view d db' = put_refs (index_view d db) refs \<and> index_wf d db'"
proof (cases "refs = []")
  case True
  then show ?thesis using assms by (simp add: index_put_batch_def)
next
  case False
  then obtain ops where ops: "rmap_list (stage_ref d) refs = Inr ops" "db' = kv_apply (ix_kv d) db ops"
    using assms(4) by (auto simp: index_put_batch_def split: sum.splits if_splits)
  have kv: "kv_get (ix_kv d) db' = kv_effect (kv_get (ix_kv d) db) ops"
    using assms(1) ops(2) by (simp add: index_laws_def kv_lawsD)
  have w: "\<forall>h b. kv_get (ix_kv d) db (index_key h) = Some b \<longrightarrow> (\<exists>r. ix_dec d b = Some r \<and> cr_hash r = h)"
    using assms(2) by (simp add: index_wf_def)
  have v: "\<forall>h. (case kv_get (ix_kv d) db (index_key h) of None \<Rightarrow> None | Some b \<Rightarrow> ix_dec d b) = index_view d db h"
    by (simp add: index_view_def)
  from kv_effect_stage [OF assms(1) ops(1) assms(3) v w]
  show ?thesis unfolding index_wf_def index_view_def [abs_def] kv by (simp add: fun_eq_iff)
qed

lemma index_put_batch_Inl: "index_put_batch d db fault refs = (Inl e, db') \<Longrightarrow> db' = db"
  by (auto simp: index_put_batch_def split: if_splits sum.splits)

lemma put_refs_other: "h \<notin> cr_hash ` set refs \<Longrightarrow> put_refs m refs h = m h"
  by (induction refs arbitrary: m) auto

lemma put_refs_mem: "put_refs m refs h = Some r \<Longrightarrow> r \<in> set refs \<and> cr_hash r = h \<or> m h = Some r"
proof (induction refs arbitrary: m)
  case Nil
  then show ?case by simp
next
  case (Cons x xs)
  have "put_refs (m(cr_hash x \<mapsto> x)) xs h = Some r" using Cons.prems by simp
  from Cons.IH [OF this] have "r \<in> set xs \<and> cr_hash r = h \<or> (m(cr_hash x \<mapsto> x)) h = Some r" .
  then show ?case by (auto split: if_splits)
qed

lemma put_refs_distinct:
  "distinct (map cr_hash refs) \<Longrightarrow> r \<in> set refs \<Longrightarrow> put_refs m refs (cr_hash r) = Some r"
proof (induction refs arbitrary: m)
  case Nil
  then show ?case by simp
next
  case (Cons x xs)
  then show ?case by (cases "r = x") (auto simp: put_refs_other)
qed

subsection \<open>Deleting\<close>

definition expendable :: "string set \<Rightarrow> int \<Rightarrow> string \<Rightarrow> chunk_ref \<Rightarrow> bool" where
  "expendable keep cutoff h r \<longleftrightarrow>
     h \<notin> keep \<and> (cutoff = zero_time \<or> cr_created r = zero_time \<or> cr_created r \<le> cutoff)"

lemma index_prefix_split: "index_prefix = bytes_of ''chunk'' @ [0x3A]" "index_upper = bytes_of ''chunk'' @ [0x3B]"
  by (simp_all add: index_prefix_def index_upper_def bytes_of_def char_code_def)

lemma index_range_key: "index_prefix \<le> k \<and> k < index_upper \<longleftrightarrow> (\<exists>h. k = index_key h)"
proof
  assume "index_prefix \<le> k \<and> k < index_upper"
  then have "\<exists>r. k = bytes_of ''chunk'' @ 0x3A # r"
    unfolding index_prefix_split by (intro range_prefix [where y = "0x3B"]) auto
  then obtain r where r: "k = index_prefix @ r" by (auto simp: index_prefix_split)
  have "index_key (string_of r) = bytes_of ''chunk:'' @ bytes_of (string_of r)"
    by (simp add: index_key_def bytes_of_def)
  then have "k = index_key (string_of r)" using r by (simp add: index_prefix_def)
  then show "\<exists>h. k = index_key h" by blast
next
  assume "\<exists>h. k = index_key h"
  then obtain h where "k = index_key h" by blast
  then have "k = bytes_of ''chunk'' @ 0x3A # bytes_of h"
    by (simp add: index_key_def bytes_of_def char_code_def)
  then show "index_prefix \<le> k \<and> k < index_upper"
    unfolding index_prefix_split by (rule prefix_range) simp
qed

lemma index_key_prefix: "prefix index_prefix (index_key h)" "string_of (drop (length index_prefix) (index_key h)) = h"
proof -
  have "index_key h = index_prefix @ bytes_of h" by (simp add: index_key_def index_prefix_def bytes_of_def)
  then show "prefix index_prefix (index_key h)" "string_of (drop (length index_prefix) (index_key h)) = h"
    by simp_all
qed

lemma collect_unreferenced_spec:
  assumes "collect_unreferenced d keep cutoff kvs st dels = Inr (st', dels')"
    and "\<forall>(k, v) \<in> set kvs. \<exists>h r. k = index_key h \<and> ix_dec d v = Some r"
  shows "\<exists>hs. dels' = dels @ map index_key hs \<and> cs_hashes st' = cs_hashes st @ hs \<and>
    cs_count st' = cs_count st + int (length hs) \<and>
    (\<forall>h. h \<in> set hs \<longleftrightarrow> (\<exists>v r. (index_key h, v) \<in> set kvs \<and> ix_dec d v = Some r \<and> expendable keep cutoff h r))"
  using assms
proof (induction kvs arbitrary: st dels)
  case Nil
  then show ?case by auto
next
  case (Cons kv kvs)
  obtain h v r where kv: "kv = (index_key h, v)" and r: "ix_dec d v = Some r" using Cons.prems(2) by auto
  have rest: "\<forall>(k, v) \<in> set kvs. \<exists>h r. k = index_key h \<and> ix_dec d v = Some r" using Cons.prems(2) by auto
  show ?case
  proof (cases "expendable keep cutoff h r")
    case True
    then have "collect_unreferenced d keep cutoff kvs (add_cleanup st h r) (dels @ [index_key h]) = Inr (st', dels')"
      using Cons.prems(1) by (auto simp: kv r index_key_prefix expendable_def Let_def split: if_splits)
    from Cons.IH [OF this rest] obtain hs where hs: "dels' = (dels @ [index_key h]) @ map index_key hs"
      "cs_hashes st' = cs_hashes (add_cleanup st h r) @ hs"
      "cs_count st' = cs_count (add_cleanup st h r) + int (length hs)"
      "\<forall>h. h \<in> set hs \<longleftrightarrow> (\<exists>v r. (index_key h, v) \<in> set kvs \<and> ix_dec d v = Some r \<and> expendable keep cutoff h r)"
      by blast
    show ?thesis using hs True r by (intro exI [of _ "h # hs"]) (auto simp: kv add_cleanup_def)
  next
    case False
    then have "collect_unreferenced d keep cutoff kvs st dels = Inr (st', dels')"
      using Cons.prems(1) by (auto simp: kv r index_key_prefix expendable_def Let_def split: if_splits)
    from Cons.IH [OF this rest] obtain hs where hs: "dels' = dels @ map index_key hs"
      "cs_hashes st' = cs_hashes st @ hs" "cs_count st' = cs_count st + int (length hs)"
      "\<forall>h. h \<in> set hs \<longleftrightarrow> (\<exists>v r. (index_key h, v) \<in> set kvs \<and> ix_dec d v = Some r \<and> expendable keep cutoff h r)"
      by blast
    show ?thesis using hs False r by (intro exI [of _ hs]) (auto simp: kv)
  qed
qed

lemma delete_unreferenced_view:
  assumes laws: "index_laws d" and wf: "index_wf d db"
    and del: "delete_unreferenced d db f1 f2 keep cutoff = (Inr st, db')"
  shows "index_view d db' =
      (\<lambda>h. case index_view d db h of None \<Rightarrow> None | Some r \<Rightarrow> if expendable keep cutoff h r then None else Some r) \<and>
    index_wf d db' \<and>
    set (cs_hashes st) = {h. \<exists>r. index_view d db h = Some r \<and> expendable keep cutoff h r} \<and>
    cs_count st = int (length (cs_hashes st))"
proof -
  let ?kvs = "kv_range (ix_kv d) db index_prefix index_upper"
  have kvl: "kv_laws (ix_kv d)" using laws by (simp add: index_laws_def)
  obtain dels where c: "collect_unreferenced d keep cutoff ?kvs empty_cleanup [] = Inr (st, dels)"
    and db': "db' = kv_apply (ix_kv d) db (map KvDelete dels)"
    using del by (auto simp: delete_unreferenced_def split: if_splits sum.splits)
  have mem: "(k, v) \<in> set ?kvs \<longleftrightarrow> kv_get (ix_kv d) db k = Some v \<and> (\<exists>h. k = index_key h)" for k v
    using kv_lawsD(4) [OF kvl] index_range_key by auto
  have dec: "\<forall>(k, v) \<in> set ?kvs. \<exists>h r. k = index_key h \<and> ix_dec d v = Some r"
    using wf mem unfolding index_wf_def by fastforce
  obtain hs where hs: "dels = map index_key hs" "cs_hashes st = hs" "cs_count st = int (length hs)"
    "\<forall>h. h \<in> set hs \<longleftrightarrow> (\<exists>v r. (index_key h, v) \<in> set ?kvs \<and> ix_dec d v = Some r \<and> expendable keep cutoff h r)"
    using collect_unreferenced_spec [OF c dec] by (simp add: empty_cleanup_def)
  have inhs: "h \<in> set hs \<longleftrightarrow> (\<exists>r. index_view d db h = Some r \<and> expendable keep cutoff h r)" for h
    using hs(4) mem by (auto simp: index_view_def split: option.splits)
  have get: "kv_get (ix_kv d) db' (index_key h) = (if h \<in> set hs then None else kv_get (ix_kv d) db (index_key h))" for h
    unfolding db' kv_lawsD(1) [OF kvl] kv_effect_deletes hs(1) by auto
  have "index_view d db' h = (case index_view d db h of None \<Rightarrow> None
      | Some r \<Rightarrow> if expendable keep cutoff h r then None else Some r)" for h
    using inhs [of h] unfolding index_view_def get by (auto split: option.splits)
  moreover have "index_wf d db'" using wf unfolding index_wf_def get by auto
  moreover have "set (cs_hashes st) = {h. \<exists>r. index_view d db h = Some r \<and> expendable keep cutoff h r}"
    unfolding hs(2) using inhs by blast
  ultimately show ?thesis using hs(2,3) by (auto simp: fun_eq_iff)
qed

lemma delete_unreferenced_Inl: "delete_unreferenced d db f1 f2 keep cutoff = (Inl e, db') \<Longrightarrow> db' = db"
  by (auto simp: delete_unreferenced_def split: if_splits sum.splits)

subsection \<open>An instance of the parameters\<close>

text \<open>
  A binary encoding of references in place of JSON, over the list instance of the store: an integer
  is an optional sign, its bits from the lowest and a terminator.
\<close>

function bits_nat :: "nat \<Rightarrow> bytes" where
  "bits_nat n = (if n = 0 then [2] else (if n mod 2 = 1 then 1 else 0) # bits_nat (n div 2))"
  by pat_completeness auto
termination by (relation "measure (\<lambda>n. n)") auto

declare bits_nat.simps [simp del]

definition bits_int :: "int \<Rightarrow> bytes" where
  "bits_int x = (if x < 0 then 3 # bits_nat (nat (- x)) else bits_nat (nat x))"

fun bits_dec :: "bytes \<Rightarrow> int \<times> bytes" where
  "bits_dec [] = (0, [])"
| "bits_dec (b # bs) =
     (if b = 2 then (0, bs)
      else (case bits_dec bs of (x, rest) \<Rightarrow>
        (if b = 3 then - x else if b = 1 then 1 + 2 * x else 2 * x, rest)))"

lemma bits_dec_nat: "bits_dec (bits_nat n @ r) = (int n, r)"
proof (induction n rule: bits_nat.induct)
  case (1 n)
  show ?case
  proof (cases "n = 0")
    case True
    then show ?thesis by (simp add: bits_nat.simps [of 0])
  next
    case False
    have "int (n mod 2 + 2 * (n div 2)) = int n" by (simp only: mod_mult_div_eq)
    then have "int n = int (n mod 2) + 2 * int (n div 2)" by (simp only: of_nat_add of_nat_mult of_nat_numeral)
    moreover have "n mod 2 = 0 \<or> n mod 2 = 1" by presburger
    ultimately show ?thesis using 1 False by (auto simp: bits_nat.simps [of n])
  qed
qed

lemma bits_dec_int: "bits_dec (bits_int x @ r) = (x, r)"
  by (simp add: bits_int_def bits_dec_nat)

definition plain_enc :: "chunk_ref \<Rightarrow> bytes option" where
  "plain_enc r = (if ref_json_ok r then Some
     (bits_int (cr_segment r) @ bits_int (cr_offset r) @ bits_int (cr_length r) @
      bits_int (cr_original r) @ bits_int (cr_compressed r) @ bits_int (cr_created r) @
      bytes_of (cr_hash r)) else None)"

definition plain_dec :: "bytes \<Rightarrow> chunk_ref option" where
  "plain_dec b0 =
     (case bits_dec b0 of (seg, b1) \<Rightarrow> (case bits_dec b1 of (off, b2) \<Rightarrow> (case bits_dec b2 of (len, b3) \<Rightarrow>
      (case bits_dec b3 of (orig, b4) \<Rightarrow> (case bits_dec b4 of (packed, b5) \<Rightarrow> (case bits_dec b5 of (created, b6) \<Rightarrow>
        Some \<lparr>cr_hash = string_of b6, cr_segment = seg, cr_offset = off, cr_length = len,
          cr_original = orig, cr_compressed = packed, cr_created = created\<rparr>))))))"

definition plain_index :: "(bytes \<times> bytes) list index_deps" where
  "plain_index = \<lparr>ix_kv = list_kv, ix_enc = plain_enc, ix_dec = plain_dec\<rparr>"

lemma plain_index_laws: "index_laws plain_index"
proof -
  have "\<exists>b. plain_enc r = Some b \<and> plain_dec b = Some r" if "ref_json_ok r" for r
    using that by (simp add: plain_enc_def plain_dec_def bits_dec_int)
  then show ?thesis by (simp add: index_laws_def plain_index_def list_kv_laws)
qed

definition sample_ref :: "string \<Rightarrow> int \<Rightarrow> chunk_ref" where
  "sample_ref h t = \<lparr>cr_hash = h, cr_segment = 1, cr_offset = 0, cr_length = 117, cr_original = 1,
     cr_compressed = 1, cr_created = t\<rparr>"

lemma plain_index_wf_Nil: "index_wf plain_index []"
  by (simp add: index_wf_def plain_index_def list_kv_def)

subsection \<open>Properties\<close>

text \<open>
  The index refines a map from hashes to references: after a successful batch a lookup
  of any hash gives the batch's last reference for it, or what was there before; a failed batch
  changes nothing.
\<close>

theorem index_put_get:
  assumes "index_laws d" and "index_wf d db" and "\<forall>r \<in> set refs. ref_json_ok r"
    and "index_put_batch d db fault refs = (res, db')"
  shows "(res = Inr () \<longrightarrow> (\<forall>h. index_get d db' False h = Inr (put_refs (index_view d db) refs h))) \<and>
    (res \<noteq> Inr () \<longrightarrow> db' = db) \<and> index_wf d db'"
proof (cases res)
  case (Inl e)
  then have "db' = db" using index_put_batch_Inl [of d db fault refs e db'] assms(4) by simp
  then show ?thesis using Inl assms(2) by simp
next
  case (Inr u)
  then show ?thesis
    using index_put_batch_view [OF assms(1-3)] assms(4) index_get_view [of d db'] by simp
qed

lemma index_put_get_witness:
  "let (res, db) = index_put_batch plain_index [] False [sample_ref ''aa'' 5, sample_ref ''bb'' 6]
   in index_get plain_index db False ''aa'' = Inr (Some (sample_ref ''aa'' 5)) \<and>
      index_get plain_index db False ''cc'' = Inr None"
proof -
  let ?refs = "[sample_ref ''aa'' 5, sample_ref ''bb'' 6]"
  obtain res db where p: "index_put_batch plain_index [] False ?refs = (res, db)" by fastforce
  have "fst (index_put_batch plain_index [] False ?refs) = Inr ()" by code_simp
  then have r: "res = Inr ()" using p by simp
  have ok: "\<forall>r \<in> set ?refs. ref_json_ok r" by code_simp
  have v: "index_view plain_index [] h = None" for h by (simp add: index_view_def plain_index_def list_kv_def)
  from index_put_get [OF plain_index_laws plain_index_wf_Nil ok p] r
  show ?thesis using p by (simp add: sample_ref_def v)
qed

text \<open>
  Garbage collection of the index removes exactly the references that are not in the
  keep set and not younger than the cutoff, reports exactly their hashes, and keeps every other
  entry unchanged.
\<close>

theorem delete_unreferenced_exact:
  assumes "index_laws d" and "index_wf d db"
    and "delete_unreferenced d db f1 f2 keep cutoff = (Inr st, db')"
  shows "(\<forall>h. index_get d db' False h = Inr (case index_view d db h of None \<Rightarrow> None
        | Some r \<Rightarrow> if expendable keep cutoff h r then None else Some r)) \<and>
    set (cs_hashes st) = {h. \<exists>r. index_view d db h = Some r \<and> expendable keep cutoff h r} \<and>
    cs_count st = int (length (cs_hashes st))"
  using delete_unreferenced_view [OF assms] index_get_view [of d db'] by simp

lemma delete_unreferenced_exact_witness:
  "let db = snd (index_put_batch plain_index [] False
              [sample_ref ''aa'' 5, sample_ref ''bb'' 6, sample_ref ''cc'' 9]);
       (res, db') = delete_unreferenced plain_index db False False {''aa''} 7
   in index_get plain_index db' False ''aa'' = Inr (Some (sample_ref ''aa'' 5)) \<and>
      index_get plain_index db' False ''bb'' = Inr None \<and>
      index_get plain_index db' False ''cc'' = Inr (Some (sample_ref ''cc'' 9))"
proof -
  let ?refs = "[sample_ref ''aa'' 5, sample_ref ''bb'' 6, sample_ref ''cc'' 9]"
  let ?p = "index_put_batch plain_index [] False ?refs"
  let ?db = "snd ?p"
  have ok: "\<forall>r \<in> set ?refs. ref_json_ok r" by code_simp
  have "fst ?p = Inr ()" by code_simp
  then have p: "?p = (Inr (), ?db)" by (simp add: prod_eq_iff)
  have v0: "index_view plain_index [] = (\<lambda>h. None)" by (simp add: fun_eq_iff index_view_def plain_index_def list_kv_def)
  have wf: "index_wf plain_index ?db" and v: "index_view plain_index ?db = put_refs (\<lambda>h. None) ?refs"
    using index_put_batch_view [OF plain_index_laws plain_index_wf_Nil ok p] v0 by auto
  have "case delete_unreferenced plain_index ?db False False {''aa''} 7 of (Inr st, db') \<Rightarrow> True | _ \<Rightarrow> False"
    by code_simp
  then obtain st db' where d: "delete_unreferenced plain_index ?db False False {''aa''} 7 = (Inr st, db')"
    by (auto split: prod.splits sum.splits)
  from delete_unreferenced_exact [OF plain_index_laws wf d]
  have g: "index_get plain_index db' False h = Inr (case put_refs (\<lambda>h. None) ?refs h of None \<Rightarrow> None
        | Some r \<Rightarrow> if expendable {''aa''} 7 h r then None else Some r)" for h
    unfolding v by blast
  show ?thesis
    unfolding Let_def d prod.case g by (simp add: sample_ref_def expendable_def zero_time_def)
qed

end
