(* ===== verification/Pack.thy ===== *)
theory Pack
  imports RepoTypes
begin

text \<open>
  \<open>internal/repository/pack.go\<close>: the format that stores many small files as one object. A header
  names every file with its size, position, mode and modification time; the file contents follow.
\<close>

record pack_payload =
  pp_path :: string
  pp_mode :: u32
  pp_mtime :: int
  pp_data :: bytes

record pack_index =
  pi_path :: string
  pi_original :: int
  pi_offset :: int
  pi_length :: int
  pi_mode :: u32
  pi_mtime :: int

datatype pack_error =
    PackNoFiles
  | PackTooManyFiles
  | PackPathInvalid string
  | PackFileEmpty string
  | PackPathTooLong string
  | PackShortRead
  | PackMagicInvalid
  | PackPathLengthInvalid
  | PackSizeMismatch string
  | PackOutOfBounds string
  | PackRangeTooLarge string
  | PackOffsetInHeader string
  | PackRefOutOfBounds string

definition pack_magic :: bytes where
  "pack_magic = bytes_of (''TBKPACK1'' @ [CHR 0x0A])"

definition max_u32 :: nat where
  "max_u32 = 4294967295"

subsection \<open>Encoding\<close>

definition pack_entry_len :: "string \<Rightarrow> int" where
  "pack_entry_len p = int (4 + length p + 8 + 8 + 8 + 4 + 8)"

fun pack_scan_files :: "int \<Rightarrow> pack_payload list \<Rightarrow> pack_error + int \<times> pack_index list" where
  "pack_scan_files hdr [] = Inr (hdr, [])"
| "pack_scan_files hdr (f # fs) =
     (let p = clean_manifest_path (pp_path f)
      in if p = ''.'' \<or> p \<noteq> pp_path f then Inl (PackPathInvalid (pp_path f))
         else if pp_data f = [] then Inl (PackFileEmpty (pp_path f))
         else if max_u32 < length p then Inl (PackPathTooLong (pp_path f))
         else rbind (pack_scan_files (hdr + pack_entry_len p) fs) (\<lambda>(h, ixs).
           Inr (h, \<lparr>pi_path = p, pi_original = int (length (pp_data f)), pi_offset = 0,
                    pi_length = int (length (pp_data f)), pi_mode = pp_mode f,
                    pi_mtime = wrap64 (pp_mtime f)\<rparr> # ixs)))"

fun assign_offsets :: "int \<Rightarrow> pack_index list \<Rightarrow> pack_index list" where
  "assign_offsets off [] = []"
| "assign_offsets off (ix # ixs) = ix\<lparr>pi_offset := off\<rparr> # assign_offsets (off + pi_length ix) ixs"

definition encode_index_entry :: "pack_index \<Rightarrow> bytes" where
  "encode_index_entry ix =
     put_be32 (of_nat (length (pi_path ix))) @ bytes_of (pi_path ix) @
     put_be64 (u64_of (pi_original ix)) @ put_be64 (u64_of (pi_offset ix)) @
     put_be64 (u64_of (pi_length ix)) @ put_be32 (pi_mode ix) @ put_be64 (u64_of (pi_mtime ix))"

definition encode_pack :: "pack_payload list \<Rightarrow> pack_error + bytes \<times> pack_index list" where
  "encode_pack files =
     (if files = [] then Inl PackNoFiles
      else if max_u32 < length files then Inl PackTooManyFiles
      else rbind (pack_scan_files (int (length pack_magic + 4)) files) (\<lambda>(hdr, ixs0).
        let ixs = assign_offsets hdr ixs0
        in Inr (pack_magic @ put_be32 (of_nat (length files)) @
                concat (map encode_index_entry ixs) @ concat (map pp_data files), ixs)))"

subsection \<open>Decoding\<close>

definition take_bytes :: "nat \<Rightarrow> bytes \<Rightarrow> pack_error + bytes \<times> bytes" where
  "take_bytes n bs = (if n \<le> length bs then Inr (take n bs, drop n bs) else Inl PackShortRead)"

definition decode_index_entry :: "nat \<Rightarrow> bytes \<Rightarrow> pack_error + pack_index \<times> bytes" where
  "decode_index_entry tot r0 =
     rbind (take_bytes 4 r0) (\<lambda>(lb, r1).
       let plen = get_be32 lb
       in if plen = 0 \<or> length r1 < unat plen then Inl PackPathLengthInvalid
          else rbind (take_bytes (unat plen) r1) (\<lambda>(pb, r2).
            let p = string_of pb
            in if clean_manifest_path p \<noteq> p \<or> p = ''.'' then Inl (PackPathInvalid p)
               else rbind (take_bytes 8 r2) (\<lambda>(ob, r3). rbind (take_bytes 8 r3) (\<lambda>(fb, r4).
                    rbind (take_bytes 8 r4) (\<lambda>(nb, r5). rbind (take_bytes 4 r5) (\<lambda>(mb, r6).
                    rbind (take_bytes 8 r6) (\<lambda>(tb, r7).
                      let original = get_be64 ob; offset = get_be64 fb; len = get_be64 nb;
                          tot64 = (of_nat tot :: u64)
                      in if original \<noteq> len then Inl (PackSizeMismatch p)
                         else if tot64 < offset \<or> tot64 < len \<or> tot64 < offset + len \<or> offset + len < offset
                         then Inl (PackOutOfBounds p)
                         else if 0x7FFFFFFFFFFFFFFF < offset \<or> 0x7FFFFFFFFFFFFFFF < len
                         then Inl (PackRangeTooLarge p)
                         else Inr (\<lparr>pi_path = p, pi_original = sint original, pi_offset = sint offset,
                                    pi_length = sint len, pi_mode = get_be32 mb,
                                    pi_mtime = sint (get_be64 tb)\<rparr>, r7))))))))"

fun decode_index_entries :: "nat \<Rightarrow> nat \<Rightarrow> bytes \<Rightarrow> pack_error + pack_index list \<times> bytes" where
  "decode_index_entries tot 0 r = Inr ([], r)"
| "decode_index_entries tot (Suc n) r =
     rbind (decode_index_entry tot r) (\<lambda>(ix, r'). rbind (decode_index_entries tot n r') (\<lambda>(ixs, r'').
       Inr (ix # ixs, r'')))"

definition decode_pack_index :: "bytes \<Rightarrow> pack_error + pack_index list" where
  "decode_pack_index data =
     rbind (take_bytes (length pack_magic) data) (\<lambda>(magic, r1).
       if magic \<noteq> pack_magic then Inl PackMagicInvalid
       else rbind (take_bytes 4 r1) (\<lambda>(cb, r2).
         let n = get_be32 cb
         in if n = 0 then Inl PackNoFiles
            else rbind (decode_index_entries (length data) (unat n) r2) (\<lambda>(ixs, r3).
              let start = int (length data) - int (length r3)
              in case find (\<lambda>ix. pi_offset ix < start) ixs of
                   Some ix \<Rightarrow> Inl (PackOffsetInHeader (pi_path ix))
                 | None \<Rightarrow> Inr ixs)))"

definition pack_file_bytes :: "bytes \<Rightarrow> pack_file_ref \<Rightarrow> pack_error + bytes" where
  "pack_file_bytes data ref =
     (let end_pos = wrap64 (pr_offset ref + pr_length ref)
      in if pr_offset ref < 0 \<or> pr_length ref < 0 \<or> end_pos < pr_offset ref \<or> int (length data) < end_pos
         then Inl (PackRefOutOfBounds (pr_id ref))
         else Inr (take (nat (pr_length ref)) (drop (nat (pr_offset ref)) data)))"

subsection \<open>Decoding what was encoded\<close>

lemma take_bytes_append [simp]: "length a = n \<Longrightarrow> take_bytes n (a @ b) = Inr (a, b)"
  by (simp add: take_bytes_def)

definition index_ok :: "nat \<Rightarrow> pack_index \<Rightarrow> bool" where
  "index_ok tot ix \<longleftrightarrow>
     pi_path ix \<noteq> [] \<and> clean_manifest_path (pi_path ix) = pi_path ix \<and> pi_path ix \<noteq> ''.'' \<and>
     length (pi_path ix) \<le> max_u32 \<and> pi_original ix = pi_length ix \<and> 0 \<le> pi_offset ix \<and>
     0 \<le> pi_length ix \<and> pi_offset ix + pi_length ix \<le> int tot \<and> int64 (pi_mtime ix)"

lemma u64_of_order:
  assumes "0 \<le> x" "x < 2 ^ 63" "0 \<le> y" "y < 2 ^ 63"
  shows "u64_of x < u64_of y \<longleftrightarrow> x < y"
proof -
  have "int64 x" "int64 y" using assms by (auto simp: int64_def)
  then show ?thesis using assms by (auto simp: word_less_nat_alt unat_u64_of)
qed

lemma u64_of_add: "u64_of x + u64_of y = u64_of (x + y)"
  by (simp add: u64_of_def)

lemma length_encode_index_entry: "int (length (encode_index_entry ix)) = pack_entry_len (pi_path ix)"
  by (simp add: encode_index_entry_def pack_entry_len_def)

lemma decode_encode_entry:
  assumes ok: "index_ok tot ix" and tot: "tot < 2 ^ 62"
  shows "decode_index_entry tot (encode_index_entry ix @ rest) = Inr (ix, rest)"
proof -
  let ?o = "pi_offset ix" and ?l = "pi_length ix" and ?p = "pi_path ix"
  have b: "0 \<le> ?o" "0 \<le> ?l" "?o + ?l \<le> int tot" "pi_original ix = ?l" "int64 (pi_mtime ix)"
    and p: "?p \<noteq> []" "clean_manifest_path ?p = ?p" "?p \<noteq> ''.''" "length ?p \<le> max_u32"
    using ok by (auto simp: index_ok_def)
  have T: "int tot < 2 ^ 62" using tot by (metis of_nat_less_numeral_power_cancel_iff)
  then have T63: "int tot < 2 ^ 63" by simp
  have plen: "unat (of_nat (length ?p) :: u32) = length ?p"
    using p(4) by (simp add: unat_of_nat max_u32_def)
  then have nz: "(of_nat (length ?p) :: u32) \<noteq> 0" using p(1) by (metis length_0_conv unat_0)
  have tw: "(of_nat tot :: u64) = u64_of (int tot)" by (simp add: u64_of_def)
  have w: "\<not> u64_of (int tot) < u64_of ?o" "\<not> u64_of (int tot) < u64_of ?l"
    "\<not> u64_of (int tot) < u64_of (?o + ?l)" "\<not> u64_of (?o + ?l) < u64_of ?o"
    using b T63 by (subst u64_of_order; linarith)+
  have m: "(0x7FFFFFFFFFFFFFFF :: u64) = u64_of 0x7FFFFFFFFFFFFFFF" by (simp add: u64_of_def)
  have mx: "\<not> 0x7FFFFFFFFFFFFFFF < u64_of ?o" "\<not> 0x7FFFFFFFFFFFFFFF < u64_of ?l"
    unfolding m using b T63 by (subst u64_of_order; simp)+
  have i: "int64 ?o" "int64 ?l" using b T63 by (auto simp: int64_def)
  show ?thesis
    unfolding decode_index_entry_def encode_index_entry_def
    by (simp add: plen nz p b w mx i tw u64_of_add Let_def)
qed

lemma decode_encode_entries:
  assumes "\<forall>ix \<in> set ixs. index_ok tot ix" "tot < 2 ^ 62"
  shows "decode_index_entries tot (length ixs) (concat (map encode_index_entry ixs) @ rest) = Inr (ixs, rest)"
  using assms(1)
proof (induction ixs)
  case Nil
  then show ?case by simp
next
  case (Cons ix ixs)
  then show ?case by (simp add: decode_encode_entry [OF _ assms(2)])
qed

text \<open>Where the contents of a file start: after the header and the contents of the files before it.\<close>

fun offsets_from :: "int \<Rightarrow> pack_payload list \<Rightarrow> int list" where
  "offsets_from off [] = []"
| "offsets_from off (f # fs) = off # offsets_from (off + int (length (pp_data f))) fs"

definition file_index :: "pack_payload \<Rightarrow> int \<Rightarrow> pack_index" where
  "file_index f off =
     \<lparr>pi_path = pp_path f, pi_original = int (length (pp_data f)), pi_offset = off,
      pi_length = int (length (pp_data f)), pi_mode = pp_mode f, pi_mtime = wrap64 (pp_mtime f)\<rparr>"

definition payload_ok :: "pack_payload \<Rightarrow> bool" where
  "payload_ok f \<longleftrightarrow> clean_manifest_path (pp_path f) = pp_path f \<and> pp_path f \<noteq> ''.'' \<and>
     pp_data f \<noteq> [] \<and> length (pp_path f) \<le> max_u32"

lemma pack_scan_files_Inr:
  "pack_scan_files hdr fs = Inr (h, ixs) \<longleftrightarrow>
    (\<forall>f \<in> set fs. payload_ok f) \<and> h = hdr + sum_list (map (\<lambda>f. pack_entry_len (pp_path f)) fs) \<and>
    ixs = map (\<lambda>f. file_index f 0) fs"
proof (induction fs arbitrary: hdr h ixs)
  case Nil
  then show ?case by auto
next
  case (Cons f fs)
  show ?case
  proof (cases "payload_ok f")
    case True
    then show ?thesis by (auto simp: Let_def result_simps Cons payload_ok_def file_index_def)
  next
    case False
    then show ?thesis by (auto simp: Let_def result_simps payload_ok_def split: if_splits)
  qed
qed

lemma assign_offsets_files:
  "assign_offsets off (map (\<lambda>f. file_index f 0) fs) = map2 file_index fs (offsets_from off fs)"
  by (induction fs arbitrary: off) (auto simp: file_index_def)

lemma length_offsets_from [simp]: "length (offsets_from off fs) = length fs"
  by (induction fs arbitrary: off) auto

lemma offsets_from_nth:
  "i < length fs \<Longrightarrow> offsets_from off fs ! i = off + int (length (concat (map pp_data (take i fs))))"
proof (induction fs arbitrary: off i)
  case Nil
  then show ?case by simp
next
  case (Cons f fs)
  then show ?case by (cases i) auto
qed

definition pack_header_len :: "pack_payload list \<Rightarrow> int" where
  "pack_header_len fs = 13 + sum_list (map (\<lambda>f. pack_entry_len (pp_path f)) fs)"

lemma length_pack_magic: "length pack_magic = 9"
  by (simp add: pack_magic_def)

lemma encode_pack_Inr:
  "encode_pack files = Inr (data, ixs) \<longleftrightarrow>
    files \<noteq> [] \<and> length files \<le> max_u32 \<and> (\<forall>f \<in> set files. payload_ok f) \<and>
    ixs = map2 file_index files (offsets_from (pack_header_len files) files) \<and>
    data = pack_magic @ put_be32 (of_nat (length files)) @
      concat (map encode_index_entry ixs) @ concat (map pp_data files)"
  by (auto simp: encode_pack_def result_simps pack_scan_files_Inr Let_def assign_offsets_files
      length_pack_magic pack_header_len_def)

lemma length_index_entries:
  "length offs = length fs \<Longrightarrow>
   int (length (concat (map encode_index_entry (map2 file_index fs offs)))) =
     sum_list (map (\<lambda>f. pack_entry_len (pp_path f)) fs)"
proof (induction fs arbitrary: offs)
  case Nil
  then show ?case by simp
next
  case (Cons f fs)
  then obtain x xs where "offs = x # xs" by (cases offs) auto
  then show ?case using Cons by (simp add: length_encode_index_entry file_index_def)
qed

lemma encoded_length:
  assumes "encode_pack files = Inr (data, ixs)"
  shows "int (length data) = pack_header_len files + int (length (concat (map pp_data files)))"
    and "int (length (pack_magic @ put_be32 (of_nat (length files)) @ concat (map encode_index_entry ixs))) =
      pack_header_len files"
proof -
  have d: "ixs = map2 file_index files (offsets_from (pack_header_len files) files)"
    "data = pack_magic @ put_be32 (of_nat (length files)) @
      concat (map encode_index_entry ixs) @ concat (map pp_data files)"
    using assms by (auto simp: encode_pack_Inr)
  have h: "int (length (concat (map encode_index_entry ixs))) =
      sum_list (map (\<lambda>f. pack_entry_len (pp_path f)) files)"
    unfolding d(1) by (rule length_index_entries) simp
  show "int (length (pack_magic @ put_be32 (of_nat (length files)) @ concat (map encode_index_entry ixs))) =
      pack_header_len files"
    using h by (simp add: length_pack_magic pack_header_len_def)
  then show "int (length data) = pack_header_len files + int (length (concat (map pp_data files)))"
    unfolding d(2) by simp
qed

lemma encoded_index_nth:
  assumes "encode_pack files = Inr (data, ixs)" "i < length files"
  shows "ixs ! i = file_index (files ! i)
    (pack_header_len files + int (length (concat (map pp_data (take i files)))))"
  using assms by (simp add: encode_pack_Inr offsets_from_nth)

lemma pack_header_len_pos: "13 \<le> pack_header_len files"
  unfolding pack_header_len_def by (induction files) (auto simp: pack_entry_len_def)

lemma concat_take_length:
  "i < length xs \<Longrightarrow> length (concat (take i xs)) + length (xs ! i) \<le> length (concat xs)"
proof (induction xs arbitrary: i)
  case Nil
  then show ?case by simp
next
  case (Cons x xs)
  then show ?case by (cases i) auto
qed

lemma concat_take_drop:
  "i < length xs \<Longrightarrow> take (length (xs ! i)) (drop (length (concat (take i xs))) (concat xs)) = xs ! i"
proof (induction xs arbitrary: i)
  case Nil
  then show ?case by simp
next
  case (Cons x xs)
  then show ?case by (cases i) auto
qed

lemma clean_manifest_path_nonempty: "clean_manifest_path p = p \<Longrightarrow> p \<noteq> []"
  using clean_manifest_path_rel [of p] by auto

lemma encoded_index_ok:
  assumes "encode_pack files = Inr (data, ixs)"
  shows "\<forall>ix \<in> set ixs. index_ok (length data) ix \<and> pack_header_len files \<le> pi_offset ix"
proof
  fix ix assume "ix \<in> set ixs"
  moreover have len: "length ixs = length files" using assms by (simp add: encode_pack_Inr)
  ultimately obtain i where i: "i < length files" "ix = ixs ! i" by (metis in_set_conv_nth)
  have ok: "payload_ok (files ! i)" using assms i by (simp add: encode_pack_Inr)
  have "length (concat (map pp_data (take i files))) + length (pp_data (files ! i)) \<le>
      length (concat (map pp_data files))"
    using concat_take_length [of i "map pp_data files"] i by (simp add: take_map)
  then have "pi_offset ix + pi_length ix \<le> int (length data)" "pack_header_len files \<le> pi_offset ix"
    using encoded_index_nth [OF assms i(1)] encoded_length(1) [OF assms] i(2)
    by (auto simp: file_index_def)
  then show "index_ok (length data) ix \<and> pack_header_len files \<le> pi_offset ix"
    using encoded_index_nth [OF assms i(1)] i(2) ok pack_header_len_pos [of files]
    by (auto simp: index_ok_def file_index_def payload_ok_def clean_manifest_path_nonempty)
qed

subsection \<open>What a decoded index guarantees\<close>

lemma u64_bounds:
  assumes "\<not> 0x7FFFFFFFFFFFFFFF < (w :: u64)"
  shows "0 \<le> sint w \<and> sint w = int (unat w)"
proof -
  have "unat w \<le> 0x7FFFFFFFFFFFFFFF" using assms by (simp add: word_less_nat_alt)
  then have "unat w < 2 ^ 63" by simp
  then show ?thesis using sint_small [of w] by simp
qed

lemma decode_index_entry_sound:
  assumes "decode_index_entry tot r = Inr (ix, r')" and tot: "tot < 2 ^ 62"
  shows "index_ok tot ix \<and> length r' \<le> length r"
proof -
  obtain lb r1 pb r2 ob r3 fb r4 nb r5 mb r6 tb where
    t: "take_bytes 4 r = Inr (lb, r1)" "take_bytes (unat (get_be32 lb)) r1 = Inr (pb, r2)"
      "take_bytes 8 r2 = Inr (ob, r3)" "take_bytes 8 r3 = Inr (fb, r4)" "take_bytes 8 r4 = Inr (nb, r5)"
      "take_bytes 4 r5 = Inr (mb, r6)" "take_bytes 8 r6 = Inr (tb, r')"
    and nz: "get_be32 lb \<noteq> 0"
    and p: "clean_manifest_path (string_of pb) = string_of pb" "string_of pb \<noteq> ''.''"
    and eq: "get_be64 ob = get_be64 nb"
    and ge: "\<not> (of_nat tot :: u64) < get_be64 fb" "\<not> (of_nat tot :: u64) < get_be64 nb"
      "\<not> (of_nat tot :: u64) < get_be64 fb + get_be64 nb" "\<not> get_be64 fb + get_be64 nb < get_be64 fb"
      "\<not> 0x7FFFFFFFFFFFFFFF < get_be64 fb" "\<not> 0x7FFFFFFFFFFFFFFF < get_be64 nb"
    and ix: "ix = \<lparr>pi_path = string_of pb, pi_original = sint (get_be64 ob), pi_offset = sint (get_be64 fb),
        pi_length = sint (get_be64 nb), pi_mode = get_be32 mb, pi_mtime = sint (get_be64 tb)\<rparr>"
    using assms(1) unfolding decode_index_entry_def
    by (auto simp: result_simps Let_def split: if_splits prod.splits)
  have plen: "length pb = unat (get_be32 lb)" using t(2) by (auto simp: take_bytes_def split: if_splits)
  have "unat (get_be32 lb) < 2 ^ 32" by (rule unat_u32_less)
  then have pl: "length pb \<le> max_u32" using plen by (simp add: max_u32_def)
  have rl: "length r' \<le> length r" using t by (auto simp: take_bytes_def split: if_splits)
  have f: "0 \<le> sint (get_be64 fb)" "sint (get_be64 fb) = int (unat (get_be64 fb))"
    and n: "0 \<le> sint (get_be64 nb)" "sint (get_be64 nb) = int (unat (get_be64 nb))"
    using u64_bounds ge by blast+
  have sum: "unat (get_be64 fb) + unat (get_be64 nb) = unat (get_be64 fb + get_be64 nb)"
  proof -
    have "unat (get_be64 fb) \<le> 0x7FFFFFFFFFFFFFFF" "unat (get_be64 nb) \<le> 0x7FFFFFFFFFFFFFFF"
      using ge(5,6) by (simp_all add: word_less_nat_alt)
    then show ?thesis by (subst unat_add_lem [THEN iffD1]) simp_all
  qed
  have "unat (of_nat tot :: u64) = tot" using tot by (simp add: unat_of_nat)
  then have "unat (get_be64 fb) + unat (get_be64 nb) \<le> tot"
    using ge(3) unfolding sum by (simp add: word_less_nat_alt)
  then have "sint (get_be64 fb) + sint (get_be64 nb) \<le> int tot" using f n by linarith
  then show ?thesis
    using rl p pl eq f(1) n(1) by (simp add: ix index_ok_def clean_manifest_path_nonempty)
qed

lemma decode_index_entries_sound:
  "decode_index_entries tot n r = Inr (ixs, r') \<Longrightarrow> tot < 2 ^ 62 \<Longrightarrow>
   (\<forall>ix \<in> set ixs. index_ok tot ix) \<and> length r' \<le> length r \<and> length ixs = n"
proof (induction n arbitrary: r ixs)
  case 0
  then show ?case by simp
next
  case (Suc n)
  then obtain ix r1 ixs' where e: "decode_index_entry tot r = Inr (ix, r1)"
    "decode_index_entries tot n r1 = Inr (ixs', r')" "ixs = ix # ixs'"
    by (auto simp: result_simps)
  then show ?case using decode_index_entry_sound [OF e(1) Suc.prems(2)] Suc.IH [OF e(2) Suc.prems(2)] by auto
qed

lemma pack_file_bytes_ok:
  assumes "0 \<le> pr_offset ref" "0 \<le> pr_length ref" "pr_offset ref + pr_length ref \<le> int (length data)"
    and "length data < 2 ^ 62"
  shows "pack_file_bytes data ref = Inr (take (nat (pr_length ref)) (drop (nat (pr_offset ref)) data))"
proof -
  have "int (length data) < 2 ^ 62" using assms(4) by (metis of_nat_less_numeral_power_cancel_iff)
  then have "int64 (pr_offset ref + pr_length ref)" using assms by (simp add: int64_def)
  then show ?thesis using assms by (simp add: pack_file_bytes_def Let_def)
qed

subsection \<open>Properties\<close>

text \<open>
  Property C33. A pack that was encoded decodes to the index that the encoder returned, and cutting
  the pack at the range of a file gives exactly the contents of that file, for every file.
\<close>

theorem pack_round_trip:
  assumes "encode_pack files = Inr (data, ixs)" and "length data < 2 ^ 62"
  shows "decode_pack_index data = Inr ixs \<and> map pi_path ixs = map pp_path files \<and>
    (\<forall>i < length files. pack_file_bytes data
       \<lparr>pr_id = pid, pr_offset = pi_offset (ixs ! i), pr_length = pi_length (ixs ! i)\<rparr> =
         Inr (pp_data (files ! i)))"
proof (intro conjI allI impI)
  have e: "files \<noteq> []" "length files \<le> max_u32" "\<forall>f \<in> set files. payload_ok f"
    "data = pack_magic @ put_be32 (of_nat (length files)) @
      concat (map encode_index_entry ixs) @ concat (map pp_data files)"
    and ixs: "ixs = map2 file_index files (offsets_from (pack_header_len files) files)"
    using assms(1) by (auto simp: encode_pack_Inr)
  have ok: "\<forall>ix \<in> set ixs. index_ok (length data) ix" "\<forall>ix \<in> set ixs. pack_header_len files \<le> pi_offset ix"
    using encoded_index_ok [OF assms(1)] by auto
  have n: "unat (of_nat (length files) :: u32) = length ixs"
    using e(2) ixs by (simp add: unat_of_nat max_u32_def)
  then have nz: "(of_nat (length files) :: u32) \<noteq> 0" using e(1) ixs by (metis length_0_conv unat_0 length_map length_zip length_offsets_from min.idem)
  have body: "decode_index_entries (length data) (length ixs)
      (concat (map encode_index_entry ixs) @ concat (map pp_data files)) = Inr (ixs, concat (map pp_data files))"
    by (rule decode_encode_entries [OF ok(1) assms(2)])
  have start: "int (length data) - int (length (concat (map pp_data files))) = pack_header_len files"
    using encoded_length(1) [OF assms(1)] by simp
  have fnd: "find (\<lambda>ix. pi_offset ix < pack_header_len files) ixs = None"
    using ok(2) by (auto simp: find_None_iff)
  have magic: "take_bytes (length pack_magic) data =
      Inr (pack_magic, put_be32 (of_nat (length files)) @ concat (map encode_index_entry ixs) @ concat (map pp_data files))"
    unfolding e(4) by simp
  show "decode_pack_index data = Inr ixs"
    unfolding decode_pack_index_def magic by (simp add: n nz body start fnd Let_def)
  show "map pi_path ixs = map pp_path files"
    using ixs by (intro nth_equalityI) (auto simp: file_index_def)
next
  fix i assume i: "i < length files"
  let ?off = "length (concat (map pp_data (take i files)))"
  have ix: "ixs ! i = file_index (files ! i) (pack_header_len files + int ?off)"
    by (rule encoded_index_nth [OF assms(1) i])
  let ?ref = "\<lparr>pr_id = pid, pr_offset = pi_offset (ixs ! i), pr_length = pi_length (ixs ! i)\<rparr>"
  let ?hdr = "pack_magic @ put_be32 (of_nat (length files)) @ concat (map encode_index_entry ixs)"
  have d: "data = ?hdr @ concat (map pp_data files)" "length ixs = length files"
    using assms(1) by (auto simp: encode_pack_Inr)
  have h: "int (length ?hdr) = pack_header_len files" by (rule encoded_length(2) [OF assms(1)])
  have "ixs ! i \<in> set ixs" using i d(2) by simp
  then have ok: "index_ok (length data) (ixs ! i)" using encoded_index_ok [OF assms(1)] by blast
  have "pack_file_bytes data ?ref =
      Inr (take (nat (pi_length (ixs ! i))) (drop (nat (pi_offset (ixs ! i))) data))"
    using pack_file_bytes_ok [of ?ref data] ok assms(2) by (simp add: index_ok_def)
  also have "nat (pi_length (ixs ! i)) = length (pp_data (files ! i))" by (simp add: ix file_index_def)
  also have "nat (pi_offset (ixs ! i)) = length ?hdr + ?off"
    unfolding ix using h by (simp add: file_index_def)
  also have "drop (length ?hdr + ?off) data = drop ?off (concat (map pp_data files))"
    unfolding d(1) by simp
  also have "take (length (pp_data (files ! i))) (drop ?off (concat (map pp_data files))) = pp_data (files ! i)"
    using concat_take_drop [of i "map pp_data files"] i by (simp add: take_map)
  finally show "pack_file_bytes data ?ref = Inr (pp_data (files ! i))" .
qed

lemma pack_round_trip_witness:
  "let files = [\<lparr>pp_path = ''a/b'', pp_mode = 420, pp_mtime = 7, pp_data = [1, 2, 3]\<rparr>,
                \<lparr>pp_path = ''c'', pp_mode = 384, pp_mtime = -5, pp_data = [9]\<rparr>];
       data = fst (projr (encode_pack files)); ixs = snd (projr (encode_pack files))
   in decode_pack_index data = Inr ixs \<and> map pi_path ixs = [''a/b'', ''c'']"
proof -
  let ?files = "[\<lparr>pp_path = ''a/b'', pp_mode = 420, pp_mtime = 7, pp_data = [1, 2, 3]\<rparr>,
                \<lparr>pp_path = ''c'', pp_mode = 384, pp_mtime = -5, pp_data = [9]\<rparr>]"
  have "case encode_pack ?files of Inr (data, ixs) \<Rightarrow> length data < 2 ^ 62 | Inl e \<Rightarrow> False" by code_simp
  then obtain data ixs where e: "encode_pack ?files = Inr (data, ixs)" "length data < 2 ^ 62"
    by (auto split: sum.splits prod.splits)
  from pack_round_trip [OF e, of "[]"] show ?thesis by (simp add: e(1) Let_def)
qed

lemma decode_pack_index_ranges:
  assumes "decode_pack_index data = Inr ixs" and "length data < 2 ^ 62" and "ix \<in> set ixs"
  shows "clean_manifest_path (pi_path ix) = pi_path ix \<and> pi_path ix \<noteq> ''.'' \<and>
    13 \<le> pi_offset ix \<and> pi_original ix = pi_length ix \<and>
    (\<exists>out. pack_file_bytes data \<lparr>pr_id = pid, pr_offset = pi_offset ix, pr_length = pi_length ix\<rparr> = Inr out \<and>
       int (length out) = pi_length ix)"
proof -
  obtain r1 cb r2 r3 where t: "take_bytes (length pack_magic) data = Inr (pack_magic, r1)"
      "take_bytes 4 r1 = Inr (cb, r2)"
    and d: "decode_index_entries (length data) (unat (get_be32 cb)) r2 = Inr (ixs, r3)"
    and f: "find (\<lambda>ix. pi_offset ix < int (length data) - int (length r3)) ixs = None"
    using assms(1) unfolding decode_pack_index_def
    by (auto simp: result_simps Let_def split: if_splits option.splits)
  note s = decode_index_entries_sound [OF d assms(2)]
  have ok: "index_ok (length data) ix" using s assms(3) by blast
  have "length r2 + 13 \<le> length data"
    using t by (auto simp: take_bytes_def length_pack_magic split: if_splits)
  moreover have "int (length data) - int (length r3) \<le> pi_offset ix"
    using f assms(3) by (auto simp: find_None_iff)
  ultimately have off: "13 \<le> pi_offset ix" using s by linarith
  let ?ref = "\<lparr>pr_id = pid, pr_offset = pi_offset ix, pr_length = pi_length ix\<rparr>"
  have "pack_file_bytes data ?ref = Inr (take (nat (pi_length ix)) (drop (nat (pi_offset ix)) data))"
    using pack_file_bytes_ok [of ?ref data] ok assms(2) by (simp add: index_ok_def)
  moreover have "int (length (take (nat (pi_length ix)) (drop (nat (pi_offset ix)) data))) = pi_length ix"
    using ok by (auto simp: index_ok_def min_def)
  ultimately show ?thesis using ok off by (auto simp: index_ok_def)
qed



end
