(* ===== verification/Repository.thy ===== *)
theory Repository
  imports SegmentStore ChunkIndex Pack
begin

text \<open>
  \<open>internal/repository/repository.go\<close> and the reading half of \<open>pack.go\<close>: the repository joins the
  segment writer and the chunk index. A \<open>Repository\<close> value is the record \<open>repo\<close>; its mutex makes
  every operation atomic, so an operation is a function from state to result and state. The
  parameters (cryptography, index store, key) are the record \<open>repo_deps\<close>.
\<close>

record 'db repo_deps =
  rd_crypto :: crypto
  rd_key :: bytes
  rd_index :: "'db index_deps"

record 'db repo =
  rp_seg :: seg_state
  rp_db :: 'db

datatype repo_error =
    RepoCanceled
  | RepoIndex index_error
  | RepoSegment segment_error
  | RepoRefCount nat nat
  | RepoResultCount nat
  | RepoChunkNotFound string
  | RepoRewriteMismatch string string
  | RepoListFailed
  | RepoStatFailed int
  | RepoDeleteFailed int
  | RepoPack pack_error
  | RepoNotPacked string
  | RepoNoPackRef string
  | RepoPackMissing string string
  | RepoPackRange string
  | RepoPackEntryMissing string string
  | RepoPackSize string int nat

type_synonym ('a, 'db) repo_result = "(repo_error + 'a) \<times> 'db repo"

record put_result =
  pu_ref :: chunk_ref
  pu_existed :: bool

definition zero_ref :: chunk_ref where
  "zero_ref = \<lparr>cr_hash = [], cr_segment = 0, cr_offset = 0, cr_length = 0, cr_original = 0,
     cr_compressed = 0, cr_created = zero_time\<rparr>"

definition repo_tick :: "'db repo \<Rightarrow> 'db repo" where
  "repo_tick s = s\<lparr>rp_seg := tick (rp_seg s)\<rparr>"

abbreviation repo_step :: "'db repo \<Rightarrow> nat" where
  "repo_step s \<equiv> sg_step (rp_seg s)"

definition io_fault :: "env \<Rightarrow> 'db repo \<Rightarrow> bool" where
  "io_fault ev s \<longleftrightarrow> env_io ev (repo_step s) \<noteq> None"

definition check_ctx :: "env \<Rightarrow> 'db repo \<Rightarrow> (unit, 'db) repo_result" where
  "check_ctx ev s = (if env_ctx_done ev (repo_step s) then (Inl RepoCanceled, repo_tick s) else (Inr (), repo_tick s))"

text \<open>Running an operation of the segment writer or of the index inside the repository.\<close>

definition on_segments :: "(seg_state \<Rightarrow> 'a seg_result) \<Rightarrow> 'db repo \<Rightarrow> ('a, 'db) repo_result" where
  "on_segments f s =
     (case f (rp_seg s) of (Inl e, g) \<Rightarrow> (Inl (RepoSegment e), s\<lparr>rp_seg := g\<rparr>)
                         | (Inr x, g) \<Rightarrow> (Inr x, s\<lparr>rp_seg := g\<rparr>))"

definition lift_index :: "index_error + 'a \<Rightarrow> repo_error + 'a" where
  "lift_index r = (case r of Inl e \<Rightarrow> Inl (RepoIndex e) | Inr x \<Rightarrow> Inr x)"

definition lookup_ref :: "env \<Rightarrow> 'db repo_deps \<Rightarrow> string \<Rightarrow> 'db repo \<Rightarrow> (chunk_ref option, 'db) repo_result" where
  "lookup_ref ev d h s = (lift_index (index_get (rd_index d) (rp_db s) (io_fault ev s) h), repo_tick s)"

definition store_refs :: "env \<Rightarrow> 'db repo_deps \<Rightarrow> chunk_ref list \<Rightarrow> 'db repo \<Rightarrow> (unit, 'db) repo_result" where
  "store_refs ev d refs s =
     (case index_put_batch (rd_index d) (rp_db s) (io_fault ev s) refs of
        (r, db) \<Rightarrow> (lift_index r, repo_tick (s\<lparr>rp_db := db\<rparr>)))"

subsection \<open>Storing chunks\<close>

record put_plan =
  pl_results :: "put_result list"
  pl_pending :: "(string \<times> nat) list"
  pl_aliases :: "(nat \<times> nat) list"
  pl_indexes :: "nat list"
  pl_writes :: "write_chunk list"

definition plan_request ::
    "env \<Rightarrow> 'db repo_deps \<Rightarrow> nat \<Rightarrow> bytes \<Rightarrow> put_plan \<Rightarrow> 'db repo \<Rightarrow> (put_plan, 'db) repo_result" where
  "plan_request ev d i data plan s =
     (let hash = cy_blake3 (rd_crypto d) data; hs = hex_encode hash
      in case map_of (pl_pending plan) hs of
           Some p \<Rightarrow> (Inr (plan\<lparr>pl_aliases := pl_aliases plan @ [(p, i)]\<rparr>), s)
         | None \<Rightarrow> sbind (lookup_ref ev d hs s) (\<lambda>found s1.
             case found of
               Some ref \<Rightarrow>
                 (Inr (plan\<lparr>pl_results := (pl_results plan)[i := \<lparr>pu_ref = ref, pu_existed = True\<rparr>]\<rparr>), s1)
             | None \<Rightarrow>
                 (Inr (plan\<lparr>pl_pending := (hs, length (pl_writes plan)) # pl_pending plan,
                            pl_indexes := pl_indexes plan @ [i],
                            pl_writes := pl_writes plan @ [(hash, data)]\<rparr>), s1)))"

fun plan_requests ::
    "env \<Rightarrow> 'db repo_deps \<Rightarrow> nat \<Rightarrow> bytes list \<Rightarrow> put_plan \<Rightarrow> 'db repo \<Rightarrow> (put_plan, 'db) repo_result" where
  "plan_requests ev d i [] plan s = (Inr plan, s)"
| "plan_requests ev d i (data # chunks) plan s =
     sbind (plan_request ev d i data plan s) (\<lambda>plan' s'. plan_requests ev d (Suc i) chunks plan' s')"

definition result_assignments :: "put_plan \<Rightarrow> chunk_ref list \<Rightarrow> (nat \<times> put_result) list" where
  "result_assignments plan refs =
     concat (map (\<lambda>(p, ref).
       (pl_indexes plan ! p, \<lparr>pu_ref = ref, pu_existed = False\<rparr>) #
       map (\<lambda>(q, i). (i, \<lparr>pu_ref = ref, pu_existed = True\<rparr>)) (filter (\<lambda>(q, i). q = p) (pl_aliases plan)))
       (enumerate 0 refs))"

definition fill_results :: "put_plan \<Rightarrow> chunk_ref list \<Rightarrow> put_result list" where
  "fill_results plan refs = foldl (\<lambda>rs (i, r). rs[i := r]) (pl_results plan) (result_assignments plan refs)"

definition empty_plan :: "nat \<Rightarrow> put_plan" where
  "empty_plan n = \<lparr>pl_results = replicate n \<lparr>pu_ref = zero_ref, pu_existed = False\<rparr>, pl_pending = [],
     pl_aliases = [], pl_indexes = [], pl_writes = []\<rparr>"

definition put_chunks ::
    "env \<Rightarrow> 'db repo_deps \<Rightarrow> bytes list \<Rightarrow> 'db repo \<Rightarrow> (put_result list, 'db) repo_result" where
  "put_chunks ev d chunks s =
     sbind (check_ctx ev s) (\<lambda>_ s1. sbind (check_ctx ev s1) (\<lambda>_ s2.
     sbind (plan_requests ev d 0 chunks (empty_plan (length chunks)) s2) (\<lambda>plan s3.
       if pl_writes plan = [] then (Inr (pl_results plan), s3)
       else sbind (on_segments (write_chunks ev (rd_crypto d) (rd_key d) (pl_writes plan)) s3) (\<lambda>refs s4.
         if length refs \<noteq> length (pl_writes plan)
         then (Inl (RepoRefCount (length refs) (length (pl_writes plan))), s4)
         else sbind (store_refs ev d refs s4) (\<lambda>_ s5. (Inr (fill_results plan refs), s5))))))"

definition put_chunk :: "env \<Rightarrow> 'db repo_deps \<Rightarrow> bytes \<Rightarrow> 'db repo \<Rightarrow> (chunk_ref \<times> bool, 'db) repo_result" where
  "put_chunk ev d data s =
     sbind (put_chunks ev d [data] s) (\<lambda>rs s'.
       case rs of [r] \<Rightarrow> (Inr (pu_ref r, pu_existed r), s') | _ \<Rightarrow> (Inl (RepoResultCount (length rs)), s'))"

subsection \<open>Lookup and reading\<close>

definition read_chunk_ref :: "env \<Rightarrow> 'db repo_deps \<Rightarrow> chunk_ref \<Rightarrow> 'db repo \<Rightarrow> (bytes, 'db) repo_result" where
  "read_chunk_ref ev d ref s =
     (case segment_read (rd_crypto d) (rd_key d) (io_fault ev s) (sg_files (rp_seg s)) ref of
        Inl e \<Rightarrow> (Inl (RepoSegment e), repo_tick s) | Inr x \<Rightarrow> (Inr x, repo_tick s))"

definition read_chunk :: "env \<Rightarrow> 'db repo_deps \<Rightarrow> string \<Rightarrow> 'db repo \<Rightarrow> (bytes, 'db) repo_result" where
  "read_chunk ev d h s =
     sbind (lookup_ref ev d h s) (\<lambda>found s1.
       case found of None \<Rightarrow> (Inl (RepoChunkNotFound h), s1) | Some ref \<Rightarrow> read_chunk_ref ev d ref s1)"

definition has_chunk :: "env \<Rightarrow> 'db repo_deps \<Rightarrow> string \<Rightarrow> 'db repo \<Rightarrow> (bool, 'db) repo_result" where
  "has_chunk ev d h s = sbind (lookup_ref ev d h s) (\<lambda>found s1. (Inr (found \<noteq> None), s1))"

definition get_chunk_ref :: "env \<Rightarrow> 'db repo_deps \<Rightarrow> string \<Rightarrow> 'db repo \<Rightarrow> (chunk_ref option, 'db) repo_result" where
  "get_chunk_ref ev d h s = lookup_ref ev d h s"

definition has_chunks :: "env \<Rightarrow> 'db repo_deps \<Rightarrow> string list \<Rightarrow> 'db repo \<Rightarrow> (string set, 'db) repo_result" where
  "has_chunks ev d hs s =
     sbind (check_ctx ev s) (\<lambda>_ s1.
       (rbind (lift_index (index_get_batch (rd_index d) (rp_db s1)
                 (\<lambda>i. env_io ev (repo_step s1 + i) \<noteq> None) hs)) (\<lambda>refs. Inr (set (map fst refs))),
        s1\<lparr>rp_seg := (rp_seg s1)\<lparr>sg_step := repo_step s1 + length hs\<rparr>\<rparr>))"

subsection \<open>Maintenance\<close>

definition rotate_for_maintenance :: "env \<Rightarrow> 'db repo \<Rightarrow> (int, 'db) repo_result" where
  "rotate_for_maintenance ev s =
     sbind (if 0 < sg_offset (rp_seg s) then on_segments (rotate_segment ev) s else (Inr (), s))
       (\<lambda>_ s1. (Inr (sg_id (rp_seg s1)), s1))"

definition rewrite_chunk_ref :: "env \<Rightarrow> 'db repo_deps \<Rightarrow> chunk_ref \<Rightarrow> 'db repo \<Rightarrow> (chunk_ref, 'db) repo_result" where
  "rewrite_chunk_ref ev d old s =
     sbind (check_ctx ev s) (\<lambda>_ s1. sbind (read_chunk_ref ev d old s1) (\<lambda>data s2.
       let hash = cy_blake3 (rd_crypto d) data
       in if hex_encode hash \<noteq> cr_hash old
          then (Inl (RepoRewriteMismatch (cr_hash old) (hex_encode hash)), s2)
          else sbind (on_segments (write_chunk_one ev (rd_crypto d) (rd_key d) hash data) s2) (\<lambda>ref s3.
               sbind (store_refs ev d [ref] s3) (\<lambda>_ s4. (Inr ref, s4)))))"

definition delete_unreferenced_chunks ::
    "env \<Rightarrow> 'db repo_deps \<Rightarrow> string set \<Rightarrow> int \<Rightarrow> 'db repo \<Rightarrow> (cleanup_stats, 'db) repo_result" where
  "delete_unreferenced_chunks ev d keep cutoff s =
     (case delete_unreferenced (rd_index d) (rp_db s) (io_fault ev s) (io_fault ev (repo_tick s)) keep cutoff of
        (r, db) \<Rightarrow> (lift_index r, repo_tick (repo_tick (s\<lparr>rp_db := db\<rparr>))))"

text \<open>
  \<open>DeleteSegmentsExcept\<close> reports how many files and bytes it removed also when it stops early, so
  its result is a triple of the error, if any, and the two counts.
\<close>

definition node_size :: "fnode \<Rightarrow> int" where
  "node_size n = (case n of FileNode b \<Rightarrow> int (length b) | DirNode \<Rightarrow> 0)"

fun delete_segment_files ::
    "env \<Rightarrow> int set \<Rightarrow> int list \<Rightarrow> int \<Rightarrow> int \<Rightarrow> 'db repo \<Rightarrow> (repo_error option \<times> int \<times> int) \<times> 'db repo" where
  "delete_segment_files ev keep [] n b s = ((None, n, b), s)"
| "delete_segment_files ev keep (i # ids) n b s =
     (if i \<in> keep then delete_segment_files ev keep ids n b s
      else (case map_of (sg_files (rp_seg s)) (segment_name i) of
              None \<Rightarrow> ((Some (RepoStatFailed i), n, b), repo_tick s)
            | Some node \<Rightarrow>
                if io_fault ev s then ((Some (RepoStatFailed i), n, b), repo_tick s)
                else let s1 = repo_tick s
                     in if io_fault ev s1 then ((Some (RepoDeleteFailed i), n, b), repo_tick s1)
                        else delete_segment_files ev keep ids (n + 1) (b + node_size node)
                               (repo_tick (s1\<lparr>rp_seg := (rp_seg s1)\<lparr>sg_files :=
                                  AList.delete (segment_name i) (sg_files (rp_seg s1))\<rparr>\<rparr>))))"

definition delete_segments_except ::
    "env \<Rightarrow> int set \<Rightarrow> 'db repo \<Rightarrow> (repo_error option \<times> int \<times> int) \<times> 'db repo" where
  "delete_segments_except ev keep s =
     (if io_fault ev s then ((Some RepoListFailed, 0, 0), repo_tick s)
      else delete_segment_files ev (insert (sg_id (rp_seg s)) keep)
             (list_segment_ids (sg_files (rp_seg s))) 0 0 (repo_tick s))"

definition repository_stats ::
    "env \<Rightarrow> 'db repo_deps \<Rightarrow> repo_options \<Rightarrow> (repo_error + int) \<Rightarrow> 'db repo \<Rightarrow> (repo_stats, 'db) repo_result" where
  "repository_stats ev d opts manifest_count s =
     (case lift_index (index_stats (rd_index d) (rp_db s) (io_fault ev s)) of
        Inl e \<Rightarrow> (Inl e, repo_tick s)
      | Inr (chunks, logical, compressed) \<Rightarrow>
          if io_fault ev (repo_tick s) then (Inl RepoListFailed, repo_tick (repo_tick s))
          else (rbind manifest_count (\<lambda>m. Inr
                 \<lparr>rs_segments = fst (segment_stats (sg_files (rp_seg s))),
                  rs_segment_bytes = snd (segment_stats (sg_files (rp_seg s))),
                  rs_chunks = chunks, rs_logical = logical, rs_compressed = compressed,
                  rs_segment_size = ro_segment_size opts, rs_chunk_avg = ro_chunk_avg opts,
                  rs_manifests = m, rs_append_only = True\<rparr>), repo_tick (repo_tick s)))"

subsection \<open>Packed files\<close>

fun read_pack_chunks ::
    "env \<Rightarrow> 'db repo_deps \<Rightarrow> chunk_ref list \<Rightarrow> bytes \<Rightarrow> 'db repo \<Rightarrow> (bytes, 'db) repo_result" where
  "read_pack_chunks ev d [] acc s = (Inr acc, s)"
| "read_pack_chunks ev d (ref # refs) acc s =
     sbind (check_ctx ev s) (\<lambda>_ s1. sbind (read_chunk_ref ev d ref s1) (\<lambda>data s2.
       read_pack_chunks ev d refs (acc @ data) s2))"

definition read_pack_data :: "env \<Rightarrow> 'db repo_deps \<Rightarrow> pack_manifest \<Rightarrow> 'db repo \<Rightarrow> (bytes, 'db) repo_result" where
  "read_pack_data ev d pack s = read_pack_chunks ev d (pm_chunks pack) [] s"

definition locate_packed_file :: "bytes \<Rightarrow> file_entry \<Rightarrow> pack_file_ref \<Rightarrow> repo_error + bytes" where
  "locate_packed_file data entry ref =
     (case decode_pack_index data of
        Inl e \<Rightarrow> Inl (RepoPack e)
      | Inr ixs \<Rightarrow>
          (case find (\<lambda>ix. pi_path ix = fe_path entry) ixs of
             None \<Rightarrow> Inl (RepoPackEntryMissing (fe_path entry) (pr_id ref))
           | Some ix \<Rightarrow>
               if pi_offset ix \<noteq> pr_offset ref \<or> pi_length ix \<noteq> pr_length ref
               then Inl (RepoPackRange (fe_path entry))
               else (case pack_file_bytes data ref of
                       Inl e \<Rightarrow> Inl (RepoPack e)
                     | Inr out \<Rightarrow>
                         if int (length out) \<noteq> fe_size entry
                         then Inl (RepoPackSize (fe_path entry) (fe_size entry) (length out))
                         else Inr out)))"

definition read_packed_file ::
    "env \<Rightarrow> 'db repo_deps \<Rightarrow> snapshot_manifest option \<Rightarrow> file_entry \<Rightarrow> 'db repo \<Rightarrow> (bytes, 'db) repo_result" where
  "read_packed_file ev d m entry s =
     (if fe_type entry \<noteq> EntryPackedFile then (Inl (RepoNotPacked (fe_path entry)), s)
      else (case fe_pack entry of
              None \<Rightarrow> (Inl (RepoNoPackRef (fe_path entry)), s)
            | Some ref \<Rightarrow>
                (case find_pack m (pr_id ref) of
                   None \<Rightarrow> (Inl (RepoPackMissing (fe_path entry) (pr_id ref)), s)
                 | Some pack \<Rightarrow> sbind (read_pack_data ev d pack s) (\<lambda>data s1.
                     (locate_packed_file data entry ref, s1)))))"

subsection \<open>Opening\<close>

text \<open>
  \<open>OpenWithOptions\<close>, from the key file and the segment directory that are on disk; creation of the
  directories and the construction of the coders are the environment's and the parameters' part.
\<close>

definition effective_options :: "repo_options \<Rightarrow> repo_options" where
  "effective_options o1 =
     o1\<lparr>ro_segment_size := (if ro_segment_size o1 \<le> 0 then default_segment_size else ro_segment_size o1),
        ro_chunk_avg := (if ro_chunk_avg o1 \<le> 0 then 1048576 else ro_chunk_avg o1)\<rparr>"

datatype open_error = OpenKey key_error | OpenSegments segment_error

definition open_repository ::
    "env \<Rightarrow> repo_options \<Rightarrow> bytes option \<Rightarrow> files \<Rightarrow> 'db \<Rightarrow>
     (open_error + bytes \<times> 'db repo) \<times> bytes option \<times> files" where
  "open_repository ev opts keyfile fs db =
     (case load_or_create_key ev 0 keyfile of
        (Inl e, kf) \<Rightarrow> (Inl (OpenKey e), kf, fs)
      | (Inr key, kf) \<Rightarrow>
          (case open_segment_writer ev (ro_segment_size (effective_options opts)) fs 4 of
             (Inl e, g) \<Rightarrow> (Inl (OpenSegments e), kf, sg_files g)
           | (Inr u, g) \<Rightarrow> (Inr (key, \<lparr>rp_seg = g, rp_db = db\<rparr>), kf, sg_files g)))"

subsection \<open>The invariant\<close>

definition good_clock :: "env \<Rightarrow> bool" where
  "good_clock ev \<longleftrightarrow> (\<forall>n. json_time_ok (env_now ev n))"

definition files_fit :: "files \<Rightarrow> bool" where
  "files_fit fs \<longleftrightarrow> (\<forall>n d. read_file fs n = Some d \<longrightarrow> length d < 2 ^ 62)"

lemma files_fit_extends: "extends fs gs \<Longrightarrow> files_fit gs \<Longrightarrow> files_fit fs"
  unfolding extends_def files_fit_def by (metis le_add1 le_less_trans length_append)

definition ref_reads :: "'db repo_deps \<Rightarrow> files \<Rightarrow> chunk_ref \<Rightarrow> bytes \<Rightarrow> bool" where
  "ref_reads d fs ref data \<longleftrightarrow> segment_read (rd_crypto d) (rd_key d) False fs ref = Inr data"

text \<open>Every reference in the index can be read.\<close>

definition index_sound :: "'db repo_deps \<Rightarrow> 'db repo \<Rightarrow> bool" where
  "index_sound d s \<longleftrightarrow> index_wf (rd_index d) (rp_db s) \<and>
     (\<forall>h ref. index_view (rd_index d) (rp_db s) h = Some ref \<longrightarrow>
        (\<exists>data. ref_reads d (sg_files (rp_seg s)) ref data))"

definition deps_ok :: "'db repo_deps \<Rightarrow> bool" where
  "deps_ok d \<longleftrightarrow> crypto_laws (rd_crypto d) \<and> index_laws (rd_index d)"

definition repo_inv :: "'db repo_deps \<Rightarrow> 'db repo \<Rightarrow> bool" where
  "repo_inv d s \<longleftrightarrow> index_sound d s \<and> seg_inv (rp_seg s) \<and> int64 (sg_id (rp_seg s))"

lemma index_sound_entry:
  assumes "repo_inv d s" "index_view (rd_index d) (rp_db s) h = Some ref"
  shows "cr_hash ref = h \<and> (\<exists>data. ref_reads d (sg_files (rp_seg s)) ref data)"
proof -
  have "index_wf (rd_index d) (rp_db s)" using assms(1) by (simp add: repo_inv_def index_sound_def)
  then have "cr_hash ref = h" using assms(2) by (rule index_wf_view)
  moreover have "\<exists>data. ref_reads d (sg_files (rp_seg s)) ref data"
    using assms unfolding repo_inv_def index_sound_def by blast
  ultimately show ?thesis by blast
qed

text \<open>Two states that differ in the step counter only.\<close>

definition same_store :: "'db repo \<Rightarrow> 'db repo \<Rightarrow> bool" where
  "same_store s t \<longleftrightarrow> rp_db t = rp_db s \<and> (\<exists>n. rp_seg t = (rp_seg s)\<lparr>sg_step := n\<rparr>)"

lemma same_store_refl [simp]: "same_store s s"
  unfolding same_store_def by (auto intro: exI [of _ "sg_step (rp_seg s)"])

lemma same_store_trans: "same_store s t \<Longrightarrow> same_store t u \<Longrightarrow> same_store s u"
  unfolding same_store_def by auto

lemma same_store_tick [simp]: "same_store s (repo_tick s)"
  unfolding same_store_def repo_tick_def tick_def by auto

lemma same_store_fields:
  assumes "same_store s t"
  shows "rp_db t = rp_db s" "sg_files (rp_seg t) = sg_files (rp_seg s)" "sg_id (rp_seg t) = sg_id (rp_seg s)"
    "sg_offset (rp_seg t) = sg_offset (rp_seg s)" "sg_max (rp_seg t) = sg_max (rp_seg s)"
  using assms by (auto simp: same_store_def)

lemma same_store_inv: "same_store s t \<Longrightarrow> repo_inv d t \<longleftrightarrow> repo_inv d s"
  by (auto simp: repo_inv_def index_sound_def seg_inv_def same_store_fields)

lemma repo_tick_fields [simp]:
  "rp_db (repo_tick s) = rp_db s" "sg_files (rp_seg (repo_tick s)) = sg_files (rp_seg s)"
  "rp_seg (repo_tick s) = tick (rp_seg s)"
  by (simp_all add: repo_tick_def)

lemma repo_inv_tick [simp]: "repo_inv d (repo_tick s) \<longleftrightarrow> repo_inv d s"
  using same_store_inv [OF same_store_tick] by blast

lemma check_ctx_same: "same_store s (snd (check_ctx ev s))"
  by (simp add: check_ctx_def)

lemma lookup_ref_same: "same_store s (snd (lookup_ref ev d h s))"
  by (simp add: lookup_ref_def)

lemma same_store_sbind:
  assumes "same_store s (snd m)" "\<And>x t. m = (Inr x, t) \<Longrightarrow> same_store t (snd (f x t))"
  shows "same_store s (snd (sbind m f))"
proof (cases m)
  case (Pair r t)
  then show ?thesis using assms by (cases r) (auto intro: same_store_trans)
qed

lemma plan_requests_same: "same_store s (snd (plan_requests ev d i chunks plan s))"
proof (induction chunks arbitrary: i plan s)
  case Nil
  then show ?case by simp
next
  case (Cons c cs)
  have "same_store s (snd (plan_request ev d i c plan s))"
    unfolding plan_request_def Let_def
    by (auto split: option.splits intro!: same_store_sbind lookup_ref_same)
  then show ?case using Cons by (auto intro!: same_store_sbind)
qed

lemma read_chunk_ref_same: "same_store s (snd (read_chunk_ref ev d ref s))"
  by (simp add: read_chunk_ref_def split: sum.splits)

lemma read_pack_chunks_same: "same_store s (snd (read_pack_chunks ev d refs acc s))"
  by (induction refs arbitrary: acc s) (auto intro!: same_store_sbind check_ctx_same read_chunk_ref_same)

lemma read_packed_file_same: "same_store s (snd (read_packed_file ev d m e s))"
  by (auto simp: read_packed_file_def read_pack_data_def split: option.splits
      intro!: same_store_sbind read_pack_chunks_same)

lemma read_pack_data_same: "same_store s (snd (read_pack_data ev d p s))"
  by (simp add: read_pack_data_def read_pack_chunks_same)

lemma lookup_ref_Inr:
  "lookup_ref ev d h s = (Inr r, t) \<Longrightarrow> r = index_view (rd_index d) (rp_db s) h"
  by (auto simp: lookup_ref_def lift_index_def dest: index_get_Inr split: sum.splits)

lemma list_all_graphic_hex: "list_all graphic (hex_encode b)"
  by (auto simp: list_all_iff dest: graphic_hex_encode)

lemma small_int64: "n < 2 ^ 62 \<Longrightarrow> int64 (int n)"
proof -
  assume "n < 2 ^ 62"
  then have "int n < int (2 ^ 62)" by (simp only: of_nat_less_iff)
  then show ?thesis by (simp add: int64_def)
qed

lemma write_step_json:
  assumes w: "write_step ev cy key dirty (hash, data) s = (Inr ref, t)" and "seg_inv s" "int64 (sg_id s)"
    and "good_clock ev" "data_fits cy key data" "files_fit (sg_files t)"
  shows "ref_json_ok ref \<and> int64 (sg_id t)"
proof -
  obtain d n where r: "read_file (sg_files t) (segment_name (cr_segment ref)) =
      Some (d @ build_record cy key hash data (env_rand ev n nonce_size))"
    and ref: "cr_offset ref = int (length d)"
      "cr_length ref = int (length (build_record cy key hash data (env_rand ev n nonce_size)))"
      "cr_hash ref = hex_encode hash" "cr_original ref = int (length data)"
      "cr_compressed ref = int (length (cy_zip cy data))" "cr_segment ref = sg_id t"
      "\<exists>n. cr_created ref = env_now ev n"
    and i: "int64 (sg_id t)"
    using write_step_ok [OF w assms(2)] assms(3) by blast
  have "length (d @ build_record cy key hash data (env_rand ev n nonce_size)) < 2 ^ 62"
    using assms(6) r unfolding files_fit_def by blast
  then have "length d < 2 ^ 62" "length (build_record cy key hash data (env_rand ev n nonce_size)) < 2 ^ 62"
    by simp_all
  then show ?thesis
    using ref i assms(4,5) small_int64
    by (auto simp: ref_json_ok_def list_all_graphic_hex good_clock_def data_fits_def)
qed

lemma write_loop_json:
  assumes "write_loop ev cy key dirty chs s = (Inr refs, t)" "seg_inv s" "int64 (sg_id s)"
    and "good_clock ev" "\<forall>(h, d) \<in> set chs. data_fits cy key d" "files_fit (sg_files t)"
  shows "(\<forall>r \<in> set refs. ref_json_ok r) \<and> int64 (sg_id t)"
  using assms(1-3,5)
proof (induction chs arbitrary: dirty s refs)
  case Nil
  then show ?case by (auto simp: result_simps dest!: sync_dirty_Inr)
next
  case (Cons ch chs)
  obtain h d where ch: "ch = (h, d)" by fastforce
  obtain ref s1 refs' where w: "write_step ev cy key dirty (h, d) s = (Inr ref, s1)"
    and l: "write_loop ev cy key True chs s1 = (Inr refs', t)" and refs: "refs = ref # refs'"
    using Cons.prems(1) ch by (auto simp: result_simps)
  have fit: "files_fit (sg_files s1)"
    using write_loop_extends [of s1 ev cy key True chs] l assms(6) by (auto intro: files_fit_extends)
  have j: "ref_json_ok ref \<and> int64 (sg_id s1)"
    using write_step_json [OF w Cons.prems(2,3) assms(4) _ fit] Cons.prems(4) ch by auto
  have "seg_inv s1" using write_step_ok [OF w Cons.prems(2)] by blast
  then show ?case using Cons.IH [OF l] j Cons.prems(4) refs by auto
qed

subsection \<open>What the plan says\<close>

definition plan_inv :: "'db repo_deps \<Rightarrow> 'db \<Rightarrow> bytes list \<Rightarrow> nat \<Rightarrow> put_plan \<Rightarrow> bool" where
  "plan_inv d db cs k plan \<longleftrightarrow>
     length (pl_results plan) = length cs \<and> length (pl_indexes plan) = length (pl_writes plan) \<and>
     (\<forall>h p. map_of (pl_pending plan) h = Some p \<longrightarrow> p < length (pl_writes plan) \<and>
        (\<exists>j < k. h = hash_bytes (rd_crypto d) (cs ! j) \<and>
           pl_writes plan ! p = (cy_blake3 (rd_crypto d) (cs ! j), cs ! j)) \<and>
        index_view (rd_index d) db h = None) \<and>
     (\<forall>p < length (pl_writes plan). pl_indexes plan ! p < k \<and>
        map_of (pl_pending plan) (hash_bytes (rd_crypto d) (cs ! (pl_indexes plan ! p))) = Some p) \<and>
     (\<forall>(p, i) \<in> set (pl_aliases plan). i < k \<and>
        map_of (pl_pending plan) (hash_bytes (rd_crypto d) (cs ! i)) = Some p) \<and>
     (\<forall>i < k. i \<in> set (pl_indexes plan) \<or> i \<in> snd ` set (pl_aliases plan) \<or>
        (\<exists>ref. index_view (rd_index d) db (hash_bytes (rd_crypto d) (cs ! i)) = Some ref \<and>
           pl_results plan ! i = \<lparr>pu_ref = ref, pu_existed = True\<rparr>))"

lemma plan_inv_empty: "plan_inv d db cs 0 (empty_plan (length cs))"
  by (simp add: plan_inv_def empty_plan_def)

lemma plan_request_inv:
  assumes inv: "plan_inv d (rp_db s) cs k plan" and k: "k < length cs"
    and req: "plan_request ev d k (cs ! k) plan s = (Inr plan', t)"
  shows "plan_inv d (rp_db s) cs (Suc k) plan'"
proof -
  let ?cy = "rd_crypto d" and ?v = "index_view (rd_index d) (rp_db s)"
  let ?hs = "hash_bytes ?cy (cs ! k)"
  have hs: "hex_encode (cy_blake3 ?cy (cs ! k)) = ?hs" by (simp add: hash_bytes_def)
  show ?thesis
  proof (cases "map_of (pl_pending plan) ?hs")
    case (Some p)
    then have p: "plan' = plan\<lparr>pl_aliases := pl_aliases plan @ [(p, k)]\<rparr>"
      using req by (simp add: plan_request_def Let_def hs)
    show ?thesis
      using inv Some unfolding plan_inv_def p by (auto simp: less_Suc_eq)
  next
    case None
    then obtain found s1 where f: "lookup_ref ev d ?hs s = (Inr found, s1)"
      and r: "(case found of
               Some ref \<Rightarrow>
                 (Inr (plan\<lparr>pl_results := (pl_results plan)[k := \<lparr>pu_ref = ref, pu_existed = True\<rparr>]\<rparr>), s1)
             | None \<Rightarrow>
                 (Inr (plan\<lparr>pl_pending := (?hs, length (pl_writes plan)) # pl_pending plan,
                            pl_indexes := pl_indexes plan @ [k],
                            pl_writes := pl_writes plan @ [(cy_blake3 ?cy (cs ! k), cs ! k)]\<rparr>), s1)) =
          (Inr plan' :: repo_error + put_plan, t)"
    proof -
      assume *: "\<And>found s1. lookup_ref ev d ?hs s = (Inr found, s1) \<Longrightarrow>
        (case found of
               Some ref \<Rightarrow>
                 (Inr (plan\<lparr>pl_results := (pl_results plan)[k := \<lparr>pu_ref = ref, pu_existed = True\<rparr>]\<rparr>), s1)
             | None \<Rightarrow>
                 (Inr (plan\<lparr>pl_pending := (?hs, length (pl_writes plan)) # pl_pending plan,
                            pl_indexes := pl_indexes plan @ [k],
                            pl_writes := pl_writes plan @ [(cy_blake3 ?cy (cs ! k), cs ! k)]\<rparr>), s1)) =
          (Inr plan' :: repo_error + put_plan, t) \<Longrightarrow> thesis"
      obtain x sa where "lookup_ref ev d ?hs s = (Inr x, sa)"
        using req None by (auto simp: plan_request_def Let_def hs result_simps)
      then show thesis
        using req [unfolded plan_request_def Let_def hs] None by (intro * [of x sa]) simp_all
    qed
    have found: "found = ?v ?hs" by (rule lookup_ref_Inr [OF f])
    show ?thesis
    proof (cases found)
      case (Some ref)
      then have p: "plan' = plan\<lparr>pl_results := (pl_results plan)[k := \<lparr>pu_ref = ref, pu_existed = True\<rparr>]\<rparr>"
        using r by simp
      show ?thesis
        using inv k Some found unfolding plan_inv_def p by (auto simp: less_Suc_eq nth_list_update)
    next
      case found_none: None
      let ?n = "length (pl_writes plan)"
      have p: "plan' = plan\<lparr>pl_pending := (?hs, ?n) # pl_pending plan, pl_indexes := pl_indexes plan @ [k],
          pl_writes := pl_writes plan @ [(cy_blake3 ?cy (cs ! k), cs ! k)]\<rparr>"
        using r found_none by simp
      have other: "map_of (pl_pending plan) h = Some q \<Longrightarrow> h \<noteq> ?hs" for h q using None by auto
      have li: "length (pl_indexes plan) = ?n" using inv by (simp add: plan_inv_def)
      show ?thesis
        unfolding plan_inv_def
      proof (intro conjI allI impI ballI)
        show "length (pl_results plan') = length cs" using inv by (simp add: p plan_inv_def)
        show "length (pl_indexes plan') = length (pl_writes plan')" using li by (simp add: p)
      next
        fix h q assume q: "map_of (pl_pending plan') h = Some q"
        show "q < length (pl_writes plan')"
          using q inv unfolding plan_inv_def by (auto simp: p split: if_splits) (metis less_SucI)
        show "\<exists>j<Suc k. h = hash_bytes ?cy (cs ! j) \<and> pl_writes plan' ! q = (cy_blake3 ?cy (cs ! j), cs ! j)"
        proof (cases "h = ?hs")
          case True
          then have "q = ?n" using q by (simp add: p)
          then show ?thesis using True by (intro exI [of _ k]) (simp add: p)
        next
          case False
          then have q': "map_of (pl_pending plan) h = Some q" using q by (simp add: p)
          then obtain j where j: "j < k" "h = hash_bytes ?cy (cs ! j)" "q < ?n"
            "pl_writes plan ! q = (cy_blake3 ?cy (cs ! j), cs ! j)"
            using inv unfolding plan_inv_def by blast
          then show ?thesis by (intro exI [of _ j]) (simp add: p nth_append)
        qed
        show "?v h = None"
        proof (cases "h = ?hs")
          case True
          then show ?thesis using found found_none by simp
        next
          case False
          then have "map_of (pl_pending plan) h = Some q" using q by (simp add: p)
          then show ?thesis using inv unfolding plan_inv_def by blast
        qed
      next
        fix q assume q: "q < length (pl_writes plan')"
        show "pl_indexes plan' ! q < Suc k"
          using q inv li unfolding plan_inv_def by (auto simp: p nth_append less_Suc_eq)
        show "map_of (pl_pending plan') (hash_bytes ?cy (cs ! (pl_indexes plan' ! q))) = Some q"
        proof (cases "q = ?n")
          case True
          then show ?thesis using li by (simp add: p nth_append)
        next
          case False
          then have "q < ?n" using q by (simp add: p)
          moreover from this have "map_of (pl_pending plan) (hash_bytes ?cy (cs ! (pl_indexes plan ! q))) = Some q"
            using inv unfolding plan_inv_def by blast
          ultimately show ?thesis using other li by (simp add: p nth_append)
        qed
      next
        fix a assume "a \<in> set (pl_aliases plan')"
        then have "a \<in> set (pl_aliases plan)" by (simp add: p)
        moreover obtain q i where "a = (q, i)" by fastforce
        ultimately have a: "a = (q, i)" "(q, i) \<in> set (pl_aliases plan)" by simp_all
        then have "i < k \<and> map_of (pl_pending plan) (hash_bytes ?cy (cs ! i)) = Some q"
          using inv unfolding plan_inv_def by blast
        then show "case a of (p, i) \<Rightarrow> i < Suc k \<and> map_of (pl_pending plan') (hash_bytes ?cy (cs ! i)) = Some p"
          using other a(1) by (simp add: p)
      next
        fix i assume "i < Suc k"
        then show "i \<in> set (pl_indexes plan') \<or> i \<in> snd ` set (pl_aliases plan') \<or>
            (\<exists>ref. ?v (hash_bytes ?cy (cs ! i)) = Some ref \<and> pl_results plan' ! i = \<lparr>pu_ref = ref, pu_existed = True\<rparr>)"
          using inv unfolding plan_inv_def by (auto simp: p less_Suc_eq)
      qed
    qed
  qed
qed

lemma plan_requests_inv:
  "plan_requests ev d k (drop k cs) plan s = (Inr plan', t) \<Longrightarrow> k \<le> length cs \<Longrightarrow>
   plan_inv d (rp_db s) cs k plan \<Longrightarrow> plan_inv d (rp_db s) cs (length cs) plan'"
proof (induction "length cs - k" arbitrary: k plan s)
  case 0
  then show ?case by simp
next
  case (Suc n)
  then have k: "k < length cs" by simp
  then have dk: "drop k cs = cs ! k # drop (Suc k) cs" by (simp add: Cons_nth_drop_Suc)
  obtain plan1 s1 where r: "plan_request ev d k (cs ! k) plan s = (Inr plan1, s1)"
    "plan_requests ev d (Suc k) (drop (Suc k) cs) plan1 s1 = (Inr plan', t)"
    using Suc.prems(1) unfolding dk by (auto simp: result_simps)
  have "snd (plan_requests ev d k [cs ! k] plan s) = s1" using r(1) by simp
  then have db: "rp_db s1 = rp_db s" using plan_requests_same [of s ev d k "[cs ! k]" plan] same_store_fields(1) by metis
  have i: "plan_inv d (rp_db s1) cs (Suc k) plan1" unfolding db by (rule plan_request_inv [OF Suc.prems(3) k r(1)])
  have n: "n = length cs - Suc k" using Suc.hyps(2) by simp
  show ?case using Suc.hyps(1) [OF n r(2) _ i] k unfolding db by simp
qed

subsection \<open>Filling in the results\<close>

lemma foldl_updates:
  "length (foldl (\<lambda>rs (i, r). rs[i := r]) rs as) = length rs \<and>
   (i < length rs \<longrightarrow> foldl (\<lambda>rs (i, r). rs[i := r]) rs as ! i =
      (case map_of (rev as) i of Some r \<Rightarrow> r | None \<Rightarrow> rs ! i))"
proof (induction as rule: rev_induct)
  case Nil
  then show ?case by simp
next
  case (snoc a as)
  then show ?case by (cases a) (auto simp: nth_list_update)
qed

lemma result_assignments_mem:
  "(i, r) \<in> set (result_assignments plan refs) \<longleftrightarrow>
    (\<exists>p < length refs. (i = pl_indexes plan ! p \<and> r = \<lparr>pu_ref = refs ! p, pu_existed = False\<rparr>) \<or>
      ((p, i) \<in> set (pl_aliases plan) \<and> r = \<lparr>pu_ref = refs ! p, pu_existed = True\<rparr>))"
proof -
  have e: "set (enumerate 0 refs) = {(p, refs ! p) | p. p < length refs}"
    by (auto simp: in_set_enumerate_eq)
  show ?thesis unfolding result_assignments_def by (auto simp: e)
qed

lemma fill_results_nth:
  assumes inv: "plan_inv d db cs (length cs) plan" and len: "length refs = length (pl_writes plan)"
    and i: "i < length cs"
  shows "(\<exists>p < length refs. map_of (pl_pending plan) (hash_bytes (rd_crypto d) (cs ! i)) = Some p \<and>
      pu_ref (fill_results plan refs ! i) = refs ! p) \<or>
    (\<exists>ref. index_view (rd_index d) db (hash_bytes (rd_crypto d) (cs ! i)) = Some ref \<and>
      fill_results plan refs ! i = \<lparr>pu_ref = ref, pu_existed = True\<rparr>)"
proof -
  let ?hs = "hash_bytes (rd_crypto d) (cs ! i)"
  let ?as = "result_assignments plan refs"
  have l: "length (pl_results plan) = length cs" using inv by (simp add: plan_inv_def)
  have nth: "fill_results plan refs ! i = (case map_of (rev ?as) i of Some r \<Rightarrow> r | None \<Rightarrow> pl_results plan ! i)"
    using foldl_updates [where rs = "pl_results plan" and as = ?as and i = i] i l by (simp add: fill_results_def)
  show ?thesis
  proof (cases "map_of (rev ?as) i")
    case (Some r)
    then have "(i, r) \<in> set ?as" using map_of_SomeD by fastforce
    then obtain p where p: "p < length refs" "pu_ref r = refs ! p"
      "i = pl_indexes plan ! p \<or> (p, i) \<in> set (pl_aliases plan)"
      by (auto simp: result_assignments_mem)
    have "map_of (pl_pending plan) ?hs = Some p"
      using p(1,3) inv len unfolding plan_inv_def by fastforce
    then show ?thesis using p nth Some by auto
  next
    case None
    then have no: "i \<notin> fst ` set ?as" by (metis map_of_eq_None_iff set_rev)
    have "i \<notin> set (pl_indexes plan)"
    proof
      assume "i \<in> set (pl_indexes plan)"
      then obtain p where "p < length (pl_indexes plan)" "i = pl_indexes plan ! p" by (metis in_set_conv_nth)
      moreover have "length (pl_indexes plan) = length refs" using inv len by (simp add: plan_inv_def)
      ultimately have "(i, \<lparr>pu_ref = refs ! p, pu_existed = False\<rparr>) \<in> set ?as"
        by (auto simp: result_assignments_mem)
      then show False using no by force
    qed
    moreover have "i \<notin> snd ` set (pl_aliases plan)"
    proof
      assume "i \<in> snd ` set (pl_aliases plan)"
      then obtain p where p: "(p, i) \<in> set (pl_aliases plan)" by auto
      then have "map_of (pl_pending plan) ?hs = Some p" using inv unfolding plan_inv_def by blast
      then have "p < length refs" using inv len unfolding plan_inv_def by auto
      then have "(i, \<lparr>pu_ref = refs ! p, pu_existed = True\<rparr>) \<in> set ?as"
        using p by (auto simp: result_assignments_mem)
      then show False using no by force
    qed
    ultimately show ?thesis using inv i nth None unfolding plan_inv_def by fastforce
  qed
qed

subsection \<open>Storing chunks is correct\<close>

lemma on_segments_Inr:
  "on_segments f s = (Inr x, t) \<longleftrightarrow> (\<exists>g. f (rp_seg s) = (Inr x, g) \<and> t = s\<lparr>rp_seg := g\<rparr>)"
  by (cases "f (rp_seg s)"; cases "fst (f (rp_seg s))") (auto simp: on_segments_def)

lemma on_segments_Inl:
  "on_segments f s = (Inl e, t) \<Longrightarrow> \<exists>e' g. f (rp_seg s) = (Inl e', g) \<and> t = s\<lparr>rp_seg := g\<rparr>"
  by (cases "f (rp_seg s)"; cases "fst (f (rp_seg s))") (auto simp: on_segments_def)

lemma store_refs_Inr:
  "store_refs ev d refs s = (Inr u, t) \<Longrightarrow>
   \<exists>db. index_put_batch (rd_index d) (rp_db s) (io_fault ev s) refs = (Inr (), db) \<and> t = repo_tick (s\<lparr>rp_db := db\<rparr>)"
  by (auto simp: store_refs_def lift_index_def split: prod.splits sum.splits)

lemma ref_reads_extends: "ref_reads d fs ref data \<Longrightarrow> extends fs gs \<Longrightarrow> ref_reads d gs ref data"
  unfolding ref_reads_def by (rule segment_read_extends)

lemma put_refs_keeps_old:
  "m h = Some r \<Longrightarrow> h \<notin> cr_hash ` set refs \<Longrightarrow> put_refs m refs h = Some r"
  by (simp add: put_refs_other)

text \<open>Writing out a plan: the new references read back and the index covers old and new hashes.\<close>

lemma store_plan:
  assumes inv: "repo_inv d s" and deps: "deps_ok d" and ev: "good_rand ev" "good_clock ev"
    and fits: "\<forall>c \<in> set cs. data_fits (rd_crypto d) (rd_key d) c"
    and plan: "plan_inv d (rp_db s) cs (length cs) plan"
    and w: "on_segments (write_chunks ev (rd_crypto d) (rd_key d) (pl_writes plan)) s = (Inr refs, s1)"
    and st: "store_refs ev d refs s1 = (Inr u, t)" and fit: "files_fit (sg_files (rp_seg t))"
  shows "repo_inv d t \<and> length refs = length (pl_writes plan) \<and>
    index_view (rd_index d) (rp_db t) = put_refs (index_view (rd_index d) (rp_db s)) refs \<and>
    extends (sg_files (rp_seg s)) (sg_files (rp_seg t)) \<and>
    (\<forall>h p. map_of (pl_pending plan) h = Some p \<longrightarrow> cr_hash (refs ! p) = h \<and>
       ref_reads d (sg_files (rp_seg t)) (refs ! p) (snd (pl_writes plan ! p)) \<and>
       put_refs (index_view (rd_index d) (rp_db s)) refs h = Some (refs ! p)) \<and>
    (\<forall>r \<in> set refs. index_view (rd_index d) (rp_db s) (cr_hash r) = None)"
proof -
  let ?cy = "rd_crypto d" and ?key = "rd_key d" and ?ix = "rd_index d"
  let ?v = "index_view ?ix (rp_db s)"
  have laws: "crypto_laws ?cy" "index_laws ?ix" using deps by (auto simp: deps_ok_def)
  have wf: "index_wf ?ix (rp_db s)" and seg: "seg_inv (rp_seg s)" "int64 (sg_id (rp_seg s))"
    and snd: "\<And>h ref. ?v h = Some ref \<Longrightarrow> \<exists>data. ref_reads d (sg_files (rp_seg s)) ref data"
    using inv by (auto simp: repo_inv_def index_sound_def)
  obtain g where g: "write_loop ev ?cy ?key False (pl_writes plan) (rp_seg s) = (Inr refs, g)" "s1 = s\<lparr>rp_seg := g\<rparr>"
    using w by (auto simp: on_segments_Inr write_chunks_def)
  obtain db where db: "index_put_batch ?ix (rp_db s1) (io_fault ev s1) refs = (Inr (), db)"
    "t = repo_tick (s1\<lparr>rp_db := db\<rparr>)"
    using store_refs_Inr [OF st] by blast
  have t: "sg_files (rp_seg t) = sg_files g" "rp_db t = db" "rp_seg t = tick g" by (simp_all add: db(2) g(2))
  have pend: "map_of (pl_pending plan) h = Some p \<Longrightarrow> p < length (pl_writes plan) \<and>
      (\<exists>j < length cs. h = hash_bytes ?cy (cs ! j) \<and> pl_writes plan ! p = (cy_blake3 ?cy (cs ! j), cs ! j)) \<and> ?v h = None"
    for h p using plan unfolding plan_inv_def by blast
  have idx: "p < length (pl_writes plan) \<Longrightarrow> pl_indexes plan ! p < length cs \<and>
      map_of (pl_pending plan) (hash_bytes ?cy (cs ! (pl_indexes plan ! p))) = Some p" for p
    using plan unfolding plan_inv_def by blast
  have wr: "\<exists>j < length cs. pl_writes plan ! p = (cy_blake3 ?cy (cs ! j), cs ! j) \<and>
      map_of (pl_pending plan) (hash_bytes ?cy (cs ! j)) = Some p" if "p < length (pl_writes plan)" for p
    using idx [OF that] pend by metis
  have chs: "\<forall>(h, c) \<in> set (pl_writes plan). h = cy_blake3 ?cy c \<and> data_fits ?cy ?key c"
  proof
    fix x assume "x \<in> set (pl_writes plan)"
    then obtain p where p: "p < length (pl_writes plan)" "x = pl_writes plan ! p" by (metis in_set_conv_nth)
    then show "case x of (h, c) \<Rightarrow> h = cy_blake3 ?cy c \<and> data_fits ?cy ?key c" using wr [OF p(1)] fits by auto
  qed
  note rd = write_loop_reads [OF g(1) seg(1) laws(1) ev(1) chs]
  have len: "length refs = length (pl_writes plan)" using rd by (auto dest: list_all2_lengthD)
  have ref: "segment_read ?cy ?key False (sg_files g) (refs ! p) = Inr (snd (pl_writes plan ! p)) \<and>
      cr_hash (refs ! p) = hash_bytes ?cy (snd (pl_writes plan ! p))" if "p < length refs" for p
  proof -
    have "case pl_writes plan ! p of (h, c) \<Rightarrow> segment_read ?cy ?key False (sg_files g) (refs ! p) = Inr c \<and>
        cr_hash (refs ! p) = hash_bytes ?cy c"
      using rd that len by (auto simp only: list_all2_conv_all_nth)
    then show ?thesis by (simp add: case_prod_unfold)
  qed
  have ph: "cr_hash (refs ! p) = h" if "map_of (pl_pending plan) h = Some p" for h p
    using ref [of p] pend [OF that] len by auto
  have refpend: "map_of (pl_pending plan) (cr_hash (refs ! p)) = Some p" if "p < length refs" for p
    using ref [OF that] wr [of p] that len by auto
  have dist: "distinct (map cr_hash refs)"
    unfolding distinct_conv_nth using refpend by (metis length_map nth_map option.inject)
  have json: "(\<forall>r \<in> set refs. ref_json_ok r) \<and> int64 (sg_id g)"
    using write_loop_json [OF g(1) seg ev(2) _ fit [unfolded t(1)]] chs by fastforce
  have view: "index_view ?ix db = put_refs ?v refs \<and> index_wf ?ix db"
    using index_put_batch_view [OF laws(2) wf _ db(1) [unfolded g(2), simplified]] json by simp
  have ext: "extends (sg_files (rp_seg s)) (sg_files g)"
    using write_loop_extends [of "rp_seg s" ev ?cy ?key False "pl_writes plan"] g(1) by simp
  have none: "\<forall>r \<in> set refs. ?v (cr_hash r) = None"
  proof
    fix r assume "r \<in> set refs"
    then obtain p where "p < length refs" "r = refs ! p" by (metis in_set_conv_nth)
    then show "?v (cr_hash r) = None" using refpend [of p] pend by auto
  qed
  have sound: "index_sound d t"
    unfolding index_sound_def t(1,2)
  proof (intro conjI allI impI)
    show "index_wf ?ix db" using view by simp
    fix h r assume "index_view ?ix db h = Some r"
    then have "r \<in> set refs \<or> ?v h = Some r" using view put_refs_mem by metis
    then show "\<exists>data. ref_reads d (sg_files g) r data"
    proof
      assume "r \<in> set refs"
      then obtain p where "p < length refs" "r = refs ! p" by (metis in_set_conv_nth)
      then show ?thesis using ref unfolding ref_reads_def by blast
    next
      assume "?v h = Some r"
      then show ?thesis using snd ref_reads_extends [OF _ ext] by blast
    qed
  qed
  have "repo_inv d t" using sound rd json by (simp add: repo_inv_def t)
  moreover have "cr_hash (refs ! p) = h \<and> ref_reads d (sg_files (rp_seg t)) (refs ! p) (snd (pl_writes plan ! p)) \<and>
       put_refs ?v refs h = Some (refs ! p)" if q: "map_of (pl_pending plan) h = Some p" for h p
  proof -
    have p: "p < length refs" using pend [OF q] len by simp
    then have "put_refs ?v refs (cr_hash (refs ! p)) = Some (refs ! p)" by (intro put_refs_distinct dist) simp
    then show ?thesis using ref [OF p] ph [OF q] by (simp add: ref_reads_def t)
  qed
  ultimately show ?thesis using len view ext none t by simp
qed

lemma check_ctx_Inr: "check_ctx ev s = (Inr u, t) \<Longrightarrow> t = repo_tick s"
  by (auto simp: check_ctx_def split: if_splits)

definition put_post ::
    "'db repo_deps \<Rightarrow> bytes list \<Rightarrow> 'db repo \<Rightarrow> put_result list \<Rightarrow> 'db repo \<Rightarrow> bool" where
  "put_post d cs s rs t \<longleftrightarrow>
     repo_inv d t \<and> length rs = length cs \<and> extends (sg_files (rp_seg s)) (sg_files (rp_seg t)) \<and>
     (\<forall>h r. index_view (rd_index d) (rp_db s) h = Some r \<longrightarrow> index_view (rd_index d) (rp_db t) h = Some r) \<and>
     (\<forall>i < length cs.
        index_view (rd_index d) (rp_db t) (hash_bytes (rd_crypto d) (cs ! i)) = Some (pu_ref (rs ! i)) \<and>
        (\<exists>data. ref_reads d (sg_files (rp_seg t)) (pu_ref (rs ! i)) data \<and>
           hash_bytes (rd_crypto d) data = hash_bytes (rd_crypto d) (cs ! i)))"

lemma put_chunks_post:
  assumes inv: "repo_inv d s" and deps: "deps_ok d" and ev: "good_rand ev" "good_clock ev"
    and fits: "\<forall>c \<in> set cs. data_fits (rd_crypto d) (rd_key d) c"
    and put: "put_chunks ev d cs s = (Inr rs, t)" and fit: "files_fit (sg_files (rp_seg t))"
  shows "put_post d cs s rs t"
proof -
  let ?v = "index_view (rd_index d) (rp_db s)"
  let ?s2 = "repo_tick (repo_tick s)"
  obtain plan s3 where p: "plan_requests ev d 0 cs (empty_plan (length cs)) ?s2 = (Inr plan, s3)"
    and rest: "(if pl_writes plan = [] then (Inr (pl_results plan), s3)
       else sbind (on_segments (write_chunks ev (rd_crypto d) (rd_key d) (pl_writes plan)) s3) (\<lambda>refs s4.
         if length refs \<noteq> length (pl_writes plan)
         then (Inl (RepoRefCount (length refs) (length (pl_writes plan))), s4)
         else sbind (store_refs ev d refs s4) (\<lambda>_ s5. (Inr (fill_results plan refs), s5)))) = (Inr rs, t)"
    using put unfolding put_chunks_def by (auto simp only: result_simps dest!: check_ctx_Inr)
  have same: "same_store ?s2 s3" using plan_requests_same [of ?s2 ev d 0 cs "empty_plan (length cs)"] p by simp
  then have inv3: "repo_inv d s3" and f3: "rp_db s3 = rp_db s" "sg_files (rp_seg s3) = sg_files (rp_seg s)"
    using inv same_store_inv [OF same] same_store_fields [OF same] by auto
  have pinv: "plan_inv d (rp_db s) cs (length cs) plan"
    using plan_requests_inv [OF _ _ plan_inv_empty, of ev d cs ?s2 plan s3] p by simp
  have hash_of: "\<exists>data. ref_reads d fs ref data \<and> hash_bytes (rd_crypto d) data = cr_hash ref"
    if "\<exists>data. ref_reads d fs ref data" for fs ref
    using that segment_read_hash unfolding ref_reads_def by blast
  show ?thesis
  proof (cases "pl_writes plan = []")
    case True
    then have rs: "rs = pl_results plan" "t = s3" using rest by auto
    have no: "pl_indexes plan = []" "pl_aliases plan = []"
    proof -
      show "pl_indexes plan = []" using pinv True by (simp add: plan_inv_def)
      show "pl_aliases plan = []"
      proof (rule ccontr)
        assume "pl_aliases plan \<noteq> []"
        then obtain p i where "(p, i) \<in> set (pl_aliases plan)" by (cases "pl_aliases plan") auto
        then have "map_of (pl_pending plan) (hash_bytes (rd_crypto d) (cs ! i)) = Some p"
          using pinv unfolding plan_inv_def by blast
        then show False using pinv True unfolding plan_inv_def by auto
      qed
    qed
    have r: "\<exists>ref. ?v (hash_bytes (rd_crypto d) (cs ! i)) = Some ref \<and> rs ! i = \<lparr>pu_ref = ref, pu_existed = True\<rparr>"
      if "i < length cs" for i
      using pinv that no rs unfolding plan_inv_def by auto
    have snd: "cr_hash ref = h \<and> (\<exists>data. ref_reads d (sg_files (rp_seg s)) ref data)" if "?v h = Some ref" for h ref
      using that index_sound_entry [OF inv] by blast
    show ?thesis
      unfolding put_post_def rs(2) f3
    proof (intro conjI allI impI)
      show "length rs = length cs" using pinv rs by (simp add: plan_inv_def)
      fix i assume "i < length cs"
      then obtain ref where ref: "?v (hash_bytes (rd_crypto d) (cs ! i)) = Some ref" "pu_ref (rs ! i) = ref"
        using r by fastforce
      show "?v (hash_bytes (rd_crypto d) (cs ! i)) = Some (pu_ref (rs ! i))" using ref by simp
      show "\<exists>data. ref_reads d (sg_files (rp_seg s)) (pu_ref (rs ! i)) data \<and>
          hash_bytes (rd_crypto d) data = hash_bytes (rd_crypto d) (cs ! i)"
        using hash_of snd ref by metis
    qed (use inv3 in simp_all)
  next
    case False
    then obtain refs s4 u where w: "on_segments (write_chunks ev (rd_crypto d) (rd_key d) (pl_writes plan)) s3 = (Inr refs, s4)"
      and st: "store_refs ev d refs s4 = (Inr u, t)" and rs: "rs = fill_results plan refs"
      using rest by (auto simp: result_simps split: if_splits)
    note sp = store_plan [OF inv3 deps ev fits pinv [folded f3(1)] w st fit, unfolded f3]
    let ?vt = "index_view (rd_index d) (rp_db t)"
    have vt: "?vt = put_refs ?v refs" using sp by blast
    have len: "length refs = length (pl_writes plan)" using sp by blast
    have old: "?vt h = Some r" if "?v h = Some r" for h r
      unfolding vt using sp that by (intro put_refs_keeps_old) force+
    have each: "?vt (hash_bytes (rd_crypto d) (cs ! i)) = Some (pu_ref (rs ! i))" if i: "i < length cs" for i
      using fill_results_nth [OF pinv len i]
    proof
      assume "\<exists>p<length refs. map_of (pl_pending plan) (hash_bytes (rd_crypto d) (cs ! i)) = Some p \<and>
          pu_ref (fill_results plan refs ! i) = refs ! p"
      then show ?thesis using sp rs vt by metis
    next
      assume "\<exists>ref. ?v (hash_bytes (rd_crypto d) (cs ! i)) = Some ref \<and>
          fill_results plan refs ! i = \<lparr>pu_ref = ref, pu_existed = True\<rparr>"
      then show ?thesis using old rs by fastforce
    qed
    have invt: "repo_inv d t" using sp by blast
    have lr: "length rs = length cs"
      using foldl_updates [where rs = "pl_results plan" and as = "result_assignments plan refs" and i = 0] pinv
      unfolding rs fill_results_def plan_inv_def by simp
    have "\<exists>data. ref_reads d (sg_files (rp_seg t)) (pu_ref (rs ! i)) data \<and>
        hash_bytes (rd_crypto d) data = hash_bytes (rd_crypto d) (cs ! i)" if "i < length cs" for i
      using index_sound_entry [OF invt each [OF that]] hash_of by metis
    then show ?thesis using sp old each invt lr unfolding put_post_def by blast
  qed
qed

subsection \<open>Failures, and chunks that are there already\<close>

lemma sbind_Inl_cases:
  assumes "sbind m f = (Inl e, t)"
  obtains (first) "m = (Inl e, t)" | (second) x s where "m = (Inr x, s)" "f x s = (Inl e, t)"
  using assms by (cases "(m, f)" rule: sbind.cases) auto

lemma put_chunks_error:
  assumes "put_chunks ev d cs s = (Inl e, t)"
  shows "rp_db t = rp_db s \<and> extends (sg_files (rp_seg s)) (sg_files (rp_seg t))"
proof -
  have same: "rp_db t = rp_db s \<and> extends (sg_files (rp_seg s)) (sg_files (rp_seg t))" if "same_store s t" for t
    using same_store_fields [OF that] by simp
  have c1: "same_store s (snd (check_ctx ev s))" by (rule check_ctx_same)
  show ?thesis using assms unfolding put_chunks_def
  proof (cases rule: sbind_Inl_cases)
    case first
    then show ?thesis using same c1 by (metis snd_conv)
  next
    case (second x s1)
    then have s1: "same_store s s1" using c1 by (metis snd_conv)
    from second(2) show ?thesis
    proof (cases rule: sbind_Inl_cases)
      case first
      then show ?thesis using same same_store_trans [OF s1] check_ctx_same [of s1 ev] by (metis snd_conv)
    next
      case (second x s2)
      then have s2: "same_store s s2" using same_store_trans [OF s1] check_ctx_same [of s1 ev] by (metis snd_conv)
      from second(2) show ?thesis
      proof (cases rule: sbind_Inl_cases)
        case first
        then show ?thesis using same same_store_trans [OF s2] plan_requests_same by (metis snd_conv)
      next
        case (second plan s3)
        then have s3: "same_store s s3" using same_store_trans [OF s2] plan_requests_same by (metis snd_conv)
        then have f3: "rp_db s3 = rp_db s" "sg_files (rp_seg s3) = sg_files (rp_seg s)" using same_store_fields by auto
        have w: "sbind (on_segments (write_chunks ev (rd_crypto d) (rd_key d) (pl_writes plan)) s3) (\<lambda>refs s4.
            if length refs \<noteq> length (pl_writes plan)
            then (Inl (RepoRefCount (length refs) (length (pl_writes plan))), s4)
            else sbind (store_refs ev d refs s4) (\<lambda>_ s5. (Inr (fill_results plan refs), s5))) = (Inl e, t)"
          using second(2) by (auto split: if_splits)
        have seg: "rp_db s4 = rp_db s \<and> extends (sg_files (rp_seg s)) (sg_files (rp_seg s4))"
          if "on_segments (write_chunks ev (rd_crypto d) (rd_key d) (pl_writes plan)) s3 = (r, s4)" for r s4
          using write_loop_extends [of "rp_seg s3" ev "rd_crypto d" "rd_key d" False "pl_writes plan"] that f3
          by (auto simp: on_segments_def write_chunks_def split: prod.splits sum.splits)
        from w show ?thesis
        proof (cases rule: sbind_Inl_cases)
          case first
          then show ?thesis using seg by blast
        next
          case (second refs s4)
          show ?thesis
          proof (cases "length refs = length (pl_writes plan)")
            case False
            then show ?thesis using second seg by auto
          next
            case True
            then have "sbind (store_refs ev d refs s4) (\<lambda>_ s5. (Inr (fill_results plan refs), s5)) = (Inl e, t)"
              using second(2) by simp
            then have "store_refs ev d refs s4 = (Inl e, t)" by (cases rule: sbind_Inl_cases) auto
            then have "rp_db t = rp_db s4 \<and> sg_files (rp_seg t) = sg_files (rp_seg s4)"
              using index_put_batch_Inl [of "rd_index d" "rp_db s4" "io_fault ev s4" refs]
              by (auto simp: store_refs_def lift_index_def split: prod.splits sum.splits)
            then show ?thesis using seg [OF second(1)] by simp
          qed
        qed
      qed
    qed
  qed
qed

lemma plan_all_known:
  assumes "plan_requests ev d k (drop k cs) plan s = (Inr plan', t)" "k \<le> length cs"
    and "\<forall>c \<in> set cs. index_view (rd_index d) (rp_db s) (hash_bytes (rd_crypto d) c) \<noteq> None"
    and "pl_writes plan = []" "plan_inv d (rp_db s) cs k plan"
  shows "pl_writes plan' = []"
proof -
  have inv: "plan_inv d (rp_db s) cs (length cs) plan'"
    using plan_requests_inv assms(1,2,5) by blast
  show ?thesis
  proof (rule ccontr)
    assume "pl_writes plan' \<noteq> []"
    then have "0 < length (pl_writes plan')" by simp
    then have i: "pl_indexes plan' ! 0 < length cs"
      "map_of (pl_pending plan') (hash_bytes (rd_crypto d) (cs ! (pl_indexes plan' ! 0))) = Some 0"
      using inv unfolding plan_inv_def by blast+
    then have "index_view (rd_index d) (rp_db s) (hash_bytes (rd_crypto d) (cs ! (pl_indexes plan' ! 0))) = None"
      using inv unfolding plan_inv_def by blast
    then show False using assms(3) i(1) by force
  qed
qed

lemma put_chunks_known:
  assumes "put_chunks ev d cs s = (Inr rs, t)"
    and "\<forall>c \<in> set cs. index_view (rd_index d) (rp_db s) (hash_bytes (rd_crypto d) c) \<noteq> None"
  shows "same_store s t \<and> length rs = length cs \<and>
    (\<forall>i < length cs. pu_existed (rs ! i) \<and>
       index_view (rd_index d) (rp_db s) (hash_bytes (rd_crypto d) (cs ! i)) = Some (pu_ref (rs ! i)))"
proof -
  let ?s2 = "repo_tick (repo_tick s)"
  obtain plan s3 where p: "plan_requests ev d 0 cs (empty_plan (length cs)) ?s2 = (Inr plan, s3)"
    and rest: "(if pl_writes plan = [] then (Inr (pl_results plan), s3)
       else sbind (on_segments (write_chunks ev (rd_crypto d) (rd_key d) (pl_writes plan)) s3) (\<lambda>refs s4.
         if length refs \<noteq> length (pl_writes plan)
         then (Inl (RepoRefCount (length refs) (length (pl_writes plan))), s4)
         else sbind (store_refs ev d refs s4) (\<lambda>_ s5. (Inr (fill_results plan refs), s5)))) = (Inr rs, t)"
    using assms(1) unfolding put_chunks_def by (auto simp only: result_simps dest!: check_ctx_Inr)
  have same: "same_store s s3"
    using plan_requests_same [of ?s2 ev d 0 cs "empty_plan (length cs)"] p
    by (metis same_store_tick same_store_trans snd_conv)
  have e: "plan_inv d (rp_db ?s2) cs 0 (empty_plan (length cs))" by (rule plan_inv_empty)
  have none: "pl_writes plan = []"
    using plan_all_known [of ev d 0 cs "empty_plan (length cs)" ?s2 plan s3] p assms(2) e by (simp add: empty_plan_def)
  have inv: "plan_inv d (rp_db s) cs (length cs) plan"
    using plan_requests_inv [OF _ _ plan_inv_empty, of ev d cs ?s2 plan s3] p by simp
  have nopend: "map_of (pl_pending plan) h = None" for h
    using inv none unfolding plan_inv_def by (metis length_0_conv not_less_zero option.exhaust)
  have "\<forall>i < length cs. i \<notin> set (pl_indexes plan) \<and> i \<notin> snd ` set (pl_aliases plan)"
    using inv none nopend unfolding plan_inv_def by fastforce
  then have "\<forall>i < length cs. \<exists>ref. index_view (rd_index d) (rp_db s) (hash_bytes (rd_crypto d) (cs ! i)) = Some ref \<and>
      pl_results plan ! i = \<lparr>pu_ref = ref, pu_existed = True\<rparr>"
    using inv unfolding plan_inv_def by blast
  moreover have "rs = pl_results plan" "t = s3" using rest none by auto
  moreover have "length (pl_results plan) = length cs" using inv by (simp add: plan_inv_def)
  ultimately show ?thesis using same by fastforce
qed

subsection \<open>Rewriting and deleting segments\<close>

lemma read_chunk_ref_Inr:
  "read_chunk_ref ev d ref s = (Inr data, t) \<Longrightarrow> t = repo_tick s \<and> ref_reads d (sg_files (rp_seg s)) ref data"
  unfolding read_chunk_ref_def ref_reads_def segment_read_def
  by (auto split: sum.splits option.splits fnode.splits if_splits)

lemma rewrite_chunk_ref_ok:
  assumes inv: "repo_inv d s" and deps: "deps_ok d" and ev: "good_rand ev" "good_clock ev"
    and rw: "rewrite_chunk_ref ev d old s = (Inr ref, t)"
    and fits: "\<And>data. ref_reads d (sg_files (rp_seg s)) old data \<Longrightarrow> data_fits (rd_crypto d) (rd_key d) data"
    and fit: "files_fit (sg_files (rp_seg t))"
  shows "repo_inv d t \<and> ref_json_ok ref \<and> cr_hash ref = cr_hash old \<and>
    (\<exists>data. ref_reads d (sg_files (rp_seg s)) old data \<and> ref_reads d (sg_files (rp_seg t)) ref data) \<and>
    index_view (rd_index d) (rp_db t) = (index_view (rd_index d) (rp_db s))(cr_hash old \<mapsto> ref)"
proof -
  let ?cy = "rd_crypto d" and ?key = "rd_key d" and ?ix = "rd_index d"
  let ?s2 = "repo_tick (repo_tick s)"
  have laws: "crypto_laws ?cy" "index_laws ?ix" using deps by (auto simp: deps_ok_def)
  obtain data s2 where rd: "read_chunk_ref ev d old (repo_tick s) = (Inr data, s2)"
    and rest: "(let hash = cy_blake3 ?cy data
       in if hex_encode hash \<noteq> cr_hash old
          then (Inl (RepoRewriteMismatch (cr_hash old) (hex_encode hash)), s2)
          else sbind (on_segments (write_chunk_one ev ?cy ?key hash data) s2) (\<lambda>ref s3.
               sbind (store_refs ev d [ref] s3) (\<lambda>_ s4. (Inr ref, s4)))) = (Inr ref, t)"
    using rw unfolding rewrite_chunk_ref_def by (auto simp only: result_simps dest!: check_ctx_Inr)
  have s2: "s2 = ?s2" and data: "ref_reads d (sg_files (rp_seg s)) old data"
    using read_chunk_ref_Inr [OF rd] by auto
  have h: "hash_bytes ?cy data = cr_hash old"
    using data unfolding ref_reads_def by (rule segment_read_hash)
  then obtain s3 u where w1: "on_segments (write_chunk_one ev ?cy ?key (cy_blake3 ?cy data) data) ?s2 = (Inr ref, s3)"
    and st: "store_refs ev d [ref] s3 = (Inr u, t)"
    using rest by (auto simp: Let_def result_simps s2 hash_bytes_def)
  obtain g where g: "write_chunk_one ev ?cy ?key (cy_blake3 ?cy data) data (rp_seg ?s2) = (Inr ref, g)"
    "s3 = ?s2\<lparr>rp_seg := g\<rparr>"
    using w1 by (auto simp: on_segments_Inr)
  then have w: "write_loop ev ?cy ?key False [(cy_blake3 ?cy data, data)] (rp_seg ?s2) = (Inr [ref], g)"
    unfolding write_chunk_one_def write_chunks_def
    by (auto simp only: result_simps split: list.splits) auto
  obtain db where db: "index_put_batch ?ix (rp_db s3) (io_fault ev s3) [ref] = (Inr (), db)"
    "t = repo_tick (s3\<lparr>rp_db := db\<rparr>)"
    using store_refs_Inr [OF st] by blast
  have t: "sg_files (rp_seg t) = sg_files g" "rp_db t = db" "rp_seg t = tick g" by (simp_all add: db(2) g(2))
  have inv2: "repo_inv d ?s2" using inv by simp
  then have seg: "seg_inv (rp_seg ?s2)" "int64 (sg_id (rp_seg ?s2))" and wf: "index_wf ?ix (rp_db s)"
    by (auto simp: repo_inv_def index_sound_def)
  have chs: "\<forall>(h, c) \<in> set [(cy_blake3 ?cy data, data)]. h = cy_blake3 ?cy c \<and> data_fits ?cy ?key c"
    using fits data by simp
  note rd2 = write_loop_reads [OF w seg(1) laws(1) ev(1) chs]
  have ref: "ref_reads d (sg_files g) ref data" "cr_hash ref = cr_hash old"
    using rd2 h by (auto simp: ref_reads_def)
  have json: "(\<forall>r \<in> set [ref]. ref_json_ok r) \<and> int64 (sg_id g)"
    using write_loop_json [OF w seg ev(2) _ fit [unfolded t(1)]] chs by simp
  have view: "index_view ?ix db = put_refs (index_view ?ix (rp_db s)) [ref] \<and> index_wf ?ix db"
    using index_put_batch_view [OF laws(2) wf _ db(1) [unfolded g(2), simplified]] json by simp
  have ext: "extends (sg_files (rp_seg s)) (sg_files g)"
    using write_loop_extends [of "rp_seg ?s2" ev ?cy ?key False "[(cy_blake3 ?cy data, data)]"] w by simp
  have "index_sound d t"
    unfolding index_sound_def t(1,2)
  proof (intro conjI allI impI)
    show "index_wf ?ix db" using view by simp
    fix h r assume "index_view ?ix db h = Some r"
    then have "r = ref \<or> index_view ?ix (rp_db s) h = Some r" using view by (auto split: if_splits)
    then show "\<exists>data. ref_reads d (sg_files g) r data"
      using ref(1) index_sound_entry [OF inv] ref_reads_extends [OF _ ext] by blast
  qed
  then have "repo_inv d t" using rd2 json by (simp add: repo_inv_def t(3))
  then show ?thesis using ref data view json by (auto simp: t)
qed

lemma store_refs_files: "sg_files (rp_seg (snd (store_refs ev d refs s))) = sg_files (rp_seg s)"
  by (simp add: store_refs_def split: prod.splits)

lemma on_segments_files:
  "extends (sg_files (rp_seg s)) (sg_files (snd (f (rp_seg s)))) \<Longrightarrow>
   extends (sg_files (rp_seg s)) (sg_files (rp_seg (snd (on_segments f s))))"
  by (auto simp: on_segments_def split: prod.splits sum.splits)

lemma rewrite_chunk_ref_extends:
  "extends (sg_files (rp_seg s)) (sg_files (rp_seg (snd (rewrite_chunk_ref ev d old s))))"
proof -
  have rd: "sg_files (rp_seg (snd (read_chunk_ref ev d old s))) = sg_files (rp_seg s)" for s
    by (simp add: read_chunk_ref_def split: sum.splits)
  have one: "snd (write_chunk_one ev cy key hash data g) = snd (write_chunks ev cy key [(hash, data)] g)" for cy key hash data g
    by (cases "write_chunks ev cy key [(hash, data)] g"; cases "fst (write_chunks ev cy key [(hash, data)] g)")
      (auto simp: write_chunk_one_def split: list.splits)
  have w: "extends (sg_files (rp_seg s)) (sg_files (rp_seg (snd (on_segments (write_chunk_one ev (rd_crypto d) (rd_key d) hash data) u))))"
    if "sg_files (rp_seg u) = sg_files (rp_seg s)" for u :: "'a repo" and hash data
    unfolding that [symmetric] by (rule on_segments_files) (simp only: one write_chunks_def write_loop_extends)
  show ?thesis
    by (auto simp: rewrite_chunk_ref_def snd_sbind check_ctx_def Let_def rd store_refs_files intro!: w split: sum.splits)
qed

lemma segment_name_inj: "int64 a \<Longrightarrow> int64 b \<Longrightarrow> segment_name a = segment_name b \<Longrightarrow> a = b"
  unfolding segment_name_def by (metis append_same_eq atoi_format_pad16 option.inject)

lemma list_segment_ids_int64: "i \<in> set (list_segment_ids fs) \<Longrightarrow> int64 i"
proof -
  assume "i \<in> set (list_segment_ids fs)"
  then obtain x where "atoi x = Some i"
    by (auto simp: list_segment_ids_def map_filter_def split: if_splits)
  then show "int64 i" by (auto simp: atoi_def Let_def split: if_splits)
qed

lemma delete_segment_files_keeps:
  assumes "\<forall>i \<in> set ids. int64 i" "k \<in> keep" "int64 k"
  shows "map_of (sg_files (rp_seg (snd (delete_segment_files ev keep ids n b s)))) (segment_name k) =
    map_of (sg_files (rp_seg s)) (segment_name k)"
  using assms(1)
proof (induction ids arbitrary: n b s)
  case Nil
  then show ?case by simp
next
  case (Cons i ids)
  have "i \<notin> keep \<Longrightarrow> segment_name i \<noteq> segment_name k"
    using segment_name_inj [of i k] Cons.prems assms(2,3) by auto
  then show ?case
    using Cons by (auto simp: Let_def delete_conv' tick_def split: option.splits)
qed

lemma delete_segment_files_none:
  "fst (delete_segment_files ev keep ids n b s) = (None, m, c) \<Longrightarrow> i \<in> set ids \<Longrightarrow> i \<notin> keep \<Longrightarrow>
   map_of (sg_files (rp_seg (snd (delete_segment_files ev keep ids n b s)))) (segment_name i) = None"
proof (induction ids arbitrary: n b s)
  case Nil
  then show ?case by simp
next
  case (Cons j ids)
  have keep_none: "map_of (sg_files (rp_seg s)) nm = None \<Longrightarrow>
      map_of (sg_files (rp_seg (snd (delete_segment_files ev keep ids n b s)))) nm = None" for nm n b s
    by (induction ids arbitrary: n b s) (auto simp: Let_def delete_conv' tick_def split: option.splits)
  show ?case
  proof (cases "j \<in> keep")
    case True
    then show ?thesis using Cons by auto
  next
    case False
    then obtain node where node: "map_of (sg_files (rp_seg s)) (segment_name j) = Some node"
      "\<not> io_fault ev s" "\<not> io_fault ev (repo_tick s)"
      using Cons.prems(1) by (auto simp: Let_def split: option.splits if_splits)
    let ?s1 = "repo_tick s"
    let ?s2 = "repo_tick (?s1\<lparr>rp_seg := (rp_seg ?s1)\<lparr>sg_files := AList.delete (segment_name j) (sg_files (rp_seg ?s1))\<rparr>\<rparr>)"
    have step: "delete_segment_files ev keep (j # ids) n b s =
        delete_segment_files ev keep ids (n + 1) (b + node_size node) ?s2"
      using False node by (simp add: Let_def)
    show ?thesis
    proof (cases "i = j")
      case True
      have "map_of (sg_files (rp_seg ?s2)) (segment_name i) = None" using True by (simp add: delete_conv')
      then show ?thesis unfolding step by (rule keep_none)
    next
      case False
      then show ?thesis using Cons.IH [of "n + 1" "b + node_size node" ?s2] Cons.prems unfolding step by simp
    qed
  qed
qed

subsection \<open>A concrete repository\<close>

definition plain_deps :: "(bytes \<times> bytes) list repo_deps" where
  "plain_deps = \<lparr>rd_crypto = plain_crypto, rd_key = [], rd_index = plain_index\<rparr>"

definition empty_repo :: "(bytes \<times> bytes) list repo" where
  "empty_repo = \<lparr>rp_seg = empty_segments, rp_db = []\<rparr>"

definition still_env :: env where
  "still_env = good_env\<lparr>env_now := (\<lambda>n. 0)\<rparr>"

lemma still_env_ok [simp]: "good_rand still_env" "good_clock still_env"
  by (simp_all add: still_env_def good_rand_def good_clock_def json_time_ok_def)

lemma plain_deps_ok: "deps_ok plain_deps"
  by (simp add: deps_ok_def plain_deps_def plain_crypto_laws plain_index_laws)

lemma empty_repo_inv: "repo_inv plain_deps empty_repo"
proof -
  have "index_view plain_index [] h = None" for h by (simp add: index_view_def plain_index_def list_kv_def)
  then show ?thesis
    using empty_segments_inv
    by (simp add: repo_inv_def index_sound_def empty_repo_def plain_deps_def plain_index_wf_Nil
        empty_segments_def int64_def)
qed

definition files_fit_exec :: "files \<Rightarrow> bool" where
  "files_fit_exec fs = list_all (\<lambda>(n, node). case node of FileNode b \<Rightarrow> length b < 2 ^ 62 | DirNode \<Rightarrow> True) fs"

lemma files_fit_exec: "files_fit_exec fs \<Longrightarrow> files_fit fs"
  unfolding files_fit_def files_fit_exec_def read_file_def list_all_iff
  by (auto dest!: map_of_SomeD split: option.splits fnode.splits)

lemma plain_data_fits: "length c < 2 ^ 62 \<Longrightarrow> data_fits plain_crypto k c"
  by (simp add: data_fits_def plain_crypto_def)

definition two_chunks :: "bytes list" where
  "two_chunks = [[1, 2], [3], [1, 2]]"

definition two_put :: "(put_result list, (bytes \<times> bytes) list) repo_result" where
  "two_put = put_chunks still_env plain_deps two_chunks empty_repo"

lemma two_put_ok: "\<exists>rs t. two_put = (Inr rs, t) \<and> files_fit (sg_files (rp_seg t)) \<and> map pu_existed rs = [False, False, True]"
proof -
  have a: "case two_put of (Inr rs, t) \<Rightarrow> files_fit_exec (sg_files (rp_seg t)) \<and> map pu_existed rs = [False, False, True]
      | (Inl e, t) \<Rightarrow> False"
    by code_simp
  show ?thesis
  proof (cases two_put)
    case (Pair res t)
    show ?thesis
    proof (cases res)
      case (Inr rs)
      then show ?thesis using a files_fit_exec unfolding Pair by auto
    next
      case (Inl e)
      then show ?thesis using a unfolding Pair by simp
    qed
  qed
qed

end
