(* ===== verification/ChunkStore.thy ===== *)
theory ChunkStore
  imports Repository
begin

text \<open>
  The repository as its clients see it: a content-addressed store of chunks. The locale
  \<open>chunk_store\<close> states the contract of \<open>PutChunk\<close>/\<open>PutChunks\<close> and \<open>ReadChunkRef\<close> that backup and
  restore rely on, proves what follows for a sequence of puts, and is interpreted on the
  repository model. The theory closes with the properties of the repository.
\<close>

subsection \<open>The contract\<close>

text \<open>Storing several lists of chunks one after the other; the first failure ends it.\<close>

fun store_all ::
    "(bytes list \<Rightarrow> 's \<Rightarrow> ('e + 'r list) \<times> 's) \<Rightarrow> bytes list list \<Rightarrow> 's \<Rightarrow> ('e + 'r list list) \<times> 's" where
  "store_all put [] s = (Inr [], s)"
| "store_all put (cs # css) s =
     sbind (put cs s) (\<lambda>rs s1. sbind (store_all put css s1) (\<lambda>rss s2. (Inr (rs # rss), s2)))"

text \<open>
  \<open>admits cs t\<close> says that the chunks are storable and that the state \<open>t\<close> that the put ended in
  fits the machine; \<open>digest\<close> is what identifies a chunk.
\<close>

locale chunk_store =
  fixes put :: "bytes list \<Rightarrow> 's \<Rightarrow> ('e + 'r list) \<times> 's"
    and reads :: "'s \<Rightarrow> 'r \<Rightarrow> bytes \<Rightarrow> bool"
    and inv :: "'s \<Rightarrow> bool"
    and fits :: "bytes \<Rightarrow> bool"
    and bounded :: "'s \<Rightarrow> bool"
    and digest :: "bytes \<Rightarrow> 'h"
  assumes put_ok: "inv s \<Longrightarrow> put cs s = (Inr rs, t) \<Longrightarrow> \<forall>c \<in> set cs. fits c \<Longrightarrow> bounded t \<Longrightarrow>
      inv t \<and> list_all2 (\<lambda>r c. \<exists>d. reads t r d \<and> digest d = digest c) rs cs"
    and put_keeps: "put cs s = (res, t) \<Longrightarrow> reads s r d \<Longrightarrow> reads t r d"
    and put_bounded: "put cs s = (res, t) \<Longrightarrow> bounded t \<Longrightarrow> bounded s"
begin

lemma store_all_keeps: "store_all put css s = (res, t) \<Longrightarrow> reads s r d \<Longrightarrow> reads t r d"
proof (induction css arbitrary: s res)
  case Nil
  then show ?case by simp
next
  case (Cons cs css)
  obtain x s1 where p: "put cs s = (x, s1)" by fastforce
  then have r1: "reads s1 r d" using put_keeps Cons.prems(2) by blast
  show ?case
  proof (cases x)
    case (Inl e)
    then show ?thesis using Cons.prems p r1 by simp
  next
    case (Inr rs)
    obtain y s2 where q: "store_all put css s1 = (y, s2)" by fastforce
    have "t = s2" using Cons.prems p q Inr by (cases y) auto
    then show ?thesis using Cons.IH [of s1 y] q r1 by simp
  qed
qed

lemma store_all_bounded: "store_all put css s = (res, t) \<Longrightarrow> bounded t \<Longrightarrow> bounded s"
proof (induction css arbitrary: s res)
  case Nil
  then show ?case by simp
next
  case (Cons cs css)
  obtain x s1 where p: "put cs s = (x, s1)" by fastforce
  show ?case
  proof (cases x)
    case (Inl e)
    then show ?thesis using Cons.prems p put_bounded [OF p] by simp
  next
    case (Inr rs)
    obtain y s2 where q: "store_all put css s1 = (y, s2)" by fastforce
    have "t = s2" using Cons.prems p q Inr by (cases y) auto
    then show ?thesis using Cons.IH [of s1 y] q Cons.prems(2) put_bounded [OF p] by simp
  qed
qed

lemma store_all_ok:
  "inv s \<Longrightarrow> store_all put css s = (Inr rss, t) \<Longrightarrow> \<forall>cs \<in> set css. \<forall>c \<in> set cs. fits c \<Longrightarrow> bounded t \<Longrightarrow>
   inv t \<and> list_all2 (list_all2 (\<lambda>r c. \<exists>d. reads t r d \<and> digest d = digest c)) rss css"
proof (induction css arbitrary: s rss)
  case Nil
  then show ?case by simp
next
  case (Cons cs css)
  obtain rs s1 rss' where p: "put cs s = (Inr rs, s1)" and q: "store_all put css s1 = (Inr rss', t)"
    and rss: "rss = rs # rss'"
    using Cons.prems(2) by (auto simp: result_simps)
  have b: "bounded s1" using store_all_bounded [OF q] Cons.prems(4) by blast
  have ok: "inv s1" "list_all2 (\<lambda>r c. \<exists>d. reads s1 r d \<and> digest d = digest c) rs cs"
    using put_ok [OF Cons.prems(1) p _ b] Cons.prems(3) by auto
  have "list_all2 (\<lambda>r c. \<exists>d. reads t r d \<and> digest d = digest c) rs cs"
    using ok(2) by (rule list_all2_mono) (use store_all_keeps [OF q] in blast)
  then show ?case using Cons.IH [OF ok(1) q] Cons.prems(3,4) rss by simp
qed

end

subsection \<open>The repository provides it\<close>

definition repo_put ::
    "env \<Rightarrow> 'db repo_deps \<Rightarrow> bytes list \<Rightarrow> 'db repo \<Rightarrow> (repo_error + chunk_ref list) \<times> 'db repo" where
  "repo_put ev d cs s = sbind (put_chunks ev d cs s) (\<lambda>rs t. (Inr (map pu_ref rs), t))"

definition repo_reads :: "'db repo_deps \<Rightarrow> 'db repo \<Rightarrow> chunk_ref \<Rightarrow> bytes \<Rightarrow> bool" where
  "repo_reads d s ref data \<longleftrightarrow> ref_reads d (sg_files (rp_seg s)) ref data"

definition repo_ok :: "env \<Rightarrow> 'db repo_deps \<Rightarrow> 'db repo \<Rightarrow> bool" where
  "repo_ok ev d s \<longleftrightarrow> repo_inv d s \<and> deps_ok d \<and> good_rand ev \<and> good_clock ev"

definition repo_bounded :: "'db repo \<Rightarrow> bool" where
  "repo_bounded s \<longleftrightarrow> files_fit (sg_files (rp_seg s))"

lemma put_chunks_extends:
  assumes "put_chunks ev d cs s = (res, t)"
  shows "extends (sg_files (rp_seg s)) (sg_files (rp_seg t))"
proof (cases res)
  case (Inl e)
  then show ?thesis using put_chunks_error [of ev d cs s e t] assms by blast
next
  case (Inr rs)
  obtain plan s3 where p: "plan_requests ev d 0 cs (empty_plan (length cs)) (repo_tick (repo_tick s)) = (Inr plan, s3)"
    and rest: "(if pl_writes plan = [] then (Inr (pl_results plan), s3)
       else sbind (on_segments (write_chunks ev (rd_crypto d) (rd_key d) (pl_writes plan)) s3) (\<lambda>refs s4.
         if length refs \<noteq> length (pl_writes plan)
         then (Inl (RepoRefCount (length refs) (length (pl_writes plan))), s4)
         else sbind (store_refs ev d refs s4) (\<lambda>_ s5. (Inr (fill_results plan refs), s5)))) = (Inr rs, t)"
    using assms Inr unfolding put_chunks_def by (auto simp only: result_simps dest!: check_ctx_Inr)
  have f3: "sg_files (rp_seg s3) = sg_files (rp_seg s)"
    using plan_requests_same [of "repo_tick (repo_tick s)" ev d 0 cs "empty_plan (length cs)"] p
      same_store_fields(2) by (metis repo_tick_fields(2) snd_conv)
  show ?thesis
  proof (cases "pl_writes plan = []")
    case True
    then show ?thesis using rest f3 by simp
  next
    case False
    then obtain refs s4 u where w: "on_segments (write_chunks ev (rd_crypto d) (rd_key d) (pl_writes plan)) s3 = (Inr refs, s4)"
      and st: "store_refs ev d refs s4 = (Inr u, t)"
      using rest by (auto simp: result_simps split: if_splits)
    obtain g where g: "write_loop ev (rd_crypto d) (rd_key d) False (pl_writes plan) (rp_seg s3) = (Inr refs, g)"
      "s4 = s3\<lparr>rp_seg := g\<rparr>"
      using w by (auto simp: on_segments_Inr write_chunks_def)
    have "sg_files (rp_seg t) = sg_files g"
      using st g(2) by (auto simp: store_refs_def split: prod.splits)
    then show ?thesis
      using write_loop_extends [of "rp_seg s3" ev "rd_crypto d" "rd_key d" False "pl_writes plan"] g(1) f3 by simp
  qed
qed

lemma repo_put_cases:
  assumes "repo_put ev d cs s = (res, t)"
  obtains r0 where "put_chunks ev d cs s = (r0, t)" "\<And>rs. res = Inr rs \<Longrightarrow> \<exists>ps. r0 = Inr ps \<and> rs = map pu_ref ps"
proof -
  obtain r0 t0 where p: "put_chunks ev d cs s = (r0, t0)" by fastforce
  then have "t0 = t" using assms by (cases r0) (auto simp: repo_put_def)
  then show thesis using assms p that [of r0] by (cases r0) (auto simp: repo_put_def)
qed

interpretation repository: chunk_store "repo_put ev d" "repo_reads d" "repo_ok ev d"
    "data_fits (rd_crypto d) (rd_key d)" repo_bounded "hash_bytes (rd_crypto d)"
  for ev :: env and d :: "'db repo_deps"
proof unfold_locales
  fix s cs rs and t :: "'db repo"
  assume a: "repo_ok ev d s" "repo_put ev d cs s = (Inr rs, t)"
    "\<forall>c \<in> set cs. data_fits (rd_crypto d) (rd_key d) c" "repo_bounded t"
  obtain ps where ps: "put_chunks ev d cs s = (Inr ps, t)" "rs = map pu_ref ps"
    using a(2) by (auto simp: repo_put_def result_simps)
  have "put_post d cs s ps t"
    using put_chunks_post [OF _ _ _ _ a(3) ps(1)] a(1,4) by (simp add: repo_ok_def repo_bounded_def)
  then show "repo_ok ev d t \<and>
      list_all2 (\<lambda>r c. \<exists>x. repo_reads d t r x \<and> hash_bytes (rd_crypto d) x = hash_bytes (rd_crypto d) c) rs cs"
    using a(1) unfolding put_post_def repo_ok_def repo_reads_def
    by (auto simp: list_all2_conv_all_nth ps(2))
next
  fix cs s res t r x
  assume a: "repo_put ev d cs s = (res, t)" "repo_reads d s r x"
  obtain r0 where "put_chunks ev d cs s = (r0, t)" using a(1) repo_put_cases by metis
  then show "repo_reads d t r x"
    using put_chunks_extends ref_reads_extends a(2) unfolding repo_reads_def by metis
next
  fix cs s res t
  assume a: "repo_put ev d cs s = (res, t)" "repo_bounded t"
  obtain r0 where "put_chunks ev d cs s = (r0, t)" using a(1) repo_put_cases by metis
  then show "repo_bounded s" using put_chunks_extends files_fit_extends a(2) unfolding repo_bounded_def by blast
qed

lemma repo_reads_fun: "repo_reads d s r a \<Longrightarrow> repo_reads d s r b \<Longrightarrow> a = b"
  by (simp add: repo_reads_def ref_reads_def)

subsection \<open>Properties of the repository\<close>

lemma run_okD:
  "(case p of (Inr x, t) \<Rightarrow> P x t | (Inl e, t) \<Rightarrow> False) \<Longrightarrow> \<exists>x t. p = (Inr x, t) \<and> P x t"
  by (auto split: prod.splits sum.splits)

lemma run_failedD:
  "(case p of (Inr x, t) \<Rightarrow> False | (Inl e, t) \<Rightarrow> P e t) \<Longrightarrow> \<exists>e t. p = (Inl e, t) \<and> P e t"
  by (auto split: prod.splits sum.splits)

text \<open>
  Property C1. A successful \<open>PutChunks\<close> answers every chunk, duplicates included, with a reference
  that the index now holds for the chunk's hash and that reads data with that hash; nothing that was
  stored before is lost or replaced, and the invariant (every indexed reference is readable) holds
  again.
\<close>

theorem put_chunks_correct:
  assumes "repo_inv d s" and "deps_ok d" and "good_rand ev" and "good_clock ev"
    and "\<forall>c \<in> set cs. data_fits (rd_crypto d) (rd_key d) c"
    and "put_chunks ev d cs s = (Inr rs, t)" and "files_fit (sg_files (rp_seg t))"
  shows "repo_inv d t \<and> length rs = length cs \<and>
    (\<forall>i < length cs.
       index_view (rd_index d) (rp_db t) (hash_bytes (rd_crypto d) (cs ! i)) = Some (pu_ref (rs ! i)) \<and>
       (\<exists>data. ref_reads d (sg_files (rp_seg t)) (pu_ref (rs ! i)) data \<and>
          hash_bytes (rd_crypto d) data = hash_bytes (rd_crypto d) (cs ! i))) \<and>
    (\<forall>h r. index_view (rd_index d) (rp_db s) h = Some r \<longrightarrow> index_view (rd_index d) (rp_db t) h = Some r) \<and>
    (\<forall>r data. ref_reads d (sg_files (rp_seg s)) r data \<longrightarrow> ref_reads d (sg_files (rp_seg t)) r data)"
proof -
  have p: "put_post d cs s rs t" by (rule put_chunks_post [OF assms])
  then have "ref_reads d (sg_files (rp_seg t)) r data" if "ref_reads d (sg_files (rp_seg s)) r data" for r data
    using ref_reads_extends [OF that] unfolding put_post_def by blast
  then show ?thesis using p unfolding put_post_def by blast
qed

lemma put_chunks_correct_witness:
  "\<exists>rs t. put_chunks still_env plain_deps two_chunks empty_repo = (Inr rs, t) \<and>
     map pu_existed rs = [False, False, True] \<and> length rs = 3 \<and> repo_inv plain_deps t"
proof -
  obtain rs t where p: "put_chunks still_env plain_deps two_chunks empty_repo = (Inr rs, t)"
    "files_fit (sg_files (rp_seg t))" "map pu_existed rs = [False, False, True]"
    using two_put_ok unfolding two_put_def by auto
  have fits: "\<forall>c \<in> set two_chunks. data_fits (rd_crypto plain_deps) (rd_key plain_deps) c"
    by (auto simp: two_chunks_def plain_deps_def intro!: plain_data_fits)
  show ?thesis
    using put_chunks_correct [OF empty_repo_inv plain_deps_ok still_env_ok fits p(1,2)] p
    by (simp add: two_chunks_def)
qed

text \<open>
  Deduplication: chunks whose hashes are all in the index are answered from it; nothing
  is written, neither to a segment nor to the index, and every chunk is reported as existing.
\<close>

theorem put_chunks_deduplicates:
  assumes "put_chunks ev d cs s = (Inr rs, t)"
    and "\<forall>c \<in> set cs. index_view (rd_index d) (rp_db s) (hash_bytes (rd_crypto d) c) \<noteq> None"
  shows "rp_db t = rp_db s \<and> sg_files (rp_seg t) = sg_files (rp_seg s) \<and>
    (\<forall>i < length cs. pu_existed (rs ! i) \<and>
       index_view (rd_index d) (rp_db s) (hash_bytes (rd_crypto d) (cs ! i)) = Some (pu_ref (rs ! i)))"
  using put_chunks_known [OF assms] same_store_fields by blast

definition known_repo :: "(bytes \<times> bytes) list repo" where
  "known_repo = empty_repo\<lparr>rp_db := snd (index_put plain_index [] False
     (sample_ref (hash_bytes plain_crypto [7]) 5))\<rparr>"

lemma put_chunks_deduplicates_witness:
  "\<exists>rs t. put_chunks still_env plain_deps [[7], [7]] known_repo = (Inr rs, t) \<and>
     rp_db t = rp_db known_repo \<and> sg_files (rp_seg t) = sg_files (rp_seg known_repo)"
proof -
  have known: "list_all (\<lambda>c. index_view (rd_index plain_deps) (rp_db known_repo)
      (hash_bytes (rd_crypto plain_deps) c) \<noteq> None) [[7], [7]]"
    by code_simp
  have "case put_chunks still_env plain_deps [[7], [7]] known_repo of
      (Inr rs, t) \<Rightarrow> True | (Inl e, t) \<Rightarrow> False"
    by code_simp
  from run_okD [OF this] obtain rs t where
    p: "put_chunks still_env plain_deps [[7], [7]] known_repo = (Inr rs, t)" by blast
  show ?thesis using put_chunks_deduplicates [OF p known [unfolded list_all_iff]] p by blast
qed

text \<open>
  Property C6. A \<open>PutChunks\<close> that fails, at whatever point and for whatever reason, leaves the index
  as it was and every stored chunk readable.
\<close>

theorem put_chunks_failure:
  assumes "put_chunks ev d cs s = (Inl e, t)"
  shows "rp_db t = rp_db s \<and>
    (\<forall>r data. ref_reads d (sg_files (rp_seg s)) r data \<longrightarrow> ref_reads d (sg_files (rp_seg t)) r data)"
  using put_chunks_error [OF assms] ref_reads_extends by blast

definition failing_env :: env where
  "failing_env = still_env\<lparr>env_io := (\<lambda>n. if n = 4 then Some 5 else None)\<rparr>"

lemma put_chunks_failure_witness:
  "\<exists>t. put_chunks failing_env plain_deps [[9]] empty_repo = (Inl (RepoSegment SegWriteFailed), t) \<and>
     rp_db t = rp_db empty_repo \<and> sg_files (rp_seg t) \<noteq> sg_files (rp_seg empty_repo)"
proof -
  have a: "case put_chunks failing_env plain_deps [[9]] empty_repo of
      (Inr rs, t) \<Rightarrow> False
    | (Inl e, t) \<Rightarrow> e = RepoSegment SegWriteFailed \<and> sg_files (rp_seg t) \<noteq> sg_files (rp_seg empty_repo)"
    by code_simp
  then obtain t where p: "put_chunks failing_env plain_deps [[9]] empty_repo = (Inl (RepoSegment SegWriteFailed), t)"
    "sg_files (rp_seg t) \<noteq> sg_files (rp_seg empty_repo)"
    using run_failedD [OF a] by blast
  then show ?thesis using put_chunks_failure [OF p(1)] by blast
qed

text \<open>
  Rewriting a chunk during segment compaction gives a reference in which the same hash
  reads the same data, and the index changes only in that it now points there.
\<close>

theorem rewrite_chunk_ref_correct:
  assumes "repo_inv d s" and "deps_ok d" and "good_rand ev" and "good_clock ev"
    and "rewrite_chunk_ref ev d old s = (Inr ref, t)"
    and "\<And>data. ref_reads d (sg_files (rp_seg s)) old data \<Longrightarrow> data_fits (rd_crypto d) (rd_key d) data"
    and "files_fit (sg_files (rp_seg t))"
  shows "repo_inv d t \<and> cr_hash ref = cr_hash old \<and>
    (\<exists>data. ref_reads d (sg_files (rp_seg s)) old data \<and> ref_reads d (sg_files (rp_seg t)) ref data) \<and>
    index_view (rd_index d) (rp_db t) = (index_view (rd_index d) (rp_db s))(cr_hash old \<mapsto> ref)"
  using rewrite_chunk_ref_ok [OF assms] by blast

definition one_put :: "(put_result list, (bytes \<times> bytes) list) repo_result" where
  "one_put = put_chunks still_env plain_deps [[3]] empty_repo"

lemma rewrite_chunk_ref_correct_witness:
  "\<exists>rs s ref t. one_put = (Inr rs, s) \<and>
     rewrite_chunk_ref still_env plain_deps (pu_ref (rs ! 0)) s = (Inr ref, t) \<and> repo_inv plain_deps t \<and>
     cr_hash ref = cr_hash (pu_ref (rs ! 0)) \<and> cr_offset ref \<noteq> cr_offset (pu_ref (rs ! 0))"
proof -
  have "case one_put of (Inr rs, s) \<Rightarrow>
        files_fit_exec (sg_files (rp_seg s)) \<and>
        ref_reads plain_deps (sg_files (rp_seg s)) (pu_ref (rs ! 0)) [3] \<and>
        (case rewrite_chunk_ref still_env plain_deps (pu_ref (rs ! 0)) s of
           (Inr ref, t) \<Rightarrow> files_fit_exec (sg_files (rp_seg t)) \<and> cr_offset ref \<noteq> cr_offset (pu_ref (rs ! 0))
         | (Inl e, t) \<Rightarrow> False)
    | (Inl e, s) \<Rightarrow> False"
    by code_simp
  from run_okD [OF this] obtain rs s where tp: "one_put = (Inr rs, s)"
    and fs: "files_fit_exec (sg_files (rp_seg s))"
    and old: "ref_reads plain_deps (sg_files (rp_seg s)) (pu_ref (rs ! 0)) [3]"
    and c: "case rewrite_chunk_ref still_env plain_deps (pu_ref (rs ! 0)) s of
           (Inr ref, t) \<Rightarrow> files_fit_exec (sg_files (rp_seg t)) \<and> cr_offset ref \<noteq> cr_offset (pu_ref (rs ! 0))
         | (Inl e, t) \<Rightarrow> False"
    by (elim exE conjE) (rule that)
  from run_okD [OF c] obtain ref t where
    r: "rewrite_chunk_ref still_env plain_deps (pu_ref (rs ! 0)) s = (Inr ref, t)"
    "files_fit_exec (sg_files (rp_seg t))" "cr_offset ref \<noteq> cr_offset (pu_ref (rs ! 0))"
    by (elim exE conjE) (rule that)
  have fits: "\<forall>c \<in> set [[3]]. data_fits (rd_crypto plain_deps) (rd_key plain_deps) c"
    by (simp add: plain_deps_def plain_data_fits)
  have inv: "repo_inv plain_deps s"
    using put_chunks_post [OF empty_repo_inv plain_deps_ok still_env_ok fits tp [unfolded one_put_def] files_fit_exec [OF fs]]
    by (simp add: put_post_def)
  have f: "data_fits (rd_crypto plain_deps) (rd_key plain_deps) data"
    if "ref_reads plain_deps (sg_files (rp_seg s)) (pu_ref (rs ! 0)) data" for data
  proof -
    have "data = [3]" using that old by (simp add: ref_reads_def)
    then show ?thesis by (simp add: plain_deps_def plain_data_fits)
  qed
  show ?thesis
    using rewrite_chunk_ref_correct [OF inv plain_deps_ok still_env_ok r(1) f files_fit_exec [OF r(2)]] tp r by blast
qed

text \<open>
  Deleting old segments never touches a segment in the keep set or the segment that is
  being written, so references into those still read the same; and if it reports no error, every
  other segment it listed is gone.
\<close>

theorem delete_segments_keeps:
  assumes "int64 (cr_segment ref)" and "cr_segment ref \<in> keep \<or> cr_segment ref = sg_id (rp_seg s)"
    and "delete_segments_except ev keep s = ((err, n, b), t)"
  shows "segment_read cy key fault (sg_files (rp_seg t)) ref = segment_read cy key fault (sg_files (rp_seg s)) ref \<and>
    (err = None \<longrightarrow> (\<forall>i \<in> set (list_segment_ids (sg_files (rp_seg s))).
       i \<notin> keep \<longrightarrow> i \<noteq> sg_id (rp_seg s) \<longrightarrow> map_of (sg_files (rp_seg t)) (segment_name i) = None))"
proof (cases "io_fault ev s")
  case True
  then show ?thesis using assms(3) by (auto simp: delete_segments_except_def)
next
  case False
  let ?keep = "insert (sg_id (rp_seg s)) keep" and ?ids = "list_segment_ids (sg_files (rp_seg s))"
  have del: "delete_segment_files ev ?keep ?ids 0 0 (repo_tick s) = ((err, n, b), t)"
    using False assms(3) by (simp add: delete_segments_except_def)
  have "map_of (sg_files (rp_seg t)) (segment_name (cr_segment ref)) =
      map_of (sg_files (rp_seg s)) (segment_name (cr_segment ref))"
    using delete_segment_files_keeps [of ?ids "cr_segment ref" ?keep ev 0 0 "repo_tick s"]
      list_segment_ids_int64 assms(1,2) del by auto
  then have "segment_read cy key fault (sg_files (rp_seg t)) ref = segment_read cy key fault (sg_files (rp_seg s)) ref"
    by (simp add: segment_read_def)
  moreover have "map_of (sg_files (rp_seg t)) (segment_name i) = None"
    if "err = None" "i \<in> set ?ids" "i \<notin> keep" "i \<noteq> sg_id (rp_seg s)" for i
    using delete_segment_files_none [of ev ?keep ?ids 0 0 "repo_tick s" n b i] del that by simp
  ultimately show ?thesis by blast
qed

definition three_segments :: "(bytes \<times> bytes) list repo" where
  "three_segments = \<lparr>rp_seg = \<lparr>sg_files = [(segment_name 1, FileNode [1]), (segment_name 2, FileNode [2]),
     (segment_name 3, FileNode [3])], sg_max = 1000, sg_id = 3, sg_offset = 1, sg_step = 0\<rparr>, rp_db = []\<rparr>"

lemma delete_segments_keeps_witness:
  "case delete_segments_except still_env {2} three_segments of
     ((err, n, b), t) \<Rightarrow> err = None \<and> n = 1 \<and> map_of (sg_files (rp_seg t)) (segment_name 1) = None \<and>
       segment_read plain_crypto [] False (sg_files (rp_seg t)) (sample_ref ''aa'' 0\<lparr>cr_segment := 2\<rparr>) =
       segment_read plain_crypto [] False (sg_files (rp_seg three_segments)) (sample_ref ''aa'' 0\<lparr>cr_segment := 2\<rparr>)"
proof -
  let ?ref = "sample_ref ''aa'' 0\<lparr>cr_segment := 2\<rparr>"
  obtain err n b t where d: "delete_segments_except still_env {2} three_segments = ((err, n, b), t)"
    by (metis prod.collapse)
  have e: "fst (delete_segments_except still_env {2} three_segments) = (None, 1, 1)" by code_simp
  have i: "(1 :: int) \<in> set (list_segment_ids (sg_files (rp_seg three_segments)))" by code_simp
  have r: "int64 (cr_segment ?ref)" "cr_segment ?ref \<in> {2} \<or> cr_segment ?ref = sg_id (rp_seg three_segments)"
    by (simp_all add: int64_def)
  have s: "sg_id (rp_seg three_segments) = 3" by (simp add: three_segments_def)
  from delete_segments_keeps [OF r d, of plain_crypto "[]" False] show ?thesis
    using d e i s by auto
qed

end
