(* ===== verification/Manifest.thy ===== *)
theory Manifest
  imports ChunkIndex
begin

text \<open>
  \<open>internal/repository/manifest.go\<close>: the directory of snapshot manifests. The state is the listing
  of that directory (absent before the first write) with the content and the modification time of
  every file. A manifest is written to a temporary file and renamed into place. The JSON codec of
  manifests is the parameter \<open>man_codec\<close>; its law speaks of manifests that JSON can hold: strings
  in UTF-8, times of the years 0 to 9999, 64-bit integers.
\<close>

subsection \<open>The codec\<close>

record man_codec =
  mc_enc :: "snapshot_manifest \<Rightarrow> bytes option"
  mc_dec :: "bytes \<Rightarrow> snapshot_manifest option"

function utf8_ok :: "string \<Rightarrow> bool" where
  "utf8_ok s =
     (if s = [] then True
      else if decode_rune s = (0xFFFD, 1) then False else utf8_ok (drop (snd (decode_rune s)) s))"
  by pat_completeness auto
termination
  by (relation "measure length") (auto simp: decode_rune_width)

declare utf8_ok.simps [simp del]

definition entry_type_ok :: "entry_type \<Rightarrow> bool" where
  "entry_type_ok t =
     (case t of EntryOther s \<Rightarrow> utf8_ok s \<and> s \<notin> {''file'', ''packed_file'', ''dir'', ''symlink''} | _ \<Rightarrow> True)"

definition chunk_ref_ok :: "chunk_ref \<Rightarrow> bool" where
  "chunk_ref_ok r \<longleftrightarrow> utf8_ok (cr_hash r) \<and> json_time_ok (cr_created r) \<and>
     int64 (cr_segment r) \<and> int64 (cr_offset r) \<and> int64 (cr_length r) \<and>
     int64 (cr_original r) \<and> int64 (cr_compressed r)"

definition file_entry_ok :: "file_entry \<Rightarrow> bool" where
  "file_entry_ok e \<longleftrightarrow> utf8_ok (fe_path e) \<and> entry_type_ok (fe_type e) \<and> int64 (fe_size e) \<and>
     int64 (fe_uid e) \<and> int64 (fe_gid e) \<and> json_time_ok (fe_mtime e) \<and> utf8_ok (fe_link e) \<and>
     list_all chunk_ref_ok (fe_chunks e) \<and>
     (case fe_pack e of None \<Rightarrow> True | Some r \<Rightarrow> utf8_ok (pr_id r) \<and> int64 (pr_offset r) \<and> int64 (pr_length r))"

definition manifest_json_ok :: "snapshot_manifest \<Rightarrow> bool" where
  "manifest_json_ok m \<longleftrightarrow> utf8_ok (sm_id m) \<and> json_time_ok (sm_created m) \<and> utf8_ok (sm_source_type m) \<and>
     utf8_ok (sm_source_root m) \<and> list_all utf8_ok (sm_source_roots m) \<and>
     list_all (\<lambda>p. utf8_ok (pm_id p) \<and> utf8_ok (pm_format p) \<and> list_all chunk_ref_ok (pm_chunks p)) (sm_packs m) \<and>
     list_all file_entry_ok (sm_entries m)"

definition man_codec_laws :: "man_codec \<Rightarrow> bool" where
  "man_codec_laws c \<longleftrightarrow>
     (\<forall>m. manifest_json_ok m \<longrightarrow> (\<exists>b. mc_enc c m = Some b \<and> mc_dec c b = Some m))"

subsection \<open>The directory\<close>

datatype mnode = MFile bytes int | MDir

type_synonym mdir = "(string \<times> mnode) list"

record man_state =
  mn_dir :: "mdir option"
  mn_step :: nat

datatype manifest_error =
    ManInvalidId string
  | ManEncodeFailed
  | ManDirFailed
  | ManTempFailed
  | ManWriteFailed
  | ManSyncFailed
  | ManCloseFailed
  | ManRenameFailed
  | ManReadFailed string
  | ManDecodeFailed string
  | ManListFailed
  | ManCanceled
  | ManStatFailed string
  | ManDeleteFailed string

definition man_tick :: "man_state \<Rightarrow> man_state" where
  "man_tick s = s\<lparr>mn_step := Suc (mn_step s)\<rparr>"

definition man_fault :: "env \<Rightarrow> man_state \<Rightarrow> bool" where
  "man_fault ev s \<longleftrightarrow> env_io ev (mn_step s) \<noteq> None"

definition dir_of :: "man_state \<Rightarrow> mdir" where
  "dir_of s = (case mn_dir s of None \<Rightarrow> [] | Some d \<Rightarrow> d)"

text \<open>The files a reader of the directory sees.\<close>

definition man_lookup :: "man_state \<Rightarrow> string \<Rightarrow> mnode option" where
  "man_lookup s n = map_of (dir_of s) n"

definition set_dir :: "mdir \<Rightarrow> man_state \<Rightarrow> man_state" where
  "set_dir d s = s\<lparr>mn_dir := Some d, mn_step := Suc (mn_step s)\<rparr>"

lemma man_lookup_simps [simp]:
  "man_lookup (man_tick s) n = man_lookup s n"
  "man_lookup (set_dir d s) n = map_of d n"
  "dir_of (man_tick s) = dir_of s" "dir_of (set_dir d s) = d"
  by (simp_all add: man_lookup_def man_tick_def set_dir_def dir_of_def)

subsection \<open>Names\<close>

definition new_manifest_id :: "env \<Rightarrow> nat \<Rightarrow> string" where
  "new_manifest_id ev n =
     (if env_io ev n \<noteq> None then format_int (env_now ev n) else hex_encode (env_rand ev n 16))"

definition has_dotdot :: "string \<Rightarrow> bool" where
  "has_dotdot s = sublist ''..'' s"

definition validate_manifest_id :: "string \<Rightarrow> manifest_error + unit" where
  "validate_manifest_id i =
     rguard (\<not> (i = [] \<or> slash \<in> set i \<or> CHR 0x5C \<in> set i \<or> has_dotdot i)) (ManInvalidId i)"

definition manifest_name :: "string \<Rightarrow> string" where
  "manifest_name i = i @ ''.json''"

text \<open>
  The name of the temporary file: \<open>os.CreateTemp\<close> draws random names until one is free, and gives
  up after 10000 draws.
\<close>

definition temp_candidate :: "env \<Rightarrow> nat \<Rightarrow> string" where
  "temp_candidate ev n = ''.manifest-'' @ dec_digits (be_decode (env_rand ev n 4)) @ ''.tmp''"

fun temp_name :: "env \<Rightarrow> nat \<Rightarrow> nat \<Rightarrow> mdir \<Rightarrow> string option" where
  "temp_name ev 0 n d = None"
| "temp_name ev (Suc fuel) n d =
     (if map_of d (temp_candidate ev n) = None then Some (temp_candidate ev n)
      else temp_name ev fuel (Suc n) d)"

subsection \<open>Operations\<close>

text \<open>
  The part of \<open>WriteManifest\<close> that works on the temporary file; the deferred \<open>os.Remove\<close> of
  \<open>remove_temp\<close> runs on every path after the file was created, and its failure is ignored.
\<close>

definition remove_temp :: "env \<Rightarrow> string \<Rightarrow> man_state \<Rightarrow> man_state" where
  "remove_temp ev tmp s =
     (if man_fault ev s then man_tick s else set_dir (AList.delete tmp (dir_of s)) s)"

definition fill_temp ::
    "env \<Rightarrow> string \<Rightarrow> bytes \<Rightarrow> string \<Rightarrow> man_state \<Rightarrow> (manifest_error + unit) \<times> man_state" where
  "fill_temp ev tmp data target s =
     (case env_io ev (mn_step s) of
        Some k \<Rightarrow>
          (Inl ManWriteFailed, set_dir (AList.update tmp (MFile (take k data) (env_now ev (mn_step s))) (dir_of s)) s)
      | None \<Rightarrow>
          let s1 = set_dir (AList.update tmp (MFile data (env_now ev (mn_step s))) (dir_of s)) s
          in if man_fault ev s1 then (Inl ManSyncFailed, man_tick s1)
             else let s2 = man_tick s1
                  in if man_fault ev s2 then (Inl ManCloseFailed, man_tick s2)
                     else let s3 = man_tick s2
                          in if man_fault ev s3 \<or> map_of (dir_of s3) target = Some MDir
                             then (Inl ManRenameFailed, man_tick s3)
                             else (Inr (), set_dir (AList.update target (the (map_of (dir_of s3) tmp))
                                    (AList.delete tmp (dir_of s3))) s3))"

definition store_manifest_file ::
    "env \<Rightarrow> string \<Rightarrow> bytes \<Rightarrow> man_state \<Rightarrow> (manifest_error + unit) \<times> man_state" where
  "store_manifest_file ev target data s =
     (if man_fault ev s then (Inl ManDirFailed, man_tick s)
      else let s1 = set_dir (dir_of s) s
           in if man_fault ev s1 then (Inl ManTempFailed, man_tick s1)
              else (case temp_name ev 10000 (mn_step s1) (dir_of s1) of
                 None \<Rightarrow> (Inl ManTempFailed, man_tick s1)
               | Some tmp \<Rightarrow>
                   (case fill_temp ev tmp data target
                           (set_dir ((tmp, MFile [] (env_now ev (mn_step s1))) # dir_of s1) s1) of
                      (res, s2) \<Rightarrow> (res, remove_temp ev tmp s2))))"

text \<open>
  \<open>WriteManifest\<close>. The Go method fills the ID and the creation time into the manifest it is given;
  here the filled manifest is the result.
\<close>

definition write_manifest ::
    "env \<Rightarrow> man_codec \<Rightarrow> snapshot_manifest \<Rightarrow> man_state \<Rightarrow> (manifest_error + snapshot_manifest) \<times> man_state" where
  "write_manifest ev c m0 s0 =
     (let (m1, s1) = (if sm_id m0 = [] then (m0\<lparr>sm_id := new_manifest_id ev (mn_step s0)\<rparr>, man_tick s0)
                      else (m0, s0))
      in case validate_manifest_id (sm_id m1) of
           Inl e \<Rightarrow> (Inl e, s1)
         | Inr u \<Rightarrow>
             let (m, s2) = (if sm_created m1 = zero_time
                            then (m1\<lparr>sm_created := env_now ev (mn_step s1)\<rparr>, man_tick s1) else (m1, s1))
             in (case mc_enc c m of
                   None \<Rightarrow> (Inl ManEncodeFailed, s2)
                 | Some data \<Rightarrow>
                     sbind (store_manifest_file ev (manifest_name (sm_id m)) data s2) (\<lambda>_ s3. (Inr m, s3))))"

definition read_manifest ::
    "env \<Rightarrow> man_codec \<Rightarrow> string \<Rightarrow> man_state \<Rightarrow> (manifest_error + snapshot_manifest) \<times> man_state" where
  "read_manifest ev c i s =
     (case validate_manifest_id i of
        Inl e \<Rightarrow> (Inl e, s)
      | Inr u \<Rightarrow>
          (if man_fault ev s then (Inl (ManReadFailed i), man_tick s)
           else (case man_lookup s (manifest_name i) of
                   Some (MFile b t) \<Rightarrow>
                     (case mc_dec c b of None \<Rightarrow> (Inl (ManDecodeFailed i), man_tick s)
                                       | Some m \<Rightarrow> (Inr m, man_tick s))
                 | _ \<Rightarrow> (Inl (ManReadFailed i), man_tick s))))"

definition count_manifests :: "env \<Rightarrow> man_state \<Rightarrow> (manifest_error + int) \<times> man_state" where
  "count_manifests ev s =
     (if man_fault ev s then (Inl ManListFailed, man_tick s)
      else (Inr (int (length (filter (\<lambda>(n, x). x \<noteq> MDir \<and> suffix ''.json'' n) (dir_of s)))), man_tick s))"

text \<open>
  \<open>DeleteManifestsExceptOlderThan\<close> walks a listing that was read once, in the order of the names,
  and reports what it removed also when it stops early.
\<close>

fun delete_manifest_entries ::
    "env \<Rightarrow> string set \<Rightarrow> int \<Rightarrow> mdir \<Rightarrow> int \<Rightarrow> int \<Rightarrow> man_state \<Rightarrow>
     (manifest_error option \<times> int \<times> int) \<times> man_state" where
  "delete_manifest_entries ev keep cutoff [] n b s = ((None, n, b), s)"
| "delete_manifest_entries ev keep cutoff ((name, node) # es) n b s =
     (if env_ctx_done ev (mn_step s) then ((Some ManCanceled, n, b), man_tick s)
      else case node of
        MDir \<Rightarrow> delete_manifest_entries ev keep cutoff es n b (man_tick s)
      | MFile content mtime \<Rightarrow>
          if \<not> suffix ''.json'' name \<or> trim_suffix ''.json'' name \<in> keep
          then delete_manifest_entries ev keep cutoff es n b (man_tick s)
          else let s1 = man_tick s
               in if man_fault ev s1 then ((Some (ManStatFailed name), n, b), man_tick s1)
                  else if cutoff \<noteq> zero_time \<and> cutoff < mtime
                  then delete_manifest_entries ev keep cutoff es n b (man_tick s1)
                  else let s2 = man_tick s1
                       in if man_fault ev s2
                          then ((Some (ManDeleteFailed (trim_suffix ''.json'' name)), n, b), man_tick s2)
                          else delete_manifest_entries ev keep cutoff es (n + 1) (b + int (length content))
                                 (set_dir (AList.delete name (dir_of s2)) s2))"

definition delete_manifests_except ::
    "env \<Rightarrow> string set \<Rightarrow> int \<Rightarrow> man_state \<Rightarrow> (manifest_error option \<times> int \<times> int) \<times> man_state" where
  "delete_manifests_except ev keep cutoff s =
     (if man_fault ev s then ((Some ManListFailed, 0, 0), man_tick s)
      else delete_manifest_entries ev keep cutoff (sort_key (\<lambda>(n, x). bytes_of n) (dir_of s)) 0 0 (man_tick s))"

subsection \<open>What a write leaves behind\<close>

lemma temp_candidate_no_json: "\<not> suffix ''.json'' (temp_candidate ev n)"
  by (auto simp: temp_candidate_def suffix_def dest!: arg_cong [where f = last])

lemma temp_name_fresh:
  "temp_name ev fuel n d = Some t \<Longrightarrow> map_of d t = None \<and> \<not> suffix ''.json'' t"
  by (induction fuel arbitrary: n) (auto simp: temp_candidate_no_json split: if_splits)

lemma suffix_manifest_name [simp]: "suffix ''.json'' (manifest_name i)"
  by (simp add: manifest_name_def suffixI)

lemma manifest_name_inject [simp]: "manifest_name i = manifest_name j \<longleftrightarrow> i = j"
  by (simp add: manifest_name_def)

lemma remove_temp_lookup: "n \<noteq> tmp \<Longrightarrow> man_lookup (remove_temp ev tmp s) n = man_lookup s n"
  by (simp add: remove_temp_def delete_conv' man_lookup_def [of s])

lemma fill_temp_error:
  assumes "fill_temp ev tmp data target s = (Inl e, t)" and "n \<noteq> tmp"
  shows "man_lookup t n = man_lookup s n"
  using assms
  by (auto simp: fill_temp_def Let_def update_conv' man_lookup_def [of s] split: option.splits if_splits)

lemma fill_temp_ok:
  assumes "fill_temp ev tmp data target s = (Inr u, t)" and "tmp \<noteq> target"
  shows "\<exists>mt. man_lookup t = (man_lookup s)(tmp := None, target \<mapsto> MFile data mt)"
  using assms
  by (auto simp: fill_temp_def Let_def update_conv' delete_conv' man_lookup_def [of s] fun_eq_iff
      split: option.splits if_splits)

text \<open>The files that readers look at, those named \<open>*.json\<close>, change only by a completed write.\<close>

lemma store_manifest_file_error:
  assumes "store_manifest_file ev target data s = (Inl e, t)" and "suffix ''.json'' n"
  shows "man_lookup t n = man_lookup s n"
proof -
  let ?s1 = "set_dir (dir_of s) s"
  have s1: "man_lookup ?s1 n = man_lookup s n" by (simp add: man_lookup_def)
  show ?thesis
  proof (cases "man_fault ev s \<or> man_fault ev ?s1 \<or> temp_name ev 10000 (mn_step ?s1) (dir_of ?s1) = None")
    case True
    then show ?thesis using assms(1) s1
      by (auto simp: store_manifest_file_def Let_def simp del: temp_name.simps split: option.splits if_splits)
  next
    case False
    then obtain tmp where tmp: "temp_name ev 10000 (mn_step ?s1) (dir_of ?s1) = Some tmp" by auto
    let ?s2 = "set_dir ((tmp, MFile [] (env_now ev (mn_step ?s1))) # dir_of ?s1) ?s1"
    have ne: "n \<noteq> tmp" using temp_name_fresh [OF tmp] assms(2) by auto
    obtain s3 where f: "fill_temp ev tmp data target ?s2 = (Inl e, s3)" and t: "t = remove_temp ev tmp s3"
      using assms(1) False unfolding store_manifest_file_def Let_def tmp
      by (auto simp del: temp_name.simps split: prod.splits)
    have "man_lookup s3 n = man_lookup ?s2 n" by (rule fill_temp_error [OF f ne])
    then show ?thesis using remove_temp_lookup [OF ne] ne t by (simp add: man_lookup_def)
  qed
qed

lemma store_manifest_file_ok:
  assumes "store_manifest_file ev target data s = (Inr u, t)" and "suffix ''.json'' target"
  shows "\<exists>mt. man_lookup t target = Some (MFile data mt) \<and>
    (\<forall>n. suffix ''.json'' n \<longrightarrow> n \<noteq> target \<longrightarrow> man_lookup t n = man_lookup s n)"
proof -
  let ?s1 = "set_dir (dir_of s) s"
  obtain tmp where tmp: "temp_name ev 10000 (mn_step ?s1) (dir_of ?s1) = Some tmp"
    and nf: "\<not> man_fault ev s" "\<not> man_fault ev ?s1"
    using assms(1)
    by (auto simp: store_manifest_file_def Let_def simp del: temp_name.simps split: option.splits if_splits)
  let ?s2 = "set_dir ((tmp, MFile [] (env_now ev (mn_step ?s1))) # dir_of ?s1) ?s1"
  have nj: "\<not> suffix ''.json'' tmp" using temp_name_fresh [OF tmp] by blast
  then have ne: "tmp \<noteq> target" using assms(2) by auto
  obtain s3 where f: "fill_temp ev tmp data target ?s2 = (Inr u, s3)" and t: "t = remove_temp ev tmp s3"
    using assms(1) nf unfolding store_manifest_file_def Let_def tmp
    by (auto simp del: temp_name.simps split: prod.splits)
  obtain mt where l: "man_lookup s3 = (man_lookup ?s2)(tmp := None, target \<mapsto> MFile data mt)"
    using fill_temp_ok [OF f ne] by blast
  have "man_lookup t n = man_lookup s3 n" if "suffix ''.json'' n" for n
    using remove_temp_lookup [of n tmp] that nj t by auto
  then show ?thesis using l assms(2) nj by (auto simp: man_lookup_def)
qed

subsection \<open>What a deletion leaves behind\<close>

definition manifest_kept :: "string set \<Rightarrow> int \<Rightarrow> string \<Rightarrow> mnode \<Rightarrow> bool" where
  "manifest_kept keep cutoff name node \<longleftrightarrow>
     (case node of MDir \<Rightarrow> True
      | MFile content mtime \<Rightarrow> \<not> suffix ''.json'' name \<or> trim_suffix ''.json'' name \<in> keep \<or>
          (cutoff \<noteq> zero_time \<and> cutoff < mtime))"

lemma delete_manifest_entries_step:
  assumes "delete_manifest_entries ev keep cutoff ((nm, node) # es) n b s = (r, t)"
  shows "(\<exists>s'. man_lookup s' = man_lookup s \<and>
      ((t = s' \<and> fst r \<noteq> None) \<or>
       (manifest_kept keep cutoff nm node \<and> (\<exists>n1 b1. delete_manifest_entries ev keep cutoff es n1 b1 s' = (r, t))))) \<or>
    (\<not> manifest_kept keep cutoff nm node \<and> (\<exists>s' n1 b1. man_lookup s' = (man_lookup s)(nm := None) \<and>
       delete_manifest_entries ev keep cutoff es n1 b1 s' = (r, t)))"
    (is "(\<exists>s'. ?stay s') \<or> ?go")
proof -
  let ?s1 = "man_tick s" and ?s2 = "man_tick (man_tick s)" and ?s3 = "man_tick (man_tick (man_tick s))"
  have l: "man_lookup ?s1 = man_lookup s" "man_lookup ?s2 = man_lookup s" "man_lookup ?s3 = man_lookup s"
    by (simp_all add: fun_eq_iff)
  show ?thesis
  proof (cases "env_ctx_done ev (mn_step s)")
    case True
    then have "?stay ?s1" using assms l by auto
    then show ?thesis by blast
  next
    case run: False
    show ?thesis
    proof (cases node)
      case MDir
      then have "?stay ?s1" using assms run l by (auto simp: manifest_kept_def)
      then show ?thesis by blast
    next
      case (MFile content mtime)
      consider "\<not> suffix ''.json'' nm \<or> trim_suffix ''.json'' nm \<in> keep"
        | "suffix ''.json'' nm" "trim_suffix ''.json'' nm \<notin> keep" "man_fault ev ?s1"
        | "suffix ''.json'' nm" "trim_suffix ''.json'' nm \<notin> keep" "\<not> man_fault ev ?s1"
          "cutoff \<noteq> zero_time \<and> cutoff < mtime"
        | "suffix ''.json'' nm" "trim_suffix ''.json'' nm \<notin> keep" "\<not> man_fault ev ?s1"
          "\<not> (cutoff \<noteq> zero_time \<and> cutoff < mtime)" "man_fault ev ?s2"
        | "suffix ''.json'' nm" "trim_suffix ''.json'' nm \<notin> keep" "\<not> man_fault ev ?s1"
          "\<not> (cutoff \<noteq> zero_time \<and> cutoff < mtime)" "\<not> man_fault ev ?s2"
        by blast
      then show ?thesis
      proof cases
        case 1
        then have "?stay ?s1" using assms run l MFile by (auto simp: manifest_kept_def)
        then show ?thesis by blast
      next
        case 2
        then have "?stay ?s2" using assms run l MFile by (auto simp: Let_def)
        then show ?thesis by blast
      next
        case 3
        then have "?stay ?s2" using assms run l MFile by (auto simp: Let_def manifest_kept_def)
        then show ?thesis by blast
      next
        case 4
        then have "?stay ?s3" using assms run l MFile by (auto simp: Let_def)
        then show ?thesis by blast
      next
        case 5
        let ?s' = "set_dir (AList.delete nm (dir_of ?s2)) ?s2"
        have "man_lookup ?s' = (man_lookup s)(nm := None)"
          by (simp add: fun_eq_iff delete_conv' man_lookup_def)
        moreover have "delete_manifest_entries ev keep cutoff es (n + 1) (b + int (length content)) ?s' = (r, t)"
          using assms run MFile 5 by (simp add: Let_def)
        moreover have "\<not> manifest_kept keep cutoff nm node" using 5 MFile by (simp add: manifest_kept_def)
        ultimately show ?thesis by blast
      qed
    qed
  qed
qed

lemma delete_manifest_entries_lookup:
  "delete_manifest_entries ev keep cutoff es n b s = (r, t) \<Longrightarrow>
   man_lookup t name = man_lookup s name \<or>
   (man_lookup t name = None \<and> (\<exists>node. (name, node) \<in> set es \<and> \<not> manifest_kept keep cutoff name node))"
proof (induction es arbitrary: n b s)
  case Nil
  then show ?case by simp
next
  case (Cons e es)
  obtain nm node where e: "e = (nm, node)" by fastforce
  from delete_manifest_entries_step [OF Cons.prems [unfolded e]]
  show ?case
  proof (elim disjE exE conjE)
    fix s' assume "man_lookup s' = man_lookup s" "t = s'"
    then show ?thesis by simp
  next
    fix s' n1 b1 assume "man_lookup s' = man_lookup s" "delete_manifest_entries ev keep cutoff es n1 b1 s' = (r, t)"
    then show ?thesis using Cons.IH [of n1 b1 s'] e by auto
  next
    fix s' n1 b1 assume "man_lookup s' = (man_lookup s)(nm := None)" "\<not> manifest_kept keep cutoff nm node"
      "delete_manifest_entries ev keep cutoff es n1 b1 s' = (r, t)"
    then show ?thesis using Cons.IH [of n1 b1 s'] e by (cases "name = nm") auto
  qed
qed

lemma delete_manifest_entries_done:
  "delete_manifest_entries ev keep cutoff es n b s = (r, t) \<Longrightarrow> fst r = None \<Longrightarrow>
   (name, node) \<in> set es \<Longrightarrow> \<not> manifest_kept keep cutoff name node \<Longrightarrow> man_lookup t name = None"
proof (induction es arbitrary: n b s)
  case Nil
  then show ?case by simp
next
  case (Cons e es)
  obtain nm nd where e: "e = (nm, nd)" by fastforce
  show ?case
  proof (cases "(name, node) \<in> set es")
    case True
    then show ?thesis
      using delete_manifest_entries_step [OF Cons.prems(1) [unfolded e]] Cons.IH Cons.prems(2,4) by auto
  next
    case False
    then have "nm = name" "nd = node" using Cons.prems(3) e by auto
    then obtain s' n1 b1 where "man_lookup s' = (man_lookup s)(name := None)"
      "delete_manifest_entries ev keep cutoff es n1 b1 s' = (r, t)"
      using delete_manifest_entries_step [OF Cons.prems(1) [unfolded e]] Cons.prems(2,4) by auto
    then show ?thesis using delete_manifest_entries_lookup [of ev keep cutoff es n1 b1 s' r t name] by auto
  qed
qed

subsection \<open>An instance of the codec\<close>

text \<open>A binary encoding in place of JSON; every decoder returns the value and the rest.\<close>

definition str_enc :: "string \<Rightarrow> bytes" where
  "str_enc s = bits_int (int (length s)) @ bytes_of s"

definition str_dec :: "bytes \<Rightarrow> string \<times> bytes" where
  "str_dec b = (case bits_dec b of (n, r) \<Rightarrow> (string_of (take (nat n) r), drop (nat n) r))"

fun items_dec :: "(bytes \<Rightarrow> 'a \<times> bytes) \<Rightarrow> nat \<Rightarrow> bytes \<Rightarrow> 'a list \<times> bytes" where
  "items_dec d 0 b = ([], b)"
| "items_dec d (Suc n) b = (case d b of (x, r) \<Rightarrow> (case items_dec d n r of (xs, r') \<Rightarrow> (x # xs, r')))"

definition list_enc :: "('a \<Rightarrow> bytes) \<Rightarrow> 'a list \<Rightarrow> bytes" where
  "list_enc e xs = bits_int (int (length xs)) @ concat (map e xs)"

definition list_dec :: "(bytes \<Rightarrow> 'a \<times> bytes) \<Rightarrow> bytes \<Rightarrow> 'a list \<times> bytes" where
  "list_dec d b = (case bits_dec b of (n, r) \<Rightarrow> items_dec d (nat n) r)"

definition ref_enc :: "chunk_ref \<Rightarrow> bytes" where
  "ref_enc r = str_enc (cr_hash r) @ bits_int (cr_segment r) @ bits_int (cr_offset r) @ bits_int (cr_length r) @
     bits_int (cr_original r) @ bits_int (cr_compressed r) @ bits_int (cr_created r)"

definition ref_dec :: "bytes \<Rightarrow> chunk_ref \<times> bytes" where
  "ref_dec b =
     (case str_dec b of (h, b0) \<Rightarrow> (case bits_dec b0 of (seg, b1) \<Rightarrow> (case bits_dec b1 of (off, b2) \<Rightarrow>
      (case bits_dec b2 of (len, b3) \<Rightarrow> (case bits_dec b3 of (orig, b4) \<Rightarrow> (case bits_dec b4 of (packed, b5) \<Rightarrow>
      (case bits_dec b5 of (created, b6) \<Rightarrow>
        (\<lparr>cr_hash = h, cr_segment = seg, cr_offset = off, cr_length = len, cr_original = orig,
          cr_compressed = packed, cr_created = created\<rparr>, b6))))))))"

definition type_enc :: "entry_type \<Rightarrow> bytes" where
  "type_enc t = (case t of EntryFile \<Rightarrow> bits_int 0 | EntryPackedFile \<Rightarrow> bits_int 1 | EntryDir \<Rightarrow> bits_int 2
     | EntrySymlink \<Rightarrow> bits_int 3 | EntryOther s \<Rightarrow> bits_int 4 @ str_enc s)"

definition type_dec :: "bytes \<Rightarrow> entry_type \<times> bytes" where
  "type_dec b = (case bits_dec b of (n, r) \<Rightarrow>
     if n = 0 then (EntryFile, r) else if n = 1 then (EntryPackedFile, r) else if n = 2 then (EntryDir, r)
     else if n = 3 then (EntrySymlink, r) else (case str_dec r of (s, r') \<Rightarrow> (EntryOther s, r')))"

definition pack_ref_enc :: "pack_file_ref option \<Rightarrow> bytes" where
  "pack_ref_enc p = (case p of None \<Rightarrow> bits_int 0
     | Some r \<Rightarrow> bits_int 1 @ str_enc (pr_id r) @ bits_int (pr_offset r) @ bits_int (pr_length r))"

definition pack_ref_dec :: "bytes \<Rightarrow> pack_file_ref option \<times> bytes" where
  "pack_ref_dec b = (case bits_dec b of (n, r) \<Rightarrow>
     if n = 0 then (None, r)
     else (case str_dec r of (i, r1) \<Rightarrow> (case bits_dec r1 of (off, r2) \<Rightarrow> (case bits_dec r2 of (len, r3) \<Rightarrow>
       (Some \<lparr>pr_id = i, pr_offset = off, pr_length = len\<rparr>, r3)))))"

definition entry_enc :: "file_entry \<Rightarrow> bytes" where
  "entry_enc e = str_enc (fe_path e) @ type_enc (fe_type e) @ bits_int (fe_size e) @ bits_int (uint (fe_mode e)) @
     bits_int (fe_uid e) @ bits_int (fe_gid e) @ bits_int (fe_mtime e) @ str_enc (fe_link e) @
     list_enc ref_enc (fe_chunks e) @ pack_ref_enc (fe_pack e)"

definition entry_dec :: "bytes \<Rightarrow> file_entry \<times> bytes" where
  "entry_dec b =
     (case str_dec b of (p, b0) \<Rightarrow> (case type_dec b0 of (t, b1) \<Rightarrow> (case bits_dec b1 of (sz, b2) \<Rightarrow>
      (case bits_dec b2 of (md, b3) \<Rightarrow> (case bits_dec b3 of (u, b4) \<Rightarrow> (case bits_dec b4 of (g, b5) \<Rightarrow>
      (case bits_dec b5 of (mt, b6) \<Rightarrow> (case str_dec b6 of (l, b7) \<Rightarrow> (case list_dec ref_dec b7 of (cs, b8) \<Rightarrow>
      (case pack_ref_dec b8 of (pk, b9) \<Rightarrow>
        (\<lparr>fe_path = p, fe_type = t, fe_size = sz, fe_mode = word_of_int md, fe_uid = u, fe_gid = g, fe_mtime = mt,
          fe_link = l, fe_chunks = cs, fe_pack = pk\<rparr>, b9)))))))))))"

definition pack_enc :: "pack_manifest \<Rightarrow> bytes" where
  "pack_enc p = str_enc (pm_id p) @ str_enc (pm_format p) @ list_enc ref_enc (pm_chunks p)"

definition pack_dec :: "bytes \<Rightarrow> pack_manifest \<times> bytes" where
  "pack_dec b = (case str_dec b of (i, b0) \<Rightarrow> (case str_dec b0 of (f, b1) \<Rightarrow> (case list_dec ref_dec b1 of (cs, b2) \<Rightarrow>
     (\<lparr>pm_id = i, pm_format = f, pm_chunks = cs\<rparr>, b2))))"

definition plain_man :: man_codec where
  "plain_man = \<lparr>mc_enc = (\<lambda>m. Some (str_enc (sm_id m) @ bits_int (sm_created m) @ str_enc (sm_source_type m) @
       str_enc (sm_source_root m) @ list_enc str_enc (sm_source_roots m) @ list_enc pack_enc (sm_packs m) @
       list_enc entry_enc (sm_entries m))),
     mc_dec = (\<lambda>b. case str_dec b of (i, b0) \<Rightarrow> (case bits_dec b0 of (t, b1) \<Rightarrow> (case str_dec b1 of (st, b2) \<Rightarrow>
       (case str_dec b2 of (sr, b3) \<Rightarrow> (case list_dec str_dec b3 of (rs, b4) \<Rightarrow> (case list_dec pack_dec b4 of (ps, b5) \<Rightarrow>
       (case list_dec entry_dec b5 of (es, b6) \<Rightarrow>
         Some \<lparr>sm_id = i, sm_created = t, sm_source_type = st, sm_source_root = sr, sm_source_roots = rs,
           sm_packs = ps, sm_entries = es\<rparr>)))))))\<rparr>"

lemma str_dec_enc: "str_dec (str_enc s @ r) = (s, r)"
  by (simp add: str_dec_def str_enc_def bits_dec_int)

lemma items_dec_enc: "(\<And>x r. d (e x @ r) = (x, r)) \<Longrightarrow> items_dec d (length xs) (concat (map e xs) @ r) = (xs, r)"
  by (induction xs) simp_all

lemma list_dec_enc: "(\<And>x r. d (e x @ r) = (x, r)) \<Longrightarrow> list_dec d (list_enc e xs @ r) = (xs, r)"
  by (simp add: list_dec_def list_enc_def bits_dec_int items_dec_enc)

lemma ref_dec_enc: "ref_dec (ref_enc x @ r) = (x, r)"
  by (simp add: ref_dec_def ref_enc_def bits_dec_int str_dec_enc)

lemma type_dec_enc: "type_dec (type_enc x @ r) = (x, r)"
  by (cases x) (simp_all add: type_dec_def type_enc_def bits_dec_int str_dec_enc)

lemma pack_ref_dec_enc: "pack_ref_dec (pack_ref_enc x @ r) = (x, r)"
  by (cases x) (simp_all add: pack_ref_dec_def pack_ref_enc_def bits_dec_int str_dec_enc)

lemma entry_dec_enc: "entry_dec (entry_enc x @ r) = (x, r)"
  by (simp add: entry_dec_def entry_enc_def bits_dec_int str_dec_enc type_dec_enc pack_ref_dec_enc
      list_dec_enc [OF ref_dec_enc])

lemma pack_dec_enc: "pack_dec (pack_enc x @ r) = (x, r)"
  by (simp add: pack_dec_def pack_enc_def bits_dec_int str_dec_enc list_dec_enc [OF ref_dec_enc])

lemma plain_man_laws: "man_codec_laws plain_man"
  using list_dec_enc [OF entry_dec_enc, where r = "[]"]
  by (simp add: man_codec_laws_def plain_man_def bits_dec_int str_dec_enc list_dec_enc [OF str_dec_enc]
      list_dec_enc [OF pack_dec_enc])

definition sample_manifest :: "string \<Rightarrow> snapshot_manifest" where
  "sample_manifest i = \<lparr>sm_id = i, sm_created = zero_time, sm_source_type = ''local'', sm_source_root = ''/srv'',
     sm_source_roots = [], sm_packs = [],
     sm_entries = [\<lparr>fe_path = ''a'', fe_type = EntryDir, fe_size = 0, fe_mode = 0, fe_uid = 0, fe_gid = 0,
       fe_mtime = 0, fe_link = [], fe_chunks = [], fe_pack = None\<rparr>]\<rparr>"

definition one_manifest :: man_state where
  "one_manifest = \<lparr>mn_dir = Some [(''old.json'', MFile [7] 5), (''keep.json'', MFile [8] 5),
     (''new.json'', MFile [9] 50), (''notes.txt'', MFile [] 0)], mn_step = 0\<rparr>"

subsection \<open>Properties\<close>

lemma write_manifest_cases:
  assumes "write_manifest ev c m0 s0 = (res, t)"
  obtains (early) e where "res = Inl e" "man_lookup t = man_lookup s0"
  | (stored) m data s2 r where "mc_enc c m = Some data" "man_lookup s2 = man_lookup s0"
      "store_manifest_file ev (manifest_name (sm_id m)) data s2 = (r, t)"
      "validate_manifest_id (sm_id m) = Inr ()" "m = m0\<lparr>sm_id := sm_id m, sm_created := sm_created m\<rparr>"
      "res = (case r of Inl e \<Rightarrow> Inl e | Inr u \<Rightarrow> Inr m)"
proof -
  obtain m1 s1 where m1: "(m1, s1) = (if sm_id m0 = []
      then (m0\<lparr>sm_id := new_manifest_id ev (mn_step s0)\<rparr>, man_tick s0) else (m0, s0))" by (metis surj_pair)
  obtain m s2 where m: "(m, s2) = (if sm_created m1 = zero_time
      then (m1\<lparr>sm_created := env_now ev (mn_step s1)\<rparr>, man_tick s1) else (m1, s1))" by (metis surj_pair)
  have l: "man_lookup s1 = man_lookup s0" "man_lookup s2 = man_lookup s1"
    using m1 m by (auto simp: fun_eq_iff split: if_splits)
  have f: "m = m0\<lparr>sm_id := sm_id m, sm_created := sm_created m\<rparr>" "sm_id m = sm_id m1"
    using m1 m by (auto split: if_splits)
  have w: "(case validate_manifest_id (sm_id m1) of Inl e \<Rightarrow> (Inl e, s1) | Inr u \<Rightarrow>
      (case mc_enc c m of None \<Rightarrow> (Inl ManEncodeFailed, s2) | Some data \<Rightarrow>
         sbind (store_manifest_file ev (manifest_name (sm_id m)) data s2) (\<lambda>_ s3. (Inr m, s3)))) = (res, t)"
    using assms unfolding write_manifest_def Let_def m1 [symmetric] prod.case m [symmetric] .
  show thesis
  proof (cases "validate_manifest_id (sm_id m1)")
    case (Inl e)
    then show thesis using w l early by auto
  next
    case (Inr u)
    show thesis
    proof (cases "mc_enc c m")
      case None
      then show thesis using w l Inr early by auto
    next
      case (Some data)
      obtain r t' where r: "store_manifest_file ev (manifest_name (sm_id m)) data s2 = (r, t')" by fastforce
      then have "t' = t" "res = (case r of Inl e \<Rightarrow> Inl e | Inr u \<Rightarrow> Inr m)"
        using w Inr Some by (cases r; simp)+
      then show thesis using stored [OF Some _ _ _ f(1)] r l f(2) Inr by simp
    qed
  qed
qed

lemma written_manifest_reads:
  assumes "man_codec_laws c" and "write_manifest ev c m s = (Inr m', t)" and "manifest_json_ok m'"
    and "\<not> man_fault ev' t" and "\<not> man_fault ev' s"
  shows "fst (read_manifest ev' c (sm_id m') t) = Inr m' \<and>
    m' = m\<lparr>sm_id := sm_id m', sm_created := sm_created m'\<rparr> \<and>
    (\<forall>i. i \<noteq> sm_id m' \<longrightarrow> fst (read_manifest ev' c i t) = fst (read_manifest ev' c i s))"
  using assms(2)
proof (cases rule: write_manifest_cases)
  case (early e)
  then show ?thesis by simp
next
  case (stored m1 data s2 r)
  then have m1: "m1 = m'" and r: "r = Inr ()" by (auto split: sum.splits)
  obtain mt where f: "man_lookup t (manifest_name (sm_id m')) = Some (MFile data mt)"
    "\<And>n. suffix ''.json'' n \<Longrightarrow> n \<noteq> manifest_name (sm_id m') \<Longrightarrow> man_lookup t n = man_lookup s n"
    using store_manifest_file_ok [OF stored(3) [unfolded r]] stored(2) m1 by auto
  have "mc_dec c data = Some m'" using assms(1,3) stored(1) m1 by (auto simp: man_codec_laws_def)
  then have "fst (read_manifest ev' c (sm_id m') t) = Inr m'"
    using f(1) stored(4) m1 assms(4) by (simp add: read_manifest_def)
  moreover have "fst (read_manifest ev' c i t) = fst (read_manifest ev' c i s)" if "i \<noteq> sm_id m'" for i
    using f(2) [of "manifest_name i"] that assms(4,5)
    by (auto simp: read_manifest_def split: sum.splits option.splits mnode.splits)
  ultimately show ?thesis using stored(5) m1 by blast
qed

lemma write_manifest_effect:
  assumes "write_manifest ev c m s = (res, t)"
  shows "(case res of
      Inl e \<Rightarrow> \<forall>n. suffix ''.json'' n \<longrightarrow> man_lookup t n = man_lookup s n
    | Inr m' \<Rightarrow> (\<exists>data mt. mc_enc c m' = Some data \<and>
          man_lookup t (manifest_name (sm_id m')) = Some (MFile data mt)) \<and>
        (\<forall>n. suffix ''.json'' n \<longrightarrow> n \<noteq> manifest_name (sm_id m') \<longrightarrow> man_lookup t n = man_lookup s n))"
  using assms
proof (cases rule: write_manifest_cases)
  case (early e)
  then show ?thesis by simp
next
  case (stored m' data s2 r)
  show ?thesis
  proof (cases r)
    case (Inl e)
    then show ?thesis using stored store_manifest_file_error [of ev _ data s2 e t] by simp
  next
    case (Inr u)
    then show ?thesis using stored store_manifest_file_ok [of ev _ data s2 u t] by auto
  qed
qed

text \<open>
  Property C11. A snapshot manifest appears atomically: a write that fails, at whatever step, leaves
  every manifest file of the directory as it was; one that succeeds replaces exactly the file of its
  ID, by the complete encoding.
\<close>

theorem write_manifest_atomic:
  assumes "write_manifest ev c m s = (res, t)"
  shows "(case res of
      Inl e \<Rightarrow> \<forall>n. suffix ''.json'' n \<longrightarrow> man_lookup t n = man_lookup s n
    | Inr m' \<Rightarrow> (\<exists>data mt. mc_enc c m' = Some data \<and>
          man_lookup t (manifest_name (sm_id m')) = Some (MFile data mt)) \<and>
        (\<forall>n. suffix ''.json'' n \<longrightarrow> n \<noteq> manifest_name (sm_id m') \<longrightarrow> man_lookup t n = man_lookup s n))"
  by (rule write_manifest_effect [OF assms])

definition disk_full_later :: env where
  "disk_full_later = good_env\<lparr>env_io := (\<lambda>n. if n = 3 then Some 2 else None)\<rparr>"

lemma write_manifest_atomic_witness:
  "\<exists>t. write_manifest disk_full_later plain_man (sample_manifest ''old'') one_manifest = (Inl ManWriteFailed, t) \<and>
     man_lookup t ''old.json'' = Some (MFile [7] 5)"
proof -
  let ?w = "write_manifest disk_full_later plain_man (sample_manifest ''old'') one_manifest"
  have f: "fst ?w = Inl ManWriteFailed" by code_simp
  have w: "?w = (Inl ManWriteFailed, snd ?w)" using f by (metis prod.collapse)
  have "suffix ''.json'' ''old.json''" by code_simp
  moreover have "man_lookup one_manifest ''old.json'' = Some (MFile [7] 5)" by code_simp
  ultimately show ?thesis using write_manifest_atomic [OF w] w by auto
qed

text \<open>
  A manifest that was written is read back with \<open>ReadManifest\<close> under its ID, entries,
  packs and roots unchanged, and a read of any other snapshot sees what it saw before.
\<close>

theorem write_manifest_read:
  assumes "man_codec_laws c" and "write_manifest ev c m s = (Inr m', t)" and "manifest_json_ok m'"
    and "\<not> man_fault ev' t" and "\<not> man_fault ev' s"
  shows "fst (read_manifest ev' c (sm_id m') t) = Inr m' \<and>
    m' = m\<lparr>sm_id := sm_id m', sm_created := sm_created m'\<rparr> \<and>
    (\<forall>i. i \<noteq> sm_id m' \<longrightarrow> fst (read_manifest ev' c i t) = fst (read_manifest ev' c i s))"
  by (rule written_manifest_reads [OF assms])

lemma write_manifest_read_witness:
  "\<exists>m' t. write_manifest good_env plain_man (sample_manifest []) one_manifest = (Inr m', t) \<and>
     length (sm_id m') = 32 \<and> fst (read_manifest good_env plain_man (sm_id m') t) = Inr m'"
proof -
  let ?w = "write_manifest good_env plain_man (sample_manifest []) one_manifest"
  have "case fst ?w of Inr m \<Rightarrow> manifest_json_ok m \<and> length (sm_id m) = 32 | Inl e \<Rightarrow> False"
    by code_simp
  then obtain m' where m': "fst ?w = Inr m'" "manifest_json_ok m'" "length (sm_id m') = 32"
    by (auto split: sum.splits)
  then have w: "?w = (Inr m', snd ?w)" by (metis prod.collapse)
  have nf: "\<not> man_fault good_env x" for x by (simp add: man_fault_def)
  show ?thesis
    using write_manifest_read [OF plain_man_laws w m'(2) nf nf] w m'(3) by blast
qed

text \<open>
  \<open>DeleteManifestsExceptOlderThan\<close> only ever removes manifest files outside the keep set
  that are not newer than the cutoff, whatever fails and wherever it is cancelled; if it reports no
  error, all of those are gone.
\<close>

theorem delete_manifests_exact:
  assumes "delete_manifests_except ev keep cutoff s = ((err, n, b), t)"
  shows "(\<forall>name node. man_lookup s name = Some node \<longrightarrow> manifest_kept keep cutoff name node \<longrightarrow>
      distinct (map fst (dir_of s)) \<longrightarrow> man_lookup t name = Some node) \<and>
    (\<forall>name. man_lookup t name = man_lookup s name \<or> man_lookup t name = None) \<and>
    (err = None \<longrightarrow> (\<forall>name node. man_lookup s name = Some node \<longrightarrow>
      \<not> manifest_kept keep cutoff name node \<longrightarrow> man_lookup t name = None))"
proof (cases "man_fault ev s")
  case True
  then show ?thesis using assms by (auto simp: delete_manifests_except_def)
next
  case False
  then have d: "delete_manifest_entries ev keep cutoff (sort_key (\<lambda>(n, x). bytes_of n) (dir_of s)) 0 0 (man_tick s) =
      ((err, n, b), t)"
    using assms by (simp add: delete_manifests_except_def)
  have mem: "node' = node" if "distinct (map fst (dir_of s))" "man_lookup s name = Some node"
    "(name, node') \<in> set (dir_of s)" for name node node'
    using that map_of_eq_Some_iff_in_set [of "dir_of s" name node'] by (simp add: man_lookup_def)
  have "man_lookup t name = Some node"
    if "man_lookup s name = Some node" "manifest_kept keep cutoff name node" "distinct (map fst (dir_of s))" for name node
    using delete_manifest_entries_lookup [OF d, of name] mem [OF that(3,1)] that(1,2) by auto
  moreover have "man_lookup t name = None"
    if "err = None" "man_lookup s name = Some node" "\<not> manifest_kept keep cutoff name node" for name node
    using delete_manifest_entries_done [OF d _ _ that(3)] that(1,2) by (auto simp: man_lookup_def dest: map_of_SomeD)
  moreover have "man_lookup t name = man_lookup s name \<or> man_lookup t name = None" for name
    using delete_manifest_entries_lookup [OF d, of name] by auto
  ultimately show ?thesis by blast
qed

lemma delete_manifests_exact_witness:
  "\<exists>n b t. delete_manifests_except good_env {''keep''} 10 one_manifest = ((None, n, b), t) \<and>
     man_lookup t ''keep.json'' = Some (MFile [8] 5) \<and> man_lookup t ''new.json'' = Some (MFile [9] 50) \<and>
     man_lookup t ''old.json'' = None"
proof -
  let ?d = "delete_manifests_except good_env {''keep''} 10 one_manifest"
  have "fst ?d = (None, 1, 1)" by code_simp
  then have d: "?d = ((None, 1, 1), snd ?d)" by (metis prod.collapse)
  have l: "man_lookup one_manifest ''keep.json'' = Some (MFile [8] 5)"
    "man_lookup one_manifest ''new.json'' = Some (MFile [9] 50)"
    "man_lookup one_manifest ''old.json'' = Some (MFile [7] 5)"
    "distinct (map fst (dir_of one_manifest))"
    "manifest_kept {''keep''} 10 ''keep.json'' (MFile [8] 5)"
    "manifest_kept {''keep''} 10 ''new.json'' (MFile [9] 50)"
    "\<not> manifest_kept {''keep''} 10 ''old.json'' (MFile [7] 5)"
    by code_simp+
  show ?thesis using delete_manifests_exact [OF d] d l by blast
qed

end
