(* ===== verification/Backup.thy ===== *)
theory Backup
  imports ChunkStore Manifest FsFilter Chunker
begin

text \<open>
  \<open>internal/repository/backup.go\<close>: a backup walks a source, stores every regular file as chunks (or
  reuses the references of the previous snapshot) and writes the manifest; \<open>RestoreFile\<close> reads one
  entry back. The source is a parameter: what its walk visits, what its files deliver, and what
  fails. The operations of the repository see the oracle \<open>ev\<close>, those of the manifest directory the
  oracle \<open>evm\<close>, so that their failures are independent.
\<close>

subsection \<open>State\<close>

datatype progress_message = MsgText string | MsgSkipped string skip_reason

record backup_progress =
  bp_phase :: string
  bp_files :: int
  bp_bytes :: int
  bp_uploaded :: int
  bp_reused :: int
  bp_message :: progress_message

text \<open>\<open>bk_log\<close> holds the calls of the progress callback.\<close>

record 'db backup =
  bk_repo :: "'db repo"
  bk_entries :: "file_entry list"
  bk_progress :: backup_progress
  bk_log :: "backup_progress list"

datatype backup_error =
    BkCanceled
  | BkPseudoRoot string string
  | BkWalkFailed
  | BkStatFailed string
  | BkRelFailed string
  | BkReadlinkFailed string
  | BkOpenFailed string
  | BkChunkFailed string "repo_error split_error"
  | BkCloseFailed string
  | BkManifest manifest_error

text \<open>A file that was opened: what its reader delivers, and whether closing it fails.\<close>

type_synonym opened = "reader \<times> bool"

definition report_backup_progress :: "'db backup \<Rightarrow> 'db backup" where
  "report_backup_progress s = s\<lparr>bk_log := bk_log s @ [bk_progress s]\<rparr>"

definition start_progress :: backup_progress where
  "start_progress = \<lparr>bp_phase = ''scanning'', bp_files = 0, bp_bytes = 0, bp_uploaded = 0, bp_reused = 0,
     bp_message = MsgText []\<rparr>"

subsection \<open>Reuse of the previous snapshot\<close>

definition manifest_entry_map :: "snapshot_manifest option \<Rightarrow> string \<Rightarrow> file_entry option" where
  "manifest_entry_map m = (case m of None \<Rightarrow> (\<lambda>p. None)
     | Some sm \<Rightarrow> map_of (map (\<lambda>e. (fe_path e, e)) (rev (sm_entries sm))))"

definition source_entry_reusable :: "file_entry \<Rightarrow> file_entry \<Rightarrow> bool" where
  "source_entry_reusable current previous \<longleftrightarrow>
     fe_type current = EntryFile \<and> fe_type previous = EntryFile \<and>
     fe_size current = fe_size previous \<and> fe_mode current = fe_mode previous \<and>
     fe_mtime current = fe_mtime previous \<and> \<not> (0 < fe_size current \<and> fe_chunks previous = [])"

definition local_entry_reusable :: "file_entry \<Rightarrow> file_entry \<Rightarrow> bool" where
  "local_entry_reusable current previous \<longleftrightarrow>
     source_entry_reusable current previous \<and>
     fe_uid current = fe_uid previous \<and> fe_gid current = fe_gid previous"

subsection \<open>Chunking one file\<close>

definition count_chunk :: "bool \<Rightarrow> backup_progress \<Rightarrow> backup_progress" where
  "count_chunk existed p =
     (if existed then p\<lparr>bp_reused := bp_reused p + 1\<rparr> else p\<lparr>bp_uploaded := bp_uploaded p + 1\<rparr>)"

text \<open>The callback of \<open>Chunker.Split\<close>; its state is the repository, the progress and the references so far.\<close>

type_synonym 'db emit_state = "'db repo \<times> backup_progress \<times> chunk_ref list"

fun emit_chunk ::
    "env \<Rightarrow> 'db repo_deps \<Rightarrow> bytes \<Rightarrow> 'db emit_state \<Rightarrow> (repo_error + unit) \<times> 'db emit_state" where
  "emit_chunk ev d ch (s, p, refs) =
     (case put_chunk ev d ch s of
        (Inl e, s') \<Rightarrow> (Inl e, (s', p, refs))
      | (Inr (ref, existed), s') \<Rightarrow> (Inr (), (s', count_chunk existed p, refs @ [ref])))"

definition chunk_file ::
    "env \<Rightarrow> 'db repo_deps \<Rightarrow> chunker \<Rightarrow> string \<Rightarrow> opened \<Rightarrow> 'db backup \<Rightarrow>
     (backup_error + chunk_ref list) \<times> 'db backup" where
  "chunk_file ev d c name fl s =
     (case chunker_split c (emit_chunk ev d) (fst fl) (bk_repo s, bk_progress s, []) of
        (Inl e, (r, p, refs)) \<Rightarrow> (Inl (BkChunkFailed name e), s\<lparr>bk_repo := r, bk_progress := p\<rparr>)
      | (Inr u, (r, p, refs)) \<Rightarrow>
          (if snd fl then (Inl (BkCloseFailed name), s\<lparr>bk_repo := r, bk_progress := p\<rparr>)
           else (Inr refs, s\<lparr>bk_repo := r, bk_progress := p\<rparr>)))"

definition add_entry :: "file_entry \<Rightarrow> 'db backup \<Rightarrow> 'db backup" where
  "add_entry e s = s\<lparr>bk_entries := bk_entries s @ [e]\<rparr>"

definition file_done :: "file_entry \<Rightarrow> 'db backup \<Rightarrow> 'db backup" where
  "file_done e s =
     report_backup_progress (s\<lparr>bk_progress := (bk_progress s)\<lparr>bp_files := bp_files (bk_progress s) + 1,
        bp_bytes := bp_bytes (bk_progress s) + fe_size e, bp_message := MsgText (fe_path e)\<rparr>\<rparr>)"

definition backup_new_file ::
    "env \<Rightarrow> 'db repo_deps \<Rightarrow> chunker \<Rightarrow> (string \<Rightarrow> opened option) \<Rightarrow> string \<Rightarrow> file_entry \<Rightarrow> 'db backup \<Rightarrow>
     (backup_error + unit) \<times> 'db backup" where
  "backup_new_file ev d c open_fn name entry s =
     (case open_fn name of
        None \<Rightarrow> (Inl (BkOpenFailed name), s)
      | Some fl \<Rightarrow> sbind (chunk_file ev d c name fl s) (\<lambda>refs s1.
          let e = entry\<lparr>fe_chunks := refs\<rparr> in (Inr (), add_entry e (file_done e s1))))"

text \<open>The case of a regular file, the same for a local tree and for a connector.\<close>

definition backup_regular ::
    "env \<Rightarrow> 'db repo_deps \<Rightarrow> chunker \<Rightarrow> (file_entry \<Rightarrow> file_entry \<Rightarrow> bool) \<Rightarrow> (string \<Rightarrow> file_entry option) \<Rightarrow>
     (string \<Rightarrow> opened option) \<Rightarrow> string \<Rightarrow> file_entry \<Rightarrow> 'db backup \<Rightarrow> (backup_error + unit) \<times> 'db backup" where
  "backup_regular ev d c reusable prev open_fn name entry s =
     (case prev (fe_path entry) of
        Some old \<Rightarrow>
          if reusable entry old then
            let e = entry\<lparr>fe_chunks := fe_chunks old\<rparr>;
                s1 = s\<lparr>bk_progress := (bk_progress s)\<lparr>bp_reused := bp_reused (bk_progress s) + int (length (fe_chunks e))\<rparr>\<rparr>
            in (Inr (), add_entry e (file_done e s1))
          else backup_new_file ev d c open_fn name entry s
      | None \<Rightarrow> backup_new_file ev d c open_fn name entry s)"

definition backup_check_ctx :: "env \<Rightarrow> 'db backup \<Rightarrow> (backup_error + unit) \<times> 'db backup" where
  "backup_check_ctx ev s =
     (case check_ctx ev (bk_repo s) of (Inl e, r) \<Rightarrow> (Inl BkCanceled, s\<lparr>bk_repo := r\<rparr>)
                                     | (Inr u, r) \<Rightarrow> (Inr (), s\<lparr>bk_repo := r\<rparr>))"

text \<open>The end of both kinds of backup: the manifest is written and announced.\<close>

definition finish_backup ::
    "env \<Rightarrow> man_codec \<Rightarrow> snapshot_manifest \<Rightarrow> 'db backup \<Rightarrow> man_state \<Rightarrow>
     (backup_error + snapshot_manifest) \<times> 'db backup \<times> man_state" where
  "finish_backup evm mc m s ms =
     (case write_manifest evm mc (m\<lparr>sm_entries := bk_entries s\<rparr>) ms of
        (Inl e, ms') \<Rightarrow> (Inl (BkManifest e), s, ms')
      | (Inr m', ms') \<Rightarrow>
          (Inr m', report_backup_progress (s\<lparr>bk_progress := (bk_progress s)\<lparr>bp_phase := ''manifest'',
             bp_message := MsgText (sm_id m')\<rparr>\<rparr>), ms'))"

subsection \<open>Backup from a connector\<close>

datatype source_type = SourceFile | SourceDir | SourceSymlink | SourceOther

record source_entry =
  src_path :: string
  src_type :: source_type
  src_size :: int
  src_mode :: u32
  src_mtime :: int
  src_link :: string

text \<open>
  A connector: the entries its walk visits, whether the walk itself fails after them, and \<open>Open\<close>.
  A walk ends with the first error of the callback.
\<close>

record connector =
  cn_entries :: "source_entry list"
  cn_walk_fails :: bool
  cn_open :: "string \<Rightarrow> opened option"

text \<open>\<open>cleanSourceRoot\<close>; its two branches are the same function on Unix.\<close>

definition clean_source_root :: "string \<Rightarrow> string" where
  "clean_source_root root0 = (let root = trim_space root0 in if root = [] then ''.'' else clean_path root)"

definition trim_right_slashes :: "string \<Rightarrow> string" where
  "trim_right_slashes s = rev (dropWhile (\<lambda>c. c = slash) (rev s))"

definition source_rel :: "string \<Rightarrow> string \<Rightarrow> string" where
  "source_rel root0 entry0 =
     (let root = clean_source_root root0; entry = clean_source_root entry0
      in if entry = root then ''.''
         else let pre = trim_right_slashes root @ [slash]
              in if prefix pre entry then trim_prefix pre entry else trim_prefix [slash] entry)"

definition source_file_entry :: "string \<Rightarrow> source_entry \<Rightarrow> file_entry" where
  "source_file_entry root e =
     \<lparr>fe_path = clean_manifest_path (source_rel root (src_path e)), fe_type = EntryOther [],
      fe_size = src_size e, fe_mode = src_mode e, fe_uid = 0, fe_gid = 0, fe_mtime = src_mtime e,
      fe_link = src_link e, fe_chunks = [], fe_pack = None\<rparr>"

definition backup_source_entry ::
    "env \<Rightarrow> 'db repo_deps \<Rightarrow> chunker \<Rightarrow> connector \<Rightarrow> string \<Rightarrow> (string \<Rightarrow> file_entry option) \<Rightarrow>
     source_entry \<Rightarrow> 'db backup \<Rightarrow> (backup_error + unit) \<times> 'db backup" where
  "backup_source_entry ev d c cn root prev e s =
     sbind (backup_check_ctx ev s) (\<lambda>_ s1.
       let entry = source_file_entry root e
       in case src_type e of
            SourceDir \<Rightarrow> (Inr (), add_entry (entry\<lparr>fe_type := EntryDir\<rparr>) s1)
          | SourceSymlink \<Rightarrow> (Inr (), add_entry (entry\<lparr>fe_type := EntrySymlink\<rparr>) s1)
          | SourceFile \<Rightarrow> backup_regular ev d c source_entry_reusable prev (cn_open cn) (src_path e)
                           (entry\<lparr>fe_type := EntryFile\<rparr>) s1
          | SourceOther \<Rightarrow> (Inr (), s1))"

fun walk_source ::
    "env \<Rightarrow> 'db repo_deps \<Rightarrow> chunker \<Rightarrow> connector \<Rightarrow> string \<Rightarrow> (string \<Rightarrow> file_entry option) \<Rightarrow>
     source_entry list \<Rightarrow> 'db backup \<Rightarrow> (backup_error + unit) \<times> 'db backup" where
  "walk_source ev d c cn root prev [] s = (if cn_walk_fails cn then (Inl BkWalkFailed, s) else (Inr (), s))"
| "walk_source ev d c cn root prev (e # es) s =
     sbind (backup_source_entry ev d c cn root prev e s) (\<lambda>_ s1. walk_source ev d c cn root prev es s1)"

definition new_snapshot :: "string \<Rightarrow> int \<Rightarrow> string \<Rightarrow> string \<Rightarrow> snapshot_manifest" where
  "new_snapshot i created source root = \<lparr>sm_id = i, sm_created = created, sm_source_type = source,
     sm_source_root = root, sm_source_roots = [], sm_packs = [], sm_entries = []\<rparr>"

definition start_backup :: "'db repo \<Rightarrow> 'db backup" where
  "start_backup r =
     report_backup_progress \<lparr>bk_repo = r, bk_entries = [], bk_progress = start_progress, bk_log = []\<rparr>"

definition backup_from_source ::
    "env \<Rightarrow> env \<Rightarrow> 'db repo_deps \<Rightarrow> man_codec \<Rightarrow> chunker \<Rightarrow> string \<Rightarrow> string \<Rightarrow> string \<Rightarrow> connector \<Rightarrow>
     snapshot_manifest option \<Rightarrow> 'db repo \<Rightarrow> man_state \<Rightarrow>
     (backup_error + snapshot_manifest) \<times> 'db backup \<times> man_state" where
  "backup_from_source ev evm d mc c snapshot_id source root0 cn previous r ms =
     (let root = clean_source_root root0;
          m = new_snapshot snapshot_id (env_now evm (mn_step ms)) source root
      in case walk_source ev d c cn root (manifest_entry_map previous) (cn_entries cn) (start_backup r) of
           (Inl e, s) \<Rightarrow> (Inl e, s, ms)
         | (Inr u, s) \<Rightarrow> finish_backup evm mc m s ms)"

subsection \<open>Backup of a local tree\<close>

datatype local_kind = LocalDir | LocalSymlink | LocalRegular | LocalSpecial

record local_info =
  li_kind :: local_kind
  li_size :: int
  li_mode :: u32
  li_mtime :: int
  li_uid :: int
  li_gid :: int

text \<open>The file system: \<open>lstat\<close>, \<open>readlink\<close>, \<open>open\<close> and \<open>statfs\<close> of a path; \<open>None\<close> is an error.\<close>

record local_fs =
  lf_lstat :: "string \<Rightarrow> local_info option"
  lf_readlink :: "string \<Rightarrow> string option"
  lf_open :: "string \<Rightarrow> opened option"
  lf_statfs :: "string \<Rightarrow> int option"

text \<open>
  The tree that \<open>filepath.WalkDir\<close> walks: a path, whether its directory entry is a directory,
  whether reading that directory fails, and the entries that were read.
\<close>

datatype walk_tree = WalkTree string bool bool "walk_tree list"

datatype walk_action = WalkOn | WalkSkipDir

text \<open>
  \<open>filepath.WalkDir\<close>. A visit sees the path and whether the call reports an error of the walk. The
  result \<open>Inr True\<close> is \<open>SkipDir\<close> returned for something that is not a directory, which ends the
  enclosing directory.
\<close>

fun walk_node :: "(string \<Rightarrow> bool \<Rightarrow> 's \<Rightarrow> ('e + walk_action) \<times> 's) \<Rightarrow> walk_tree \<Rightarrow> 's \<Rightarrow> ('e + bool) \<times> 's"
and walk_nodes :: "(string \<Rightarrow> bool \<Rightarrow> 's \<Rightarrow> ('e + walk_action) \<times> 's) \<Rightarrow> walk_tree list \<Rightarrow> 's \<Rightarrow> ('e + bool) \<times> 's" where
  "walk_node visit (WalkTree p is_dir read_fails children) s =
     sbind (visit p False s) (\<lambda>act s1.
       if act = WalkSkipDir then (Inr (\<not> is_dir), s1)
       else if \<not> is_dir then (Inr False, s1)
       else if read_fails then
         sbind (visit p True s1) (\<lambda>act2 s2.
           if act2 = WalkSkipDir then (Inr False, s2) else walk_nodes visit children s2)
       else walk_nodes visit children s1)"
| "walk_nodes visit [] s = (Inr False, s)"
| "walk_nodes visit (t # ts) s =
     sbind (walk_node visit t s) (\<lambda>skip s1. if skip then (Inr False, s1) else walk_nodes visit ts s1)"

text \<open>The root is absent when the first \<open>lstat\<close> of it fails.\<close>

definition walk_dir ::
    "(string \<Rightarrow> bool \<Rightarrow> 's \<Rightarrow> ('e + walk_action) \<times> 's) \<Rightarrow> string \<Rightarrow> walk_tree option \<Rightarrow> 's \<Rightarrow> ('e + unit) \<times> 's" where
  "walk_dir visit root tree s =
     (case tree of
        None \<Rightarrow> sbind (visit root True s) (\<lambda>_ s1. (Inr (), s1))
      | Some t \<Rightarrow> sbind (walk_node visit t s) (\<lambda>_ s1. (Inr (), s1)))"

definition local_file_entry :: "string \<Rightarrow> local_info \<Rightarrow> file_entry" where
  "local_file_entry rel info =
     \<lparr>fe_path = clean_manifest_path rel, fe_type = EntryOther [], fe_size = li_size info,
      fe_mode = li_mode info, fe_uid = li_uid info, fe_gid = li_gid info, fe_mtime = li_mtime info,
      fe_link = [], fe_chunks = [], fe_pack = None\<rparr>"

text \<open>The switch on the kind of the file.\<close>

definition visit_local_entry ::
    "env \<Rightarrow> 'db repo_deps \<Rightarrow> chunker \<Rightarrow> local_fs \<Rightarrow> (string \<Rightarrow> file_entry option) \<Rightarrow> string \<Rightarrow> local_kind \<Rightarrow>
     file_entry \<Rightarrow> 'db backup \<Rightarrow> (backup_error + walk_action) \<times> 'db backup" where
  "visit_local_entry ev d c lf prev p kind entry s =
     (case kind of
        LocalDir \<Rightarrow> (Inr WalkOn, add_entry (entry\<lparr>fe_type := EntryDir\<rparr>) s)
      | LocalSymlink \<Rightarrow>
          (case lf_readlink lf p of
             None \<Rightarrow> (Inl (BkReadlinkFailed p), s)
           | Some target \<Rightarrow> (Inr WalkOn, add_entry (entry\<lparr>fe_type := EntrySymlink, fe_link := target\<rparr>) s))
      | LocalRegular \<Rightarrow>
          sbind (backup_regular ev d c local_entry_reusable prev (lf_open lf) p (entry\<lparr>fe_type := EntryFile\<rparr>) s)
            (\<lambda>_ s1. (Inr WalkOn, s1))
      | LocalSpecial \<Rightarrow> (Inr WalkOn, s))"

definition local_skip :: "local_fs \<Rightarrow> string \<Rightarrow> string \<Rightarrow> local_info \<Rightarrow> skip_event option" where
  "local_skip lf root p info =
     should_skip (lf_statfs lf) root p (Some (li_kind info = LocalSymlink)) \<lparr>fo_patterns = [], fo_skip_pseudo = True\<rparr>"

definition visit_local ::
    "env \<Rightarrow> 'db repo_deps \<Rightarrow> chunker \<Rightarrow> local_fs \<Rightarrow> string \<Rightarrow> (string \<Rightarrow> file_entry option) \<Rightarrow>
     string \<Rightarrow> bool \<Rightarrow> 'db backup \<Rightarrow> (backup_error + walk_action) \<times> 'db backup" where
  "visit_local ev d c lf root prev p walk_err s =
     (if walk_err then (Inl BkWalkFailed, s)
      else sbind (backup_check_ctx ev s) (\<lambda>_ s1.
        case lf_lstat lf p of
          None \<Rightarrow> (Inl (BkStatFailed p), s1)
        | Some info \<Rightarrow>
            (case local_skip lf root p info of
               Some event \<Rightarrow>
                 let s2 = report_backup_progress (s1\<lparr>bk_progress := (bk_progress s1)\<lparr>bp_message :=
                            MsgSkipped (se_rel event) (se_reason event)\<rparr>\<rparr>)
                 in (Inr (if li_kind info = LocalDir then WalkSkipDir else WalkOn), s2)
             | None \<Rightarrow>
                 (case path_rel root p of
                    None \<Rightarrow> (Inl (BkRelFailed p), s1)
                  | Some rel \<Rightarrow>
                      visit_local_entry ev d c lf prev p (li_kind info) (local_file_entry rel info) s1))))"

definition backup_local_tree ::
    "env \<Rightarrow> env \<Rightarrow> 'db repo_deps \<Rightarrow> man_codec \<Rightarrow> chunker \<Rightarrow> string \<Rightarrow> string \<Rightarrow> string \<Rightarrow> local_fs \<Rightarrow>
     walk_tree option \<Rightarrow> snapshot_manifest option \<Rightarrow> 'db repo \<Rightarrow> man_state \<Rightarrow>
     (backup_error + snapshot_manifest) \<times> 'db backup \<times> man_state" where
  "backup_local_tree ev evm d mc c snapshot_id source root0 lf tree previous r ms =
     (let root = clean_path root0;
          m = new_snapshot snapshot_id (env_now evm (mn_step ms)) source root
      in case pseudo_filesystem_name (lf_statfs lf) root of
           Some (Some fs) \<Rightarrow>
             (Inl (BkPseudoRoot root fs), \<lparr>bk_repo = r, bk_entries = [], bk_progress = start_progress, bk_log = []\<rparr>, ms)
         | _ \<Rightarrow>
             (case walk_dir (visit_local ev d c lf root (manifest_entry_map previous)) root tree (start_backup r) of
                (Inl e, s) \<Rightarrow> (Inl e, s, ms)
              | (Inr u, s) \<Rightarrow> finish_backup evm mc m s ms))"

subsection \<open>Restoring one file\<close>

text \<open>
  What \<open>RestoreFile\<close> puts at the target path: nothing, a link, or a file with its permission bits,
  its content so far and the modification time if it could be set. The target's file system answers
  by the oracle \<open>evf\<close>, by step number.
\<close>

datatype restored = RestoredLink string | RestoredFile u32 bytes "int option"

datatype restore_error =
    RsManifest manifest_error
  | RsEntryNotFound string
  | RsIsDirectory string
  | RsParentFailed
  | RsSymlinkFailed
  | RsTargetFailed
  | RsRepo repo_error
  | RsWriteFailed
  | RsUnsupportedType entry_type
  | RsCloseFailed

definition file_perm :: "u32 \<Rightarrow> u32" where
  "file_perm mode = mode AND 0x1FF"

text \<open>A write of the target; a failing one has written a part.\<close>

definition write_target :: "env \<Rightarrow> nat \<Rightarrow> bytes \<Rightarrow> bytes \<Rightarrow> bool \<times> bytes" where
  "write_target evf n acc data =
     (case env_io evf n of None \<Rightarrow> (True, acc @ data) | Some k \<Rightarrow> (False, acc @ take k data))"

fun restore_chunks ::
    "env \<Rightarrow> env \<Rightarrow> 'db repo_deps \<Rightarrow> nat \<Rightarrow> chunk_ref list \<Rightarrow> bytes \<Rightarrow> 'db repo \<Rightarrow>
     (restore_error option \<times> nat \<times> bytes) \<times> 'db repo" where
  "restore_chunks ev evf d n [] acc s = ((None, n, acc), s)"
| "restore_chunks ev evf d n (ref # refs) acc s =
     (case check_ctx ev s of
        (Inl e, s1) \<Rightarrow> ((Some (RsRepo e), n, acc), s1)
      | (Inr u, s1) \<Rightarrow>
          (case read_chunk_ref ev d ref s1 of
             (Inl e, s2) \<Rightarrow> ((Some (RsRepo e), n, acc), s2)
           | (Inr data, s2) \<Rightarrow>
               (case write_target evf n acc data of
                  (False, acc') \<Rightarrow> ((Some RsWriteFailed, Suc n, acc'), s2)
                | (True, acc') \<Rightarrow> restore_chunks ev evf d (Suc n) refs acc' s2)))"

definition restore_content ::
    "env \<Rightarrow> env \<Rightarrow> 'db repo_deps \<Rightarrow> snapshot_manifest \<Rightarrow> file_entry \<Rightarrow> nat \<Rightarrow> 'db repo \<Rightarrow>
     (restore_error option \<times> nat \<times> bytes) \<times> 'db repo" where
  "restore_content ev evf d m entry n s =
     (if fe_type entry = EntryFile then restore_chunks ev evf d n (fe_chunks entry) [] s
      else if fe_type entry = EntryPackedFile then
        (case read_packed_file ev d (Some m) entry s of
           (Inl e, s1) \<Rightarrow> ((Some (RsRepo e), n, []), s1)
         | (Inr data, s1) \<Rightarrow>
             (case write_target evf n [] data of
                (False, acc) \<Rightarrow> ((Some RsWriteFailed, Suc n, acc), s1)
              | (True, acc) \<Rightarrow> ((None, Suc n, acc), s1)))
      else ((Some (RsUnsupportedType (fe_type entry)), n, []), s))"

definition restore_file ::
    "env \<Rightarrow> env \<Rightarrow> env \<Rightarrow> 'db repo_deps \<Rightarrow> man_codec \<Rightarrow> string \<Rightarrow> string \<Rightarrow> 'db repo \<Rightarrow> man_state \<Rightarrow>
     (restore_error option \<times> restored option) \<times> 'db repo \<times> man_state" where
  "restore_file ev evm evf d mc snapshot_id entry_path s ms =
     (case read_manifest evm mc snapshot_id ms of
        (Inl e, ms1) \<Rightarrow> ((Some (RsManifest e), None), s, ms1)
      | (Inr m, ms1) \<Rightarrow>
          (case manifest_find m entry_path of
             None \<Rightarrow> ((Some (RsEntryNotFound entry_path), None), s, ms1)
           | Some entry \<Rightarrow>
               if fe_type entry = EntryDir then ((Some (RsIsDirectory entry_path), None), s, ms1)
               else if env_io evf 0 \<noteq> None then ((Some RsParentFailed, None), s, ms1)
               else if fe_type entry = EntrySymlink then
                 (if env_io evf 2 \<noteq> None then ((Some RsSymlinkFailed, None), s, ms1)
                  else ((None, Some (RestoredLink (fe_link entry))), s, ms1))
               else if env_io evf 1 \<noteq> None then ((Some RsTargetFailed, None), s, ms1)
               else (case restore_content ev evf d m entry 2 s of
                  ((err, n, out), s1) \<Rightarrow>
                    (case err of
                       Some e \<Rightarrow> ((Some e, Some (RestoredFile (file_perm (fe_mode entry)) out None)), s1, ms1)
                     | None \<Rightarrow>
                         if env_io evf n \<noteq> None
                         then ((Some RsCloseFailed, Some (RestoredFile (file_perm (fe_mode entry)) out None)), s1, ms1)
                         else ((None, Some (RestoredFile (file_perm (fe_mode entry)) out
                                  (if env_io evf (Suc n) \<noteq> None then None else Some (fe_mtime entry)))), s1, ms1)))))"

subsection \<open>Chunks of one file\<close>

lemma put_chunk_repo_put:
  assumes "put_chunk ev d ch s = (res, t)"
  obtains (stored) ref ex where "res = Inr (ref, ex)" "repo_put ev d [ch] s = (Inr [ref], t)"
  | (failed) e res' where "res = Inl e" "repo_put ev d [ch] s = (res', t)"
proof -
  obtain r t0 where p: "put_chunks ev d [ch] s = (r, t0)" by fastforce
  have t0: "t0 = t" using assms p by (cases r) (auto simp: put_chunk_def split: list.splits)
  show thesis
  proof (cases r)
    case (Inl e)
    then show thesis using assms p t0 by (intro failed [of e "Inl e"]) (auto simp: put_chunk_def repo_put_def)
  next
    case (Inr rs)
    then have rp: "repo_put ev d [ch] s = (Inr (map pu_ref rs), t)" using p t0 by (simp add: repo_put_def)
    show thesis
    proof (cases "\<exists>x. rs = [x]")
      case True
      then obtain x where "rs = [x]" by blast
      then show thesis using assms p Inr rp by (intro stored [of "pu_ref x" "pu_existed x"]) (auto simp: put_chunk_def)
    next
      case False
      then have "res = Inl (RepoResultCount (length rs))"
        using assms p Inr by (auto simp: put_chunk_def split: list.splits)
      then show thesis using rp by (rule failed)
    qed
  qed
qed

text \<open>A repository grows: what could be read still reads the same, and it has not become smaller.\<close>

definition repo_grows :: "'db repo_deps \<Rightarrow> 'db repo \<Rightarrow> 'db repo \<Rightarrow> bool" where
  "repo_grows d s t \<longleftrightarrow> (\<forall>r x. repo_reads d s r x \<longrightarrow> repo_reads d t r x) \<and> (repo_bounded t \<longrightarrow> repo_bounded s)"

lemma repo_grows_refl [simp]: "repo_grows d s s"
  by (simp add: repo_grows_def)

lemma repo_grows_trans [trans]: "repo_grows d s t \<Longrightarrow> repo_grows d t u \<Longrightarrow> repo_grows d s u"
  by (simp add: repo_grows_def)

lemma repo_grows_same: "same_store s t \<Longrightarrow> repo_grows d s t"
  using same_store_fields(2) [of s t] by (simp add: repo_grows_def repo_reads_def repo_bounded_def)

lemma check_ctx_grows: "check_ctx ev s = (r, t) \<Longrightarrow> repo_grows d s t"
  using repo_grows_same [OF check_ctx_same [of s ev]] by simp

lemma repo_put_grows: "repo_put ev d cs s = (res, t) \<Longrightarrow> repo_grows d s t"
  unfolding repo_grows_def by (meson repository.put_keeps repository.put_bounded)

lemma put_chunk_grows:
  assumes "put_chunk ev d ch s = (res, t)"
  shows "repo_grows d s t"
  using assms by (cases rule: put_chunk_repo_put) (auto dest: repo_put_grows)

lemma emit_chunk_grows: "emit_chunk ev d ch (s, p, refs) = (res, (t, p', refs')) \<Longrightarrow> repo_grows d s t"
  by (auto split: prod.splits sum.splits dest: put_chunk_grows)

lemma emit_all_store:
  "emit_all (emit_chunk ev d) chs (s, p, refs0) = (Inr (), (t, p', refs)) \<Longrightarrow>
   \<exists>rs. refs = refs0 @ rs \<and>
      store_all (repo_put ev d) (map (\<lambda>c. [c]) chs) s = (Inr (map (\<lambda>r. [r]) rs), t)"
proof (induction chs arbitrary: s p refs0)
  case Nil
  then show ?case by simp
next
  case (Cons ch chs)
  obtain r s1 where p: "put_chunk ev d ch s = (r, s1)" by fastforce
  then show ?case
  proof (cases rule: put_chunk_repo_put)
    case (stored ref ex)
    then have rest: "emit_all (emit_chunk ev d) chs (s1, count_chunk ex p, refs0 @ [ref]) = (Inr (), (t, p', refs))"
      using Cons.prems p by simp
    obtain rs where rs: "refs = (refs0 @ [ref]) @ rs"
      "store_all (repo_put ev d) (map (\<lambda>c. [c]) chs) s1 = (Inr (map (\<lambda>r. [r]) rs), t)"
      using Cons.IH [OF rest] by blast
    then have "store_all (repo_put ev d) (map (\<lambda>c. [c]) (ch # chs)) s = (Inr (map (\<lambda>r. [r]) (ref # rs)), t)"
      using stored(2) by simp
    then show ?thesis using rs(1) by (intro exI [of _ "ref # rs"]) simp
  next
    case (failed e res')
    then show ?thesis using Cons.prems p by simp
  qed
qed

text \<open>References that read the chunks of a byte string, up to data with the same hash.\<close>

definition refs_hold :: "'db repo_deps \<Rightarrow> 'db repo \<Rightarrow> chunk_ref list \<Rightarrow> bytes list \<Rightarrow> bool" where
  "refs_hold d s refs chs \<longleftrightarrow>
     list_all2 (\<lambda>r ch. \<exists>x. repo_reads d s r x \<and> hash_bytes (rd_crypto d) x = hash_bytes (rd_crypto d) ch) refs chs"

lemma refs_hold_grows: "repo_grows d s t \<Longrightarrow> refs_hold d s refs chs \<Longrightarrow> refs_hold d t refs chs"
  unfolding refs_hold_def repo_grows_def by (erule list_all2_mono) blast

lemma list_all2_singles: "list_all2 (list_all2 P) (map (\<lambda>r. [r]) rs) (map (\<lambda>c. [c]) cs) \<longleftrightarrow> list_all2 P rs cs"
  by (simp add: list_all2_map1 list_all2_map2)

lemma emit_all_holds:
  assumes "emit_all (emit_chunk ev d) chs (s, p, []) = (Inr (), (t, p', refs))" and "repo_ok ev d s"
    and "\<forall>ch \<in> set chs. data_fits (rd_crypto d) (rd_key d) ch" and "repo_bounded t"
  shows "repo_ok ev d t \<and> refs_hold d t refs chs"
proof -
  obtain rs where rs: "refs = rs"
    "store_all (repo_put ev d) (map (\<lambda>c. [c]) chs) s = (Inr (map (\<lambda>r. [r]) rs), t)"
    using emit_all_store [OF assms(1)] by auto
  have f: "\<forall>cs \<in> set (map (\<lambda>c. [c]) chs). \<forall>c \<in> set cs. data_fits (rd_crypto d) (rd_key d) c"
    using assms(3) by auto
  show ?thesis
    using repository.store_all_ok [OF assms(2) rs(2) f assms(4)] rs(1)
    unfolding refs_hold_def list_all2_singles by blast
qed

lemma split_buffer_keeps:
  assumes "\<And>ch s r s'. P s \<Longrightarrow> emit ch s = (r, s') \<Longrightarrow> P s'"
  shows "split_buffer c emit chunk fp bs s = (r, t) \<Longrightarrow> P s \<Longrightarrow> P t"
proof (induction bs arbitrary: chunk fp s)
  case Nil
  then show ?case by simp
next
  case (Cons b bs)
  show ?case
  proof (cases "is_boundary c (length (chunk @ [b])) (gear_hash c fp b)")
    case True
    obtain x s1 where e: "emit (chunk @ [b]) s = (x, s1)" by fastforce
    then have "P s1" using assms Cons.prems(2) by blast
    then show ?thesis using Cons True e by (cases x) (auto simp: Let_def)
  next
    case False
    then show ?thesis using Cons by (auto simp: Let_def)
  qed
qed

lemma split_loop_keeps:
  assumes emit: "\<And>ch s r s'. P s \<Longrightarrow> emit ch s = (r, s') \<Longrightarrow> P s'"
  shows "split_loop c emit chunk fp rs s = (r, t) \<Longrightarrow> P s \<Longrightarrow> P t"
proof (induction rs arbitrary: chunk fp s)
  case Nil
  then show ?case using emit by (auto simp: split_finish_def split: if_splits prod.splits sum.splits)
next
  case (Cons x rs)
  obtain bs oc where x: "x = (bs, oc)" by fastforce
  obtain y s1 where b: "split_buffer c emit chunk fp bs s = (y, s1)" by fastforce
  have p1: "P s1" using split_buffer_keeps [of P emit] emit b Cons.prems(2) by blast
  show ?case
    using Cons.prems(1) Cons.IH [OF _ p1] x b p1 emit
    by (cases y; cases oc) (auto simp: split_finish_def split: if_splits prod.splits sum.splits)
qed

lemma split_loop_data: "split_loop c emit chunk fp rs s = (Inr u, t) \<Longrightarrow> \<exists>data. reader_data rs = Some data"
proof (induction rs arbitrary: chunk fp s)
  case Nil
  then show ?case by simp
next
  case (Cons x rs)
  obtain bs oc where x: "x = (bs, oc)" by fastforce
  show ?case using Cons x by (cases oc) (auto split: prod.splits sum.splits)
qed

lemma chunk_file_grows:
  assumes "chunk_file ev d c name fl s = (res, t)"
  shows "repo_grows d (bk_repo s) (bk_repo t) \<and> bk_entries t = bk_entries s"
proof -
  obtain x r p refs where sp: "chunker_split c (emit_chunk ev d) (fst fl) (bk_repo s, bk_progress s, []) = (x, (r, p, refs))"
    by (metis prod_cases3)
  have "repo_grows d (bk_repo s) (fst (r, p, refs))"
    by (rule split_loop_keeps [where P = "\<lambda>z. repo_grows d (bk_repo s) (fst z)", OF _ sp [unfolded chunker_split_def]])
      (auto dest!: emit_chunk_grows intro: repo_grows_trans)
  then show ?thesis using assms sp by (auto simp: chunk_file_def split: sum.splits if_splits)
qed

lemma chunk_file_holds:
  assumes "chunk_file ev d c name fl s = (Inr refs, t)" and "repo_ok ev d (bk_repo s)"
    and "\<And>data ch. reader_data (fst fl) = Some data \<Longrightarrow> ch \<in> set (chunk_list c data) \<Longrightarrow>
        data_fits (rd_crypto d) (rd_key d) ch"
    and "repo_bounded (bk_repo t)"
  shows "repo_ok ev d (bk_repo t) \<and>
    (\<exists>data. reader_data (fst fl) = Some data \<and> refs_hold d (bk_repo t) refs (chunk_list c data))"
proof -
  obtain u r p where sp: "chunker_split c (emit_chunk ev d) (fst fl) (bk_repo s, bk_progress s, []) = (Inr u, (r, p, refs))"
    and t: "bk_repo t = r"
    using assms(1) by (auto simp: chunk_file_def split: prod.splits sum.splits if_splits)
  obtain data where data: "reader_data (fst fl) = Some data"
    using split_loop_data [OF sp [unfolded chunker_split_def]] by blast
  have "lift_emit (emit_all (emit_chunk ev d) (chunk_list c data) (bk_repo s, bk_progress s, [])) = (Inr u, (r, p, refs))"
    using split_loop_chunks [OF data, of c "emit_chunk ev d" "[]" 0] sp
    unfolding chunker_split_def chunk_list_def by simp
  then have "emit_all (emit_chunk ev d) (chunk_list c data) (bk_repo s, bk_progress s, []) = (Inr (), (r, p, refs))"
    by (auto simp: lift_emit_def split: prod.splits sum.splits)
  from emit_all_holds [OF this assms(2)] show ?thesis using assms(3) [OF data] assms(4) t data by blast
qed

subsection \<open>Entries of a backup\<close>

text \<open>
  What a backup records for a regular file: the metadata that the source reported, and the chunks
  either of the previous entry, if that is reusable, or of what the file delivered.
\<close>

definition file_backed ::
    "'db repo_deps \<Rightarrow> chunker \<Rightarrow> (string \<Rightarrow> opened option) \<Rightarrow> (file_entry \<Rightarrow> file_entry \<Rightarrow> bool) \<Rightarrow>
     (string \<Rightarrow> file_entry option) \<Rightarrow> string \<Rightarrow> file_entry \<Rightarrow> 'db repo \<Rightarrow> file_entry \<Rightarrow> bool" where
  "file_backed d c open_fn reusable prev name entry s e \<longleftrightarrow>
     e = entry\<lparr>fe_chunks := fe_chunks e\<rparr> \<and>
     (case prev (fe_path entry) of
        Some old \<Rightarrow> if reusable entry old then fe_chunks e = fe_chunks old
                    else (\<exists>fl data. open_fn name = Some fl \<and> reader_data (fst fl) = Some data \<and>
                            refs_hold d s (fe_chunks e) (chunk_list c data))
      | None \<Rightarrow> (\<exists>fl data. open_fn name = Some fl \<and> reader_data (fst fl) = Some data \<and>
                   refs_hold d s (fe_chunks e) (chunk_list c data)))"

lemma file_backed_grows:
  "repo_grows d s t \<Longrightarrow> file_backed d c open_fn reusable prev name entry s e \<Longrightarrow>
   file_backed d c open_fn reusable prev name entry t e"
  using refs_hold_grows [of d s t] unfolding file_backed_def by (auto split: option.splits if_splits; metis)

text \<open>The sizes of the chunks of every file that can be opened suit the record format.\<close>

definition source_fits :: "'db repo_deps \<Rightarrow> chunker \<Rightarrow> (string \<Rightarrow> opened option) \<Rightarrow> bool" where
  "source_fits d c open_fn \<longleftrightarrow>
     (\<forall>name fl data. open_fn name = Some fl \<longrightarrow> reader_data (fst fl) = Some data \<longrightarrow>
        (\<forall>ch \<in> set (chunk_list c data). data_fits (rd_crypto d) (rd_key d) ch))"

lemma backup_simps [simp]:
  "bk_repo (report_backup_progress s) = bk_repo s" "bk_entries (report_backup_progress s) = bk_entries s"
  "bk_repo (add_entry e s) = bk_repo s" "bk_entries (add_entry e s) = bk_entries s @ [e]"
  "bk_repo (file_done e s) = bk_repo s" "bk_entries (file_done e s) = bk_entries s"
  by (simp_all add: report_backup_progress_def add_entry_def file_done_def)

definition backup_grows :: "'db repo_deps \<Rightarrow> 'db backup \<Rightarrow> 'db backup \<Rightarrow> bool" where
  "backup_grows d s t \<longleftrightarrow> repo_grows d (bk_repo s) (bk_repo t)"

lemma backup_grows_refl [simp]: "backup_grows d s s"
  by (simp add: backup_grows_def)

lemma backup_grows_trans [trans]: "backup_grows d s t \<Longrightarrow> backup_grows d t u \<Longrightarrow> backup_grows d s u"
  using repo_grows_trans by (auto simp: backup_grows_def)

lemma backup_grows_bounded: "backup_grows d s t \<Longrightarrow> repo_bounded (bk_repo t) \<Longrightarrow> repo_bounded (bk_repo s)"
  by (simp add: backup_grows_def repo_grows_def)

lemma backup_check_ctx_fields:
  "backup_check_ctx ev s = (r, t) \<Longrightarrow>
   backup_grows d s t \<and> bk_entries t = bk_entries s \<and> (repo_ok ev d (bk_repo s) \<longrightarrow> repo_ok ev d (bk_repo t))"
  by (auto simp: backup_check_ctx_def backup_grows_def check_ctx_def repo_ok_def
      intro: repo_grows_same split: prod.splits sum.splits if_splits)

lemma backup_new_file_grows:
  "backup_new_file ev d c open_fn name entry s = (res, t) \<Longrightarrow> backup_grows d s t"
  unfolding backup_new_file_def backup_grows_def
  by (cases "open_fn name"; cases "fst (chunk_file ev d c name (the (open_fn name)) s)";
      cases "chunk_file ev d c name (the (open_fn name)) s")
    (auto simp: Let_def dest: chunk_file_grows)

lemma backup_new_file_ok:
  assumes "backup_new_file ev d c open_fn name entry s = (Inr u, t)" and "repo_ok ev d (bk_repo s)"
    and "source_fits d c open_fn" and "repo_bounded (bk_repo t)"
  shows "repo_ok ev d (bk_repo t) \<and>
    (\<exists>e fl data. bk_entries t = bk_entries s @ [e] \<and> e = entry\<lparr>fe_chunks := fe_chunks e\<rparr> \<and>
       open_fn name = Some fl \<and> reader_data (fst fl) = Some data \<and>
       refs_hold d (bk_repo t) (fe_chunks e) (chunk_list c data))"
proof -
  obtain fl refs s1 where fl: "open_fn name = Some fl" and cf: "chunk_file ev d c name fl s = (Inr refs, s1)"
    and t: "t = add_entry (entry\<lparr>fe_chunks := refs\<rparr>) (file_done (entry\<lparr>fe_chunks := refs\<rparr>) s1)"
    using assms(1) by (auto simp: backup_new_file_def result_simps Let_def split: option.splits)
  have "repo_bounded (bk_repo s1)" using assms(4) t by simp
  from chunk_file_holds [OF cf assms(2) _ this] obtain data where
    "repo_ok ev d (bk_repo s1)" "reader_data (fst fl) = Some data" "refs_hold d (bk_repo s1) refs (chunk_list c data)"
    using assms(3) fl unfolding source_fits_def by blast
  moreover have "bk_entries s1 = bk_entries s" using chunk_file_grows [OF cf] by simp
  ultimately show ?thesis using t fl by auto
qed

lemma backup_regular_grows:
  "backup_regular ev d c reusable prev open_fn name entry s = (res, t) \<Longrightarrow> backup_grows d s t"
  by (auto simp: backup_regular_def Let_def backup_grows_def dest: backup_new_file_grows [unfolded backup_grows_def]
      split: option.splits if_splits)

lemma backup_regular_ok:
  assumes "backup_regular ev d c reusable prev open_fn name entry s = (Inr u, t)" and "repo_ok ev d (bk_repo s)"
    and "source_fits d c open_fn" and "repo_bounded (bk_repo t)"
  shows "repo_ok ev d (bk_repo t) \<and>
    (\<exists>e. bk_entries t = bk_entries s @ [e] \<and> file_backed d c open_fn reusable prev name entry (bk_repo t) e)"
proof (cases "\<exists>old. prev (fe_path entry) = Some old \<and> reusable entry old")
  case True
  then show ?thesis using assms(1,2) by (auto simp: backup_regular_def Let_def file_backed_def)
next
  case False
  then have "backup_new_file ev d c open_fn name entry s = (Inr u, t)"
    using assms(1) by (auto simp: backup_regular_def split: option.splits)
  from backup_new_file_ok [OF this assms(2-4)] show ?thesis
    using False unfolding file_backed_def by (auto split: option.splits)
qed

subsection \<open>The walk of a connector\<close>

lemma list_all2_right: "list_all2 P xs ys \<Longrightarrow> y \<in> set ys \<Longrightarrow> \<exists>x \<in> set xs. P x y"
  by (induction rule: list_all2_induct) auto

definition entry_type_of :: "source_type \<Rightarrow> entry_type" where
  "entry_type_of t = (case t of SourceFile \<Rightarrow> EntryFile | SourceDir \<Rightarrow> EntryDir | SourceSymlink \<Rightarrow> EntrySymlink
     | SourceOther \<Rightarrow> EntryOther [])"

definition source_backed ::
    "'db repo_deps \<Rightarrow> chunker \<Rightarrow> connector \<Rightarrow> string \<Rightarrow> (string \<Rightarrow> file_entry option) \<Rightarrow> 'db repo \<Rightarrow>
     source_entry \<Rightarrow> file_entry \<Rightarrow> bool" where
  "source_backed d c cn root prev s src e \<longleftrightarrow>
     (let entry = (source_file_entry root src)\<lparr>fe_type := entry_type_of (src_type src)\<rparr>
      in if src_type src = SourceFile
         then file_backed d c (cn_open cn) source_entry_reusable prev (src_path src) entry s e
         else e = entry)"

lemma source_backed_grows:
  "repo_grows d s t \<Longrightarrow> source_backed d c cn root prev s src e \<Longrightarrow> source_backed d c cn root prev t src e"
  by (auto simp: source_backed_def Let_def intro: file_backed_grows)

lemma backup_source_entry_ok:
  assumes "backup_source_entry ev d c cn root prev src s = (Inr u, t)" and "repo_ok ev d (bk_repo s)"
    and "source_fits d c (cn_open cn)" and "repo_bounded (bk_repo t)"
  shows "repo_ok ev d (bk_repo t) \<and> backup_grows d s t \<and>
    (\<exists>es. bk_entries t = bk_entries s @ es \<and>
      list_all2 (source_backed d c cn root prev (bk_repo t)) (filter (\<lambda>e. src_type e \<noteq> SourceOther) [src]) es)"
proof -
  obtain v s1 where c: "backup_check_ctx ev s = (Inr v, s1)"
    and rest: "(let entry = source_file_entry root src
       in case src_type src of
            SourceDir \<Rightarrow> (Inr (), add_entry (entry\<lparr>fe_type := EntryDir\<rparr>) s1)
          | SourceSymlink \<Rightarrow> (Inr (), add_entry (entry\<lparr>fe_type := EntrySymlink\<rparr>) s1)
          | SourceFile \<Rightarrow> backup_regular ev d c source_entry_reusable prev (cn_open cn) (src_path src)
                           (entry\<lparr>fe_type := EntryFile\<rparr>) s1
          | SourceOther \<Rightarrow> (Inr (), s1)) = (Inr u, t)"
    using assms(1) by (auto simp: backup_source_entry_def result_simps)
  have s1: "backup_grows d s s1" "bk_entries s1 = bk_entries s" "repo_ok ev d (bk_repo s1)"
    using backup_check_ctx_fields [OF c, of d] assms(2) by auto
  show ?thesis
  proof (cases "src_type src = SourceFile")
    case True
    then have r: "backup_regular ev d c source_entry_reusable prev (cn_open cn) (src_path src)
        ((source_file_entry root src)\<lparr>fe_type := EntryFile\<rparr>) s1 = (Inr u, t)" using rest by (simp add: Let_def)
    show ?thesis
      using backup_regular_ok [OF r s1(3) assms(3,4)] backup_grows_trans [OF s1(1) backup_regular_grows [OF r]] True s1(2)
      by (auto simp: source_backed_def entry_type_of_def)
  next
    case False
    have "backup_grows d s1 t" using rest False by (auto simp: Let_def backup_grows_def split: source_type.splits)
    then show ?thesis
      using rest False s1 backup_grows_trans [OF s1(1)]
      by (cases "src_type src") (auto simp: Let_def source_backed_def entry_type_of_def)
  qed
qed

lemma backup_source_entry_grows:
  assumes "backup_source_entry ev d c cn root prev src s = (res, t)"
  shows "backup_grows d s t"
proof -
  obtain x s1 where c: "backup_check_ctx ev s = (x, s1)" by fastforce
  then have g: "backup_grows d s s1" using backup_check_ctx_fields by blast
  show ?thesis
  proof (cases x)
    case (Inl e)
    then show ?thesis using assms c g by (simp add: backup_source_entry_def)
  next
    case (Inr v)
    have "backup_grows d s1 t"
      using assms c Inr by (auto simp: backup_source_entry_def Let_def backup_grows_def
          dest: backup_regular_grows [unfolded backup_grows_def] split: source_type.splits)
    then show ?thesis using backup_grows_trans [OF g] by blast
  qed
qed

lemma walk_source_grows: "walk_source ev d c cn root prev es s = (res, t) \<Longrightarrow> backup_grows d s t"
proof (induction es arbitrary: s)
  case Nil
  then show ?case by (auto split: if_splits)
next
  case (Cons e es)
  obtain x s1 where x: "backup_source_entry ev d c cn root prev e s = (x, s1)" by fastforce
  have g: "backup_grows d s s1" by (rule backup_source_entry_grows [OF x])
  show ?case
  proof (cases x)
    case (Inl err)
    then show ?thesis using Cons.prems x g by simp
  next
    case (Inr v)
    then show ?thesis using Cons x backup_grows_trans [OF g] by auto
  qed
qed

lemma walk_source_ok:
  "walk_source ev d c cn root prev es s = (Inr u, t) \<Longrightarrow> repo_ok ev d (bk_repo s) \<Longrightarrow>
   source_fits d c (cn_open cn) \<Longrightarrow> repo_bounded (bk_repo t) \<Longrightarrow>
   repo_ok ev d (bk_repo t) \<and> \<not> cn_walk_fails cn \<and>
   (\<exists>fes. bk_entries t = bk_entries s @ fes \<and>
      list_all2 (source_backed d c cn root prev (bk_repo t)) (filter (\<lambda>e. src_type e \<noteq> SourceOther) es) fes)"
proof (induction es arbitrary: s)
  case Nil
  then show ?case by (auto split: if_splits)
next
  case (Cons e es)
  obtain v s1 where x: "backup_source_entry ev d c cn root prev e s = (Inr v, s1)"
    and rest: "walk_source ev d c cn root prev es s1 = (Inr u, t)"
    using Cons.prems(1) by (auto simp: result_simps)
  have g: "backup_grows d s1 t" by (rule walk_source_grows [OF rest])
  have b1: "repo_bounded (bk_repo s1)" by (rule backup_grows_bounded [OF g Cons.prems(4)])
  from backup_source_entry_ok [OF x Cons.prems(2,3) b1] obtain f1 where f1: "repo_ok ev d (bk_repo s1)"
    "bk_entries s1 = bk_entries s @ f1"
    "list_all2 (source_backed d c cn root prev (bk_repo s1)) (filter (\<lambda>e. src_type e \<noteq> SourceOther) [e]) f1"
    by blast
  from Cons.IH [OF rest f1(1) Cons.prems(3,4)] obtain f2 where f2: "repo_ok ev d (bk_repo t)" "\<not> cn_walk_fails cn"
    "bk_entries t = bk_entries s1 @ f2"
    "list_all2 (source_backed d c cn root prev (bk_repo t)) (filter (\<lambda>e. src_type e \<noteq> SourceOther) es) f2"
    by blast
  have "list_all2 (source_backed d c cn root prev (bk_repo t)) (filter (\<lambda>e. src_type e \<noteq> SourceOther) [e]) f1"
    by (rule list_all2_mono [OF f1(3)]) (rule source_backed_grows [OF g [unfolded backup_grows_def]])
  from list_all2_appendI [OF this f2(4)]
  have "list_all2 (source_backed d c cn root prev (bk_repo t)) (filter (\<lambda>e. src_type e \<noteq> SourceOther) (e # es)) (f1 @ f2)"
    by (cases "src_type e = SourceOther") simp_all
  then show ?case using f1(2) f2(1-3) by (metis append.assoc)
qed

subsection \<open>The walk of a local tree\<close>

text \<open>
  What a visit of one path adds: nothing for a skipped or special file, otherwise one entry with
  the metadata of \<open>lstat\<close>.
\<close>

definition kind_backed ::
    "'db repo_deps \<Rightarrow> chunker \<Rightarrow> local_fs \<Rightarrow> (string \<Rightarrow> file_entry option) \<Rightarrow> string \<Rightarrow> local_kind \<Rightarrow> file_entry \<Rightarrow>
     'db repo \<Rightarrow> file_entry \<Rightarrow> bool" where
  "kind_backed d c lf prev p kind entry s e \<longleftrightarrow>
     (case kind of
        LocalDir \<Rightarrow> e = entry\<lparr>fe_type := EntryDir\<rparr>
      | LocalSymlink \<Rightarrow> (\<exists>target. lf_readlink lf p = Some target \<and>
                          e = entry\<lparr>fe_type := EntrySymlink, fe_link := target\<rparr>)
      | LocalRegular \<Rightarrow> file_backed d c (lf_open lf) local_entry_reusable prev p (entry\<lparr>fe_type := EntryFile\<rparr>) s e
      | LocalSpecial \<Rightarrow> False)"

definition local_entry_backed ::
    "'db repo_deps \<Rightarrow> chunker \<Rightarrow> local_fs \<Rightarrow> string \<Rightarrow> (string \<Rightarrow> file_entry option) \<Rightarrow> 'db repo \<Rightarrow>
     string \<Rightarrow> file_entry \<Rightarrow> bool" where
  "local_entry_backed d c lf root prev s p e \<longleftrightarrow>
     (\<exists>info rel. lf_lstat lf p = Some info \<and> path_rel root p = Some rel \<and>
        kind_backed d c lf prev p (li_kind info) (local_file_entry rel info) s e)"

lemma kind_backed_grows:
  "repo_grows d s t \<Longrightarrow> kind_backed d c lf prev p kind entry s e \<Longrightarrow> kind_backed d c lf prev p kind entry t e"
  by (auto simp: kind_backed_def intro: file_backed_grows split: local_kind.splits)

lemma local_entry_backed_grows:
  "repo_grows d s t \<Longrightarrow> local_entry_backed d c lf root prev s p e \<Longrightarrow> local_entry_backed d c lf root prev t p e"
  unfolding local_entry_backed_def using kind_backed_grows by blast

text \<open>
  The paths that a walk records, in order: those that are not skipped and not special, without the
  content of skipped directories.
\<close>

definition pruned_path :: "local_fs \<Rightarrow> string \<Rightarrow> string \<Rightarrow> bool" where
  "pruned_path lf root p \<longleftrightarrow>
     (case lf_lstat lf p of None \<Rightarrow> False
      | Some info \<Rightarrow> local_skip lf root p info \<noteq> None \<and> li_kind info = LocalDir)"

definition recorded_path :: "local_fs \<Rightarrow> string \<Rightarrow> string \<Rightarrow> string list" where
  "recorded_path lf root p =
     (case lf_lstat lf p of
        None \<Rightarrow> []
      | Some info \<Rightarrow> if local_skip lf root p info \<noteq> None \<or> li_kind info = LocalSpecial then [] else [p])"

fun walk_paths :: "local_fs \<Rightarrow> string \<Rightarrow> walk_tree \<Rightarrow> string list" where
  "walk_paths lf root (WalkTree p is_dir read_fails children) =
     (if pruned_path lf root p then []
      else recorded_path lf root p @ (if is_dir then concat (map (walk_paths lf root) children) else []))"

text \<open>The directory entries of the tree agree with \<open>lstat\<close> on what is a directory.\<close>

fun tree_consistent :: "local_fs \<Rightarrow> walk_tree \<Rightarrow> bool" where
  "tree_consistent lf (WalkTree p is_dir read_fails children) \<longleftrightarrow>
     (\<forall>info. lf_lstat lf p = Some info \<longrightarrow> (is_dir \<longleftrightarrow> li_kind info = LocalDir)) \<and>
     list_all (tree_consistent lf) children"

text \<open>What a successful run from \<open>s\<close> to \<open>t\<close> that records the paths \<open>ps\<close> guarantees.\<close>

definition local_run ::
    "env \<Rightarrow> 'db repo_deps \<Rightarrow> chunker \<Rightarrow> local_fs \<Rightarrow> string \<Rightarrow> (string \<Rightarrow> file_entry option) \<Rightarrow> string list \<Rightarrow>
     'db backup \<Rightarrow> 'db backup \<Rightarrow> bool" where
  "local_run ev d c lf root prev ps s t \<longleftrightarrow>
     backup_grows d s t \<and>
     (repo_ok ev d (bk_repo s) \<longrightarrow> source_fits d c (lf_open lf) \<longrightarrow> repo_bounded (bk_repo t) \<longrightarrow>
        repo_ok ev d (bk_repo t) \<and>
        (\<exists>es. bk_entries t = bk_entries s @ es \<and> list_all2 (local_entry_backed d c lf root prev (bk_repo t)) ps es))"

lemma local_run_trans:
  assumes "local_run ev d c lf root prev ps s t" and "local_run ev d c lf root prev qs t u"
  shows "local_run ev d c lf root prev (ps @ qs) s u"
proof -
  have g: "backup_grows d s u" and tu: "backup_grows d t u"
    using assms backup_grows_trans unfolding local_run_def by blast+
  have "repo_ok ev d (bk_repo u) \<and>
      (\<exists>es. bk_entries u = bk_entries s @ es \<and> list_all2 (local_entry_backed d c lf root prev (bk_repo u)) (ps @ qs) es)"
    if a: "repo_ok ev d (bk_repo s)" "source_fits d c (lf_open lf)" "repo_bounded (bk_repo u)"
  proof -
    have "repo_bounded (bk_repo t)" by (rule backup_grows_bounded [OF tu a(3)])
    then obtain e1 where e1: "repo_ok ev d (bk_repo t)" "bk_entries t = bk_entries s @ e1"
      "list_all2 (local_entry_backed d c lf root prev (bk_repo t)) ps e1"
      using assms(1) a unfolding local_run_def by blast
    obtain e2 where e2: "repo_ok ev d (bk_repo u)" "bk_entries u = bk_entries t @ e2"
      "list_all2 (local_entry_backed d c lf root prev (bk_repo u)) qs e2"
      using assms(2) a e1(1) unfolding local_run_def by blast
    have "list_all2 (local_entry_backed d c lf root prev (bk_repo u)) ps e1"
      by (rule list_all2_mono [OF e1(3)]) (rule local_entry_backed_grows [OF tu [unfolded backup_grows_def]])
    then have "list_all2 (local_entry_backed d c lf root prev (bk_repo u)) (ps @ qs) (e1 @ e2)"
      using e2(3) by (rule list_all2_appendI)
    then show ?thesis using e1(2) e2(1,2) by (intro conjI exI [of _ "e1 @ e2"]) auto
  qed
  then show ?thesis using g unfolding local_run_def by blast
qed

lemma local_run_fields:
  "bk_repo t = bk_repo s \<Longrightarrow> bk_entries t = bk_entries s \<Longrightarrow> local_run ev d c lf root prev [] s t"
  by (auto simp: local_run_def backup_grows_def)

lemma local_run_one:
  "bk_repo t = bk_repo s \<Longrightarrow> bk_entries t = bk_entries s @ [e] \<Longrightarrow>
   local_entry_backed d c lf root prev (bk_repo s) p e \<Longrightarrow> local_run ev d c lf root prev [p] s t"
  by (auto simp: local_run_def backup_grows_def)

lemma visit_local_entry_run:
  assumes v: "visit_local_entry ev d c lf prev p kind entry s = (Inr act, t)"
    and backed: "\<And>u e. kind_backed d c lf prev p kind entry u e \<Longrightarrow> local_entry_backed d c lf root prev u p e"
  shows "act = WalkOn \<and> local_run ev d c lf root prev (if kind = LocalSpecial then [] else [p]) s t"
proof (cases kind)
  case LocalDir
  then have "t = add_entry (entry\<lparr>fe_type := EntryDir\<rparr>) s" using v by (simp add: visit_local_entry_def)
  then have "local_run ev d c lf root prev [p] s t"
    by (intro local_run_one [of _ _ "entry\<lparr>fe_type := EntryDir\<rparr>"] backed)
      (simp_all add: kind_backed_def LocalDir)
  then show ?thesis using v LocalDir by (simp add: visit_local_entry_def)
next
  case LocalSymlink
  then obtain target where l: "lf_readlink lf p = Some target"
    and t: "t = add_entry (entry\<lparr>fe_type := EntrySymlink, fe_link := target\<rparr>) s"
    using v by (auto simp: visit_local_entry_def split: option.splits)
  then have "local_run ev d c lf root prev [p] s t"
    by (intro local_run_one [of _ _ "entry\<lparr>fe_type := EntrySymlink, fe_link := target\<rparr>"] backed)
      (simp_all add: kind_backed_def LocalSymlink)
  then show ?thesis using v l LocalSymlink by (simp add: visit_local_entry_def)
next
  case LocalRegular
  then obtain u where y: "backup_regular ev d c local_entry_reusable prev (lf_open lf) p
      (entry\<lparr>fe_type := EntryFile\<rparr>) s = (Inr u, t)" and act: "act = WalkOn"
    using v by (auto simp: visit_local_entry_def result_simps)
  have "repo_ok ev d (bk_repo t) \<and>
      (\<exists>es. bk_entries t = bk_entries s @ es \<and> list_all2 (local_entry_backed d c lf root prev (bk_repo t)) [p] es)"
    if a: "repo_ok ev d (bk_repo s)" "source_fits d c (lf_open lf)" "repo_bounded (bk_repo t)"
    using backup_regular_ok [OF y a] backed by (fastforce simp: kind_backed_def LocalRegular)
  then show ?thesis using backup_regular_grows [OF y] act LocalRegular unfolding local_run_def by simp
next
  case LocalSpecial
  then show ?thesis using v by (auto simp: visit_local_entry_def intro: local_run_fields)
qed

lemma visit_local_run:
  assumes "visit_local ev d c lf root prev p walk_err s = (Inr act, t)"
  shows "\<not> walk_err \<and> (act = WalkSkipDir \<longleftrightarrow> pruned_path lf root p) \<and>
    local_run ev d c lf root prev (recorded_path lf root p) s t \<and> lf_lstat lf p \<noteq> None"
proof -
  have we: "\<not> walk_err" using assms by (simp add: visit_local_def split: if_splits)
  then obtain u s1 info where c: "backup_check_ctx ev s = (Inr u, s1)" and info: "lf_lstat lf p = Some info"
    using assms by (auto simp: visit_local_def result_simps split: option.splits)
  have s1: "local_run ev d c lf root prev [] s s1"
    using backup_check_ctx_fields [OF c] by (auto simp: local_run_def)
  show ?thesis
  proof (cases "local_skip lf root p info")
    case None
    then obtain rel where rel: "path_rel root p = Some rel"
      and v: "visit_local_entry ev d c lf prev p (li_kind info) (local_file_entry rel info) s1 = (Inr act, t)"
      using assms we c info by (auto simp: visit_local_def split: option.splits)
    have "act = WalkOn \<and> local_run ev d c lf root prev (if li_kind info = LocalSpecial then [] else [p]) s1 t"
      by (rule visit_local_entry_run [OF v]) (use info rel local_entry_backed_def in blast)
    then show ?thesis
      using local_run_trans [OF s1] we info None by (auto simp: recorded_path_def pruned_path_def)
  next
    case (Some event)
    then have "local_run ev d c lf root prev [] s1 t" "act = (if li_kind info = LocalDir then WalkSkipDir else WalkOn)"
      using assms we c info by (auto simp: visit_local_def Let_def intro!: local_run_fields)
    then show ?thesis
      using local_run_trans [OF s1] we info Some by (auto simp: recorded_path_def pruned_path_def)
  qed
qed

lemma walk_nodes_run:
  assumes "\<And>tree s skip t. tree \<in> set trees \<Longrightarrow> walk_node (visit_local ev d c lf root prev) tree s = (Inr skip, t) \<Longrightarrow>
      \<not> skip \<and> local_run ev d c lf root prev (walk_paths lf root tree) s t"
  shows "walk_nodes (visit_local ev d c lf root prev) trees s = (Inr skip, t) \<Longrightarrow>
    \<not> skip \<and> local_run ev d c lf root prev (concat (map (walk_paths lf root) trees)) s t"
  using assms
proof (induction trees arbitrary: s)
  case Nil
  then show ?case by (auto intro: local_run_fields)
next
  case (Cons tr ts)
  obtain sk s1 where n: "walk_node (visit_local ev d c lf root prev) tr s = (Inr sk, s1)"
    and rest: "(if sk then (Inr False, s1) else walk_nodes (visit_local ev d c lf root prev) ts s1) = (Inr skip, t)"
    using Cons.prems(1) by (auto simp: result_simps)
  have h: "\<not> sk" "local_run ev d c lf root prev (walk_paths lf root tr) s s1"
    using Cons.prems(2) [OF _ n] by simp_all
  then have "walk_nodes (visit_local ev d c lf root prev) ts s1 = (Inr skip, t)" using rest by simp
  from Cons.IH [OF this Cons.prems(2)] show ?case using local_run_trans [OF h(2)] by simp
qed

lemma walk_node_run:
  "tree_consistent lf tree \<Longrightarrow> walk_node (visit_local ev d c lf root prev) tree s = (Inr skip, t) \<Longrightarrow>
   \<not> skip \<and> local_run ev d c lf root prev (walk_paths lf root tree) s t"
proof (induction tree arbitrary: s skip t)
  case (WalkTree p is_dir read_fails children)
  let ?visit = "visit_local ev d c lf root prev"
  obtain act s1 where v: "?visit p False s = (Inr act, s1)"
    and rest: "(if act = WalkSkipDir then (Inr (\<not> is_dir), s1)
       else if \<not> is_dir then (Inr False, s1)
       else if read_fails then
         sbind (?visit p True s1) (\<lambda>act2 s2.
           if act2 = WalkSkipDir then (Inr False, s2) else walk_nodes ?visit children s2)
       else walk_nodes ?visit children s1) = (Inr skip, t)"
    using WalkTree.prems(2) by (auto simp: result_simps)
  note here = visit_local_run [OF v]
  have kids: "\<not> skip \<and> local_run ev d c lf root prev (concat (map (walk_paths lf root) children)) s1 t"
    if "walk_nodes ?visit children s1 = (Inr skip, t)"
    by (rule walk_nodes_run [OF _ that]) (use WalkTree.IH WalkTree.prems(1) in \<open>auto simp: list_all_iff\<close>)
  have again: "?visit p True s1 \<noteq> (Inr x, y)" for x y using visit_local_run [of ev d c lf root prev p True s1 x y] by blast
  show ?case
  proof (cases "act = WalkSkipDir")
    case True
    then have "is_dir" "recorded_path lf root p = []"
      using here WalkTree.prems(1) by (auto simp: pruned_path_def recorded_path_def)
    then show ?thesis using True rest here by auto
  next
    case False
    show ?thesis
    proof (cases is_dir)
      case True
      have "\<not> read_fails" using rest False True again by (auto simp: result_simps)
      then show ?thesis using rest False True kids here local_run_trans [of ev d c lf root prev _ s s1] by auto
    next
      case nodir: False
      then show ?thesis using rest False here by auto
    qed
  qed
qed

text \<open>An invariant of the visits is one of the walk, however it ends.\<close>

lemma sbind_keeps:
  assumes "sbind m f = (r, t)" and "\<And>x s1. m = (x, s1) \<Longrightarrow> P s1"
    and "\<And>y s1. m = (Inr y, s1) \<Longrightarrow> P s1 \<Longrightarrow> f y s1 = (r, t) \<Longrightarrow> P t"
  shows "P t"
proof -
  obtain x s1 where m: "m = (x, s1)" by fastforce
  show ?thesis using assms m by (cases x) auto
qed

lemma walk_nodes_keeps:
  assumes "\<And>tree s r t. tree \<in> set trees \<Longrightarrow> P s \<Longrightarrow> walk_node visit tree s = (r, t) \<Longrightarrow> P t"
  shows "P s \<Longrightarrow> walk_nodes visit trees s = (r, t) \<Longrightarrow> P t"
  using assms
proof (induction trees arbitrary: s)
  case Nil
  then show ?case by simp
next
  case (Cons tr ts)
  show ?case
  proof (rule sbind_keeps [where P = P, OF Cons.prems(2) [unfolded walk_nodes.simps]])
    fix x s1 assume "walk_node visit tr s = (x, s1)"
    then show "P s1" using Cons.prems(3) [of tr s x s1] Cons.prems(1) by simp
  next
    fix skip s1 assume "P s1" "(if skip then (Inr False, s1) else walk_nodes visit ts s1) = (r, t)"
    then show "P t" using Cons.IH [of s1] Cons.prems(3) by (auto split: if_splits)
  qed
qed

lemma walk_node_keeps:
  assumes visit: "\<And>p b s r t. P s \<Longrightarrow> visit p b s = (r, t) \<Longrightarrow> P t"
  shows "P s \<Longrightarrow> walk_node visit tree s = (r, t) \<Longrightarrow> P t"
proof (induction tree arbitrary: s r t)
  case (WalkTree p is_dir read_fails children)
  have nodes: "P t" if "P s1" "walk_nodes visit children s1 = (r, t)" for s1
    using walk_nodes_keeps [of children P visit s1 r t] WalkTree.IH that by blast
  have again: "P t" if "P s1" "sbind (visit p True s1) (\<lambda>act2 s2. if act2 = WalkSkipDir then (Inr False, s2)
        else walk_nodes visit children s2) = (r, t)" for s1
  proof (rule sbind_keeps [where P = P, OF that(2)])
    fix x s2 assume "visit p True s1 = (x, s2)"
    then show "P s2" using visit that(1) by blast
  next
    fix y s2 assume "P s2" "(if y = WalkSkipDir then (Inr False, s2) else walk_nodes visit children s2) = (r, t)"
    then show "P t" using nodes by (auto split: if_splits)
  qed
  show ?case
  proof (rule sbind_keeps [where P = P, OF WalkTree.prems(2) [unfolded walk_node.simps]])
    fix x s1 assume "visit p False s = (x, s1)"
    then show "P s1" using visit WalkTree.prems(1) by blast
  qed (use nodes again in \<open>auto split: if_splits\<close>)
qed

lemma walk_dir_keeps:
  assumes visit: "\<And>p b s r t. P s \<Longrightarrow> visit p b s = (r, t) \<Longrightarrow> P t"
    and "P s" and "walk_dir visit p tree s = (r, t)"
  shows "P t"
proof (cases tree)
  case None
  show ?thesis
    by (rule sbind_keeps [where P = P, OF assms(3) [unfolded walk_dir_def None option.case]])
      (use visit assms(2) in auto)
next
  case (Some tr)
  show ?thesis
  proof (rule sbind_keeps [where P = P, OF assms(3) [unfolded walk_dir_def Some option.case]])
    fix x s1 assume "walk_node visit tr s = (x, s1)"
    then show "P s1" using walk_node_keeps [of P visit s tr x s1] visit assms(2) by blast
  qed auto
qed

lemma visit_local_grows:
  assumes "visit_local ev d c lf root prev p walk_err s = (res, t)"
  shows "backup_grows d s t"
proof (cases walk_err)
  case True
  then show ?thesis using assms by (simp add: visit_local_def)
next
  case False
  have entry: "backup_grows d s1 t" if "visit_local_entry ev d c lf prev p k e s1 = (res, t)" for k e s1
    using that
    by (auto simp: visit_local_entry_def backup_grows_def split: local_kind.splits option.splits
        elim!: sbind_keeps dest: backup_regular_grows [unfolded backup_grows_def])
  show ?thesis
    by (rule sbind_keeps [where P = "backup_grows d s", OF assms [unfolded visit_local_def if_not_P [OF False]]])
      (auto simp: Let_def backup_grows_def split: option.splits
        dest!: backup_check_ctx_fields [of _ _ _ _ d] entry intro: repo_grows_trans)
qed

subsection \<open>Reading back\<close>

definition quiet :: "env \<Rightarrow> bool" where
  "quiet ev \<longleftrightarrow> (\<forall>n. env_io ev n = None \<and> \<not> env_ctx_done ev n)"

lemma quietD [simp]: "quiet ev \<Longrightarrow> env_io ev n = None" "quiet ev \<Longrightarrow> \<not> env_ctx_done ev n"
  by (simp_all add: quiet_def)

lemma quiet_good_env [simp]: "quiet good_env"
  by (simp add: quiet_def)

lemma repo_reads_tick [simp]: "repo_reads d (repo_tick s) r x \<longleftrightarrow> repo_reads d s r x"
  by (simp add: repo_reads_def)

lemma restore_chunks_quiet:
  "quiet ev \<Longrightarrow> quiet evf \<Longrightarrow> list_all2 (repo_reads d s) refs xs \<Longrightarrow>
   fst (restore_chunks ev evf d n refs acc s) = (None, n + length refs, acc @ concat xs)"
proof (induction refs arbitrary: n acc s xs)
  case Nil
  then show ?case by simp
next
  case (Cons ref refs)
  then obtain x ys where xs: "xs = x # ys" "repo_reads d s ref x" "list_all2 (repo_reads d s) refs ys"
    by (auto simp: list_all2_Cons1)
  have rd: "read_chunk_ref ev d ref (repo_tick s) = (Inr x, repo_tick (repo_tick s))"
    using xs(2) Cons.prems(1) by (simp add: read_chunk_ref_def io_fault_def repo_reads_def ref_reads_def)
  have "list_all2 (repo_reads d (repo_tick (repo_tick s))) refs ys" using xs(3) by (simp add: list_all2_mono)
  from Cons.IH [OF Cons.prems(1,2) this] show ?case
    using Cons.prems rd xs(1) by (simp add: check_ctx_def write_target_def)
qed

lemma refs_hold_reads:
  assumes "refs_hold d s refs chs"
  obtains xs where "list_all2 (repo_reads d s) refs xs"
    "map (hash_bytes (rd_crypto d)) xs = map (hash_bytes (rd_crypto d)) chs"
proof -
  have "\<exists>xs. list_all2 (repo_reads d s) refs xs \<and>
      map (hash_bytes (rd_crypto d)) xs = map (hash_bytes (rd_crypto d)) chs"
    using assms unfolding refs_hold_def
  proof (induction rule: list_all2_induct)
    case Nil
    then show ?case by simp
  next
    case (Cons r rs ch chs)
    then obtain x xs where "repo_reads d s r x" "hash_bytes (rd_crypto d) x = hash_bytes (rd_crypto d) ch"
      "list_all2 (repo_reads d s) rs xs" "map (hash_bytes (rd_crypto d)) xs = map (hash_bytes (rd_crypto d)) chs"
      by blast
    then show ?case by (intro exI [of _ "x # xs"]) simp
  qed
  then show thesis using that by blast
qed

text \<open>No stored data other than the chunk itself has the chunk's hash, for the references at hand.\<close>

definition no_collision :: "'db repo_deps \<Rightarrow> 'db repo \<Rightarrow> chunk_ref list \<Rightarrow> bytes list \<Rightarrow> bool" where
  "no_collision d s refs chs \<longleftrightarrow>
     (\<forall>r \<in> set refs. \<forall>x. \<forall>ch \<in> set chs. repo_reads d s r x \<longrightarrow>
        hash_bytes (rd_crypto d) x = hash_bytes (rd_crypto d) ch \<longrightarrow> x = ch)"

lemma no_collision_eq:
  assumes "list_all2 (repo_reads d s) refs xs"
    and "map (hash_bytes (rd_crypto d)) xs = map (hash_bytes (rd_crypto d)) chs" and "no_collision d s refs chs"
  shows "xs = chs"
proof (rule nth_equalityI)
  show len: "length xs = length chs" using map_eq_imp_length_eq [OF assms(2)] .
  fix i assume i: "i < length xs"
  then have h: "hash_bytes (rd_crypto d) (xs ! i) = hash_bytes (rd_crypto d) (chs ! i)"
    using assms(2) len by (metis nth_map)
  have r: "refs ! i \<in> set refs" "repo_reads d s (refs ! i) (xs ! i)"
    using assms(1) i by (auto simp: list_all2_conv_all_nth)
  have "chs ! i \<in> set chs" using i len by simp
  then show "xs ! i = chs ! i" using h r assms(3) unfolding no_collision_def by blast
qed

lemma finish_backup_ok:
  assumes "finish_backup evm mc m s ms = (Inr m', t, ms')"
  shows "write_manifest evm mc (m\<lparr>sm_entries := bk_entries s\<rparr>) ms = (Inr m', ms') \<and>
    bk_repo t = bk_repo s \<and> bk_entries t = bk_entries s"
  using assms by (auto simp: finish_backup_def split: prod.splits sum.splits)

lemma write_manifest_entries:
  assumes "write_manifest ev c m s = (Inr m', t)"
  shows "sm_entries m' = sm_entries m \<and> sm_packs m' = sm_packs m"
  using assms
proof (cases rule: write_manifest_cases)
  case (early e)
  then show ?thesis by simp
next
  case (stored m1 data s2 r)
  then show ?thesis by (cases r) (auto intro: arg_cong [where f = sm_entries] arg_cong [where f = sm_packs], (metis snapshot_manifest.select_convs snapshot_manifest.update_convs snapshot_manifest.surjective)+)
qed

lemma backup_from_source_cases:
  assumes "backup_from_source ev evm d mc c sid source root0 cn previous r ms = (Inr m, t, ms')"
  obtains s u m0 where
    "walk_source ev d c cn (clean_source_root root0) (manifest_entry_map previous) (cn_entries cn) (start_backup r) = (Inr u, s)"
    "write_manifest evm mc m0 ms = (Inr m, ms')" "sm_entries m = bk_entries s" "bk_repo t = bk_repo s"
proof -
  let ?m = "new_snapshot sid (env_now evm (mn_step ms)) source (clean_source_root root0)"
  obtain u s where w: "walk_source ev d c cn (clean_source_root root0) (manifest_entry_map previous)
      (cn_entries cn) (start_backup r) = (Inr u, s)" and f: "finish_backup evm mc ?m s ms = (Inr m, t, ms')"
    using assms by (auto simp: backup_from_source_def Let_def split: prod.splits sum.splits)
  from finish_backup_ok [OF f] have wm: "write_manifest evm mc (?m\<lparr>sm_entries := bk_entries s\<rparr>) ms = (Inr m, ms')"
    and r: "bk_repo t = bk_repo s" by blast+
  have "sm_entries m = bk_entries s" using write_manifest_entries [OF wm] by simp
  then show thesis using that [OF w wm _ r] by blast
qed

lemma start_backup_simps [simp]: "bk_repo (start_backup r) = r" "bk_entries (start_backup r) = []"
  by (simp_all add: start_backup_def)

lemma backup_source_entries:
  assumes "backup_from_source ev evm d mc c sid source root cn previous r ms = (Inr m, t, ms')"
    and "repo_ok ev d r" and "source_fits d c (cn_open cn)" and "repo_bounded (bk_repo t)"
  shows "repo_ok ev d (bk_repo t) \<and> \<not> cn_walk_fails cn \<and>
    list_all2 (source_backed d c cn (clean_source_root root) (manifest_entry_map previous) (bk_repo t))
      (filter (\<lambda>e. src_type e \<noteq> SourceOther) (cn_entries cn)) (sm_entries m)"
  using assms(1)
proof (rule backup_from_source_cases)
  fix s u m0
  assume w: "walk_source ev d c cn (clean_source_root root) (manifest_entry_map previous) (cn_entries cn)
      (start_backup r) = (Inr u, s)" and e: "sm_entries m = bk_entries s" and r: "bk_repo t = bk_repo s"
  have "repo_ok ev d (bk_repo (start_backup r))" using assms(2) by simp
  moreover have "repo_bounded (bk_repo s)" using assms(4) r by simp
  ultimately show ?thesis using walk_source_ok [OF w _ assms(3)] e r by simp
qed

subsection \<open>Properties\<close>

text \<open>
  Property C8. A backup from a connector that succeeds has one manifest entry per visited file,
  directory and symbolic link, in order, with the metadata the source reported. A regular file has
  the chunks of the previous snapshot exactly when its size, mode and modification time are
  unchanged, and otherwise references that read the chunks of what the file delivered.
\<close>

theorem backup_source_complete:
  assumes "backup_from_source ev evm d mc c sid source root cn previous r ms = (Inr m, t, ms')"
    and "repo_ok ev d r" and "source_fits d c (cn_open cn)" and "repo_bounded (bk_repo t)"
  shows "repo_ok ev d (bk_repo t) \<and> \<not> cn_walk_fails cn \<and>
    list_all2 (source_backed d c cn (clean_source_root root) (manifest_entry_map previous) (bk_repo t))
      (filter (\<lambda>e. src_type e \<noteq> SourceOther) (cn_entries cn)) (sm_entries m)"
  by (rule backup_source_entries [OF assms])

definition tiny_source :: connector where
  "tiny_source = \<lparr>cn_entries =
       [\<lparr>src_path = ''/srv'', src_type = SourceDir, src_size = 0, src_mode = 0, src_mtime = 0, src_link = []\<rparr>,
        \<lparr>src_path = ''/srv/a'', src_type = SourceFile, src_size = 1, src_mode = 0x1A4, src_mtime = 9, src_link = []\<rparr>],
     cn_walk_fails = False,
     cn_open = (\<lambda>p. if p = ''/srv/a'' then Some ([([5], ReadEOF)], False) else None)\<rparr>"

definition no_manifests :: man_state where
  "no_manifests = \<lparr>mn_dir = None, mn_step = 0\<rparr>"

abbreviation tiny_backup where
  "tiny_backup \<equiv> backup_from_source still_env still_env plain_deps plain_man small_chunker ''s1'' ''local'' ''/srv''
     tiny_source None empty_repo no_manifests"

lemma tiny_backup_run:
  obtains m t ms where "tiny_backup = (Inr m, t, ms)" "repo_bounded (bk_repo t)" "manifest_json_ok m"
    "map fe_path (sm_entries m) = [''.'', ''a'']"
    "map fe_type (sm_entries m) = [EntryDir, EntryFile]" "sm_id m = ''s1''"
    "ref_reads plain_deps (sg_files (rp_seg (bk_repo t))) (hd (fe_chunks (sm_entries m ! 1))) [5]"
    "length (fe_chunks (sm_entries m ! 1)) = 1"
proof -
  have c: "case tiny_backup of
      (Inl e, t, ms) \<Rightarrow> False
    | (Inr m, t, ms) \<Rightarrow> files_fit_exec (sg_files (rp_seg (bk_repo t))) \<and> manifest_json_ok m \<and>
        map fe_path (sm_entries m) = [''.'', ''a''] \<and>
        map fe_type (sm_entries m) = [EntryDir, EntryFile] \<and> sm_id m = ''s1'' \<and>
        ref_reads plain_deps (sg_files (rp_seg (bk_repo t))) (hd (fe_chunks (sm_entries m ! 1))) [5] \<and>
        length (fe_chunks (sm_entries m ! 1)) = 1"
    by code_simp
  show thesis
  proof (cases tiny_backup)
    case (fields res t ms)
    then show thesis using c that by (cases res) (auto simp: repo_bounded_def files_fit_exec)
  qed
qed

lemma tiny_backup_premises:
  "repo_ok still_env plain_deps empty_repo" "source_fits plain_deps small_chunker (cn_open tiny_source)"
proof -
  show "repo_ok still_env plain_deps empty_repo" by (simp add: repo_ok_def empty_repo_inv plain_deps_ok)
  have "chunk_list small_chunker [5] = [[5]]" by code_simp
  then show "source_fits plain_deps small_chunker (cn_open tiny_source)"
    by (auto simp: source_fits_def tiny_source_def plain_deps_def intro!: plain_data_fits split: if_splits)
qed

lemma backup_source_complete_witness:
  "\<exists>m t ms. tiny_backup = (Inr m, t, ms) \<and> length (sm_entries m) = 2 \<and>
     list_all2 (source_backed plain_deps small_chunker tiny_source (clean_source_root ''/srv'') (\<lambda>p. None) (bk_repo t))
       (filter (\<lambda>e. src_type e \<noteq> SourceOther) (cn_entries tiny_source)) (sm_entries m)"
proof -
  obtain m t ms where b: "tiny_backup = (Inr m, t, ms)" "repo_bounded (bk_repo t)"
    "map fe_path (sm_entries m) = [''.'', ''a'']"
    by (rule tiny_backup_run)
  have "manifest_entry_map None = (\<lambda>p. None)" by (simp add: manifest_entry_map_def)
  moreover have "length (sm_entries m) = 2" using arg_cong [OF b(3), of length] by simp
  ultimately show ?thesis
    using backup_source_complete [OF b(1) tiny_backup_premises b(2)] b(1) by metis
qed



text \<open>
  Property C9. A backup of a local tree that succeeds records exactly the paths of the tree that are
  neither special files nor on a pseudo file system nor below a skipped directory, in the order of
  the walk, each with the metadata of its \<open>lstat\<close>, its link target or its chunks.
\<close>

theorem backup_local_complete:
  assumes "backup_local_tree ev evm d mc c sid source root lf (Some tree) previous r ms = (Inr m, t, ms')"
    and "tree_consistent lf tree"
    and "repo_ok ev d r" and "source_fits d c (lf_open lf)" and "repo_bounded (bk_repo t)"
  shows "repo_ok ev d (bk_repo t) \<and>
    list_all2 (local_entry_backed d c lf (clean_path root) (manifest_entry_map previous) (bk_repo t))
      (walk_paths lf (clean_path root) tree) (sm_entries m)"
proof -
  let ?visit = "visit_local ev d c lf (clean_path root) (manifest_entry_map previous)"
  let ?m = "new_snapshot sid (env_now evm (mn_step ms)) source (clean_path root)"
  obtain u s where w: "walk_dir ?visit (clean_path root) (Some tree) (start_backup r) = (Inr u, s)"
    and f: "finish_backup evm mc ?m s ms = (Inr m, t, ms')"
    using assms(1) by (auto simp: backup_local_tree_def Let_def split: prod.splits sum.splits option.splits)
  from finish_backup_ok [OF f] have wm: "write_manifest evm mc (?m\<lparr>sm_entries := bk_entries s\<rparr>) ms = (Inr m, ms')"
    and rt: "bk_repo t = bk_repo s" by blast+
  have e: "sm_entries m = bk_entries s" using write_manifest_entries [OF wm] by simp
  obtain skip where n: "walk_node ?visit tree (start_backup r) = (Inr skip, s)"
    using w by (auto simp: walk_dir_def result_simps)
  have "local_run ev d c lf (clean_path root) (manifest_entry_map previous) (walk_paths lf (clean_path root) tree)
      (start_backup r) s"
    using walk_node_run [OF assms(2) n] by blast
  then show ?thesis using assms(3-5) rt e unfolding local_run_def by simp
qed

definition tiny_fs :: local_fs where
  "tiny_fs = \<lparr>lf_lstat = (\<lambda>p. if p = ''/srv'' then Some \<lparr>li_kind = LocalDir, li_size = 0, li_mode = 0,
         li_mtime = 0, li_uid = 0, li_gid = 0\<rparr>
       else if p = ''/srv/a'' then Some \<lparr>li_kind = LocalSymlink, li_size = 1, li_mode = 0, li_mtime = 3, li_uid = 0, li_gid = 0\<rparr>
       else None),
     lf_readlink = (\<lambda>p. Some ''b''), lf_open = (\<lambda>p. None), lf_statfs = (\<lambda>p. Some 0xEF53)\<rparr>"

definition tiny_tree :: walk_tree where
  "tiny_tree = WalkTree ''/srv'' True False [WalkTree ''/srv/a'' False False []]"

abbreviation tiny_local where
  "tiny_local \<equiv> backup_local_tree still_env still_env plain_deps plain_man small_chunker ''s1'' ''local'' ''/srv/''
     tiny_fs (Some tiny_tree) None empty_repo no_manifests"

lemma backup_local_complete_witness:
  "\<exists>m t ms. tiny_local = (Inr m, t, ms) \<and>
     list_all2 (local_entry_backed plain_deps small_chunker tiny_fs ''/srv'' (\<lambda>p. None) (bk_repo t))
       [''/srv'', ''/srv/a''] (sm_entries m)"
proof -
  have c: "case tiny_local of (Inl e, t, ms) \<Rightarrow> False
      | (Inr m, t, ms) \<Rightarrow> files_fit_exec (sg_files (rp_seg (bk_repo t)))"
    by code_simp
  obtain m t ms where b: "tiny_local = (Inr m, t, ms)" "files_fit_exec (sg_files (rp_seg (bk_repo t)))"
  proof (cases tiny_local)
    case (fields res t ms)
    then show thesis using c that by (cases res) auto
  qed
  have bd: "repo_bounded (bk_repo t)" using b(2) by (simp add: repo_bounded_def files_fit_exec)
  have fits: "source_fits plain_deps small_chunker (lf_open tiny_fs)" by (simp add: source_fits_def tiny_fs_def)
  have ok: "tree_consistent tiny_fs tiny_tree" by (simp add: tiny_fs_def tiny_tree_def)
  have r: "clean_path ''/srv/'' = ''/srv''" "walk_paths tiny_fs ''/srv'' tiny_tree = [''/srv'', ''/srv/a'']"
    by code_simp+
  have p: "manifest_entry_map None = (\<lambda>p. None)" by (simp add: manifest_entry_map_def)
  show ?thesis
    using backup_local_complete [OF b(1) ok tiny_backup_premises(1) fits bd] b(1) unfolding r p by blast
qed

text \<open>
  Property C10. A backup that fails, of either kind and at whatever point, leaves every manifest of the
  repository as it was and everything that was stored readable.
\<close>

theorem backup_failure_safe:
  assumes "backup_from_source ev evm d mc c sid source root cn previous r ms = (Inl e, t, ms') \<or>
    backup_local_tree ev evm d mc c sid source root lf tree previous r ms = (Inl e, t, ms')"
  shows "(\<forall>n. suffix ''.json'' n \<longrightarrow> man_lookup ms' n = man_lookup ms n) \<and>
    (\<forall>ref x. repo_reads d r ref x \<longrightarrow> repo_reads d (bk_repo t) ref x)"
proof -
  have run: "?thesis" if g: "backup_grows d (start_backup r) s"
    and f: "(x = Inl e \<and> t = s \<and> ms' = ms) \<or> finish_backup evm mc m0 s ms = (Inl e, t, ms')" for s x m0
  proof -
    have w: "bk_repo t = bk_repo s \<and> (ms' = ms \<or> (\<exists>e' m. write_manifest evm mc m ms = (Inl e', ms')))"
      using f by (auto simp: finish_backup_def split: prod.splits sum.splits)
    have "man_lookup ms' n = man_lookup ms n" if "suffix ''.json'' n" for n
      using w that write_manifest_effect [of evm mc _ ms _ ms'] by fastforce
    then show ?thesis using w g by (auto simp: backup_grows_def repo_grows_def)
  qed
  from assms show ?thesis
  proof
    assume a: "backup_from_source ev evm d mc c sid source root cn previous r ms = (Inl e, t, ms')"
    obtain x s where w: "walk_source ev d c cn (clean_source_root root) (manifest_entry_map previous)
        (cn_entries cn) (start_backup r) = (x, s)" by fastforce
    have g: "backup_grows d (start_backup r) s" by (rule walk_source_grows [OF w])
    show ?thesis
      using run [OF g, of x "new_snapshot sid (env_now evm (mn_step ms)) source (clean_source_root root)"] a w
      by (cases x) (auto simp: backup_from_source_def Let_def)
  next
    assume a: "backup_local_tree ev evm d mc c sid source root lf tree previous r ms = (Inl e, t, ms')"
    let ?visit = "visit_local ev d c lf (clean_path root) (manifest_entry_map previous)"
    show ?thesis
    proof (cases "\<exists>fs. pseudo_filesystem_name (lf_statfs lf) (clean_path root) = Some (Some fs)")
      case True
      then show ?thesis using a by (auto simp: backup_local_tree_def Let_def)
    next
      case False
      obtain x s where w: "walk_dir ?visit (clean_path root) tree (start_backup r) = (x, s)" by fastforce
      have step: "backup_grows d (start_backup r) t1"
        if "backup_grows d (start_backup r) s1" "?visit p b s1 = (r1, t1)" for p b s1 r1 t1
        using backup_grows_trans [OF that(1) visit_local_grows [OF that(2)]] .
      have g: "backup_grows d (start_backup r) s"
        using walk_dir_keeps [where P = "backup_grows d (start_backup r)", OF _ backup_grows_refl w] step by blast
      show ?thesis
        using run [OF g, of x "new_snapshot sid (env_now evm (mn_step ms)) source (clean_path root)"] a w False
        by (cases x) (auto simp: backup_local_tree_def Let_def split: option.splits)
    qed
  qed
qed

lemma backup_failure_safe_witness:
  "\<exists>t ms. backup_from_source still_env still_env plain_deps plain_man small_chunker ''s1'' ''local'' ''/srv''
       (tiny_source\<lparr>cn_walk_fails := True\<rparr>) None empty_repo one_manifest = (Inl BkWalkFailed, t, ms) \<and>
     man_lookup ms ''keep.json'' = Some (MFile [8] 5)"
proof -
  let ?b = "backup_from_source still_env still_env plain_deps plain_man small_chunker ''s1'' ''local'' ''/srv''
       (tiny_source\<lparr>cn_walk_fails := True\<rparr>) None empty_repo one_manifest"
  have c: "fst ?b = Inl BkWalkFailed" by code_simp
  then obtain t ms where b: "?b = (Inl BkWalkFailed, t, ms)" by (metis prod.collapse)
  have k: "suffix ''.json'' ''keep.json''" "man_lookup one_manifest ''keep.json'' = Some (MFile [8] 5)"
    by code_simp+
  from backup_failure_safe [OF disjI1 [OF b]] k b show ?thesis by metis
qed

end
