(* ===== verification/ManifestCheck.thy ===== *)
theory ManifestCheck
  imports Backup
begin

text \<open>
  \<open>canonicalizeManifestChunks\<close> of \<open>internal/httpapi/server.go\<close>: the server's check of a manifest that
  an agent commits. Every chunk reference is replaced by the one the index holds for its hash, the
  packs are read and decoded, and every file is checked against its chunks or its pack. Missing
  chunks are collected over the whole manifest and reported together.
\<close>

datatype check_error =
    McNoEntries
  | McPackEmptyId nat
  | McPackDuplicate string
  | McPackFormat string string
  | McPackNoChunks string
  | McBadHash string nat
  | McRepo repo_error
  | McPackIndex string pack_error
  | McPackDuplicateFile string string
  | McFileNoChunks string
  | McFileSize string int int
  | McPackedEmpty string
  | McPackedDirectChunks string
  | McPackedNoRef string
  | McPackedMissingPack string string
  | McPackedNotFound string string
  | McPackedRange string string
  | McPackedSize string int int
  | McUnsupported string entry_type
  | McMissing "(string \<times> string list) list"

text \<open>\<open>validateChunkHash\<close>; the three ways a hash can be wrong are one error.\<close>

definition valid_chunk_hash :: "string \<Rightarrow> bool" where
  "valid_chunk_hash h \<longleftrightarrow>
     length h = 64 \<and> to_lower h = h \<and> (case hex_decode h of None \<Rightarrow> False | Some b \<Rightarrow> length b = 32)"

subsection \<open>References\<close>

text \<open>
  The loop over the chunks of one owner: the references as the index has them and the hashes that it
  does not have.
\<close>

fun canonical_refs ::
    "env \<Rightarrow> 'db repo_deps \<Rightarrow> string \<Rightarrow> nat \<Rightarrow> chunk_ref list \<Rightarrow> 'db repo \<Rightarrow>
     (check_error + chunk_ref list \<times> string list) \<times> 'db repo" where
  "canonical_refs ev d owner i [] s = (Inr ([], []), s)"
| "canonical_refs ev d owner i (r # rs) s =
     (if \<not> valid_chunk_hash (cr_hash r) then (Inl (McBadHash owner i), s)
      else (case get_chunk_ref ev d (cr_hash r) s of
         (Inl e, s1) \<Rightarrow> (Inl (McRepo e), s1)
       | (Inr found, s1) \<Rightarrow>
           sbind (canonical_refs ev d owner (Suc i) rs s1) (\<lambda>(refs, missing) s2.
             (case found of
                None \<Rightarrow> (Inr (r # refs, cr_hash r # missing), s2)
              | Some ref \<Rightarrow> (Inr (ref # refs, missing), s2)))))"

subsection \<open>Packs\<close>

definition check_pack ::
    "env \<Rightarrow> 'db repo_deps \<Rightarrow> nat \<Rightarrow> string set \<Rightarrow> pack_manifest \<Rightarrow> 'db repo \<Rightarrow>
     (check_error + pack_manifest \<times> string list) \<times> 'db repo" where
  "check_pack ev d i seen p s =
     (if trim_space (pm_id p) = [] then (Inl (McPackEmptyId i), s)
      else if pm_id p \<in> seen then (Inl (McPackDuplicate (pm_id p)), s)
      else if pm_format p \<noteq> pack_format_tbkpack1 then (Inl (McPackFormat (pm_id p) (pm_format p)), s)
      else if pm_chunks p = [] then (Inl (McPackNoChunks (pm_id p)), s)
      else sbind (canonical_refs ev d (pm_id p) 0 (pm_chunks p) s) (\<lambda>(refs, missing) s1.
             (Inr (p\<lparr>pm_chunks := refs\<rparr>, missing), s1)))"

fun check_packs ::
    "env \<Rightarrow> 'db repo_deps \<Rightarrow> nat \<Rightarrow> string set \<Rightarrow> pack_manifest list \<Rightarrow> 'db repo \<Rightarrow>
     (check_error + pack_manifest list \<times> (string \<times> string) list) \<times> 'db repo" where
  "check_packs ev d i seen [] s = (Inr ([], []), s)"
| "check_packs ev d i seen (p # ps) s =
     sbind (check_pack ev d i seen p s) (\<lambda>(p', hs) s1.
     sbind (check_packs ev d (Suc i) (insert (pm_id p) seen) ps s1) (\<lambda>(ps', missing) s2.
       (Inr (p' # ps', map (\<lambda>h. (h, ''pack:'' @ pm_id p)) hs @ missing), s2)))"

fun find_duplicate :: "string list \<Rightarrow> string set \<Rightarrow> string option" where
  "find_duplicate [] seen = None"
| "find_duplicate (x # xs) seen = (if x \<in> seen then Some x else find_duplicate xs (insert x seen))"

definition index_pack :: "pack_manifest \<Rightarrow> bytes \<Rightarrow> check_error + pack_index list" where
  "index_pack p data =
     (case decode_pack_index data of
        Inl e \<Rightarrow> Inl (McPackIndex (pm_id p) e)
      | Inr ixs \<Rightarrow>
          (case find_duplicate (map pi_path ixs) {} of
             Some f \<Rightarrow> Inl (McPackDuplicateFile (pm_id p) f)
           | None \<Rightarrow> Inr ixs))"

fun index_packs ::
    "env \<Rightarrow> 'db repo_deps \<Rightarrow> pack_manifest list \<Rightarrow> 'db repo \<Rightarrow>
     (check_error + (string \<times> pack_index list) list) \<times> 'db repo" where
  "index_packs ev d [] s = (Inr [], s)"
| "index_packs ev d (p # ps) s =
     (case read_pack_data ev d p s of
        (Inl e, s1) \<Rightarrow> (Inl (McRepo e), s1)
      | (Inr data, s1) \<Rightarrow>
          (case index_pack p data of
             Inl e \<Rightarrow> (Inl e, s1)
           | Inr ixs \<Rightarrow> sbind (index_packs ev d ps s1) (\<lambda>rest s2. (Inr ((pm_id p, ixs) # rest), s2))))"

subsection \<open>Entries\<close>

definition chunk_total :: "chunk_ref list \<Rightarrow> int" where
  "chunk_total refs = foldl (\<lambda>a r. wrap64 (a + cr_original r)) 0 refs"

definition check_file_entry ::
    "env \<Rightarrow> 'db repo_deps \<Rightarrow> file_entry \<Rightarrow> 'db repo \<Rightarrow>
     (check_error + file_entry \<times> (string \<times> string) list) \<times> 'db repo" where
  "check_file_entry ev d e s =
     (if 0 < fe_size e \<and> fe_chunks e = [] then (Inl (McFileNoChunks (fe_path e)), s)
      else sbind (canonical_refs ev d (fe_path e) 0 (fe_chunks e) s) (\<lambda>(refs, missing) s1.
             if missing \<noteq> [] then (Inr (e\<lparr>fe_chunks := refs\<rparr>, map (\<lambda>h. (h, fe_path e)) missing), s1)
             else if chunk_total refs \<noteq> fe_size e
             then (Inl (McFileSize (fe_path e) (fe_size e) (chunk_total refs)), s1)
             else (Inr (e\<lparr>fe_chunks := refs\<rparr>, []), s1)))"

text \<open>The pack indexes are only there when no chunk is missing so far.\<close>

definition check_packed_entry ::
    "pack_manifest list \<Rightarrow> (string \<times> pack_index list) list \<Rightarrow> bool \<Rightarrow> file_entry \<Rightarrow> check_error + unit" where
  "check_packed_entry packs indexes missing e =
     (if fe_size e \<le> 0 then Inl (McPackedEmpty (fe_path e))
      else if fe_chunks e \<noteq> [] then Inl (McPackedDirectChunks (fe_path e))
      else (case fe_pack e of
         None \<Rightarrow> Inl (McPackedNoRef (fe_path e))
       | Some ref \<Rightarrow>
           if find (\<lambda>p. pm_id p = pr_id ref) packs = None then Inl (McPackedMissingPack (fe_path e) (pr_id ref))
           else if missing then Inr ()
           else (case find (\<lambda>ix. pi_path ix = fe_path e)
                        (case map_of indexes (pr_id ref) of None \<Rightarrow> [] | Some ixs \<Rightarrow> ixs) of
              None \<Rightarrow> Inl (McPackedNotFound (fe_path e) (pr_id ref))
            | Some ix \<Rightarrow>
                if pi_offset ix \<noteq> pr_offset ref \<or> pi_length ix \<noteq> pr_length ref
                then Inl (McPackedRange (fe_path e) (pr_id ref))
                else if pi_original ix \<noteq> fe_size e \<or> pr_length ref \<noteq> fe_size e
                then Inl (McPackedSize (fe_path e) (fe_size e) (pi_original ix))
                else Inr ())))"

definition check_entry ::
    "env \<Rightarrow> 'db repo_deps \<Rightarrow> pack_manifest list \<Rightarrow> (string \<times> pack_index list) list \<Rightarrow> bool \<Rightarrow> file_entry \<Rightarrow>
     'db repo \<Rightarrow> (check_error + file_entry \<times> (string \<times> string) list) \<times> 'db repo" where
  "check_entry ev d packs indexes missing e s =
     (case fe_type e of
        EntryDir \<Rightarrow> (Inr (e, []), s)
      | EntrySymlink \<Rightarrow> (Inr (e, []), s)
      | EntryFile \<Rightarrow> check_file_entry ev d e s
      | EntryPackedFile \<Rightarrow>
          (case check_packed_entry packs indexes missing e of Inl err \<Rightarrow> (Inl err, s) | Inr u \<Rightarrow> (Inr (e, []), s))
      | EntryOther t \<Rightarrow> (Inl (McUnsupported (fe_path e) (fe_type e)), s))"

fun check_entries ::
    "env \<Rightarrow> 'db repo_deps \<Rightarrow> pack_manifest list \<Rightarrow> (string \<times> pack_index list) list \<Rightarrow>
     (string \<times> string) list \<Rightarrow> file_entry list \<Rightarrow> 'db repo \<Rightarrow>
     (check_error + file_entry list \<times> (string \<times> string) list) \<times> 'db repo" where
  "check_entries ev d packs indexes missing [] s = (Inr ([], missing), s)"
| "check_entries ev d packs indexes missing (e # es) s =
     sbind (check_entry ev d packs indexes (missing \<noteq> []) e s) (\<lambda>(e', miss) s1.
     sbind (check_entries ev d packs indexes (missing @ miss) es s1) (\<lambda>(es', missing') s2.
       (Inr (e' # es', missing'), s2)))"

subsection \<open>The check\<close>

definition sort_strings :: "string list \<Rightarrow> string list" where
  "sort_strings xs = sort_key bytes_of (remdups xs)"

definition missing_report :: "(string \<times> string) list \<Rightarrow> (string \<times> string list) list" where
  "missing_report missing =
     map (\<lambda>h. (h, sort_strings (map snd (filter (\<lambda>(h', p). h' = h) missing)))) (sort_strings (map fst missing))"

definition canonicalize_manifest ::
    "env \<Rightarrow> 'db repo_deps \<Rightarrow> snapshot_manifest \<Rightarrow> 'db repo \<Rightarrow> (check_error + snapshot_manifest) \<times> 'db repo" where
  "canonicalize_manifest ev d m s =
     (if sm_entries m = [] then (Inl McNoEntries, s)
      else sbind (check_packs ev d 0 {} (sm_packs m) s) (\<lambda>(packs, missing) s1.
           sbind (if missing = [] then index_packs ev d packs s1 else (Inr [], s1)) (\<lambda>indexes s2.
           sbind (check_entries ev d packs indexes missing (sm_entries m) s2) (\<lambda>(entries, missing') s3.
             if missing' \<noteq> [] then (Inl (McMissing (missing_report missing')), s3)
             else (Inr (m\<lparr>sm_packs := packs, sm_entries := entries\<rparr>), s3)))))"

subsection \<open>What the check establishes\<close>

abbreviation indexed :: "'db repo_deps \<Rightarrow> 'db repo \<Rightarrow> string \<Rightarrow> chunk_ref option" where
  "indexed d s h \<equiv> index_view (rd_index d) (rp_db s) h"

lemma same_store_index: "same_store s t \<Longrightarrow> indexed d t h = indexed d s h"
  by (simp add: same_store_def)

lemma same_store_reads: "same_store s t \<Longrightarrow> repo_reads d t r x \<longleftrightarrow> repo_reads d s r x"
  using same_store_fields(2) [of s t] by (simp add: repo_reads_def)

lemma get_chunk_ref_Inr:
  "get_chunk_ref ev d h s = (Inr found, t) \<Longrightarrow> found = indexed d s h \<and> same_store s t"
  using lookup_ref_Inr lookup_ref_same [of s ev d h] by (simp add: get_chunk_ref_def)

lemma canonical_refs_ok:
  "canonical_refs ev d owner i rs s = (Inr (refs, missing), t) \<Longrightarrow>
   same_store s t \<and> list_all2 (\<lambda>r ref. indexed d s (cr_hash r) = Some ref \<or> (indexed d s (cr_hash r) = None \<and> ref = r)) rs refs \<and>
   set missing = {cr_hash r | r. r \<in> set rs \<and> indexed d s (cr_hash r) = None} \<and>
   (\<forall>r \<in> set rs. valid_chunk_hash (cr_hash r))"
proof (induction rs arbitrary: i s refs missing)
  case Nil
  then show ?case by simp
next
  case (Cons r rs)
  obtain found s1 where g: "get_chunk_ref ev d (cr_hash r) s = (Inr found, s1)" and v: "valid_chunk_hash (cr_hash r)"
    using Cons.prems by (auto split: if_splits prod.splits sum.splits)
  obtain refs' missing' where rest: "canonical_refs ev d owner (Suc i) rs s1 = (Inr (refs', missing'), t)"
    and res: "(refs, missing) = (case found of None \<Rightarrow> (r # refs', cr_hash r # missing') | Some ref \<Rightarrow> (ref # refs', missing'))"
    using Cons.prems g v by (auto simp: result_simps split: option.splits)
  note f = get_chunk_ref_Inr [OF g]
  note ih = Cons.IH [OF rest]
  have ss: "same_store s t" using f ih same_store_trans by blast
  have ix: "indexed d s1 h = indexed d s h" for h using f same_store_index by blast
  show ?case
  proof (cases found)
    case None
    then have "refs = r # refs'" "missing = cr_hash r # missing'" using res by auto
    then show ?thesis using None f ih ss v by (auto simp: ix)
  next
    case (Some ref)
    then have "refs = ref # refs'" "missing = missing'" using res by auto
    then show ?thesis using Some f ih ss v by (auto simp: ix)
  qed
qed

text \<open>References that are in the index read some data.\<close>

lemma indexed_refs_read:
  assumes "repo_inv d s" and "\<forall>r \<in> set refs. indexed d s (cr_hash r) = Some r"
  shows "\<exists>xs. list_all2 (repo_reads d s) refs xs"
  using assms(2)
proof (induction refs)
  case Nil
  then show ?case by simp
next
  case (Cons r refs)
  then obtain xs where "list_all2 (repo_reads d s) refs xs" by auto
  moreover obtain x where "repo_reads d s r x"
    using index_sound_entry [OF assms(1)] Cons.prems unfolding repo_reads_def by force
  ultimately show ?case by blast
qed

lemma canonical_refs_indexed:
  assumes "repo_inv d s" and "canonical_refs ev d owner i rs s = (Inr (refs, []), t)"
  shows "same_store s t \<and> (\<forall>r \<in> set refs. indexed d s (cr_hash r) = Some r) \<and> map cr_hash refs = map cr_hash rs"
proof -
  note c = canonical_refs_ok [OF assms(2)]
  have "list_all2 (\<lambda>r ref. indexed d s (cr_hash r) = Some ref) rs refs"
    using conjunct1 [OF conjunct2 [OF c]] by (rule list.rel_mono_strong) (use c in auto)
  then have "list_all2 (\<lambda>r ref. indexed d s (cr_hash r) = Some ref \<and> cr_hash ref = cr_hash r) rs refs"
    by (rule list_all2_mono) (use index_sound_entry [OF assms(1)] in blast)
  then have "(\<forall>r \<in> set refs. indexed d s (cr_hash r) = Some r) \<and> map cr_hash refs = map cr_hash rs"
    by (induction rule: list_all2_induct) auto
  then show ?thesis using c by blast
qed

lemma check_packs_ok:
  "repo_inv d s \<Longrightarrow> check_packs ev d i seen ps s = (Inr (packs, missing), t) \<Longrightarrow>
   same_store s t \<and> map pm_id packs = map pm_id ps \<and> distinct (map pm_id ps) \<and> seen \<inter> set (map pm_id ps) = {} \<and>
   (missing = [] \<longrightarrow> (\<forall>p \<in> set packs. \<forall>r \<in> set (pm_chunks p). indexed d s (cr_hash r) = Some r))"
proof (induction ps arbitrary: i seen s packs missing)
  case Nil
  then show ?case by simp
next
  case (Cons p ps)
  obtain p' hs s1 packs' missing' where cp: "check_pack ev d i seen p s = (Inr (p', hs), s1)"
    and rest: "check_packs ev d (Suc i) (insert (pm_id p) seen) ps s1 = (Inr (packs', missing'), t)"
    and res: "packs = p' # packs'" "missing = map (\<lambda>h. (h, ''pack:'' @ pm_id p)) hs @ missing'"
    using Cons.prems(2) by (auto simp: result_simps)
  obtain refs where cr: "canonical_refs ev d (pm_id p) 0 (pm_chunks p) s = (Inr (refs, hs), s1)"
    and p': "p' = p\<lparr>pm_chunks := refs\<rparr>" and new: "pm_id p \<notin> seen"
    using cp by (auto simp: check_pack_def result_simps split: if_splits)
  have s1: "same_store s s1" by (rule conjunct1 [OF canonical_refs_ok [OF cr]])
  then have "repo_inv d s1" using Cons.prems(1) same_store_inv by blast
  note ih = Cons.IH [OF this rest]
  have "same_store s t" by (rule same_store_trans [OF s1 conjunct1 [OF ih]])
  moreover have "indexed d s (cr_hash r) = Some r" if "missing = []" "r \<in> set refs" for r
  proof -
    have "hs = []" using that(1) res(2) by simp
    then show ?thesis using canonical_refs_indexed [OF Cons.prems(1), of ev "pm_id p" 0 "pm_chunks p" refs s1] cr that(2) by blast
  qed
  moreover have "indexed d s (cr_hash r) = Some r" if "missing = []" "q \<in> set packs'" "r \<in> set (pm_chunks q)" for q r
    using ih that res(2) same_store_index [OF s1, of d "cr_hash r"] by simp
  ultimately have "missing = [] \<longrightarrow> (\<forall>q \<in> set packs. \<forall>r \<in> set (pm_chunks q). indexed d s (cr_hash r) = Some r)"
    using res(1) p' by simp
  moreover have "map pm_id packs' = map pm_id ps" "distinct (map pm_id ps)" "insert (pm_id p) seen \<inter> set (map pm_id ps) = {}"
    using ih by blast+
  then have "map pm_id packs = map pm_id (p # ps)" "distinct (map pm_id (p # ps))" "seen \<inter> set (map pm_id (p # ps)) = {}"
    using res(1) p' new by auto
  ultimately show ?case using \<open>same_store s t\<close> by blast
qed

subsection \<open>Reading packs\<close>

lemma read_pack_chunks_Inr:
  "read_pack_chunks ev d refs acc s = (Inr data, t) \<Longrightarrow>
   same_store s t \<and> (\<exists>xs. list_all2 (repo_reads d s) refs xs \<and> data = acc @ concat xs)"
proof (induction refs arbitrary: acc s)
  case Nil
  then show ?case by simp
next
  case (Cons r refs)
  obtain u s1 x s2 where c: "check_ctx ev s = (Inr u, s1)" and rd: "read_chunk_ref ev d r s1 = (Inr x, s2)"
    and rest: "read_pack_chunks ev d refs (acc @ x) s2 = (Inr data, t)"
    using Cons.prems by (auto simp: result_simps)
  have s2: "s2 = repo_tick (repo_tick s)" and x: "repo_reads d s r x"
    using check_ctx_Inr [OF c] read_chunk_ref_Inr [OF rd] by (simp_all add: repo_reads_def)
  have ss: "same_store s s2" unfolding s2 by (rule same_store_trans [OF same_store_tick same_store_tick])
  obtain xs where xs: "list_all2 (repo_reads d s2) refs xs" "data = (acc @ x) @ concat xs"
    using Cons.IH [OF rest] by blast
  have "list_all2 (repo_reads d s) refs xs"
    by (rule list_all2_mono [OF xs(1)]) (use same_store_reads [OF ss] in blast)
  then show ?case using Cons.IH [OF rest] ss same_store_trans x xs(2) by (auto intro!: exI [of _ "x # xs"])
qed

lemma read_pack_chunks_quiet:
  "quiet ev \<Longrightarrow> list_all2 (repo_reads d s) refs xs \<Longrightarrow>
   fst (read_pack_chunks ev d refs acc s) = Inr (acc @ concat xs)"
proof (induction refs arbitrary: acc s xs)
  case Nil
  then show ?case by simp
next
  case (Cons r refs)
  then obtain x ys where xs: "xs = x # ys" "repo_reads d s r x" "list_all2 (repo_reads d s) refs ys"
    by (auto simp: list_all2_Cons1)
  have rd: "read_chunk_ref ev d r (repo_tick s) = (Inr x, repo_tick (repo_tick s))"
    using xs(2) Cons.prems(1) by (simp add: read_chunk_ref_def io_fault_def repo_reads_def ref_reads_def)
  have "list_all2 (repo_reads d (repo_tick (repo_tick s))) refs ys" using xs(3) by (simp add: list_all2_mono)
  from Cons.IH [OF Cons.prems(1) this] show ?case
    using Cons.prems(1) rd xs(1) by (simp add: check_ctx_def)
qed

lemma find_duplicate_None:
  "find_duplicate xs seen = None \<Longrightarrow> distinct xs \<and> seen \<inter> set xs = {}"
  by (induction xs arbitrary: seen) (auto split: if_splits)

text \<open>What \<open>index_packs\<close> leaves: for every pack, the decoded index of its data.\<close>

definition pack_indexed :: "'db repo_deps \<Rightarrow> 'db repo \<Rightarrow> pack_manifest \<Rightarrow> string \<times> pack_index list \<Rightarrow> bool" where
  "pack_indexed d s p pix \<longleftrightarrow> fst pix = pm_id p \<and>
     (\<exists>xs. list_all2 (repo_reads d s) (pm_chunks p) xs \<and> decode_pack_index (concat xs) = Inr (snd pix) \<and>
        distinct (map pi_path (snd pix)))"

lemma index_packs_ok:
  "index_packs ev d packs s = (Inr indexes, t) \<Longrightarrow> same_store s t \<and> list_all2 (pack_indexed d s) packs indexes"
proof (induction packs arbitrary: s indexes)
  case Nil
  then show ?case by simp
next
  case (Cons p ps)
  obtain data s1 where rd: "read_pack_data ev d p s = (Inr data, s1)"
    using Cons.prems by (auto split: prod.splits sum.splits)
  then obtain ixs where ip: "index_pack p data = Inr ixs"
    using Cons.prems by (auto split: sum.splits)
  then obtain rest where r: "index_packs ev d ps s1 = (Inr rest, t)" "indexes = (pm_id p, ixs) # rest"
    using Cons.prems rd by (auto simp: result_simps)
  obtain xs where xs: "same_store s s1" "list_all2 (repo_reads d s) (pm_chunks p) xs" "data = concat xs"
    using read_pack_chunks_Inr rd unfolding read_pack_data_def by fastforce
  have "decode_pack_index data = Inr ixs" "distinct (map pi_path ixs)"
    using ip find_duplicate_None [of "map pi_path ixs" "{}"]
    by (auto simp: index_pack_def split: sum.splits option.splits)
  then have "pack_indexed d s p (pm_id p, ixs)" using xs by (auto simp: pack_indexed_def)
  moreover have eq: "repo_reads d s1 = repo_reads d s" using same_store_reads [OF xs(1)] by (intro ext) simp
  have "pack_indexed d s1 = pack_indexed d s" by (intro ext) (simp add: pack_indexed_def eq)
  then have "list_all2 (pack_indexed d s) ps rest" using Cons.IH [OF r(1)] by simp
  ultimately show ?case using Cons.IH [OF r(1)] xs(1) same_store_trans r(2) by auto
qed

subsection \<open>Accepted entries\<close>

definition entry_accepted ::
    "'db repo_deps \<Rightarrow> 'db repo \<Rightarrow> pack_manifest list \<Rightarrow> (string \<times> pack_index list) list \<Rightarrow>
     file_entry \<Rightarrow> file_entry \<Rightarrow> bool" where
  "entry_accepted d s packs indexes e0 e \<longleftrightarrow>
     (case fe_type e0 of
        EntryFile \<Rightarrow> e = e0\<lparr>fe_chunks := fe_chunks e\<rparr> \<and> map cr_hash (fe_chunks e) = map cr_hash (fe_chunks e0) \<and>
          (\<forall>r \<in> set (fe_chunks e). indexed d s (cr_hash r) = Some r) \<and> chunk_total (fe_chunks e) = fe_size e
      | EntryPackedFile \<Rightarrow> e = e0 \<and> check_packed_entry packs indexes False e = Inr ()
      | EntryDir \<Rightarrow> e = e0
      | EntrySymlink \<Rightarrow> e = e0
      | EntryOther t \<Rightarrow> False)"

lemma check_entry_ok:
  assumes "repo_inv d s" and "check_entry ev d packs indexes False e0 s = (Inr (e, []), t)"
  shows "same_store s t \<and> entry_accepted d s packs indexes e0 e"
proof (cases "fe_type e0 = EntryFile")
  case True
  then have c: "check_file_entry ev d e0 s = (Inr (e, []), t)" using assms(2) by (simp add: check_entry_def)
  then obtain refs where cr: "canonical_refs ev d (fe_path e0) 0 (fe_chunks e0) s = (Inr (refs, []), t)"
    and e: "e = e0\<lparr>fe_chunks := refs\<rparr>" "chunk_total refs = fe_size e0"
    by (auto simp: check_file_entry_def result_simps split: if_splits)
  show ?thesis using canonical_refs_indexed [OF assms(1) cr] e True by (simp add: entry_accepted_def)
next
  case False
  then show ?thesis using assms(2)
    by (auto simp: check_entry_def entry_accepted_def split: entry_type.splits sum.splits)
qed

lemma check_entries_missing:
  "check_entries ev d packs indexes missing es s = (Inr (es', missing'), t) \<Longrightarrow> \<exists>m. missing' = missing @ m"
proof (induction es arbitrary: missing s es' missing')
  case Nil
  then show ?case by simp
next
  case (Cons e es)
  then show ?case by (auto simp: result_simps) (metis append.assoc)
qed

lemma check_entries_ok:
  "repo_inv d s \<Longrightarrow> check_entries ev d packs indexes [] es s = (Inr (es', []), t) \<Longrightarrow>
   same_store s t \<and> list_all2 (entry_accepted d s packs indexes) es es'"
proof (induction es arbitrary: s es')
  case Nil
  then show ?case by simp
next
  case (Cons e0 es)
  obtain e miss s1 es1 where ce: "check_entry ev d packs indexes False e0 s = (Inr (e, miss), s1)"
    and rest: "check_entries ev d packs indexes miss es s1 = (Inr (es1, []), t)" and es': "es' = e # es1"
    using Cons.prems(2) by (auto simp: result_simps)
  have miss: "miss = []" using check_entries_missing [OF rest] by simp
  note a = check_entry_ok [OF Cons.prems(1) ce [unfolded miss]]
  have inv: "repo_inv d s1" using Cons.prems(1) same_store_inv [OF conjunct1 [OF a]] by blast
  note ih = Cons.IH [OF inv rest [unfolded miss]]
  have ix: "indexed d s1 h = indexed d s h" for h by (rule same_store_index [OF conjunct1 [OF a]])
  have "entry_accepted d s1 = entry_accepted d s" by (intro ext) (unfold entry_accepted_def ix, rule refl)
  then show ?case using a ih es' same_store_trans [of s s1 t] by simp
qed

lemma canonicalize_manifest_ok:
  assumes "repo_inv d s" and "canonicalize_manifest ev d m s = (Inr m', t)"
  obtains packs indexes where "same_store s t" "m' = m\<lparr>sm_packs := packs, sm_entries := sm_entries m'\<rparr>"
    "distinct (map pm_id packs)" "map pm_id packs = map pm_id (sm_packs m)"
    "\<forall>p \<in> set packs. \<forall>r \<in> set (pm_chunks p). indexed d s (cr_hash r) = Some r"
    "list_all2 (pack_indexed d s) packs indexes"
    "list_all2 (entry_accepted d s packs indexes) (sm_entries m) (sm_entries m')"
proof -
  obtain packs missing s1 indexes s2 entries where
    cp: "check_packs ev d 0 {} (sm_packs m) s = (Inr (packs, missing), s1)"
    and ip: "(if missing = [] then index_packs ev d packs s1 else (Inr [], s1)) = (Inr indexes, s2)"
    and ce: "check_entries ev d packs indexes missing (sm_entries m) s2 = (Inr (entries, []), t)"
    and m': "m' = m\<lparr>sm_packs := packs, sm_entries := entries\<rparr>"
    using assms(2) by (auto simp: canonicalize_manifest_def result_simps split: if_splits)
  have miss: "missing = []" using check_entries_missing [OF ce] by simp
  note p = check_packs_ok [OF assms(1) cp]
  have s1: "same_store s s1" using p by (rule conjunct1)
  have idx: "index_packs ev d packs s1 = (Inr indexes, s2)" using ip miss by simp
  note q = index_packs_ok [OF idx]
  have s2: "same_store s s2" by (rule same_store_trans [OF s1 conjunct1 [OF q]])
  have inv2: "repo_inv d s2" using assms(1) same_store_inv [OF s2] by blast
  note e = check_entries_ok [OF inv2 ce [unfolded miss]]
  have ix: "indexed d s2 h = indexed d s h" for h by (rule same_store_index [OF s2])
  have ea: "entry_accepted d s2 = entry_accepted d s" by (intro ext) (unfold entry_accepted_def ix, rule refl)
  have eq: "repo_reads d s1 = repo_reads d s" using same_store_reads [OF s1] by (intro ext) simp
  have pa: "pack_indexed d s1 = pack_indexed d s" by (intro ext) (simp add: pack_indexed_def eq)
  show thesis
  proof (rule that)
    show "same_store s t" by (rule same_store_trans [OF s2 conjunct1 [OF e]])
    show "m' = m\<lparr>sm_packs := packs, sm_entries := sm_entries m'\<rparr>" by (simp add: m')
    show "distinct (map pm_id packs)" "map pm_id packs = map pm_id (sm_packs m)" using p by simp_all
    show "\<forall>p \<in> set packs. \<forall>r \<in> set (pm_chunks p). indexed d s (cr_hash r) = Some r" using p miss by simp
    show "list_all2 (pack_indexed d s) packs indexes" using q pa by simp
    show "list_all2 (entry_accepted d s packs indexes) (sm_entries m) (sm_entries m')" using e ea m' by simp
  qed
qed

text \<open>A packed file of an accepted manifest can be read.\<close>

lemma map_of_pack_indexed:
  "list_all2 (pack_indexed d s) packs indexes \<Longrightarrow> find (\<lambda>p. pm_id p = i) packs = Some p \<Longrightarrow>
   \<exists>ixs. map_of indexes i = Some ixs \<and> pack_indexed d s p (i, ixs)"
  by (induction rule: list_all2_induct) (auto simp: pack_indexed_def split: if_splits)

lemma packed_entry_reads:
  assumes idx: "list_all2 (pack_indexed d s) packs indexes"
    and ok: "check_packed_entry packs indexes False e = Inr ()"
    and ty: "fe_type e = EntryPackedFile" and m: "sm_packs m = packs"
    and q: "quiet ev" and t: "same_store s t"
    and small: "\<And>p xs. p \<in> set packs \<Longrightarrow> list_all2 (repo_reads d s) (pm_chunks p) xs \<Longrightarrow> length (concat xs) < 2 ^ 62"
  shows "\<exists>out. fst (read_packed_file ev d (Some m) e t) = Inr out \<and> int (length out) = fe_size e"
proof -
  obtain ref p where ref: "fe_pack e = Some ref" and p: "find (\<lambda>p. pm_id p = pr_id ref) packs = Some p"
    using ok by (auto simp: check_packed_entry_def split: if_splits option.splits)
  obtain ixs where ixs: "map_of indexes (pr_id ref) = Some ixs" "pack_indexed d s p (pr_id ref, ixs)"
    using map_of_pack_indexed [OF idx p] by blast
  obtain xs where xs: "list_all2 (repo_reads d s) (pm_chunks p) xs" "decode_pack_index (concat xs) = Inr ixs"
    using ixs(2) by (auto simp: pack_indexed_def)
  obtain ix where ix: "find (\<lambda>ix. pi_path ix = fe_path e) ixs = Some ix"
    and rng: "pi_offset ix = pr_offset ref" "pi_length ix = pr_length ref" "pi_original ix = fe_size e" "pr_length ref = fe_size e"
    using ok ref p ixs(1) by (auto simp: check_packed_entry_def split: if_splits option.splits)
  have pm: "p \<in> set packs" using find_Some_mem [OF p] by simp
  have "ix \<in> set ixs" using find_Some_mem [OF ix] by simp
  from decode_pack_index_ranges [OF xs(2) small [OF pm xs(1)] this, of "pr_id ref"] obtain out where
    out: "pack_file_bytes (concat xs) \<lparr>pr_id = pr_id ref, pr_offset = pi_offset ix, pr_length = pi_length ix\<rparr> = Inr out"
    "int (length out) = pi_length ix" by blast
  have "\<lparr>pr_id = pr_id ref, pr_offset = pi_offset ix, pr_length = pi_length ix\<rparr> = ref" using rng by simp
  then have "pack_file_bytes (concat xs) ref = Inr out" using out(1) by simp
  then have lp: "locate_packed_file (concat xs) e ref = Inr out"
    using xs(2) ix rng out(2) by (simp add: locate_packed_file_def)
  have "list_all2 (repo_reads d t) (pm_chunks p) xs"
    by (rule list_all2_mono [OF xs(1)]) (use same_store_reads [OF t] in blast)
  from read_pack_chunks_quiet [OF q this, of "[]"] obtain t' where
    "read_pack_data ev d p t = (Inr (concat xs), t')"
    unfolding read_pack_data_def by (cases "read_pack_chunks ev d (pm_chunks p) [] t") auto
  then show ?thesis
    using ty ref p m lp out(2) rng by (simp add: read_packed_file_def find_pack_def)
qed

subsection \<open>The report of missing chunks\<close>

definition lacks :: "'db repo_deps \<Rightarrow> 'db repo \<Rightarrow> chunk_ref list \<Rightarrow> string set" where
  "lacks d s refs = {cr_hash r | r. r \<in> set refs \<and> indexed d s (cr_hash r) = None}"

lemma lacks_append [simp]: "lacks d s (a @ b) = lacks d s a \<union> lacks d s b" and lacks_Nil [simp]: "lacks d s [] = {}"
  by (auto simp: lacks_def)

lemma lacks_same: "same_store s t \<Longrightarrow> lacks d t refs = lacks d s refs"
  by (simp add: lacks_def same_store_index)

lemma canonical_refs_lacks:
  "canonical_refs ev d owner i rs s = (Inr (refs, missing), t) \<Longrightarrow> same_store s t \<and> set missing = lacks d s rs"
  using canonical_refs_ok unfolding lacks_def by blast

lemma check_packs_lacks:
  "check_packs ev d i seen ps s = (Inr (packs, missing), t) \<Longrightarrow>
   same_store s t \<and> set (map fst missing) = lacks d s (concat (map pm_chunks ps))"
proof (induction ps arbitrary: i seen s packs missing)
  case Nil
  then show ?case by simp
next
  case (Cons p ps)
  obtain p' hs s1 packs' missing' where cp: "check_pack ev d i seen p s = (Inr (p', hs), s1)"
    and rest: "check_packs ev d (Suc i) (insert (pm_id p) seen) ps s1 = (Inr (packs', missing'), t)"
    and res: "missing = map (\<lambda>h. (h, ''pack:'' @ pm_id p)) hs @ missing'"
    using Cons.prems by (auto simp: result_simps)
  obtain refs where cr: "canonical_refs ev d (pm_id p) 0 (pm_chunks p) s = (Inr (refs, hs), s1)"
    using cp by (auto simp: check_pack_def result_simps split: if_splits)
  note l = canonical_refs_lacks [OF cr] and ih = Cons.IH [OF rest]
  have "same_store s t" by (rule same_store_trans [OF conjunct1 [OF l] conjunct1 [OF ih]])
  moreover have "set (map fst missing) = set hs \<union> set (map fst missing')" by (force simp: res)
  ultimately show ?case using l ih lacks_same [OF conjunct1 [OF l], of d] by simp
qed

text \<open>The references that the entries of a manifest use directly.\<close>

definition entry_refs :: "file_entry \<Rightarrow> chunk_ref list" where
  "entry_refs e = (if fe_type e = EntryFile then fe_chunks e else [])"

lemma check_entry_lacks:
  assumes "check_entry ev d packs indexes m e s = (Inr (e', miss), t)"
  shows "same_store s t \<and> set (map fst miss) = lacks d s (entry_refs e)"
proof (cases "fe_type e = EntryFile")
  case True
  then obtain refs missing where cr: "canonical_refs ev d (fe_path e) 0 (fe_chunks e) s = (Inr (refs, missing), t)"
    and "set (map fst miss) = set missing"
    using assms by (auto simp: check_entry_def check_file_entry_def result_simps o_def image_image split: if_splits)
  then show ?thesis using canonical_refs_lacks [OF cr] True by (simp add: entry_refs_def)
next
  case False
  then show ?thesis using assms
    by (auto simp: check_entry_def entry_refs_def split: entry_type.splits sum.splits)
qed

lemma check_entries_lacks:
  "check_entries ev d packs indexes missing es s = (Inr (es', missing'), t) \<Longrightarrow>
   same_store s t \<and> set (map fst missing') = set (map fst missing) \<union> lacks d s (concat (map entry_refs es))"
proof (induction es arbitrary: missing s es' missing')
  case Nil
  then show ?case by simp
next
  case (Cons e es)
  obtain e' miss s1 es1 where ce: "check_entry ev d packs indexes (missing \<noteq> []) e s = (Inr (e', miss), s1)"
    and rest: "check_entries ev d packs indexes (missing @ miss) es s1 = (Inr (es1, missing'), t)"
    using Cons.prems by (auto simp: result_simps)
  note l = check_entry_lacks [OF ce] and ih = Cons.IH [OF rest]
  have "same_store s t" by (rule same_store_trans [OF conjunct1 [OF l] conjunct1 [OF ih]])
  then show ?case using l ih lacks_same [OF conjunct1 [OF l], of d] by auto
qed

lemma set_sort_strings [simp]: "set (sort_strings xs) = set xs"
  by (simp add: sort_strings_def)

lemma index_packs_McMissing: "index_packs ev d packs s = (Inl e, t) \<Longrightarrow> e \<noteq> McMissing rep"
proof (induction packs arbitrary: s)
  case (Cons p ps)
  then show ?case by (auto simp: index_pack_def elim!: sbind_Inl_cases split: prod.splits sum.splits option.splits)
qed simp

lemma canonical_refs_McMissing: "canonical_refs ev d owner i rs s = (Inl e, t) \<Longrightarrow> e \<noteq> McMissing rep"
proof (induction rs arbitrary: i s)
  case (Cons r rs)
  then show ?case by (auto elim!: sbind_Inl_cases split: if_splits prod.splits sum.splits option.splits)
qed simp

lemma check_packs_McMissing: "check_packs ev d i seen ps s = (Inl e, t) \<Longrightarrow> e \<noteq> McMissing rep"
proof (induction ps arbitrary: i seen s)
  case (Cons p ps)
  have "check_pack ev d i seen p s \<noteq> (Inl (McMissing rep), t)"
    using canonical_refs_McMissing [of ev d "pm_id p" 0 "pm_chunks p" s _ t rep]
    by (auto simp: check_pack_def elim!: sbind_Inl_cases)
  then show ?case using Cons by (auto elim!: sbind_Inl_cases)
qed simp

lemma check_entries_McMissing: "check_entries ev d packs indexes m es s = (Inl e, t) \<Longrightarrow> e \<noteq> McMissing rep"
proof (induction es arbitrary: m s)
  case (Cons x es)
  have "check_entry ev d packs indexes (m \<noteq> []) x s \<noteq> (Inl (McMissing rep), t)"
    using canonical_refs_McMissing [of ev d "fe_path x" 0 "fe_chunks x" s _ t rep]
    by (auto simp: check_entry_def check_file_entry_def check_packed_entry_def elim!: sbind_Inl_cases
        split: entry_type.splits sum.splits if_splits option.splits)
  then show ?case using Cons by (auto elim!: sbind_Inl_cases)
qed simp

subsection \<open>Properties\<close>


definition agent_ref :: "string \<Rightarrow> chunk_ref" where
  "agent_ref h = zero_ref\<lparr>cr_hash := h\<rparr>"

definition agent_manifest :: "string \<Rightarrow> snapshot_manifest" where
  "agent_manifest h = \<lparr>sm_id = ''run-1'', sm_created = 0, sm_source_type = ''agent'', sm_source_root = ''/srv'',
     sm_source_roots = [], sm_packs = [],
     sm_entries = [\<lparr>fe_path = ''a'', fe_type = EntryFile, fe_size = 1, fe_mode = 0, fe_uid = 0, fe_gid = 0,
       fe_mtime = 0, fe_link = [], fe_chunks = [agent_ref h], fe_pack = None\<rparr>]\<rparr>"


text \<open>
  When the check answers that chunks are missing, the report names exactly the hashes
  that the manifest's packs and files use and the index does not hold.
\<close>

theorem missing_report_exact:
  assumes "canonicalize_manifest ev d m s = (Inl (McMissing rep), t)"
  shows "rep \<noteq> [] \<and>
    set (map fst rep) = lacks d s (concat (map pm_chunks (sm_packs m)) @ concat (map entry_refs (sm_entries m)))"
proof -
  have ne: "sm_entries m \<noteq> []" using assms by (auto simp: canonicalize_manifest_def)
  obtain packs missing s1 where cp: "check_packs ev d 0 {} (sm_packs m) s = (Inr (packs, missing), s1)"
    using assms ne by (auto simp: canonicalize_manifest_def elim!: sbind_Inl_cases dest: check_packs_McMissing)
  obtain indexes s2 where ip: "(if missing = [] then index_packs ev d packs s1 else (Inr [], s1)) = (Inr indexes, s2)"
    using assms ne cp
    by (auto simp: canonicalize_manifest_def elim!: sbind_Inl_cases dest: index_packs_McMissing split: if_splits)
  obtain entries missing' where ce: "check_entries ev d packs indexes missing (sm_entries m) s2 = (Inr (entries, missing'), t)"
    and rep: "missing' \<noteq> []" "rep = missing_report missing'"
    using assms ne cp ip
    by (auto simp: canonicalize_manifest_def elim!: sbind_Inl_cases dest: check_entries_McMissing split: if_splits)
  note p = check_packs_lacks [OF cp] and e = check_entries_lacks [OF ce]
  have "same_store s1 s2" using ip index_packs_ok [of ev d packs s1 indexes s2] by (cases "missing = []") auto
  then have s2: "same_store s s2" by (rule same_store_trans [OF conjunct1 [OF p]])
  have "set (map fst rep) = set (map fst missing')" by (simp add: rep(2) missing_report_def image_image)
  moreover have "set (map fst missing') \<noteq> {}" using rep(1) by simp
  ultimately have "rep \<noteq> []" by force
  moreover note \<open>set (map fst rep) = set (map fst missing')\<close>
  ultimately show ?thesis using p e lacks_same [OF s2, of d] by simp
qed

lemma missing_report_exact_witness:
  "\<exists>rep t. canonicalize_manifest good_env plain_deps (agent_manifest (hash_bytes plain_crypto [9])) empty_repo =
       (Inl (McMissing rep), t) \<and> map fst rep = [hash_bytes plain_crypto [9]] \<and>
     set (map fst rep) = lacks plain_deps empty_repo [agent_ref (hash_bytes plain_crypto [9])]"
proof -
  let ?h = "hash_bytes plain_crypto [9]"
  let ?c = "canonicalize_manifest good_env plain_deps (agent_manifest ?h) empty_repo"
  have "case fst ?c of Inl (McMissing rep) \<Rightarrow> map fst rep = [?h] | _ \<Rightarrow> False" by code_simp
  then obtain rep where r: "fst ?c = Inl (McMissing rep)" "map fst rep = [?h]"
    by (auto split: sum.splits check_error.splits)
  then have c: "?c = (Inl (McMissing rep), snd ?c)" by (metis prod.collapse)
  have "concat (map pm_chunks (sm_packs (agent_manifest ?h))) @ concat (map entry_refs (sm_entries (agent_manifest ?h))) =
      [agent_ref ?h]"
    by (simp add: agent_manifest_def entry_refs_def)
  with missing_report_exact [OF c] c r(2) show ?thesis by metis
qed

end
