(* ===== verification/HostFs.thy ===== *)
theory HostFs
  imports RootSet GoBytes "HOL-Library.AList"
begin

text \<open>
  The part of a Unix file system that a restore uses: directories, files and symbolic links under
  absolute paths, and the calls of Go's package \<open>os\<close> on them. A path of a call is walked component
  by component and every symbolic link on the way is followed, as the kernel does it (with its
  limit of 40 links), so that a write through a link is visible in the model. Modes are kept before
  the umask, and of the modification times only those that \<open>Chtimes\<close> sets. Each call asks the
  environment whether it fails.
\<close>

subsection \<open>Absolute paths as lists of components\<close>

definition plain_comp :: "string \<Rightarrow> bool" where
  "plain_comp c \<longleftrightarrow> c \<noteq> [] \<and> c \<noteq> ''.'' \<and> c \<noteq> ''..'' \<and> slash \<notin> set c"

definition abs_path :: "string list \<Rightarrow> string" where
  "abs_path cs = slash # join_char slash cs"

definition path_dir :: "string \<Rightarrow> string" where
  "path_dir p = clean_path (rev (dropWhile (\<lambda>c. c \<noteq> slash) (rev p)))"

lemma stack_ok_plain: "stack_ok True st \<longleftrightarrow> list_all plain_comp st"
  by (induction st) (auto simp: plain_comp_def)

lemma comps_ok_plain: "comps_ok True cs \<longleftrightarrow> list_all plain_comp cs"
  by (simp add: comps_ok_def stack_ok_plain)

lemma split_join_append:
  "list_all plain_comp cs \<Longrightarrow> cs \<noteq> [] \<Longrightarrow> split_char slash (join_char slash cs @ slash # x) = cs @ split_char slash x"
proof (induction slash cs rule: join_char.induct)
  case (3 w v ws)
  then show ?case by (simp add: plain_comp_def split_char_append)
qed (simp_all add: plain_comp_def split_char_append)

lemma split_join_plain: "list_all plain_comp cs \<Longrightarrow> cs \<noteq> [] \<Longrightarrow> split_char slash (join_char slash cs) = cs"
  by (rule split_join) (auto simp: list_all_iff plain_comp_def)

lemma split_abs_path: "list_all plain_comp cs \<Longrightarrow> split_char slash (abs_path cs) = [] # (if cs = [] then [[]] else cs)"
  by (simp add: abs_path_def split_join_plain)

lemma join_append:
  "A \<noteq> [] \<Longrightarrow> B \<noteq> [] \<Longrightarrow> join_char s (A @ B) = join_char s A @ s # join_char s B"
  by (induction s A rule: join_char.induct) (auto simp: neq_Nil_conv)

lemma clean_abs_path: "list_all plain_comp cs \<Longrightarrow> clean_path (abs_path cs) = abs_path cs"
  using clean_abs by (simp add: abs_path_def comps_ok_plain)

lemma path_comps_abs_path: "list_all plain_comp cs \<Longrightarrow> path_comps (abs_path cs) = cs"
  using path_comps_abs by (simp add: abs_path_def comps_ok_plain)

lemma clean_comps_plain: "list_all plain_comp cs \<Longrightarrow> clean_comps True cs = cs"
  by (simp add: clean_comps_id comps_ok_plain)

lemma clean_abs_split:
  "clean_path (slash # x) = abs_path (clean_comps True ([] # split_char slash x))"
  by (simp add: clean_path_def is_abs_def abs_path_def slash_def)

lemma path_join_abs:
  assumes "list_all plain_comp A" "list_all plain_comp B" "B \<noteq> []"
  shows "path_join (abs_path A) (join_char slash B) = abs_path (A @ B)"
proof -
  have b: "split_char slash (join_char slash B) = B" using assms by (simp add: split_join_plain)
  have "split_char slash (join_char slash A @ slash # join_char slash B) = (if A = [] then [[]] else A) @ B"
    using assms b by (simp add: split_join_append)
  then have "path_join (abs_path A) (join_char slash B) = abs_path (clean_comps True ([] # (if A = [] then [[]] else A) @ B))"
    by (simp add: path_join_def abs_path_def clean_abs_split [unfolded abs_path_def])
  moreover have "clean_comps True (A @ B) = A @ B" using assms by (simp add: clean_comps_plain)
  ultimately show ?thesis by (auto simp: clean_comps_skip_empty)
qed

lemma path_dir_abs:
  assumes "list_all plain_comp A" "plain_comp x"
  shows "path_dir (abs_path (A @ [x])) = abs_path A"
proof -
  have x: "slash \<notin> set x" using assms by (simp add: plain_comp_def)
  have dx: "dropWhile (\<lambda>c. c \<noteq> slash) (rev x @ slash # y) = slash # y" for y
    using x by (subst dropWhile_append2) auto
  show ?thesis
  proof (cases "A = []")
    case True
    then have "path_dir (abs_path (A @ [x])) = clean_path [slash]" using dx [of "[]"] by (simp add: path_dir_def abs_path_def)
    then show ?thesis using True by (simp add: abs_path_def clean_path_def is_abs_def clean_comps_def)
  next
    case False
    then have "abs_path (A @ [x]) = abs_path A @ slash # x" by (simp add: abs_path_def join_append)
    then have "path_dir (abs_path (A @ [x])) = clean_path (slash # join_char slash A @ [slash])"
      using dx [of "rev (abs_path A)"] by (simp add: path_dir_def abs_path_def)
    also have "\<dots> = abs_path (clean_comps True ([] # A @ [[]]))"
      using split_join_append [OF assms(1) False, of "[]"] by (simp add: clean_abs_split)
    also have "clean_comps True ([] # A @ [[]]) = A"
      using clean_comps_plain [OF assms(1)] by (simp add: clean_comps_def)
    finally show ?thesis .
  qed
qed

lemma path_rel_abs:
  assumes "list_all plain_comp A" "list_all plain_comp (A @ B)"
  shows "path_rel (abs_path A) (abs_path (A @ B)) = Some (if B = [] then ''.'' else join_char slash B)"
proof -
  have ne: "abs_path (A @ B) = abs_path A \<longleftrightarrow> B = []"
    using path_comps_abs_path [OF assms(1)] path_comps_abs_path [OF assms(2)] by auto
  have "abs_path A \<noteq> ''.''" by (simp add: abs_path_def slash_def)
  moreover have "is_abs (abs_path A)" "is_abs (abs_path (A @ B))" by (simp_all add: is_abs_def abs_path_def)
  ultimately show ?thesis
    using assms clean_abs_path ne path_comps_abs_path strip_common_prefix [of A B]
    by (simp add: path_rel_def Let_def)
qed

lemma is_abs_path [simp]: "is_abs (abs_path cs)"
  by (simp add: is_abs_def abs_path_def)

subsection \<open>The state and the walk of a path\<close>

datatype host_node = HDir u32 "int option" | HFile u32 bytes "int option" | HLink string

record host_fs =
  hf_nodes :: "(string list \<times> host_node) list"
  hf_step :: nat

datatype host_error = HNoEntry | HNotDir | HLoop | HExists | HIsDir | HNotEmpty | HFault

definition node_at :: "host_fs \<Rightarrow> string list \<Rightarrow> host_node option" where
  "node_at fs p = (if p = [] then Some (HDir 0x1ED None) else map_of (hf_nodes fs) p)"

definition put_node :: "string list \<Rightarrow> host_node \<Rightarrow> host_fs \<Rightarrow> host_fs" where
  "put_node p nd fs = fs\<lparr>hf_nodes := AList.update p nd (hf_nodes fs)\<rparr>"

definition drop_node :: "string list \<Rightarrow> host_fs \<Rightarrow> host_fs" where
  "drop_node p fs = fs\<lparr>hf_nodes := AList.delete p (hf_nodes fs)\<rparr>"

definition step_fs :: "host_fs \<Rightarrow> host_fs" where
  "step_fs fs = fs\<lparr>hf_step := Suc (hf_step fs)\<rparr>"

definition is_dir :: "host_node option \<Rightarrow> bool" where
  "is_dir nd = (case nd of Some (HDir m t) \<Rightarrow> True | _ \<Rightarrow> False)"

definition is_link :: "host_node option \<Rightarrow> bool" where
  "is_link nd = (case nd of Some (HLink t) \<Rightarrow> True | _ \<Rightarrow> False)"

text \<open>
  The walk from the directory \<open>cur\<close>: the place where the path leads, of which only the last
  component may be missing.
\<close>

function locate :: "nat \<Rightarrow> host_fs \<Rightarrow> string list \<Rightarrow> string list \<Rightarrow> host_error + string list" where
  "locate n fs cur [] = Inr cur"
| "locate n fs cur (c # cs) =
     (if c = [] \<or> c = ''.'' then locate n fs cur cs
      else if c = ''..'' then locate n fs (butlast cur) cs
      else (case node_at fs (cur @ [c]) of
         None \<Rightarrow> if cs = [] then Inr (cur @ [c]) else Inl HNoEntry
       | Some nd \<Rightarrow>
           (case nd of
              HDir m t \<Rightarrow> locate n fs (cur @ [c]) cs
            | HFile m d t \<Rightarrow> if cs = [] then Inr (cur @ [c]) else Inl HNotDir
            | HLink t \<Rightarrow>
                if n = 0 then Inl HLoop
                else locate (n - 1) fs (if is_abs t then [] else cur) (split_char slash t @ cs))))"
  by pat_completeness auto
termination by (relation "measures [\<lambda>(n, fs, cur, cs). n, \<lambda>(n, fs, cur, cs). length cs]") auto

definition max_links :: nat where "max_links = 40"

text \<open>The place of a path whose last component is not followed.\<close>

definition locate_entry :: "host_fs \<Rightarrow> string list \<Rightarrow> host_error + string list" where
  "locate_entry fs p =
     (if p = [] then Inr []
      else (case locate max_links fs [] (butlast p) of
         Inl e \<Rightarrow> Inl e
       | Inr q \<Rightarrow>
           if is_dir (node_at fs q) then Inr (q @ [last p])
           else if node_at fs q = None then Inl HNoEntry else Inl HNotDir))"

subsection \<open>Calls\<close>

definition with_fault :: "env \<Rightarrow> (host_fs \<Rightarrow> (host_error + 'a) \<times> host_fs) \<Rightarrow> host_fs \<Rightarrow> (host_error + 'a) \<times> host_fs" where
  "with_fault ev f fs = (if env_io ev (hf_step fs) \<noteq> None then (Inl HFault, step_fs fs) else f (step_fs fs))"

text \<open>\<open>Lstat\<close> and \<open>Stat\<close>.\<close>

definition look_entry :: "host_fs \<Rightarrow> string list \<Rightarrow> host_error + host_node" where
  "look_entry fs p =
     rbind (locate_entry fs p) (\<lambda>q. case node_at fs q of None \<Rightarrow> Inl HNoEntry | Some nd \<Rightarrow> Inr nd)"

definition look_target :: "host_fs \<Rightarrow> string list \<Rightarrow> host_error + host_node" where
  "look_target fs p =
     rbind (locate max_links fs [] p) (\<lambda>q. case node_at fs q of None \<Rightarrow> Inl HNoEntry | Some nd \<Rightarrow> Inr nd)"

definition os_lstat :: "env \<Rightarrow> string \<Rightarrow> host_fs \<Rightarrow> (host_error + host_node) \<times> host_fs" where
  "os_lstat ev p = with_fault ev (\<lambda>fs. (look_entry fs (path_comps p), fs))"

definition os_stat :: "env \<Rightarrow> string list \<Rightarrow> host_fs \<Rightarrow> (host_error + host_node) \<times> host_fs" where
  "os_stat ev p = with_fault ev (\<lambda>fs. (look_target fs p, fs))"

definition make_entry :: "string list \<Rightarrow> host_node \<Rightarrow> host_fs \<Rightarrow> (host_error + unit) \<times> host_fs" where
  "make_entry p nd fs =
     (case locate_entry fs p of
        Inl e \<Rightarrow> (Inl e, fs)
      | Inr q \<Rightarrow> if node_at fs q \<noteq> None then (Inl HExists, fs) else (Inr (), put_node q nd fs))"

definition os_mkdir :: "env \<Rightarrow> u32 \<Rightarrow> string list \<Rightarrow> host_fs \<Rightarrow> (host_error + unit) \<times> host_fs" where
  "os_mkdir ev perm p = with_fault ev (make_entry p (HDir perm None))"

definition os_symlink :: "env \<Rightarrow> string \<Rightarrow> string \<Rightarrow> host_fs \<Rightarrow> (host_error + unit) \<times> host_fs" where
  "os_symlink ev target p = with_fault ev (make_entry (path_comps p) (HLink target))"

text \<open>\<open>MkdirAll\<close>, over the reversed components: look, make the parent, make the directory, look again.\<close>

fun mkdir_all_rev :: "env \<Rightarrow> u32 \<Rightarrow> string list \<Rightarrow> host_fs \<Rightarrow> (host_error + unit) \<times> host_fs" where
  "mkdir_all_rev ev perm rp fs =
     (case os_stat ev (rev rp) fs of
        (Inr nd, fs1) \<Rightarrow> if is_dir (Some nd) then (Inr (), fs1) else (Inl HNotDir, fs1)
      | (Inl e, fs1) \<Rightarrow>
          (case rp of
             [] \<Rightarrow> (Inl e, fs1)
           | c # rest \<Rightarrow>
               (case mkdir_all_rev ev perm rest fs1 of
                  (Inl e2, fs2) \<Rightarrow> (Inl e2, fs2)
                | (Inr u, fs2) \<Rightarrow>
                    (case os_mkdir ev perm (rev rp) fs2 of
                       (Inr u2, fs3) \<Rightarrow> (Inr (), fs3)
                     | (Inl e3, fs3) \<Rightarrow>
                         (case with_fault ev (\<lambda>fs. (look_entry fs (rev rp), fs)) fs3 of
                            (Inr nd, fs4) \<Rightarrow> if is_dir (Some nd) then (Inr (), fs4) else (Inl e3, fs4)
                          | (Inl e4, fs4) \<Rightarrow> (Inl e3, fs4))))))"

declare mkdir_all_rev.simps [simp del]

definition os_mkdir_all :: "env \<Rightarrow> u32 \<Rightarrow> string \<Rightarrow> host_fs \<Rightarrow> (host_error + unit) \<times> host_fs" where
  "os_mkdir_all ev perm p = mkdir_all_rev ev perm (rev (path_comps p))"

text \<open>\<open>Remove\<close>: the entry itself, a directory only when it is empty.\<close>

definition has_children :: "host_fs \<Rightarrow> string list \<Rightarrow> bool" where
  "has_children fs p \<longleftrightarrow> list_ex (\<lambda>(q, nd). q \<noteq> [] \<and> butlast q = p) (hf_nodes fs)"

definition remove_entry :: "string list \<Rightarrow> host_fs \<Rightarrow> (host_error + unit) \<times> host_fs" where
  "remove_entry p fs =
     (case locate_entry fs p of
        Inl e \<Rightarrow> (Inl e, fs)
      | Inr q \<Rightarrow>
          if node_at fs q = None then (Inl HNoEntry, fs)
          else if is_dir (node_at fs q) \<and> (q = [] \<or> has_children fs q) then (Inl HNotEmpty, fs)
          else (Inr (), drop_node q fs))"

definition os_remove :: "env \<Rightarrow> string \<Rightarrow> host_fs \<Rightarrow> (host_error + unit) \<times> host_fs" where
  "os_remove ev p = with_fault ev (remove_entry (path_comps p))"

text \<open>
  \<open>OpenFile\<close> with \<open>O_CREATE|O_TRUNC|O_WRONLY\<close>: the place of the file it opens. A symbolic link at
  the end of the path is followed.
\<close>

definition open_target :: "u32 \<Rightarrow> string list \<Rightarrow> host_fs \<Rightarrow> (host_error + string list \<times> u32) \<times> host_fs" where
  "open_target perm p fs =
     (case locate max_links fs [] p of
        Inl e \<Rightarrow> (Inl e, fs)
      | Inr q \<Rightarrow>
          (case node_at fs q of
             None \<Rightarrow> (Inr (q, perm), put_node q (HFile perm [] None) fs)
           | Some nd \<Rightarrow>
               (case nd of
                  HFile m d t \<Rightarrow> (Inr (q, m), put_node q (HFile m [] None) fs)
                | HDir m t \<Rightarrow> (Inl HIsDir, fs)
                | HLink t \<Rightarrow> (Inl HLoop, fs))))"

definition os_create :: "env \<Rightarrow> u32 \<Rightarrow> string \<Rightarrow> host_fs \<Rightarrow> (host_error + string list \<times> u32) \<times> host_fs" where
  "os_create ev perm p = with_fault ev (open_target perm (path_comps p))"

definition set_times :: "string list \<Rightarrow> int \<Rightarrow> host_fs \<Rightarrow> (host_error + unit) \<times> host_fs" where
  "set_times p t fs =
     (case locate max_links fs [] p of
        Inl e \<Rightarrow> (Inl e, fs)
      | Inr q \<Rightarrow>
          (case node_at fs q of
             None \<Rightarrow> (Inl HNoEntry, fs)
           | Some nd \<Rightarrow>
               (case nd of
                  HDir m u \<Rightarrow> (Inr (), put_node q (HDir m (Some t)) fs)
                | HFile m d u \<Rightarrow> (Inr (), put_node q (HFile m d (Some t)) fs)
                | HLink u \<Rightarrow> (Inl HLoop, fs))))"

definition os_chtimes :: "env \<Rightarrow> string \<Rightarrow> int \<Rightarrow> host_fs \<Rightarrow> (host_error + unit) \<times> host_fs" where
  "os_chtimes ev p t = with_fault ev (set_times (path_comps p) t)"

subsection \<open>Nodes\<close>

named_theorems host_simps \<open>what the calls do to single nodes\<close>

lemma node_at_put [host_simps]: "node_at (put_node p nd fs) q = (if q = p \<and> p \<noteq> [] then Some nd else node_at fs q)"
  by (simp add: node_at_def put_node_def update_conv)

lemma node_at_drop [host_simps]: "node_at (drop_node p fs) q = (if q = p \<and> p \<noteq> [] then None else node_at fs q)"
  by (simp add: node_at_def drop_node_def delete_conv)

lemma node_at_step [simp]: "node_at (step_fs fs) q = node_at fs q"
  by (simp add: node_at_def step_fs_def)

lemma node_at_root [simp]: "node_at fs [] = Some (HDir 0x1ED None)"
  by (simp add: node_at_def)

lemma is_dir_simps [simp]: "is_dir (Some (HDir m t))" "\<not> is_dir None" "\<not> is_dir (Some (HFile m d t))" "\<not> is_dir (Some (HLink l))"
  by (simp_all add: is_dir_def)

lemma is_link_simps [simp]: "is_link (Some (HLink l))" "\<not> is_link None" "\<not> is_link (Some (HFile m d t))" "\<not> is_link (Some (HDir m t))"
  by (simp_all add: is_link_def)

lemma is_dir_cases: "is_dir nd \<longleftrightarrow> (\<exists>m t. nd = Some (HDir m t))"
  by (auto simp: is_dir_def split: option.splits host_node.splits)

lemma is_link_cases: "is_link nd \<longleftrightarrow> (\<exists>t. nd = Some (HLink t))"
  by (auto simp: is_link_def split: option.splits host_node.splits)

subsection \<open>Paths that run through directories only\<close>

fun real_dirs :: "host_fs \<Rightarrow> string list \<Rightarrow> string list \<Rightarrow> bool" where
  "real_dirs fs cur [] = True"
| "real_dirs fs cur (c # cs) = (is_dir (node_at fs (cur @ [c])) \<and> real_dirs fs (cur @ [c]) cs)"

text \<open>The first component that is not a directory, if there is one, is no symbolic link.\<close>

fun walkable :: "host_fs \<Rightarrow> string list \<Rightarrow> string list \<Rightarrow> bool" where
  "walkable fs cur [] = True"
| "walkable fs cur (c # cs) =
     (if is_dir (node_at fs (cur @ [c])) then walkable fs (cur @ [c]) cs else \<not> is_link (node_at fs (cur @ [c])))"

lemma real_dirs_append [simp]: "real_dirs fs cur (a @ b) \<longleftrightarrow> real_dirs fs cur a \<and> real_dirs fs (cur @ a) b"
  by (induction a arbitrary: cur) auto

lemma walkable_append: "real_dirs fs cur a \<Longrightarrow> walkable fs cur (a @ b) \<longleftrightarrow> walkable fs (cur @ a) b"
  by (induction a arbitrary: cur) auto

lemma walkable_prefix: "walkable fs cur (a @ b) \<Longrightarrow> walkable fs cur a"
  by (induction a arbitrary: cur) (auto split: if_splits)

lemma real_dirs_walkable: "real_dirs fs cur a \<Longrightarrow> walkable fs cur a"
  by (induction a arbitrary: cur) auto

lemma real_dirs_last: "real_dirs fs [] a \<Longrightarrow> is_dir (node_at fs a)"
  by (cases a rule: rev_cases) auto

lemma real_dirs_prefix: "real_dirs fs [] a \<Longrightarrow> prefix q a \<Longrightarrow> is_dir (node_at fs q)"
  by (auto simp: prefix_def intro: real_dirs_last)

lemma locate_real:
  "real_dirs fs cur cs \<Longrightarrow> list_all plain_comp cs \<Longrightarrow> locate n fs cur cs = Inr (cur @ cs)"
  by (induction cs arbitrary: cur) (auto simp: plain_comp_def is_dir_cases)

lemma locate_walkable:
  "walkable fs cur cs \<Longrightarrow> list_all plain_comp cs \<Longrightarrow> locate n fs cur cs = Inr q \<Longrightarrow>
   q = cur @ cs \<and> (is_dir (node_at fs q) \<longrightarrow> real_dirs fs cur cs)"
proof (induction cs arbitrary: cur)
  case Nil
  then show ?case by simp
next
  case (Cons c cs)
  have c: "c \<noteq> []" "c \<noteq> ''.''" "c \<noteq> ''..''" using Cons.prems(2) by (auto simp: plain_comp_def)
  show ?case
  proof (cases "is_dir (node_at fs (cur @ [c]))")
    case True
    then have "locate n fs (cur @ [c]) cs = Inr q" using Cons.prems(3) c by (auto simp: is_dir_cases)
    with Cons.IH [of "cur @ [c]"] Cons.prems True show ?thesis by simp
  next
    case False
    then have "cs = [] \<and> q = cur @ [c]" using Cons.prems c
      by (auto simp: is_link_def is_dir_def split: option.splits host_node.splits if_splits)
    then show ?thesis using False by simp
  qed
qed

lemma locate_entry_real:
  assumes "real_dirs fs [] A" "list_all plain_comp A"
  shows "locate_entry fs (A @ [x]) = Inr (A @ [x])"
  using locate_real [OF assms, of max_links] real_dirs_last [OF assms(1)] by (simp add: locate_entry_def)

lemma look_entry_real:
  assumes "real_dirs fs [] A" "list_all plain_comp A"
  shows "look_entry fs (A @ [x]) = (case node_at fs (A @ [x]) of None \<Rightarrow> Inl HNoEntry | Some nd \<Rightarrow> Inr nd)"
  by (simp add: look_entry_def locate_entry_real [OF assms])

lemma locate_real_entry:
  assumes "real_dirs fs [] A" "list_all plain_comp A" "plain_comp x" "\<not> is_link (node_at fs (A @ [x]))"
  shows "locate n fs [] (A @ [x]) = Inr (A @ [x])"
proof -
  have "locate n fs cur (cs @ [x]) = Inr (cur @ cs @ [x])"
    if "real_dirs fs cur cs" "list_all plain_comp cs" "\<not> is_link (node_at fs (cur @ cs @ [x]))" for cur cs
    using that
  proof (induction cs arbitrary: cur)
    case Nil
    then show ?case using assms(3)
      by (auto simp: plain_comp_def is_link_def split: option.splits host_node.splits)
  next
    case (Cons c cs)
    then show ?case by (auto simp: plain_comp_def is_dir_cases)
  qed
  from this [of "[]" A] assms show ?thesis by simp
qed

subsection \<open>Frames\<close>

text \<open>Nothing but new nodes on the way to \<open>A\<close>.\<close>

definition grows_to :: "string list \<Rightarrow> host_fs \<Rightarrow> host_fs \<Rightarrow> bool" where
  "grows_to A fs fs' \<longleftrightarrow> (\<forall>q. node_at fs' q \<noteq> node_at fs q \<longrightarrow> prefix q A \<and> node_at fs q = None)"

lemma grows_to_same [intro]: "(\<And>q. node_at fs' q = node_at fs q) \<Longrightarrow> grows_to A fs fs'"
  by (simp add: grows_to_def)

lemma grows_to_trans: "grows_to A fs fs1 \<Longrightarrow> grows_to B fs1 fs2 \<Longrightarrow> prefix A B \<Longrightarrow> grows_to B fs fs2"
  unfolding grows_to_def by (metis prefix_order.trans)

lemma grows_to_dirs: "grows_to A fs fs' \<Longrightarrow> real_dirs fs cur cs \<Longrightarrow> real_dirs fs' cur cs"
proof (induction cs arbitrary: cur)
  case (Cons c cs)
  then have "node_at fs' (cur @ [c]) = node_at fs (cur @ [c])"
    by (metis grows_to_def is_dir_simps(2) real_dirs.simps(2))
  with Cons show ?case by simp
qed simp

lemma with_fault_cases:
  assumes "with_fault ev f fs = (res, fs')"
  obtains (fault) "res = Inl HFault" "fs' = step_fs fs" | (call) "f (step_fs fs) = (res, fs')"
proof (cases "env_io ev (hf_step fs) = None")
  case True
  with assms show thesis by (intro call) (simp add: with_fault_def)
next
  case False
  with assms have "(res, fs') = (Inl HFault, step_fs fs)" by (simp add: with_fault_def)
  then show thesis by (intro fault) simp_all
qed

lemma make_entry_real:
  assumes "real_dirs fs [] A" "list_all plain_comp A" "make_entry (A @ [x]) nd fs = (res, fs')"
  shows "(res = Inr () \<and> node_at fs (A @ [x]) = None \<and> (\<forall>q. node_at fs' q = (if q = A @ [x] then Some nd else node_at fs q))) \<or>
    (\<exists>e. res = Inl e \<and> fs' = fs \<and> node_at fs (A @ [x]) \<noteq> None)"
  using assms(3) by (auto simp: make_entry_def locate_entry_real [OF assms(1,2)] host_simps split: if_splits)

text \<open>
  \<open>MkdirAll\<close> on a path without links on its way only adds directories on it, also when it fails;
  afterwards the path runs through real directories.
\<close>

lemma real_dirs_cong:
  "(\<And>q. prefix q (cur @ cs) \<Longrightarrow> node_at fs' q = node_at fs q) \<Longrightarrow> real_dirs fs' cur cs = real_dirs fs cur cs"
proof (induction cs arbitrary: cur)
  case (Cons c cs)
  have "real_dirs fs' (cur @ [c]) cs = real_dirs fs (cur @ [c]) cs"
    by (rule Cons.IH) (use Cons.prems in simp)
  moreover have "node_at fs' (cur @ [c]) = node_at fs (cur @ [c])" by (rule Cons.prems) simp
  ultimately show ?case by simp
qed simp

lemma real_dirs_step [simp]: "real_dirs (step_fs fs) cur cs = real_dirs fs cur cs"
  by (rule real_dirs_cong) simp

lemma walkable_step [simp]: "walkable (step_fs fs) cur cs = walkable fs cur cs"
  by (induction cs arbitrary: cur) auto

lemma mkdir_all_rev_grows:
  assumes "mkdir_all_rev ev perm rp fs = (res, fs')" "walkable fs [] (rev rp)" "list_all plain_comp (rev rp)"
  shows "grows_to (rev rp) fs fs' \<and> (res = Inr () \<longrightarrow> real_dirs fs' [] (rev rp))"
  using assms
proof (induction rp arbitrary: fs res fs')
  case Nil
  then show ?case
    by (auto simp: mkdir_all_rev.simps [of _ _ "[]"] os_stat_def with_fault_def split: if_splits prod.splits sum.splits)
next
  case (Cons c rest)
  let ?A = "rev rest @ [c]"
  obtain r1 fs1 where st: "os_stat ev ?A fs = (r1, fs1)" by fastforce
  have fs1: "fs1 = step_fs fs" using st by (auto simp: os_stat_def with_fault_def split: if_splits)
  have wr: "walkable fs [] (rev rest)" using Cons.prems(2) walkable_prefix by simp
  show ?case
  proof (cases r1)
    case (Inr nd)
    obtain q where q: "locate max_links (step_fs fs) [] ?A = Inr q" "node_at fs q = Some nd"
      using st Inr by (auto simp: os_stat_def with_fault_def look_target_def result_simps split: if_splits option.splits)
    have "real_dirs fs [] ?A" if "is_dir (Some nd)"
      using locate_walkable [OF _ _ q(1)] Cons.prems(2,3) q(2) that by simp
    then show ?thesis using Cons.prems(1) st Inr fs1
      by (auto simp: mkdir_all_rev.simps [of _ _ "c # rest"] split: if_splits)
  next
    case (Inl e)
    obtain r2 fs2 where mk: "mkdir_all_rev ev perm rest fs1 = (r2, fs2)" by fastforce
    have ih: "grows_to (rev rest) fs1 fs2" "r2 = Inr () \<Longrightarrow> real_dirs fs2 [] (rev rest)"
      using Cons.IH [OF mk] wr Cons.prems(3) fs1 by auto
    have g2: "grows_to ?A fs fs2"
      by (rule grows_to_trans [OF _ _ prefix_order.refl, of _ _ fs1])
         (use ih(1) fs1 in \<open>auto simp: grows_to_def\<close>)
    show ?thesis
    proof (cases r2)
      case (Inl e2)
      then have "res = Inl e2 \<and> fs' = fs2" using Cons.prems(1) st mk \<open>r1 = Inl e\<close>
        by (simp add: mkdir_all_rev.simps [of _ _ "c # rest"])
      then show ?thesis using g2 by simp
    next
      case (Inr u)
      have rd: "real_dirs fs2 [] (rev rest)" using ih(2) Inr by simp
      have pl: "list_all plain_comp (rev rest)" using Cons.prems(3) by simp
      obtain r3 fs3 where md: "os_mkdir ev perm ?A fs2 = (r3, fs3)" by fastforce
      have g3: "grows_to ?A fs2 fs3 \<and> (r3 = Inr () \<longrightarrow> is_dir (node_at fs3 ?A))"
        using md [unfolded os_mkdir_def]
      proof (cases rule: with_fault_cases)
        case call
        then show ?thesis using make_entry_real [OF _ pl call] rd by (auto simp: grows_to_def split: if_splits)
      qed auto
      have g: "grows_to ?A fs fs3" using grows_to_trans [OF g2] g3 by blast
      have rd3: "real_dirs fs3 [] (rev rest)" using grows_to_dirs g3 rd by blast
      show ?thesis
      proof (cases r3)
        case (Inr u3)
        then show ?thesis using Cons.prems(1) st mk md g g3 rd3 \<open>r1 = Inl e\<close> \<open>r2 = Inr u\<close>
          by (simp add: mkdir_all_rev.simps [of _ _ "c # rest"])
      next
        case (Inl e3)
        obtain r4 fs4 where lk: "with_fault ev (\<lambda>fs. (look_entry fs ?A, fs)) fs3 = (r4, fs4)" by fastforce
        have fs4: "fs4 = step_fs fs3" using lk by (auto simp: with_fault_def split: if_splits)
        have "is_dir (node_at fs3 ?A)" if "r4 = Inr nd" "is_dir (Some nd)" for nd
          using lk that look_entry_real [of "step_fs fs3" "rev rest" c] rd3 pl
          by (auto simp: with_fault_def split: if_splits option.splits)
        moreover have "grows_to ?A fs fs4" using g fs4 by (simp add: grows_to_def)
        ultimately show ?thesis using Cons.prems(1) st mk md lk rd3 fs4 \<open>r1 = Inl e\<close> \<open>r2 = Inr u\<close> Inl
          by (auto simp: mkdir_all_rev.simps [of _ _ "c # rest"] split: sum.splits if_splits)
      qed
    qed
  qed
qed

subsection \<open>Frames of the calls on an entry of a real directory\<close>

text \<open>Only the node \<open>p\<close> changes, and new nodes appear on the way to it.\<close>

definition frame_at :: "string list \<Rightarrow> host_fs \<Rightarrow> host_fs \<Rightarrow> bool" where
  "frame_at p fs fs' \<longleftrightarrow> (\<forall>q. node_at fs' q \<noteq> node_at fs q \<longrightarrow> q = p \<or> (prefix q p \<and> node_at fs q = None))"

lemma frame_at_trans: "frame_at p fs fs1 \<Longrightarrow> frame_at p fs1 fs2 \<Longrightarrow> frame_at p fs fs2"
  unfolding frame_at_def by metis

lemma frame_at_step [simp]: "frame_at p fs (step_fs fs)" "frame_at p (step_fs fs) fs' = frame_at p fs fs'"
  by (simp_all add: frame_at_def)

lemma frame_at_refl [simp]: "frame_at p fs fs"
  by (simp add: frame_at_def)

lemma frame_at_put [simp]:
  "frame_at p fs (put_node p nd fs)" "frame_at p fs (drop_node p fs)"
  "frame_at p fs (put_node p nd (step_fs fs))" "frame_at p fs (drop_node p (step_fs fs))"
  by (simp_all add: frame_at_def host_simps)

lemma grows_to_frame: "grows_to A fs fs' \<Longrightarrow> prefix A p \<Longrightarrow> frame_at p fs fs'"
  unfolding grows_to_def frame_at_def by (meson prefix_order.trans)

lemma frame_at_dirs:
  assumes "frame_at p fs fs'" "real_dirs fs [] A" "\<not> prefix p A"
  shows "real_dirs fs' [] A"
proof -
  have "node_at fs' q = node_at fs q" if "prefix q A" for q
    using assms real_dirs_prefix [OF assms(2) that] that unfolding frame_at_def by (metis is_dir_simps(2))
  then show ?thesis using real_dirs_cong [of "[]" A fs' fs] assms(2) by simp
qed

definition real_entry :: "host_fs \<Rightarrow> string list \<Rightarrow> string \<Rightarrow> bool" where
  "real_entry fs A x \<longleftrightarrow> real_dirs fs [] A \<and> list_all plain_comp A \<and> plain_comp x"

lemma real_entryD:
  "real_entry fs A x \<Longrightarrow> real_dirs fs [] A" "real_entry fs A x \<Longrightarrow> list_all plain_comp A" "real_entry fs A x \<Longrightarrow> plain_comp x"
  by (simp_all add: real_entry_def)

lemma comps_real: "real_entry fs A x \<Longrightarrow> path_comps (abs_path (A @ [x])) = A @ [x]"
  by (simp add: path_comps_abs_path real_entry_def)

lemma lstat_real:
  assumes re: "real_entry fs A x" and "os_lstat ev (abs_path (A @ [x])) fs = (res, fs')"
  shows "fs' = step_fs fs \<and> (res = Inl HFault \<or> res = (case node_at fs (A @ [x]) of None \<Rightarrow> Inl HNoEntry | Some nd \<Rightarrow> Inr nd))"
  using assms look_entry_real [of "step_fs fs" A x] real_entryD [OF re]
  by (auto simp: os_lstat_def with_fault_def comps_real [OF re] split: if_splits)

lemma mkdir_all_real:
  assumes re: "real_entry fs A x" and "os_mkdir_all ev perm (abs_path (A @ [x])) fs = (res, fs')" "\<not> is_link (node_at fs (A @ [x]))"
  shows "grows_to (A @ [x]) fs fs' \<and> (res = Inr () \<longrightarrow> real_dirs fs' [] (A @ [x]))"
proof -
  have "walkable fs [] (A @ [x])" using assms(3) real_entryD [OF re] by (simp add: walkable_append)
  moreover have "list_all plain_comp (rev (rev (A @ [x])))" using real_entryD [OF re] by simp
  ultimately show ?thesis
    using mkdir_all_rev_grows [OF assms(2) [unfolded os_mkdir_all_def comps_real [OF re]]] by simp
qed

lemma symlink_real:
  assumes re: "real_entry fs A x" and "os_symlink ev target (abs_path (A @ [x])) fs = (res, fs')"
  shows "frame_at (A @ [x]) fs fs' \<and> (res = Inr () \<longrightarrow> node_at fs' (A @ [x]) = Some (HLink target))"
  using assms(2) [unfolded os_symlink_def comps_real [OF re]]
proof (cases rule: with_fault_cases)
  case call
  have "real_dirs (step_fs fs) [] A" using real_entryD [OF re] by simp
  from make_entry_real [OF this real_entryD(2) [OF re] call] show ?thesis by (auto simp: frame_at_def split: if_splits)
qed simp

lemma remove_real:
  assumes re: "real_entry fs A x" and "os_remove ev (abs_path (A @ [x])) fs = (res, fs')"
  shows "frame_at (A @ [x]) fs fs' \<and> (node_at fs' (A @ [x]) = None \<or> node_at fs' (A @ [x]) = node_at fs (A @ [x])) \<and>
    (res \<noteq> Inl HFault \<and> \<not> is_dir (node_at fs (A @ [x])) \<longrightarrow> node_at fs' (A @ [x]) = None)"
  using assms(2) [unfolded os_remove_def comps_real [OF re]]
proof (cases rule: with_fault_cases)
  case call
  have "locate_entry (step_fs fs) (A @ [x]) = Inr (A @ [x])" using locate_entry_real real_entryD [OF re] by simp
  with call show ?thesis by (auto simp: remove_entry_def host_simps split: if_splits)
qed simp

lemma create_real:
  assumes re: "real_entry fs A x" and "os_create ev perm (abs_path (A @ [x])) fs = (res, fs')" "node_at fs (A @ [x]) = None"
  shows "(\<exists>e. res = Inl e \<and> fs' = step_fs fs) \<or> (res = Inr ((A @ [x]), perm) \<and> fs' = put_node (A @ [x]) (HFile perm [] None) (step_fs fs))"
  using assms(2) [unfolded os_create_def comps_real [OF re]]
proof (cases rule: with_fault_cases)
  case call
  have "locate max_links (step_fs fs) [] (A @ [x]) = Inr (A @ [x])" using locate_real_entry [of "step_fs fs" A x max_links] real_entryD [OF re] assms(3) by simp
  with call assms(3) show ?thesis by (simp add: open_target_def)
qed simp

lemma chtimes_real:
  assumes re: "real_entry fs A x" and "os_chtimes ev (abs_path (A @ [x])) t fs = (res, fs')" "\<not> is_link (node_at fs (A @ [x]))"
  shows "frame_at (A @ [x]) fs fs' \<and> (is_dir (node_at fs (A @ [x])) \<longrightarrow> is_dir (node_at fs' (A @ [x]))) \<and>
    (\<forall>m d u. node_at fs (A @ [x]) = Some (HFile m d u) \<longrightarrow> node_at fs' (A @ [x]) = Some (HFile m d (if res = Inr () then Some t else u)))"
  using assms(2) [unfolded os_chtimes_def comps_real [OF re]]
proof (cases rule: with_fault_cases)
  case call
  have "locate max_links (step_fs fs) [] (A @ [x]) = Inr (A @ [x])" using locate_real_entry [of "step_fs fs" A x max_links] real_entryD [OF re] assms(3) by simp
  with call assms(3) show ?thesis
    by (auto simp: set_times_def host_simps is_dir_cases split: option.splits host_node.splits)
qed simp

end
