(* ===== verification/RestoreTree.thy ===== *)
theory RestoreTree
  imports ManifestCheck HostFs "HOL-Library.List_Lexorder"
begin

text \<open>
  \<open>internal/httpapi/restore.go\<close>: the view of a snapshot as a tree, the archive of a directory, and
  the restore of an entry or a directory below one of the configured restore roots, with the checks
  that keep it from writing through symbolic links. The host file system is the one of \<open>HostFs\<close>;
  the environment \<open>evr\<close> decides about the calls of \<open>os.Remove\<close>, whose errors the code ignores.
\<close>

subsection \<open>Paths of entries\<close>

fun has_dotdot_part :: "string list \<Rightarrow> bool" where
  "has_dotdot_part [] = False"
| "has_dotdot_part (part # parts) = (part = ''..'' \<or> has_dotdot_part parts)"

definition clean_entry_path :: "string \<Rightarrow> string option" where
  "clean_entry_path raw0 =
     (let raw = trim_space raw0
      in if raw = [] \<or> raw = ''.'' \<or> raw = [slash] then Some ''.''
         else let raw' = trim_prefix [slash] raw
              in if has_dotdot_part (split_char slash raw') then None
                 else let cleaned = clean_path raw' in if cleaned = ''.'' \<or> cleaned = [] then Some ''.'' else Some cleaned)"

definition safe_download_char :: "char \<Rightarrow> char" where
  "safe_download_char c = (if c = slash \<or> c = CHR 0x5C \<or> c = CHR 0x3A \<or> c = CHR 0x00 then CHR 0x2D else c)"

definition safe_download_name :: "string \<Rightarrow> string \<Rightarrow> string" where
  "safe_download_name entry_path fallback =
     (if entry_path = ''.'' \<or> entry_path = [] then fallback
      else let b = map safe_download_char (path_base entry_path) in if b = ''.'' \<or> b = [] then fallback else b)"

definition manifest_relative :: "string \<Rightarrow> string \<Rightarrow> string option" where
  "manifest_relative dir entry_path =
     (if dir = ''.'' then (if entry_path = ''.'' then Some [] else Some entry_path)
      else if prefix (dir @ [slash]) entry_path then Some (drop (length dir + 1) entry_path) else None)"

definition has_manifest_descendant :: "snapshot_manifest \<Rightarrow> string \<Rightarrow> bool" where
  "has_manifest_descendant m dir \<longleftrightarrow>
     list_ex (\<lambda>e. manifest_relative dir (fe_path e) \<noteq> None \<and> fe_path e \<noteq> dir) (sm_entries m)"

subsection \<open>The tree view\<close>

record tree_entry =
  te_path :: string
  te_name :: string
  te_type :: entry_type
  te_size :: int
  te_mode :: u32
  te_mtime :: int
  te_link :: string
  te_synthetic :: bool

definition tree_entry_from_manifest :: "file_entry \<Rightarrow> string \<Rightarrow> bool \<Rightarrow> tree_entry" where
  "tree_entry_from_manifest e name0 synthetic =
     (let name1 = (if name0 = [] then path_base (fe_path e) else name0);
          name = (if fe_path e = ''.'' then ''.'' else name1)
      in \<lparr>te_path = fe_path e, te_name = name, te_type = (if fe_type e = EntryPackedFile then EntryFile else fe_type e),
          te_size = fe_size e, te_mode = fe_mode e, te_mtime = fe_mtime e, te_link = fe_link e, te_synthetic = synthetic\<rparr>)"

definition child_name :: "string \<Rightarrow> string" where
  "child_name rel = takeWhile (\<lambda>c. c \<noteq> slash) rel"

definition child_path :: "string \<Rightarrow> string \<Rightarrow> string" where
  "child_path dir name = (if dir = ''.'' then name else dir @ slash # name)"

text \<open>The map of the children by path, in the order in which they were first met.\<close>

definition add_child :: "string \<Rightarrow> (string \<times> tree_entry) list \<Rightarrow> file_entry \<Rightarrow> (string \<times> tree_entry) list" where
  "add_child dir children e =
     (if fe_path e = dir then children
      else (case manifest_relative dir (fe_path e) of
         None \<Rightarrow> children
       | Some rel \<Rightarrow>
           if rel = [] then children
           else let name = child_name rel; p = child_path dir name
                in if (case map_of children p of Some c \<Rightarrow> \<not> te_synthetic c | None \<Rightarrow> False) then children
                   else AList.update p
                     (if fe_path e = p then tree_entry_from_manifest e name False
                      else \<lparr>te_path = p, te_name = name, te_type = EntryDir, te_size = 0, te_mode = 0,
                            te_mtime = zero_time, te_link = [], te_synthetic = True\<rparr>)
                     children))"

text \<open>
  The comparison that the children are sorted with. It is no strict weak order (see
  \<open>child_less_no_order\<close>), so that the order \<open>sort.Slice\<close> gives is not determined by it, and the model
  leaves the children as they come.
\<close>

definition child_less :: "tree_entry \<Rightarrow> tree_entry \<Rightarrow> bool" where
  "child_less a b =
     (if te_type a \<noteq> te_type b then te_type a = EntryDir else bytes_of (te_path a) < bytes_of (te_path b))"

definition child_map :: "snapshot_manifest \<Rightarrow> string \<Rightarrow> (string \<times> tree_entry) list" where
  "child_map m dir = foldl (add_child dir) [] (sm_entries m)"

datatype tree_reply = TreeNotFound string | TreeNotDir string | TreeChildren string "tree_entry list"

text \<open>What \<open>handleSnapshotTree\<close> answers for a clean path; the children come in some order.\<close>

definition snapshot_tree :: "snapshot_manifest \<Rightarrow> string \<Rightarrow> tree_reply" where
  "snapshot_tree m p =
     (case manifest_find m p of
        None \<Rightarrow> if has_manifest_descendant m p then TreeChildren p (map snd (child_map m p)) else TreeNotFound p
      | Some e \<Rightarrow> if fe_type e \<noteq> EntryDir then TreeNotDir p else TreeChildren p (map snd (child_map m p)))"

subsection \<open>File contents and archives\<close>

text \<open>\<open>writeFileEntry\<close> writes to an arbitrary writer: whether a write succeeds, and the writer after it.\<close>

type_synonym 'w writer = "bytes \<Rightarrow> 'w \<Rightarrow> bool \<times> 'w"

fun write_entry_chunks ::
    "env \<Rightarrow> 'db repo_deps \<Rightarrow> 'w writer \<Rightarrow> chunk_ref list \<Rightarrow> 'db repo \<times> 'w \<Rightarrow> restore_error option \<times> 'db repo \<times> 'w" where
  "write_entry_chunks ev d wr [] (s, w) = (None, s, w)"
| "write_entry_chunks ev d wr (ref # refs) (s, w) =
     (case check_ctx ev s of
        (Inl e, s1) \<Rightarrow> (Some (RsRepo e), s1, w)
      | (Inr u, s1) \<Rightarrow>
          (case read_chunk_ref ev d ref s1 of
             (Inl e, s2) \<Rightarrow> (Some (RsRepo e), s2, w)
           | (Inr data, s2) \<Rightarrow>
               (case wr data w of
                  (False, w1) \<Rightarrow> (Some RsWriteFailed, s2, w1)
                | (True, w1) \<Rightarrow> write_entry_chunks ev d wr refs (s2, w1))))"

definition write_file_entry ::
    "env \<Rightarrow> 'db repo_deps \<Rightarrow> 'w writer \<Rightarrow> snapshot_manifest \<Rightarrow> file_entry \<Rightarrow> 'db repo \<times> 'w \<Rightarrow>
     restore_error option \<times> 'db repo \<times> 'w" where
  "write_file_entry ev d wr m e = (\<lambda>(s, w).
     if fe_type e = EntryFile then write_entry_chunks ev d wr (fe_chunks e) (s, w)
     else if fe_type e = EntryPackedFile then
       (case read_packed_file ev d (Some m) e s of
          (Inl err, s1) \<Rightarrow> (Some (RsRepo err), s1, w)
        | (Inr data, s1) \<Rightarrow> (case wr data w of (ok, w1) \<Rightarrow> (if ok then None else Some RsWriteFailed, s1, w1)))
     else (Some (RsUnsupportedType (fe_type e)), s, w))"

text \<open>A file as writer: the number of the next call and the content.\<close>

definition file_writer :: "env \<Rightarrow> (nat \<times> bytes) writer" where
  "file_writer evf data = (\<lambda>(n, acc). case write_target evf n acc data of (ok, acc') \<Rightarrow> (ok, (Suc n, acc')))"

datatype tar_kind = TarDir | TarLink string | TarFile

record tar_header =
  th_name :: string
  th_mode :: u32
  th_size :: int
  th_mtime :: int
  th_uid :: int
  th_gid :: int
  th_kind :: tar_kind

datatype tar_error = TarUnsupported entry_type | TarShort | TarHeaderFailed | TarContent restore_error

text \<open>
  The archive so far, the newest member first. As in \<open>archive/tar\<close>, a header is refused while the
  member before it lacks bytes, and a member never gets more bytes than its header announces.
\<close>

record tar_state =
  ta_members :: "(tar_header \<times> bytes) list"
  ta_step :: nat

definition tar_complete :: "tar_header \<times> bytes \<Rightarrow> bool" where
  "tar_complete m = (int (length (snd m)) = th_size (fst m))"

definition tar_start :: "env \<Rightarrow> tar_header \<Rightarrow> tar_state \<Rightarrow> (tar_error + unit) \<times> tar_state" where
  "tar_start evf h t =
     (if \<not> (case ta_members t of [] \<Rightarrow> True | m # ms \<Rightarrow> tar_complete m) then (Inl TarShort, t)
      else if th_size h < 0 \<or> env_io evf (ta_step t) \<noteq> None then (Inl TarHeaderFailed, t\<lparr>ta_step := Suc (ta_step t)\<rparr>)
      else (Inr (), t\<lparr>ta_members := (h, []) # ta_members t, ta_step := Suc (ta_step t)\<rparr>))"

definition tar_write :: "env \<Rightarrow> tar_state writer" where
  "tar_write evf data t =
     (case ta_members t of
        [] \<Rightarrow> (data = [], t)
      | (h, b) # ms \<Rightarrow>
          (case write_target evf (ta_step t) b data of
             (ok, b') \<Rightarrow>
               (ok \<and> int (length b + length data) \<le> th_size h,
                t\<lparr>ta_members := (h, take (nat (th_size h)) b') # ms, ta_step := Suc (ta_step t)\<rparr>)))"

definition tar_header_of :: "file_entry \<Rightarrow> tar_error + tar_header" where
  "tar_header_of e =
     (let h = \<lparr>th_name = (if fe_path e = ''.'' then ''snapshot'' else fe_path e), th_mode = file_perm (fe_mode e),
               th_size = fe_size e, th_mtime = fe_mtime e, th_uid = fe_uid e, th_gid = fe_gid e, th_kind = TarFile\<rparr>
      in (case fe_type e of
            EntryDir \<Rightarrow> Inr (h\<lparr>th_kind := TarDir, th_size := 0\<rparr>)
          | EntrySymlink \<Rightarrow> Inr (h\<lparr>th_kind := TarLink (fe_link e), th_size := 0\<rparr>)
          | EntryFile \<Rightarrow> Inr h
          | EntryPackedFile \<Rightarrow> Inr h
          | EntryOther t \<Rightarrow> Inl (TarUnsupported (fe_type e))))"

definition write_tar_entry ::
    "env \<Rightarrow> env \<Rightarrow> 'db repo_deps \<Rightarrow> snapshot_manifest \<Rightarrow> file_entry \<Rightarrow> 'db repo \<times> tar_state \<Rightarrow>
     (tar_error + unit) \<times> 'db repo \<times> tar_state" where
  "write_tar_entry ev evf d m e = (\<lambda>(s, t).
     (case tar_header_of e of
        Inl err \<Rightarrow> (Inl err, s, t)
      | Inr h \<Rightarrow>
          (case tar_start evf h t of
             (Inl err, t1) \<Rightarrow> (Inl err, s, t1)
           | (Inr u, t1) \<Rightarrow>
               if fe_type e \<noteq> EntryFile \<and> fe_type e \<noteq> EntryPackedFile then (Inr (), s, t1)
               else (case write_file_entry ev d (tar_write evf) m e (s, t1) of
                  (Some err, s1, t2) \<Rightarrow> (Inl (TarContent err), s1, t2)
                | (None, s1, t2) \<Rightarrow> (Inr (), s1, t2)))))"

definition in_archive :: "string \<Rightarrow> file_entry \<Rightarrow> bool" where
  "in_archive dir e \<longleftrightarrow>
     \<not> (fe_path e = ''.'' \<and> dir = ''.'') \<and> (fe_path e = dir \<or> manifest_relative dir (fe_path e) \<noteq> None)"

fun write_directory_tar ::
    "env \<Rightarrow> env \<Rightarrow> 'db repo_deps \<Rightarrow> snapshot_manifest \<Rightarrow> string \<Rightarrow> file_entry list \<Rightarrow> 'db repo \<times> tar_state \<Rightarrow>
     (tar_error + unit) \<times> 'db repo \<times> tar_state" where
  "write_directory_tar ev evf d m dir [] st = (Inr (), st)"
| "write_directory_tar ev evf d m dir (e # es) st =
     (if \<not> in_archive dir e then write_directory_tar ev evf d m dir es st
      else sbind (write_tar_entry ev evf d m e st) (\<lambda>u st1. write_directory_tar ev evf d m dir es st1))"

subsection \<open>Restoring\<close>

datatype tree_error =
    RtTargetRequired
  | RtOutside string
  | RtRootFailed string host_error
  | RtParentStat string host_error
  | RtParentLink string
  | RtParentNotDir string
  | RtParentFailed string host_error
  | RtRel
  | RtTargetStat string host_error
  | RtTargetLink string
  | RtTargetDir string
  | RtDirFailed string host_error
  | RtLinkFailed string host_error
  | RtFileFailed string host_error
  | RtWriteFailed string restore_error
  | RtCloseFailed string
  | RtTimes string host_error
  | RtUnsupported entry_type

definition path_abs :: "string \<Rightarrow> string \<Rightarrow> string" where
  "path_abs cwd p = (if is_abs p then clean_path p else path_join cwd p)"

fun pick_restore_root ::
    "env \<Rightarrow> string \<Rightarrow> string list \<Rightarrow> string \<Rightarrow> string \<Rightarrow> host_fs \<Rightarrow> (tree_error + string \<times> string) \<times> host_fs" where
  "pick_restore_root evf cwd [] raw target fs = (Inl (RtOutside raw), fs)"
| "pick_restore_root evf cwd (root # roots) raw target fs =
     (let root_abs = path_abs cwd (clean_path root)
      in case path_rel root_abs target of
           None \<Rightarrow> pick_restore_root evf cwd roots raw target fs
         | Some rel \<Rightarrow>
             if rel = ''.'' \<or> (\<not> prefix (''..'' @ [slash]) rel \<and> rel \<noteq> ''..'')
             then (case os_mkdir_all evf 0x1E8 root_abs fs of
                     (Inl e, fs1) \<Rightarrow> (Inl (RtRootFailed root_abs e), fs1)
                   | (Inr u, fs1) \<Rightarrow> (Inr (target, root_abs), fs1))
             else pick_restore_root evf cwd roots raw target fs)"

definition resolve_restore_target ::
    "env \<Rightarrow> string \<Rightarrow> string list \<Rightarrow> string \<Rightarrow> host_fs \<Rightarrow> (tree_error + string \<times> string) \<times> host_fs" where
  "resolve_restore_target evf cwd roots raw0 fs =
     (let raw = trim_space raw0
      in if raw = [] then (Inl RtTargetRequired, fs)
         else pick_restore_root evf cwd roots raw (path_abs cwd (clean_path raw)) fs)"

fun check_parents :: "env \<Rightarrow> string \<Rightarrow> string list \<Rightarrow> host_fs \<Rightarrow> (tree_error + unit) \<times> host_fs" where
  "check_parents evf current [] fs = (Inr (), fs)"
| "check_parents evf current (part # parts) fs =
     (if part = [] \<or> part = ''.'' then check_parents evf current parts fs
      else let next = path_join current part
           in case os_lstat evf next fs of
                (Inl e, fs1) \<Rightarrow> if e = HNoEntry then (Inr (), fs1) else (Inl (RtParentStat next e), fs1)
              | (Inr nd, fs1) \<Rightarrow>
                  if is_link (Some nd) then (Inl (RtParentLink next), fs1)
                  else if \<not> is_dir (Some nd) then (Inl (RtParentNotDir next), fs1)
                  else check_parents evf next parts fs1)"

definition ensure_no_symlink_parents :: "env \<Rightarrow> string \<Rightarrow> string \<Rightarrow> host_fs \<Rightarrow> (tree_error + unit) \<times> host_fs" where
  "ensure_no_symlink_parents evf root target_parent fs =
     (case path_rel root target_parent of
        None \<Rightarrow> (Inl RtRel, fs)
      | Some rel \<Rightarrow> if rel = ''.'' then (Inr (), fs) else check_parents evf root (split_char slash rel) fs)"

definition ensure_restore_parent_safe :: "env \<Rightarrow> string \<Rightarrow> string \<Rightarrow> host_fs \<Rightarrow> (tree_error + unit) \<times> host_fs" where
  "ensure_restore_parent_safe evf root target fs =
     (let parent = path_dir target
      in sbind (ensure_no_symlink_parents evf root parent fs) (\<lambda>u fs1.
           (case os_mkdir_all evf 0x1E8 parent fs1 of
              (Inl e, fs2) \<Rightarrow> (Inl (RtParentFailed parent e), fs2)
            | (Inr u, fs2) \<Rightarrow> (Inr (), fs2))))"

definition ensure_target_not_symlink :: "env \<Rightarrow> string \<Rightarrow> host_fs \<Rightarrow> (tree_error + unit) \<times> host_fs" where
  "ensure_target_not_symlink evf target fs =
     (case os_lstat evf target fs of
        (Inl e, fs1) \<Rightarrow> if e = HNoEntry then (Inr (), fs1) else (Inl (RtTargetStat target e), fs1)
      | (Inr nd, fs1) \<Rightarrow> if is_link (Some nd) then (Inl (RtTargetLink target), fs1) else (Inr (), fs1))"

definition ensure_target_not_dir :: "env \<Rightarrow> string \<Rightarrow> host_fs \<Rightarrow> (tree_error + unit) \<times> host_fs" where
  "ensure_target_not_dir evf target fs =
     (case os_lstat evf target fs of
        (Inl e, fs1) \<Rightarrow> if e = HNoEntry then (Inr (), fs1) else (Inl (RtTargetStat target e), fs1)
      | (Inr nd, fs1) \<Rightarrow> if is_dir (Some nd) then (Inl (RtTargetDir target), fs1) else (Inr (), fs1))"

definition lift_host :: "(tree_error + 'a) \<times> host_fs \<Rightarrow> 'db repo \<Rightarrow> (tree_error + 'a) \<times> 'db repo \<times> host_fs" where
  "lift_host r s = (fst r, s, snd r)"

definition host_call :: "(host_error \<Rightarrow> tree_error) \<Rightarrow> (host_error + 'a) \<times> host_fs \<Rightarrow> (tree_error + 'a) \<times> host_fs" where
  "host_call f r = (case fst r of Inl e \<Rightarrow> Inl (f e) | Inr x \<Rightarrow> Inr x, snd r)"

definition restore_dir_entry :: "env \<Rightarrow> file_entry \<Rightarrow> string \<Rightarrow> host_fs \<Rightarrow> (tree_error + unit) \<times> host_fs" where
  "restore_dir_entry evf e target fs =
     sbind (ensure_target_not_symlink evf target fs) (\<lambda>u fs1.
     sbind (host_call (RtDirFailed target) (os_mkdir_all evf (file_perm (fe_mode e)) target fs1)) (\<lambda>u fs2.
       host_call (RtTimes target) (os_chtimes evf target (fe_mtime e) fs2)))"

definition restore_link_entry :: "env \<Rightarrow> env \<Rightarrow> file_entry \<Rightarrow> string \<Rightarrow> host_fs \<Rightarrow> (tree_error + unit) \<times> host_fs" where
  "restore_link_entry evf evr e target fs =
     host_call (RtLinkFailed target) (os_symlink evf (fe_link e) target (snd (os_remove evr target fs)))"

text \<open>The content goes to the opened file; closing can fail.\<close>

definition fill_file ::
    "env \<Rightarrow> env \<Rightarrow> 'db repo_deps \<Rightarrow> snapshot_manifest \<Rightarrow> file_entry \<Rightarrow> string \<Rightarrow> string list \<times> u32 \<Rightarrow>
     'db repo \<Rightarrow> host_fs \<Rightarrow> (tree_error + unit) \<times> 'db repo \<times> host_fs" where
  "fill_file ev evf d m e target = (\<lambda>(q, perm) s fs.
     (case write_file_entry ev d (file_writer evf) m e (s, hf_step fs, []) of
        (err, s1, n, data) \<Rightarrow>
          let fs1 = (put_node q (HFile perm data None) fs)\<lparr>hf_step := Suc n\<rparr>
          in (case err of
                Some e \<Rightarrow> (Inl (RtWriteFailed target e), s1, fs1)
              | None \<Rightarrow> if env_io evf n \<noteq> None then (Inl (RtCloseFailed target), s1, fs1) else (Inr (), s1, fs1))))"

definition restore_file_entry ::
    "env \<Rightarrow> env \<Rightarrow> env \<Rightarrow> 'db repo_deps \<Rightarrow> snapshot_manifest \<Rightarrow> file_entry \<Rightarrow> string \<Rightarrow> 'db repo \<times> host_fs \<Rightarrow>
     (tree_error + unit) \<times> 'db repo \<times> host_fs" where
  "restore_file_entry ev evf evr d m e target = (\<lambda>(s, fs).
     sbind (lift_host (ensure_target_not_dir evf target fs) s) (\<lambda>u (s, fs1).
     sbind (lift_host (host_call (RtFileFailed target)
              (os_create evf (file_perm (fe_mode e)) target (snd (os_remove evr target fs1)))) s) (\<lambda>opened (s, fs2).
     sbind (fill_file ev evf d m e target opened s fs2) (\<lambda>u (s, fs3).
       lift_host (host_call (RtTimes target) (os_chtimes evf target (fe_mtime e) fs3)) s))))"

definition restore_single_entry ::
    "env \<Rightarrow> env \<Rightarrow> env \<Rightarrow> 'db repo_deps \<Rightarrow> snapshot_manifest \<Rightarrow> file_entry \<Rightarrow> string \<Rightarrow> string \<Rightarrow> 'db repo \<times> host_fs \<Rightarrow>
     (tree_error + unit) \<times> 'db repo \<times> host_fs" where
  "restore_single_entry ev evf evr d m e target root = (\<lambda>(s, fs).
     sbind (lift_host (ensure_restore_parent_safe evf root target fs) s) (\<lambda>u (s, fs1).
       case fe_type e of
         EntryDir \<Rightarrow> lift_host (restore_dir_entry evf e target fs1) s
       | EntrySymlink \<Rightarrow> lift_host (restore_link_entry evf evr e target fs1) s
       | EntryFile \<Rightarrow> restore_file_entry ev evf evr d m e target (s, fs1)
       | EntryPackedFile \<Rightarrow> restore_file_entry ev evf evr d m e target (s, fs1)
       | EntryOther t \<Rightarrow> (Inl (RtUnsupported (fe_type e)), s, fs1)))"

definition restore_target :: "string \<Rightarrow> string \<Rightarrow> file_entry \<Rightarrow> string" where
  "restore_target entry_path target_path e =
     (let rel = (case manifest_relative entry_path (fe_path e) of None \<Rightarrow> [] | Some r \<Rightarrow> r)
      in if rel = [] then target_path else path_join target_path rel)"

definition in_restore :: "string \<Rightarrow> file_entry \<Rightarrow> bool" where
  "in_restore entry_path e \<longleftrightarrow> fe_path e = entry_path \<or> manifest_relative entry_path (fe_path e) \<noteq> None"

fun restore_entries ::
    "env \<Rightarrow> env \<Rightarrow> env \<Rightarrow> 'db repo_deps \<Rightarrow> snapshot_manifest \<Rightarrow> string \<Rightarrow> string \<Rightarrow> string \<Rightarrow> file_entry list \<Rightarrow>
     'db repo \<times> host_fs \<Rightarrow> (tree_error + unit) \<times> 'db repo \<times> host_fs" where
  "restore_entries ev evf evr d m entry_path target_path root [] st = (Inr (), st)"
| "restore_entries ev evf evr d m entry_path target_path root (e # es) st =
     (if \<not> in_restore entry_path e then restore_entries ev evf evr d m entry_path target_path root es st
      else sbind (restore_single_entry ev evf evr d m e (restore_target entry_path target_path e) root st)
             (\<lambda>u st1. restore_entries ev evf evr d m entry_path target_path root es st1))"

definition restore_entry ::
    "env \<Rightarrow> env \<Rightarrow> env \<Rightarrow> 'db repo_deps \<Rightarrow> snapshot_manifest \<Rightarrow> file_entry \<Rightarrow> string \<Rightarrow> string \<Rightarrow> string \<Rightarrow>
     'db repo \<times> host_fs \<Rightarrow> (tree_error + unit) \<times> 'db repo \<times> host_fs" where
  "restore_entry ev evf evr d m e entry_path target_path root st =
     (if fe_type e \<noteq> EntryDir then restore_single_entry ev evf evr d m e target_path root st
      else restore_entries ev evf evr d m entry_path target_path root (sm_entries m) st)"

subsection \<open>One entry\<close>

lemma host_call_Inr [simp]: "host_call f r = (Inr x, fs) \<longleftrightarrow> r = (Inr x, fs)"
  by (cases r) (auto simp: host_call_def split: sum.splits)

lemma snd_host_call [simp]: "snd (host_call f r) = snd r"
  by (simp add: host_call_def)

lemma host_call_state: "host_call f r = (res, fs') \<Longrightarrow> \<exists>r0. r = (r0, fs') \<and> (res = Inr y \<longrightarrow> r0 = Inr y)"
  by (cases r) (auto simp: host_call_def split: sum.splits)

lemma lift_host_eq [simp]: "lift_host r s = (res, s', fs') \<longleftrightarrow> r = (res, fs') \<and> s' = s"
  by (cases r) (auto simp: lift_host_def)

lemma sbind_cases:
  assumes "sbind m f = (res, t)"
  obtains (failed) e where "m = (Inl e, t)" "res = Inl e" | (ok) x s where "m = (Inr x, s)" "f x s = (res, t)"
  using assms by (cases "(m, f)" rule: sbind.cases) auto

lemma check_parents_spec:
  assumes "check_parents evf (abs_path cur) parts fs = (res, fs')" "real_dirs fs [] cur"
    "list_all plain_comp cur" "list_all plain_comp parts"
  shows "(\<forall>q. node_at fs' q = node_at fs q) \<and> (res = Inr () \<longrightarrow> walkable fs cur parts)"
  using assms
proof (induction parts arbitrary: cur fs)
  case Nil
  then show ?case by simp
next
  case (Cons part parts)
  have pc: "plain_comp part" using Cons.prems(4) by simp
  have ne: "\<not> (part = [] \<or> part = ''.'')" using pc by (auto simp: plain_comp_def)
  have join: "path_join (abs_path cur) part = abs_path (cur @ [part])"
    using path_join_abs [OF Cons.prems(3), of "[part]"] pc by simp
  have re: "real_entry fs cur part" using Cons.prems pc by (simp add: real_entry_def)
  obtain r fs1 where l: "os_lstat evf (abs_path (cur @ [part])) fs = (r, fs1)" by fastforce
  note ls = lstat_real [OF re l]
  show ?case
  proof (cases "is_dir (node_at fs (cur @ [part])) \<and> r \<noteq> Inl HFault")
    case True
    then obtain m t where nd: "node_at fs (cur @ [part]) = Some (HDir m t)" "r = Inr (HDir m t)"
      using ls by (auto simp: is_dir_cases)
    have "check_parents evf (abs_path (cur @ [part])) parts fs1 = (res, fs')"
      using Cons.prems(1) ne l join nd by (simp add: Let_def)
    from Cons.IH [OF this] Cons.prems pc ls nd show ?thesis
      by (auto simp: walkable_append)
  next
    case False
    then show ?thesis using Cons.prems(1) ne l join ls
      by (auto simp: Let_def is_dir_cases is_link_def split: option.splits host_node.splits if_splits)
  qed
qed

lemma ensure_parent_safe_spec:
  assumes "ensure_restore_parent_safe evf (abs_path R) (abs_path (R @ ps @ [x])) fs = (res, fs')"
    "real_dirs fs [] R" "list_all plain_comp (R @ ps @ [x])"
  shows "grows_to (R @ ps) fs fs' \<and> (res = Inr () \<longrightarrow> real_dirs fs' [] (R @ ps))"
proof -
  have pl: "list_all plain_comp R" "list_all plain_comp ps" "list_all plain_comp (R @ ps)" "plain_comp x" using assms(3) by auto
  have dir: "path_dir (abs_path (R @ ps @ [x])) = abs_path (R @ ps)" using path_dir_abs [OF pl(3,4)] by simp
  obtain r1 fs1 where c: "ensure_no_symlink_parents evf (abs_path R) (abs_path (R @ ps)) fs = (r1, fs1)" by fastforce
  have rel: "path_rel (abs_path R) (abs_path (R @ ps)) = Some (if ps = [] then ''.'' else join_char slash ps)"
    using path_rel_abs [OF pl(1,3)] .
  have nd: "ps \<noteq> [] \<Longrightarrow> join_char slash ps \<noteq> ''.''"
  proof
    assume "ps \<noteq> []" "join_char slash ps = ''.''"
    then have "ps = [''.'']" using split_join_plain [OF pl(2)] by (auto simp: slash_def)
    then show False using pl(2) by (simp add: plain_comp_def)
  qed
  have w: "(\<forall>q. node_at fs1 q = node_at fs q) \<and> (r1 = Inr () \<longrightarrow> walkable fs R ps)"
  proof (cases "ps = []")
    case True
    then show ?thesis using c rel by (simp add: ensure_no_symlink_parents_def)
  next
    case False
    then have "check_parents evf (abs_path R) ps fs = (r1, fs1)"
      using c rel nd split_join_plain [OF pl(2)] by (simp add: ensure_no_symlink_parents_def)
    from check_parents_spec [OF this assms(2) pl(1,2)] show ?thesis .
  qed
  show ?thesis
  proof (cases r1)
    case (Inl e)
    then show ?thesis using assms(1) c w dir by (auto simp: ensure_restore_parent_safe_def Let_def)
  next
    case (Inr u)
    have "walkable fs1 [] (R @ ps)"
    proof -
      have "real_dirs fs1 [] R" using real_dirs_cong [of "[]" R fs1 fs] w assms(2) by simp
      moreover have "walkable fs1 R ps"
      proof -
        have "walkable fs1 cur cs = walkable fs cur cs" for cur cs using w by (induction cs arbitrary: cur) auto
        then show ?thesis using w Inr by simp
      qed
      ultimately show ?thesis by (simp add: walkable_append)
    qed
    moreover obtain r2 fs2 where mk: "os_mkdir_all evf 0x1E8 (abs_path (R @ ps)) fs1 = (r2, fs2)" by fastforce
    moreover have "mkdir_all_rev evf 0x1E8 (rev (R @ ps)) fs1 = (r2, fs2)"
      using mk path_comps_abs_path [OF pl(3)] by (simp add: os_mkdir_all_def)
    ultimately have "grows_to (R @ ps) fs1 fs2 \<and> (r2 = Inr () \<longrightarrow> real_dirs fs2 [] (R @ ps))"
      using mkdir_all_rev_grows [of evf "0x1E8" "rev (R @ ps)" fs1 r2 fs2] pl(3) by simp
    then show ?thesis using assms(1) c w dir Inr mk
      by (auto simp: ensure_restore_parent_safe_def Let_def grows_to_def split: sum.splits)
  qed
qed

text \<open>The content a file is restored with.\<close>

definition content_of :: "'db repo_deps \<Rightarrow> snapshot_manifest \<Rightarrow> file_entry \<Rightarrow> 'db repo \<Rightarrow> bytes \<Rightarrow> bool" where
  "content_of d m e s data \<longleftrightarrow>
     (if fe_type e = EntryFile then \<exists>xs. list_all2 (repo_reads d s) (fe_chunks e) xs \<and> data = concat xs
      else \<exists>ev s1. same_store s s1 \<and> fst (read_packed_file ev d (Some m) e s1) = Inr data)"

definition delivered :: "'db repo_deps \<Rightarrow> snapshot_manifest \<Rightarrow> file_entry \<Rightarrow> 'db repo \<Rightarrow> host_node option \<Rightarrow> bool" where
  "delivered d m e s nd \<longleftrightarrow>
     (case fe_type e of
        EntryDir \<Rightarrow> is_dir nd
      | EntrySymlink \<Rightarrow> nd = Some (HLink (fe_link e))
      | _ \<Rightarrow> \<exists>data. nd = Some (HFile (file_perm (fe_mode e)) data (Some (fe_mtime e))) \<and> content_of d m e s data)"

lemma file_writer_apply:
  "file_writer evf data (n, acc) = (case write_target evf n acc data of (ok, acc') \<Rightarrow> (ok, (Suc n, acc')))"
  by (simp add: file_writer_def)

lemma write_target_ok: "write_target evf n acc data = (True, acc') \<Longrightarrow> acc' = acc @ data"
  by (auto simp: write_target_def split: option.splits)

lemma write_entry_chunks_spec:
  "write_entry_chunks ev d (file_writer evf) refs (s, n, acc) = (err, s', n', data) \<Longrightarrow>
   same_store s s' \<and> (err = None \<longrightarrow> (\<exists>xs. list_all2 (repo_reads d s) refs xs \<and> data = acc @ concat xs))"
proof (induction refs arbitrary: s n acc)
  case Nil
  then show ?case by auto
next
  case (Cons ref refs)
  obtain r s1 where c: "check_ctx ev s = (r, s1)" by fastforce
  have ss1: "same_store s s1" using check_ctx_same [of s ev] c by simp
  show ?case
  proof (cases r)
    case (Inl e)
    then show ?thesis using Cons.prems c ss1 by auto
  next
    case (Inr u)
    obtain r2 s2 where rd: "read_chunk_ref ev d ref s1 = (r2, s2)" by fastforce
    have ss2: "same_store s s2" using same_store_trans [OF ss1] read_chunk_ref_same [of s1 ev d ref] rd by simp
    show ?thesis
    proof (cases r2)
      case (Inl e)
      then show ?thesis using Cons.prems c Inr rd ss2 by auto
    next
      case (Inr x)
      have x: "repo_reads d s ref x"
        using read_chunk_ref_Inr [OF rd [unfolded Inr]] ss1 by (simp add: repo_reads_def same_store_fields)
      obtain ok acc1 where wt: "write_target evf n acc x = (ok, acc1)" by fastforce
      show ?thesis
      proof (cases ok)
        case False
        then show ?thesis using Cons.prems c \<open>r = Inr u\<close> rd Inr wt ss2 by (auto simp: file_writer_apply)
      next
        case True
        then have "write_entry_chunks ev d (file_writer evf) refs (s2, Suc n, acc @ x) = (err, s', n', data)"
          using Cons.prems c \<open>r = Inr u\<close> rd Inr wt write_target_ok [of evf n acc x acc1] by (simp add: file_writer_apply)
        note ih = Cons.IH [OF this]
        have "same_store s s'" using same_store_trans [OF ss2] ih by blast
        moreover have "\<exists>xs. list_all2 (repo_reads d s) (ref # refs) xs \<and> data = acc @ concat xs" if none: "err = None"
        proof -
          obtain xs where xs: "list_all2 (repo_reads d s2) refs xs" "data = (acc @ x) @ concat xs" using ih none by blast
          then have "list_all2 (repo_reads d s) refs xs"
            using same_store_reads [OF ss2] by (auto elim: list.rel_mono_strong)
          then show ?thesis using x xs(2) by (intro exI [of _ "x # xs"]) simp
        qed
        ultimately show ?thesis by blast
      qed
    qed
  qed
qed

lemma write_file_entry_spec:
  assumes "write_file_entry ev d (file_writer evf) m e (s, n, []) = (err, s', n', data)"
  shows "same_store s s' \<and> (err = None \<longrightarrow> content_of d m e s data \<and> (fe_type e = EntryFile \<or> fe_type e = EntryPackedFile))"
proof (cases "fe_type e = EntryFile")
  case True
  then show ?thesis using assms write_entry_chunks_spec [of ev d evf "fe_chunks e" s n "[]" err s' n' data]
    by (simp add: write_file_entry_def content_of_def)
next
  case False
  show ?thesis
  proof (cases "fe_type e = EntryPackedFile")
    case True
    obtain r s1 where rp: "read_packed_file ev d (Some m) e s = (r, s1)" by fastforce
    have ss: "same_store s s1" using read_packed_file_same [of s ev d "Some m" e] rp by simp
    show ?thesis
    proof (cases r)
      case (Inl er)
      then show ?thesis using assms True rp ss by (auto simp: write_file_entry_def)
    next
      case (Inr x)
      obtain ok acc where wt: "write_target evf n [] x = (ok, acc)" by fastforce
      have c: "s' = s1" "data = acc" "(err = None) = ok"
        using assms True rp Inr wt by (auto simp: write_file_entry_def file_writer_apply split: if_splits)
      have "content_of d m e s x"
        unfolding content_of_def using True rp Inr by (auto intro!: exI [of _ ev] exI [of _ s])
      then show ?thesis using c ss True write_target_ok [of evf n "[]" x acc] wt by auto
    qed
  next
    case False
    then show ?thesis using assms \<open>fe_type e \<noteq> EntryFile\<close> by (auto simp: write_file_entry_def)
  qed
qed

lemma target_not_link_spec:
  assumes "real_entry fs A x" "ensure_target_not_symlink evf (abs_path (A @ [x])) fs = (res, fs')"
  shows "fs' = step_fs fs \<and> (res = Inr () \<longrightarrow> \<not> is_link (node_at fs (A @ [x])))"
proof -
  obtain r fs1 where l: "os_lstat evf (abs_path (A @ [x])) fs = (r, fs1)" by fastforce
  show ?thesis using lstat_real [OF assms(1) l] assms(2) l
    by (auto simp: ensure_target_not_symlink_def split: sum.splits if_splits option.splits)
qed

lemma target_not_dir_spec:
  assumes "real_entry fs A x" "ensure_target_not_dir evf (abs_path (A @ [x])) fs = (res, fs')"
  shows "fs' = step_fs fs \<and> (res = Inr () \<longrightarrow> \<not> is_dir (node_at fs (A @ [x])))"
proof -
  obtain r fs1 where l: "os_lstat evf (abs_path (A @ [x])) fs = (r, fs1)" by fastforce
  show ?thesis using lstat_real [OF assms(1) l] assms(2) l
    by (auto simp: ensure_target_not_dir_def split: sum.splits if_splits option.splits)
qed

lemma real_entry_frame:
  assumes "frame_at (A @ [x]) fs fs'" "real_entry fs A x"
  shows "real_entry fs' A x"
  using frame_at_dirs [OF assms(1)] assms(2) by (auto simp: real_entry_def prefix_def)

lemma restore_dir_spec:
  assumes re: "real_entry fs A x" and "restore_dir_entry evf e (abs_path (A @ [x])) fs = (res, fs')"
  shows "frame_at (A @ [x]) fs fs' \<and> (res = Inr () \<longrightarrow> is_dir (node_at fs' (A @ [x])))"
  using assms(2) [unfolded restore_dir_entry_def]
proof (cases rule: sbind_cases)
  case (failed err)
  then show ?thesis using target_not_link_spec [OF re failed(1)] by simp
next
  case (ok u fs1)
  have n1: "fs1 = step_fs fs" "\<not> is_link (node_at fs (A @ [x]))" using target_not_link_spec [OF re ok(1)] by auto
  have re1: "real_entry fs1 A x" using re n1 by (simp add: real_entry_def)
  have nl1: "\<not> is_link (node_at fs1 (A @ [x]))" using n1 by simp
  from ok(2) show ?thesis
  proof (cases rule: sbind_cases)
    case (failed err)
    obtain r where "os_mkdir_all evf (file_perm (fe_mode e)) (abs_path (A @ [x])) fs1 = (r, fs')"
      using host_call_state [OF failed(1)] by blast
    from mkdir_all_real [OF re1 this nl1] failed(2) n1 show ?thesis
      using grows_to_frame [of "A @ [x]" fs1 fs' "A @ [x]"] by simp
  next
    case (ok u2 fs2)
    then have mk: "os_mkdir_all evf (file_perm (fe_mode e)) (abs_path (A @ [x])) fs1 = (Inr (), fs2)" by simp
    have g: "frame_at (A @ [x]) fs fs2" and rd: "real_dirs fs2 [] (A @ [x])"
      using mkdir_all_real [OF re1 mk nl1] grows_to_frame [of "A @ [x]" fs1 fs2 "A @ [x]"] n1 by auto
    have re2: "real_entry fs2 A x" using rd re by (simp add: real_entry_def)
    have nd: "is_dir (node_at fs2 (A @ [x]))" using real_dirs_last [OF rd] .
    then have nl: "\<not> is_link (node_at fs2 (A @ [x]))" by (auto simp: is_dir_cases)
    obtain r where "os_chtimes evf (abs_path (A @ [x])) (fe_mtime e) fs2 = (r, fs')"
      using host_call_state [OF ok(2)] by blast
    from chtimes_real [OF re2 this nl] nd show ?thesis using frame_at_trans [OF g] by simp
  qed
qed

lemma restore_link_spec:
  assumes re: "real_entry fs A x" and "restore_link_entry evf evr e (abs_path (A @ [x])) fs = (res, fs')"
  shows "frame_at (A @ [x]) fs fs' \<and> (res = Inr () \<longrightarrow> node_at fs' (A @ [x]) = Some (HLink (fe_link e)))"
proof -
  obtain r1 fs1 where rm: "os_remove evr (abs_path (A @ [x])) fs = (r1, fs1)" by fastforce
  have f1: "frame_at (A @ [x]) fs fs1" using remove_real [OF re rm] by blast
  obtain r2 fs2 where sl: "os_symlink evf (fe_link e) (abs_path (A @ [x])) fs1 = (r2, fs2)" by fastforce
  from symlink_real [OF real_entry_frame [OF f1 re] sl] have s: "frame_at (A @ [x]) fs1 fs2"
      "r2 = Inr () \<longrightarrow> node_at fs2 (A @ [x]) = Some (HLink (fe_link e))" by auto
  have "fs' = fs2" "res = Inr () \<longrightarrow> r2 = Inr ()"
    using assms(2) rm sl by (auto simp: restore_link_entry_def host_call_def split: sum.splits)
  then show ?thesis using s frame_at_trans [OF f1 s(1)] by blast
qed

lemma restore_file_spec:
  assumes re: "real_entry fs A x" and ty: "fe_type e = EntryFile \<or> fe_type e = EntryPackedFile"
    and evr: "\<And>n. env_io evr n = None"
    and r: "restore_file_entry ev evf evr d m e (abs_path (A @ [x])) (s, fs) = (res, s', fs')"
  shows "frame_at (A @ [x]) fs fs' \<and> same_store s s' \<and>
    (res = Inr () \<longrightarrow> (\<exists>data. node_at fs' (A @ [x]) = Some (HFile (file_perm (fe_mode e)) data (Some (fe_mtime e))) \<and>
       content_of d m e s data))"
proof -
  let ?p = "A @ [x]"
  obtain r1 fs1 where t: "ensure_target_not_dir evf (abs_path ?p) fs = (r1, fs1)" by fastforce
  have n1: "fs1 = step_fs fs" "r1 = Inr () \<Longrightarrow> \<not> is_dir (node_at fs ?p)" using target_not_dir_spec [OF re t] by auto
  show ?thesis
  proof (cases r1)
    case (Inl err)
    then show ?thesis using r t n1 by (auto simp: restore_file_entry_def lift_host_def)
  next
    case (Inr u)
    have re1: "real_entry fs1 A x" using re n1 by (simp add: real_entry_def)
    obtain r2 fs2 where rm: "os_remove evr (abs_path ?p) fs1 = (r2, fs2)" by fastforce
    have nf: "r2 \<noteq> Inl HFault"
      using rm evr real_entryD [OF re1] by (auto simp: os_remove_def with_fault_def remove_entry_def comps_real [OF re1]
          locate_entry_real split: if_splits)
    have f2: "frame_at ?p fs fs2" and none: "node_at fs2 ?p = None"
      using remove_real [OF re1 rm] n1 Inr nf by auto
    have re2: "real_entry fs2 A x" by (rule real_entry_frame [OF f2 re])
    obtain r3 fs3 where cr: "os_create evf (file_perm (fe_mode e)) (abs_path ?p) fs2 = (r3, fs3)" by fastforce
    show ?thesis
      using create_real [OF re2 cr none]
    proof (elim disjE exE conjE)
      fix err assume e: "r3 = Inl err" "fs3 = step_fs fs2"
      then have "res = Inl (RtFileFailed (abs_path ?p) err)" "s' = s" "fs' = fs3"
        using r t Inr rm cr by (auto simp: restore_file_entry_def lift_host_def host_call_def)
      then show ?thesis using f2 e by (auto intro: frame_at_trans)
    next
      assume o: "r3 = Inr (?p, file_perm (fe_mode e))" "fs3 = put_node ?p (HFile (file_perm (fe_mode e)) [] None) (step_fs fs2)"
      obtain r4 s4 fs4 where ff: "fill_file ev evf d m e (abs_path ?p) (?p, file_perm (fe_mode e)) s fs3 = (r4, s4, fs4)"
        by (metis prod_cases3)
      obtain err n data where w: "write_file_entry ev d (file_writer evf) m e (s, hf_step fs3, []) = (err, s4, n, data)"
        and fs4: "\<forall>q. node_at fs4 q = node_at (put_node ?p (HFile (file_perm (fe_mode e)) data None) fs3) q"
        and r4: "r4 = Inr () \<Longrightarrow> err = None"
        using ff by (auto simp: fill_file_def Let_def node_at_def split: prod.splits option.splits if_splits)
      note wf = write_file_entry_spec [OF w]
      have f4: "frame_at ?p fs fs4"
        using f2 fs4 o(2) by (auto simp: frame_at_def host_simps)
      have nd4: "node_at fs4 ?p = Some (HFile (file_perm (fe_mode e)) data None)" using fs4 by (simp add: host_simps)
      show ?thesis
      proof (cases r4)
        case (Inl er)
        then have "res = Inl er" "s' = s4" "fs' = fs4"
          using r t \<open>r1 = Inr u\<close> rm cr o(1) ff by (auto simp: restore_file_entry_def lift_host_def host_call_def)
        then show ?thesis using f4 wf by simp
      next
        case (Inr u4)
        obtain r5 where ct: "os_chtimes evf (abs_path ?p) (fe_mtime e) fs4 = (r5, fs')" "s' = s4" "res = Inr () \<longrightarrow> r5 = Inr ()"
          using r t \<open>r1 = Inr u\<close> rm cr o(1) ff Inr
          by (cases "os_chtimes evf (abs_path ?p) (fe_mtime e) fs4")
             (auto simp: restore_file_entry_def lift_host_def host_call_def split: sum.splits)
        have "\<not> is_link (node_at fs4 ?p)" using nd4 by simp
        from chtimes_real [OF real_entry_frame [OF f4 re] ct(1) this] have c: "frame_at ?p fs4 fs'"
          "node_at fs' ?p = Some (HFile (file_perm (fe_mode e)) data (if r5 = Inr () then Some (fe_mtime e) else None))"
          using nd4 by auto
        show ?thesis using frame_at_trans [OF f4 c(1)] c(2) ct wf r4 Inr by auto
      qed
    qed
  qed
qed

lemma restore_single_spec:
  assumes rd: "real_dirs fs [] R" and pl: "list_all plain_comp (R @ ps @ [x])"
    and evr: "\<And>n. env_io evr n = None"
    and r: "restore_single_entry ev evf evr d m e (abs_path (R @ ps @ [x])) (abs_path R) (s, fs) = (res, s', fs')"
  shows "frame_at (R @ ps @ [x]) fs fs' \<and> same_store s s' \<and> real_dirs fs' [] R \<and>
    (res = Inr () \<longrightarrow> delivered d m e s (node_at fs' (R @ ps @ [x])))"
proof -
  let ?p = "(R @ ps) @ [x]"
  obtain r1 fs1 where pa: "ensure_restore_parent_safe evf (abs_path R) (abs_path ?p) fs = (r1, fs1)" by fastforce
  have g: "grows_to (R @ ps) fs fs1" "r1 = Inr () \<Longrightarrow> real_dirs fs1 [] (R @ ps)"
    using ensure_parent_safe_spec [OF _ rd pl, of evf r1 fs1] pa by auto
  have f1: "frame_at ?p fs fs1" using grows_to_frame [OF g(1)] by simp
  have main: "frame_at ?p fs fs' \<and> same_store s s' \<and> (res = Inr () \<longrightarrow> delivered d m e s (node_at fs' ?p))"
  proof (cases r1)
    case (Inl er)
    then show ?thesis using r pa f1 by (auto simp: restore_single_entry_def lift_host_def)
  next
    case (Inr u)
    have re: "real_entry fs1 (R @ ps) x" using g(2) Inr pl by (simp add: real_entry_def)
    show ?thesis
    proof (cases "fe_type e")
      case EntryDir
      then have "restore_dir_entry evf e (abs_path ?p) fs1 = (res, fs')" "s' = s"
        using r pa Inr by (auto simp: restore_single_entry_def lift_host_def)
      from restore_dir_spec [OF re this(1)] this(2) EntryDir show ?thesis
        using frame_at_trans [OF f1] by (simp add: delivered_def)
    next
      case EntrySymlink
      then have "restore_link_entry evf evr e (abs_path ?p) fs1 = (res, fs')" "s' = s"
        using r pa Inr by (auto simp: restore_single_entry_def lift_host_def)
      from restore_link_spec [OF re this(1)] this(2) EntrySymlink show ?thesis
        using frame_at_trans [OF f1] by (simp add: delivered_def)
    next
      case EntryFile
      then have "restore_file_entry ev evf evr d m e (abs_path ?p) (s, fs1) = (res, s', fs')"
        using r pa Inr by (simp add: restore_single_entry_def lift_host_def)
      from restore_file_spec [OF re _ evr this] EntryFile show ?thesis
        using frame_at_trans [OF f1] by (simp add: delivered_def)
    next
      case EntryPackedFile
      then have "restore_file_entry ev evf evr d m e (abs_path ?p) (s, fs1) = (res, s', fs')"
        using r pa Inr by (simp add: restore_single_entry_def lift_host_def)
      from restore_file_spec [OF re _ evr this] EntryPackedFile show ?thesis
        using frame_at_trans [OF f1] by (simp add: delivered_def)
    next
      case (EntryOther t)
      then show ?thesis using r pa Inr f1 by (auto simp: restore_single_entry_def lift_host_def)
    qed
  qed
  have "real_dirs fs' [] R"
    by (rule frame_at_dirs [OF main [THEN conjunct1] rd]) (auto simp: prefix_def)
  with main show ?thesis by simp
qed

subsection \<open>A whole restore\<close>

definition manifest_path_ok :: "string \<Rightarrow> bool" where
  "manifest_path_ok p \<longleftrightarrow> p = ''.'' \<or> list_all plain_comp (split_char slash p)"

definition target_comps :: "string \<Rightarrow> file_entry \<Rightarrow> string list" where
  "target_comps entry_path e =
     (case manifest_relative entry_path (fe_path e) of None \<Rightarrow> [] | Some r \<Rightarrow> if r = [] then [] else split_char slash r)"

lemma split_char_mid: "split_char c (a @ c # b) = split_char c a @ split_char c b"
  by (induction a) (auto split: list.splits)

lemma manifest_relative_split:
  assumes "manifest_relative ep p = Some r" "manifest_path_ok p" "ep \<noteq> ''.''"
  shows "p = ep @ slash # r" "list_all plain_comp (split_char slash r)" "r \<noteq> []"
proof -
  show p: "p = ep @ slash # r" using assms(1,3) by (auto simp: manifest_relative_def prefix_def split: if_splits)
  then have "p \<noteq> ''.''" by (cases ep) (auto simp: slash_def)
  then have "list_all plain_comp (split_char slash p)" using assms(2) by (simp add: manifest_path_ok_def)
  then show l: "list_all plain_comp (split_char slash r)" unfolding p split_char_mid by simp
  then show "r \<noteq> []" by (auto simp: plain_comp_def)
qed

lemma target_comps_plain: "manifest_path_ok (fe_path e) \<Longrightarrow> list_all plain_comp (target_comps ep e)"
proof (cases "manifest_relative ep (fe_path e)")
  case (Some r)
  assume ok: "manifest_path_ok (fe_path e)"
  show ?thesis
  proof (cases "ep = ''.''")
    case True
    then show ?thesis using Some ok by (auto simp: target_comps_def manifest_relative_def manifest_path_ok_def split: if_splits)
  next
    case False
    then show ?thesis using manifest_relative_split [OF Some ok] Some by (simp add: target_comps_def)
  qed
qed (simp add: target_comps_def)

lemma restore_target_abs:
  assumes "manifest_path_ok (fe_path e)" "list_all plain_comp T"
  shows "restore_target ep (abs_path T) e = abs_path (T @ target_comps ep e)"
proof (cases "manifest_relative ep (fe_path e)")
  case None
  then show ?thesis by (simp add: restore_target_def target_comps_def)
next
  case (Some r)
  have "path_join (abs_path T) r = abs_path (T @ split_char slash r)" if "r \<noteq> []"
    using path_join_abs [OF assms(2), of "split_char slash r"] target_comps_plain [OF assms(1), of ep] Some that
    by (simp add: target_comps_def)
  then show ?thesis using Some by (auto simp: restore_target_def target_comps_def)
qed

lemma target_comps_inj:
  assumes "target_comps ep e = target_comps ep e'" "in_restore ep e" "in_restore ep e'"
    "manifest_path_ok (fe_path e)" "manifest_path_ok (fe_path e')"
  shows "fe_path e = fe_path e'"
proof -
  have known: "fe_path a = (if target_comps ep a = [] then ep
      else if ep = ''.'' then join_char slash (target_comps ep a) else ep @ slash # join_char slash (target_comps ep a))"
    if a: "in_restore ep a" "manifest_path_ok (fe_path a)" for a
  proof (cases "manifest_relative ep (fe_path a)")
    case None
    then show ?thesis using a by (simp add: in_restore_def target_comps_def)
  next
    case (Some r)
    show ?thesis
    proof (cases "ep = ''.''")
      case True
      then show ?thesis using Some a
        by (auto simp: manifest_relative_def target_comps_def manifest_path_ok_def plain_comp_def split: if_splits)
    next
      case False
      then show ?thesis using manifest_relative_split [OF Some a(2) False] Some by (simp add: target_comps_def)
    qed
  qed
  show ?thesis by (simp only: known [OF assms(2,4)] known [OF assms(3,5)] assms(1))
qed

lemma delivered_same:
  assumes "same_store s t" "delivered d m e t nd"
  shows "delivered d m e s nd"
proof -
  have rr: "repo_reads d t = repo_reads d s" using same_store_reads [OF assms(1)] by blast
  have "content_of d m e s data" if "content_of d m e t data" for data
  proof (cases "fe_type e = EntryFile")
    case True
    then show ?thesis using that rr by (simp add: content_of_def)
  next
    case False
    then show ?thesis using that same_store_trans [OF assms(1)] unfolding content_of_def by (simp only: if_False) blast
  qed
  then show ?thesis using assms(2) by (auto simp: delivered_def split: entry_type.splits)
qed

text \<open>Nothing outside the directory \<open>R\<close> has changed, nor \<open>R\<close> itself.\<close>

definition same_outside :: "string list \<Rightarrow> host_fs \<Rightarrow> host_fs \<Rightarrow> bool" where
  "same_outside R fs fs' \<longleftrightarrow> (\<forall>q. \<not> strict_prefix R q \<longrightarrow> node_at fs' q = node_at fs q)"

lemma same_outside_refl [simp]: "same_outside R fs fs"
  by (simp add: same_outside_def)

lemma same_outside_trans: "same_outside R fs fs1 \<Longrightarrow> same_outside R fs1 fs2 \<Longrightarrow> same_outside R fs fs2"
  by (simp add: same_outside_def)

lemma frame_at_outside:
  assumes f: "frame_at (R @ ps @ [x]) fs fs'" and rd: "real_dirs fs [] R"
  shows "same_outside R fs fs'"
proof -
  have "strict_prefix R q" if ch: "node_at fs' q \<noteq> node_at fs q" for q
  proof -
    have c: "q = R @ ps @ [x] \<or> (prefix q (R @ ps @ [x]) \<and> node_at fs q = None)" using f ch by (simp add: frame_at_def)
    have "node_at fs q = None \<Longrightarrow> \<not> prefix q R" using real_dirs_prefix [OF rd] by fastforce
    then show ?thesis using c prefix_same_cases [of q "R @ ps @ [x]" R]
      by (auto simp: strict_prefix_def)
  qed
  then show ?thesis by (auto simp: same_outside_def)
qed

lemma snoc_of: "xs \<noteq> [] \<Longrightarrow> \<exists>ps x. xs = ps @ [x]"
  by (cases xs rule: rev_cases) auto

lemma restore_entries_spec:
  assumes "restore_entries ev evf evr d m ep (abs_path (R @ t # ts)) (abs_path R) es (s, fs) = (res, s', fs')"
    "real_dirs fs [] R" "list_all plain_comp (R @ t # ts)" "\<And>n. env_io evr n = None"
    "\<forall>e \<in> set es. manifest_path_ok (fe_path e)"
  shows "same_outside R fs fs' \<and> same_store s s' \<and>
    (\<forall>q. node_at fs q \<noteq> None \<longrightarrow> (\<forall>e \<in> set es. in_restore ep e \<longrightarrow> q \<noteq> R @ t # ts @ target_comps ep e) \<longrightarrow>
       node_at fs' q = node_at fs q) \<and>
    (res = Inr () \<longrightarrow> distinct (map fe_path es) \<longrightarrow>
       (\<forall>e \<in> set es. in_restore ep e \<longrightarrow> delivered d m e s (node_at fs' (R @ t # ts @ target_comps ep e))))"
  using assms
proof (induction es arbitrary: s fs)
  case Nil
  then show ?case by simp
next
  case (Cons e es)
  show ?case
  proof (cases "in_restore ep e")
    case False
    then have "restore_entries ev evf evr d m ep (abs_path (R @ t # ts)) (abs_path R) es (s, fs) = (res, s', fs')"
      using Cons.prems(1) by simp
    from Cons.IH [OF this Cons.prems(2-4)] Cons.prems(5) False show ?thesis by simp
  next
    case True
    let ?P = "R @ t # ts @ target_comps ep e"
    have ok: "manifest_path_ok (fe_path e)" using Cons.prems(5) by simp
    have tg: "restore_target ep (abs_path (R @ t # ts)) e = abs_path ?P"
      using restore_target_abs [OF ok Cons.prems(3)] by simp
    obtain ps x where psx: "t # ts @ target_comps ep e = ps @ [x]" using snoc_of by blast
    have pl: "list_all plain_comp (R @ ps @ [x])"
      using Cons.prems(3) target_comps_plain [OF ok, of ep] unfolding psx [symmetric] by simp
    obtain r1 s1 fs1 where one: "restore_single_entry ev evf evr d m e (abs_path ?P) (abs_path R) (s, fs) = (r1, s1, fs1)"
      by (metis prod_cases3)
    note sp = restore_single_spec [OF Cons.prems(2) pl Cons.prems(4) one [unfolded psx]]
    have out1: "same_outside R fs fs1" using frame_at_outside [OF sp [THEN conjunct1] Cons.prems(2)] .
    have keep1: "node_at fs1 q = node_at fs q" if "node_at fs q \<noteq> None" "q \<noteq> ?P" for q
    proof (rule ccontr)
      assume "node_at fs1 q \<noteq> node_at fs q"
      then have "q = R @ ps @ [x] \<or> prefix q (R @ ps @ [x]) \<and> node_at fs q = None"
        using sp [THEN conjunct1, unfolded frame_at_def, rule_format, of q] by blast
      then show False using that psx by simp
    qed
    show ?thesis
    proof (cases r1)
      case (Inl er)
      then have "res = Inl er" "s' = s1" "fs' = fs1" using Cons.prems(1) True one tg by simp_all
      then show ?thesis using out1 sp keep1 True by simp
    next
      case (Inr u)
      have rest: "restore_entries ev evf evr d m ep (abs_path (R @ t # ts)) (abs_path R) es (s1, fs1) = (res, s', fs')"
        using Cons.prems(1) True one tg Inr by simp
      have rd1: "real_dirs fs1 [] R" using sp by blast
      have es: "\<forall>e \<in> set es. manifest_path_ok (fe_path e)" using Cons.prems(5) by simp
      note ih = Cons.IH [OF rest rd1 Cons.prems(3,4) es]
      have dl: "delivered d m e s (node_at fs1 ?P)" using sp Inr unfolding psx by simp
      have ss: "same_store s s1" using sp by blast
      have dl_ne: "node_at fs1 ?P \<noteq> None" using dl
        by (auto simp: delivered_def is_dir_cases split: entry_type.splits)
      have here: "delivered d m e s (node_at fs' ?P)" if dist: "distinct (map fe_path (e # es))"
      proof -
        have "?P \<noteq> R @ t # ts @ target_comps ep a" if "a \<in> set es" "in_restore ep a" for a
          using target_comps_inj [OF _ True that(2) ok] es that(1) dist by fastforce
        then have "node_at fs' ?P = node_at fs1 ?P" using ih dl_ne by blast
        then show ?thesis using dl by simp
      qed
      have "same_outside R fs fs'" using same_outside_trans [OF out1 ih [THEN conjunct1]] .
      moreover have "same_store s s'" using same_store_trans [OF ss] ih by blast
      moreover have "node_at fs' q = node_at fs q"
        if "node_at fs q \<noteq> None" "\<forall>e \<in> set (e # es). in_restore ep e \<longrightarrow> q \<noteq> R @ t # ts @ target_comps ep e" for q
      proof -
        have "node_at fs1 q = node_at fs q" using keep1 that True by simp
        then show ?thesis using ih [THEN conjunct2, THEN conjunct2, THEN conjunct1] that by simp
      qed
      moreover have "\<forall>a \<in> set (e # es). in_restore ep a \<longrightarrow> delivered d m a s (node_at fs' (R @ t # ts @ target_comps ep a))"
        if ok: "res = Inr ()" and dist: "distinct (map fe_path (e # es))"
      proof -
        have "\<forall>a \<in> set es. in_restore ep a \<longrightarrow> delivered d m a s1 (node_at fs' (R @ t # ts @ target_comps ep a))"
          using ih [THEN conjunct2, THEN conjunct2, THEN conjunct2] ok dist by simp
        then show ?thesis using here [OF dist] delivered_same [OF ss] by simp
      qed
      ultimately show ?thesis by blast
    qed
  qed
qed

lemma path_rel_below:
  assumes A: "list_all plain_comp A" and C: "list_all plain_comp C"
    and rel: "path_rel (abs_path A) (abs_path C) = Some rel"
    and ok: "rel = ''.'' \<or> (\<not> prefix (''..'' @ [slash]) rel \<and> rel \<noteq> ''..'')"
  shows "\<exists>xs. C = A @ xs"
proof -
  obtain br tr where s: "strip_common A C = (br, tr)" by fastforce
  obtain q where q: "A = q @ br" "C = q @ tr" using strip_common_spec [OF s] by blast
  show ?thesis
  proof (cases br)
    case Nil
    then show ?thesis using q by auto
  next
    case (Cons b bs)
    have ne: "abs_path C \<noteq> abs_path A"
    proof
      assume "abs_path C = abs_path A"
      then have "C = A" using path_comps_abs_path A C by metis
      then have "br = []" using strip_common_prefix [of A "[]"] s by simp
      then show False using Cons by simp
    qed
    have nd: "abs_path A \<noteq> ''.''" by (simp add: abs_path_def slash_def)
    have up: "''..'' \<noteq> (''.'' :: string)" by simp
    have r: "rel = join_char slash (replicate (length br) ''..'' @ tr)"
      using rel ne nd A C s clean_abs_path path_comps_abs_path Cons by (simp add: path_rel_def Let_def split: if_splits)
    have "False"
    proof (cases "replicate (length bs) ''..'' @ tr")
      case Nil
      then have "rel = ''..''" using r Cons by simp
      then show False using ok up by simp
    next
      case (Cons y ys)
      then have "rel = ''..'' @ slash # join_char slash (y # ys)" using r \<open>br = b # bs\<close> by simp
      then show False using ok by (auto simp: prefix_def)
    qed
    then show ?thesis ..
  qed
qed

lemma path_abs_comps:
  assumes "is_abs cwd"
  obtains cs where "list_all plain_comp cs" "path_abs cwd p = abs_path cs"
proof -
  have "is_abs (path_abs cwd p) \<and> clean_path (path_abs cwd p) = path_abs cwd p"
  proof (cases "is_abs p")
    case False
    then have "path_abs cwd p = clean_path (cwd @ slash # p)" using assms by (auto simp: path_abs_def path_join_def is_abs_def)
    moreover have "is_abs (cwd @ slash # p)" using assms by (auto simp: is_abs_def)
    ultimately show ?thesis by simp
  qed (simp add: path_abs_def)
  then obtain cs where "comps_ok True cs" "path_abs cwd p = slash # join_char slash cs"
    using clean_abs_cases by metis
  then show thesis by (intro that) (simp_all add: comps_ok_plain abs_path_def)
qed

lemma pick_restore_root_below:
  assumes "pick_restore_root evf cwd roots raw (abs_path T) fs = (Inr (target, root), fs')" "is_abs cwd" "list_all plain_comp T"
  shows "\<exists>R xs. target = abs_path (R @ xs) \<and> root = abs_path R \<and> T = R @ xs \<and> list_all plain_comp (R @ xs)"
  using assms(1)
proof (induction roots arbitrary: fs)
  case (Cons r roots)
  obtain R where R: "list_all plain_comp R" "path_abs cwd (clean_path r) = abs_path R"
    using path_abs_comps [OF assms(2)] by blast
  show ?case
  proof (cases "\<exists>rel. path_rel (abs_path R) (abs_path T) = Some rel \<and> (rel = ''.'' \<or> \<not> prefix (''..'' @ [slash]) rel \<and> rel \<noteq> ''..'')")
    case True
    then obtain rel where rel: "path_rel (abs_path R) (abs_path T) = Some rel"
      "rel = ''.'' \<or> \<not> prefix (''..'' @ [slash]) rel \<and> rel \<noteq> ''..''" by blast
    obtain xs where xs: "T = R @ xs" using path_rel_below [OF R(1) assms(3) rel] by blast
    have "target = abs_path T \<and> root = abs_path R"
      using Cons.prems rel R(2) by (auto simp: Let_def split: prod.splits sum.splits if_splits)
    then show ?thesis using xs assms(3) by auto
  next
    case False
    then have "pick_restore_root evf cwd roots raw (abs_path T) fs = (Inr (target, root), fs')"
      using Cons.prems R(2) by (auto simp: Let_def split: option.splits if_splits)
    then show ?thesis by (rule Cons.IH)
  qed
qed simp

lemma resolve_below:
  assumes "resolve_restore_target evf cwd roots raw fs = (Inr (target, root), fs')" "is_abs cwd" "target \<noteq> root"
  obtains R t ts where "target = abs_path (R @ t # ts)" "root = abs_path R" "list_all plain_comp (R @ t # ts)"
    "path_comps root = R" "path_comps target = R @ t # ts"
proof -
  obtain T where T: "list_all plain_comp T" "path_abs cwd (clean_path (trim_space raw)) = abs_path T"
    using path_abs_comps [OF assms(2)] by blast
  have "pick_restore_root evf cwd roots (trim_space raw) (abs_path T) fs = (Inr (target, root), fs')"
    using assms(1) T(2) by (simp add: resolve_restore_target_def Let_def split: if_splits)
  from pick_restore_root_below [OF this assms(2) T(1)] obtain R xs where
    R: "target = abs_path (R @ xs)" "root = abs_path R" "list_all plain_comp (R @ xs)" by blast
  then obtain t ts where xs: "xs = t # ts" using assms(3) by (cases xs) auto
  show thesis
    using R unfolding xs by (intro that [of R t ts]) (simp_all add: path_comps_abs_path)
qed

lemma restore_entry_spec:
  assumes "restore_entry ev evf evr d m e ep (abs_path (R @ t # ts)) (abs_path R) (s, fs) = (res, s', fs')"
    "real_dirs fs [] R" "list_all plain_comp (R @ t # ts)" "\<And>n. env_io evr n = None"
    "\<forall>e \<in> set (sm_entries m). manifest_path_ok (fe_path e)"
  shows "same_outside R fs fs' \<and> same_store s s'"
proof (cases "fe_type e = EntryDir")
  case True
  then have "restore_entries ev evf evr d m ep (abs_path (R @ t # ts)) (abs_path R) (sm_entries m) (s, fs) = (res, s', fs')"
    using assms(1) by (simp add: restore_entry_def)
  from restore_entries_spec [OF this assms(2-5)] show ?thesis by blast
next
  case False
  obtain ps x where psx: "t # ts = ps @ [x]" using snoc_of by blast
  have "restore_single_entry ev evf evr d m e (abs_path (R @ ps @ [x])) (abs_path R) (s, fs) = (res, s', fs')"
    using assms(1) False psx by (simp add: restore_entry_def)
  note sp = restore_single_spec [OF assms(2) assms(3) [unfolded psx] assms(4) this]
  show ?thesis using frame_at_outside [OF sp [THEN conjunct1] assms(2)] sp by blast
qed

subsection \<open>Properties\<close>



subsection \<open>Concrete restores\<close>

definition plain_entry :: "string \<Rightarrow> entry_type \<Rightarrow> string \<Rightarrow> chunk_ref list \<Rightarrow> file_entry" where
  "plain_entry p ty link refs =
     \<lparr>fe_path = p, fe_type = ty, fe_size = int (length refs), fe_mode = 0x1A4, fe_uid = 0, fe_gid = 0,
      fe_mtime = 7, fe_link = link, fe_chunks = refs, fe_pack = None\<rparr>"

definition tree_manifest :: "file_entry list \<Rightarrow> snapshot_manifest" where
  "tree_manifest es = \<lparr>sm_id = ''run-1'', sm_created = 0, sm_source_type = ''agent'', sm_source_root = ''/home'',
     sm_source_roots = [], sm_packs = [], sm_entries = es\<rparr>"

definition small_host :: host_fs where
  "small_host = \<lparr>hf_nodes = [([''srv''], HDir 0x1ED None), ([''srv'', ''restore''], HDir 0x1E8 None),
     ([''etc''], HDir 0x1ED None), ([''etc'', ''passwd''], HFile 0x1A4 [1, 2] None)], hf_step = 0\<rparr>"

definition resolved :: "(tree_error + string \<times> string) \<times> host_fs" where
  "resolved = resolve_restore_target good_env ''/'' [''/srv/restore''] ''/srv/restore/out'' small_host"

lemma resolved_ok:
  "resolve_restore_target good_env ''/'' [''/srv/restore''] ''/srv/restore/out'' small_host =
     (Inr (''/srv/restore/out'', ''/srv/restore''), snd resolved)"
proof -
  have "fst resolved = Inr (''/srv/restore/out'', ''/srv/restore'')" by code_simp
  then show ?thesis unfolding resolved_def by (metis prod.collapse)
qed

lemma resolved_dirs: "real_dirs (snd resolved) [] (path_comps ''/srv/restore'')"
  by code_simp

text \<open>A snapshot with the link \<open>d\<close> to \<open>/etc\<close> and a file \<open>d/passwd\<close> behind it.\<close>

definition hostile_manifest :: snapshot_manifest where
  "hostile_manifest = tree_manifest
     [plain_entry ''.'' EntryDir [] [], plain_entry ''d'' EntrySymlink ''/etc'' [], plain_entry ''d/passwd'' EntryFile [] []]"

lemma hostile_paths: "\<forall>e \<in> set (sm_entries hostile_manifest). manifest_path_ok (fe_path e)"
  by code_simp


definition one_file_manifest :: "put_result list \<Rightarrow> snapshot_manifest" where
  "one_file_manifest rs = tree_manifest [plain_entry ''.'' EntryDir [] [], plain_entry ''a'' EntryFile [] (map pu_ref rs)]"


definition traversal_manifest :: snapshot_manifest where
  "traversal_manifest = tree_manifest [plain_entry ''.'' EntryDir [] [], plain_entry ''../../evil'' EntrySymlink ''/etc'' []]"


text \<open>
  The error of \<open>os.Remove\<close> is ignored before a file is created. When it fails on a symbolic link, the
  file is opened through the link.
\<close>

lemma failed_remove_follows_link:
  "case restore_single_entry good_env good_env (good_env\<lparr>env_io := (\<lambda>n. Some 0)\<rparr>) plain_deps (tree_manifest [])
          (plain_entry ''x'' EntryFile [] []) ''/srv/restore/x'' ''/srv/restore''
          (empty_repo, put_node [''srv'', ''restore'', ''x''] (HLink ''/etc/passwd'') small_host) of
     (res, s', fs') \<Rightarrow> res = Inr () \<and> node_at fs' [''etc'', ''passwd''] = Some (HFile 0x1A4 [] (Some 7))"
  by code_simp

text \<open>
  A target that is the root itself: a second \<open>.\<close> entry that is a link replaces the root directory, and
  the following file is written through it.
\<close>

lemma linked_root_is_followed:
  "case restore_entry good_env good_env good_env plain_deps
          (tree_manifest [plain_entry ''.'' EntryDir [] [], plain_entry ''.'' EntrySymlink ''/etc'' [],
             plain_entry ''passwd'' EntryFile [] []])
          (plain_entry ''.'' EntryDir [] []) ''.'' ''/srv/restore'' ''/srv/restore'' (empty_repo, small_host) of
     (res, s', fs') \<Rightarrow> res = Inr () \<and> node_at fs' [''etc'', ''passwd''] = Some (HFile 0x1A4 [] (Some 7))"
  by code_simp

text \<open>The comparison of the tree view is no strict weak order: incomparability is not transitive.\<close>

lemma child_less_no_order:
  "\<exists>a b c. \<not> child_less a b \<and> \<not> child_less b a \<and> \<not> child_less b c \<and> \<not> child_less c b \<and> child_less a c"
proof -
  let ?e = "\<lambda>p ty. tree_entry_from_manifest (plain_entry p ty [] []) p False"
  have "\<not> child_less (?e ''a'' EntryFile) (?e ''x'' EntrySymlink) \<and> \<not> child_less (?e ''x'' EntrySymlink) (?e ''a'' EntryFile) \<and>
      \<not> child_less (?e ''x'' EntrySymlink) (?e ''b'' EntryFile) \<and> \<not> child_less (?e ''b'' EntryFile) (?e ''x'' EntrySymlink) \<and>
      child_less (?e ''a'' EntryFile) (?e ''b'' EntryFile)"
    by code_simp
  then show ?thesis by blast
qed

end
