(* ===== verification/GoJson.thy ===== *)
theory GoJson
  imports GoStrings
begin

text \<open>
  \<open>json.Valid\<close> of the standard library: whether a byte string is one JSON value with white space
  around it. The parser returns the rest of the input; its fuel bounds the nesting, and the length of
  the input is always enough because every level consumes a bracket. The limit of 10000 levels that
  the standard library has is left out.
\<close>

definition json_space :: "char \<Rightarrow> bool" where
  "json_space c \<longleftrightarrow> c = CHR 0x20 \<or> c = CHR 0x09 \<or> c = CHR 0x0A \<or> c = CHR 0x0D"

definition skip_space :: "string \<Rightarrow> string" where
  "skip_space s = dropWhile json_space s"

definition hex_digit :: "char \<Rightarrow> bool" where
  "hex_digit c \<longleftrightarrow> is_digit c \<or> (97 \<le> char_code c \<and> char_code c \<le> 102) \<or> (65 \<le> char_code c \<and> char_code c \<le> 70)"

text \<open>The rest after the closing quote of a string.\<close>

fun json_chars :: "string \<Rightarrow> string option" where
  "json_chars [] = None"
| "json_chars (c # s) =
     (if c = CHR 0x22 then Some s
      else if char_code c < 32 then None
      else if c = CHR 0x5C then
        (case s of
           [] \<Rightarrow> None
         | e # s1 \<Rightarrow>
             if e \<in> {CHR 0x22, CHR 0x5C, CHR 0x2F, CHR ''b'', CHR ''f'', CHR ''n'', CHR ''r'', CHR ''t''} then json_chars s1
             else if e = CHR ''u'' then
               (case s1 of
                  a # b # g # d # s2 \<Rightarrow> if hex_digit a \<and> hex_digit b \<and> hex_digit g \<and> hex_digit d then json_chars s2 else None
                | _ \<Rightarrow> None)
             else None)
      else json_chars s)"

definition digits1 :: "string \<Rightarrow> string option" where
  "digits1 s = (case s of [] \<Rightarrow> None | c # r \<Rightarrow> if is_digit c then Some (dropWhile is_digit r) else None)"

definition json_integer :: "string \<Rightarrow> string option" where
  "json_integer s = (case s of [] \<Rightarrow> None | c # r \<Rightarrow> if c = CHR 0x30 then Some r else digits1 s)"

definition json_fraction :: "string \<Rightarrow> string option" where
  "json_fraction s = (case s of c # r \<Rightarrow> if c = CHR 0x2E then digits1 r else Some s | [] \<Rightarrow> Some s)"

definition json_exponent :: "string \<Rightarrow> string option" where
  "json_exponent s =
     (case s of
        c # r \<Rightarrow>
          if c = CHR ''e'' \<or> c = CHR ''E''
          then digits1 (case r of d # r2 \<Rightarrow> if d = CHR 0x2B \<or> d = CHR 0x2D then r2 else r | [] \<Rightarrow> r)
          else Some s
      | [] \<Rightarrow> Some s)"

definition json_number :: "string \<Rightarrow> string option" where
  "json_number s =
     Option.bind (json_integer (case s of c # r \<Rightarrow> if c = CHR 0x2D then r else s | [] \<Rightarrow> s)) (\<lambda>r.
     Option.bind (json_fraction r) json_exponent)"

definition json_word :: "string \<Rightarrow> string \<Rightarrow> string option" where
  "json_word w s = (if take (length w) s = w then Some (drop (length w) s) else None)"

fun json_value :: "nat \<Rightarrow> string \<Rightarrow> string option"
  and json_members :: "nat \<Rightarrow> bool \<Rightarrow> string \<Rightarrow> string option" where
  "json_value 0 s = None"
| "json_value (Suc n) s =
     (case s of
        [] \<Rightarrow> None
      | c # r \<Rightarrow>
          if c = CHR 0x22 then json_chars r
          else if c = CHR 0x7B then
            (case skip_space r of d # r2 \<Rightarrow> if d = CHR 0x7D then Some r2 else json_members n True (skip_space r) | [] \<Rightarrow> None)
          else if c = CHR 0x5B then
            (case skip_space r of d # r2 \<Rightarrow> if d = CHR 0x5D then Some r2 else json_members n False (skip_space r) | [] \<Rightarrow> None)
          else if c = CHR ''t'' then json_word ''true'' s
          else if c = CHR ''f'' then json_word ''false'' s
          else if c = CHR ''n'' then json_word ''null'' s
          else json_number s)"
| "json_members 0 obj s = None"
| "json_members (Suc n) obj s =
     Option.bind
       (if obj then
          (case s of
             c # r \<Rightarrow>
               if c \<noteq> CHR 0x22 then None
               else Option.bind (json_chars r) (\<lambda>r1.
                 case skip_space r1 of d # r2 \<Rightarrow> if d = CHR 0x3A then Some (skip_space r2) else None | [] \<Rightarrow> None)
           | [] \<Rightarrow> None)
        else Some s)
       (\<lambda>v. Option.bind (json_value n v) (\<lambda>r.
          case skip_space r of
            d # r2 \<Rightarrow>
              if d = CHR 0x2C then json_members n obj (skip_space r2)
              else if d = (if obj then CHR 0x7D else CHR 0x5D) then Some r2
              else None
          | [] \<Rightarrow> None))"

definition json_valid :: "string \<Rightarrow> bool" where
  "json_valid s \<longleftrightarrow>
     (case json_value (length s) (skip_space s) of None \<Rightarrow> False | Some r \<Rightarrow> skip_space r = [])"

lemma json_valid_samples:
  "json_valid ''{}'' \<and> json_valid ''[1, -2.5e+3, true]'' \<and> \<not> json_valid ''{,}'' \<and> \<not> json_valid ''[01]'' \<and> \<not> json_valid []"
  by code_simp

end
