(* ===== verification/StateStore.thy ===== *)
theory StateStore
  imports GoJson Prelude
begin

text \<open>
  Package \<open>internal/state\<close>: the tables of the server's database that drive backups (runs and their
  progress and logs, snapshots, restore tasks, maintenance runs, agent commands, and the journal of
  removed chunks), and the operations on them. A table is the list of its rows in insertion order, a
  statement is a function on the tables that can fail as a whole, and a transaction restores the
  tables when a statement in it or its commit fails. Times are instants; \<open>CURRENT_TIMESTAMP\<close> is cut to
  seconds as in SQLite.
\<close>

subsection \<open>Rows\<close>

datatype run_status = RunPending | RunRunning | RunFailed | RunCanceled | RunCompleted

record run_row =
  rn_id :: int
  rn_job :: "int option"
  rn_host :: "int option"
  rn_status :: run_status
  rn_started :: "int option"
  rn_finished :: "int option"
  rn_error :: "string option"
  rn_created :: int

record progress_row =
  pg_run :: int
  pg_phase :: string
  pg_total_files :: int
  pg_processed_files :: int
  pg_total_bytes :: int
  pg_processed_bytes :: int
  pg_uploaded :: int
  pg_reused :: int
  pg_message :: string
  pg_updated :: int

record log_row =
  lg_id :: int
  lg_run :: int
  lg_level :: string
  lg_message :: string
  lg_created :: int

record snapshot_row =
  sn_id :: int
  sn_job :: "int option"
  sn_host :: "int option"
  sn_run :: "int option"
  sn_created :: int
  sn_source_type :: string
  sn_manifest :: string
  sn_files :: int
  sn_size :: int
  sn_deleted :: "int option"
  sn_reason :: "string option"
  sn_deleted_by :: "string option"
  sn_health :: string
  sn_message :: "string option"
  sn_verified :: "int option"

record task_row =
  tk_id :: int
  tk_snapshot :: int
  tk_target :: string
  tk_status :: string
  tk_created :: int
  tk_updated :: int

record maintenance_row =
  mt_id :: int
  mt_mode :: string
  mt_status :: string
  mt_started :: int
  mt_finished :: "int option"
  mt_skipped :: "string option"
  mt_report :: string
  mt_error :: "string option"

record journal_row =
  jr_generation :: int
  jr_hash :: string
  jr_reason :: string
  jr_created :: int

record command_row =
  cm_id :: int
  cm_host :: int
  cm_job :: "int option"
  cm_run :: "int option"
  cm_type :: string
  cm_status :: string
  cm_payload :: string
  cm_reason :: "string option"
  cm_created_by :: "string option"
  cm_created :: int
  cm_updated :: int
  cm_expires :: int
  cm_claimed :: "int option"
  cm_finished :: "int option"

text \<open>Of a host the columns that jobs use.\<close>

record host_row =
  ho_id :: int
  ho_credential :: "int option"
  ho_source_type :: string

record job_row =
  jb_id :: int
  jb_host :: "int option"
  jb_credential :: "int option"
  jb_name :: string
  jb_source_type :: string
  jb_config :: string
  jb_enabled :: bool
  jb_schedule :: "string option"
  jb_timezone :: string
  jb_max_runtime :: int
  jb_retries :: int
  jb_created :: int
  jb_updated :: int

record repo_meta =
  me_repository :: string
  me_chunk_gen :: int
  me_config_gen :: int
  me_command_gen :: int
  me_available_from :: int

text \<open>\<open>db_seq\<close> is the source of the \<open>AUTOINCREMENT\<close> numbers, shared by all tables.\<close>

record db =
  db_runs :: "run_row list"
  db_progress :: "progress_row list"
  db_logs :: "log_row list"
  db_snapshots :: "snapshot_row list"
  db_tasks :: "task_row list"
  db_maintenance :: "maintenance_row list"
  db_journal :: "journal_row list"
  db_commands :: "command_row list"
  db_hosts :: "host_row list"
  db_jobs :: "job_row list"
  db_meta :: repo_meta
  db_seq :: int
  db_step :: nat

datatype db_error =
    DbFault
  | DbRequired string
  | DbNotFound string int
  | DbActiveRun int
  | DbSnapshotInUse
  | DbBadStatus string
  | DbNotRunnable int
  | DbBadJson
  | DbNegative string
  | DbUnique

type_synonym 'a db_result = "(db_error + 'a) \<times> db"

subsection \<open>Statements and transactions\<close>

definition step_db :: "db \<Rightarrow> db" where
  "step_db s = s\<lparr>db_step := Suc (db_step s)\<rparr>"

definition sql :: "env \<Rightarrow> (db \<Rightarrow> 'a \<times> db) \<Rightarrow> db \<Rightarrow> 'a db_result" where
  "sql ev f s =
     (if env_io ev (db_step s) \<noteq> None then (Inl DbFault, step_db s)
      else (case f s of (x, t) \<Rightarrow> (Inr x, step_db t)))"

definition query :: "env \<Rightarrow> (db \<Rightarrow> 'a) \<Rightarrow> db \<Rightarrow> 'a db_result" where
  "query ev f = sql ev (\<lambda>s. (f s, s))"

definition rolled_back :: "db \<Rightarrow> db \<Rightarrow> db" where
  "rolled_back s t = s\<lparr>db_step := db_step t\<rparr>"

definition in_tx :: "env \<Rightarrow> (db \<Rightarrow> 'a db_result) \<Rightarrow> db \<Rightarrow> 'a db_result" where
  "in_tx ev f s =
     (case query ev (\<lambda>s. ()) s of
        (Inl e, s1) \<Rightarrow> (Inl e, s1)
      | (Inr u, s1) \<Rightarrow>
          (case f s1 of
             (Inl e, s2) \<Rightarrow> (Inl e, rolled_back s1 s2)
           | (Inr x, s2) \<Rightarrow>
               (case query ev (\<lambda>s. ()) s2 of
                  (Inl e, s3) \<Rightarrow> (Inl e, rolled_back s1 s3)
                | (Inr u, s3) \<Rightarrow> (Inr x, s3))))"

text \<open>\<open>CURRENT_TIMESTAMP\<close>.\<close>

definition sql_now :: "env \<Rightarrow> db \<Rightarrow> int" where
  "sql_now ev s = env_now ev (db_step s) div 1000000000 * 1000000000"

definition desc_by :: "('a \<Rightarrow> int) \<Rightarrow> 'a list \<Rightarrow> 'a list" where
  "desc_by f xs = sort_key (\<lambda>x. - f x) xs"

definition update_where :: "('a \<Rightarrow> bool) \<Rightarrow> ('a \<Rightarrow> 'a) \<Rightarrow> 'a list \<Rightarrow> 'a list" where
  "update_where p f xs = map (\<lambda>x. if p x then f x else x) xs"

definition count_where :: "('a \<Rightarrow> bool) \<Rightarrow> 'a list \<Rightarrow> int" where
  "count_where p xs = int (length (filter p xs))"

definition head :: "'a list \<Rightarrow> 'a option" where
  "head xs = (case xs of [] \<Rightarrow> None | x # r \<Rightarrow> Some x)"

subsection \<open>Runs\<close>

fun run_active :: "run_status \<Rightarrow> bool" where
  "run_active RunPending = True"
| "run_active RunRunning = True"
| "run_active _ = False"

definition non_negative :: "int \<Rightarrow> int" where
  "non_negative v = (if v < 0 then 0 else v)"

definition get_run_progress :: "env \<Rightarrow> int \<Rightarrow> db \<Rightarrow> progress_row option db_result" where
  "get_run_progress ev rid = query ev (\<lambda>s. find (\<lambda>p. pg_run p = rid) (db_progress s))"

definition hydrate_run :: "env \<Rightarrow> run_row \<Rightarrow> db \<Rightarrow> (run_row \<times> progress_row option) db_result" where
  "hydrate_run ev run s = sbind (get_run_progress ev (rn_id run) s) (\<lambda>p t. (Inr (run, p), t))"

definition get_run :: "env \<Rightarrow> int \<Rightarrow> db \<Rightarrow> (run_row \<times> progress_row option) db_result" where
  "get_run ev rid s =
     sbind (query ev (\<lambda>s. find (\<lambda>r. rn_id r = rid) (db_runs s)) s) (\<lambda>found t.
       case found of None \<Rightarrow> (Inl (DbNotFound ''run'' rid), t) | Some run \<Rightarrow> hydrate_run ev run t)"

definition active_run_of :: "int \<Rightarrow> db \<Rightarrow> run_row option" where
  "active_run_of job s = head (desc_by rn_id (filter (\<lambda>r. rn_job r = Some job \<and> run_active (rn_status r)) (db_runs s)))"

definition insert_run :: "env \<Rightarrow> int \<Rightarrow> int option \<Rightarrow> db \<Rightarrow> int \<times> db" where
  "insert_run ev job host s =
     (let rid = db_seq s + 1
      in (rid, s\<lparr>db_seq := rid, db_runs := db_runs s @
            [\<lparr>rn_id = rid, rn_job = Some job, rn_host = host, rn_status = RunPending, rn_started = None,
              rn_finished = None, rn_error = None, rn_created = sql_now ev s\<rparr>]\<rparr>))"

definition create_run :: "env \<Rightarrow> int \<Rightarrow> int option \<Rightarrow> db \<Rightarrow> (run_row \<times> progress_row option) db_result" where
  "create_run ev job host s =
     sbind (in_tx ev (\<lambda>s.
        sbind (query ev (active_run_of job) s) (\<lambda>active t.
          case active of Some run \<Rightarrow> (Inl (DbActiveRun (rn_id run)), t) | None \<Rightarrow> sql ev (insert_run ev job host) t)) s)
       (\<lambda>rid t. get_run ev rid t)"

definition get_active_run_for_job :: "env \<Rightarrow> int \<Rightarrow> db \<Rightarrow> (run_row \<times> progress_row option) option db_result" where
  "get_active_run_for_job ev job s =
     sbind (query ev (active_run_of job) s) (\<lambda>found t.
       case found of None \<Rightarrow> (Inr None, t)
       | Some run \<Rightarrow> sbind (hydrate_run ev run t) (\<lambda>x u. (Inr (Some x), u)))"

definition has_run_created_since :: "env \<Rightarrow> int \<Rightarrow> int \<Rightarrow> db \<Rightarrow> bool db_result" where
  "has_run_created_since ev job since =
     query ev (\<lambda>s. list_ex (\<lambda>r. rn_job r = Some job \<and> since \<le> rn_created r) (db_runs s))"

record run_summary =
  rs_total :: int
  rs_pending :: int
  rs_running :: int
  rs_failed :: int
  rs_canceled :: int
  rs_completed :: int

definition summary_active :: "run_summary \<Rightarrow> int" where
  "summary_active s = rs_pending s + rs_running s"

definition runs_since :: "int \<Rightarrow> int \<Rightarrow> db \<Rightarrow> run_row list" where
  "runs_since job since s = filter (\<lambda>r. rn_job r = Some job \<and> since \<le> rn_created r) (db_runs s)"

definition run_status_summary_since :: "env \<Rightarrow> int \<Rightarrow> int \<Rightarrow> db \<Rightarrow> run_summary db_result" where
  "run_status_summary_since ev job since =
     query ev (\<lambda>s. let n = \<lambda>st. count_where (\<lambda>r. rn_status r = st) (runs_since job since s)
       in \<lparr>rs_total = int (length (runs_since job since s)), rs_pending = n RunPending, rs_running = n RunRunning,
           rs_failed = n RunFailed, rs_canceled = n RunCanceled, rs_completed = n RunCompleted\<rparr>)"

definition count_active_runs :: "env \<Rightarrow> db \<Rightarrow> int db_result" where
  "count_active_runs ev = query ev (\<lambda>s. count_where (\<lambda>r. run_active (rn_status r)) (db_runs s))"

definition run_stale :: "int \<Rightarrow> int \<Rightarrow> db \<Rightarrow> run_row \<Rightarrow> bool" where
  "run_stale cutoff process_started s r \<longleftrightarrow>
     run_active (rn_status r) \<and> rn_created r < cutoff \<and> rn_created r < process_started \<and>
     \<not> list_ex (\<lambda>p. pg_run p = rn_id r \<and> cutoff \<le> pg_updated p) (db_progress s)"

definition mark_stale_runs_failed :: "env \<Rightarrow> int \<Rightarrow> int \<Rightarrow> int \<Rightarrow> db \<Rightarrow> int db_result" where
  "mark_stale_runs_failed ev cutoff process_started now =
     sql ev (\<lambda>s. (count_where (run_stale cutoff process_started s) (db_runs s),
       s\<lparr>db_runs := update_where (run_stale cutoff process_started s)
            (\<lambda>r. r\<lparr>rn_status := RunFailed, rn_finished := Some now, rn_error := Some ''stale run expired by maintenance''\<rparr>) (db_runs s)\<rparr>))"

definition update_run :: "env \<Rightarrow> (run_row \<Rightarrow> bool) \<Rightarrow> (run_row \<Rightarrow> run_row) \<Rightarrow> db \<Rightarrow> unit db_result" where
  "update_run ev p f = sql ev (\<lambda>s. ((), s\<lparr>db_runs := update_where p f (db_runs s)\<rparr>))"

definition mark_run_running :: "env \<Rightarrow> int \<Rightarrow> int \<Rightarrow> db \<Rightarrow> unit db_result" where
  "mark_run_running ev rid now =
     update_run ev (\<lambda>r. rn_id r = rid \<and> rn_status r = RunPending) (\<lambda>r. r\<lparr>rn_status := RunRunning, rn_started := Some now\<rparr>)"

definition complete_run :: "env \<Rightarrow> int \<Rightarrow> int \<Rightarrow> db \<Rightarrow> unit db_result" where
  "complete_run ev rid now =
     update_run ev (\<lambda>r. rn_id r = rid) (\<lambda>r. r\<lparr>rn_status := RunCompleted, rn_finished := Some now, rn_error := None\<rparr>)"

definition fail_run :: "env \<Rightarrow> int \<Rightarrow> string \<Rightarrow> int \<Rightarrow> db \<Rightarrow> unit db_result" where
  "fail_run ev rid msg now =
     update_run ev (\<lambda>r. rn_id r = rid) (\<lambda>r. r\<lparr>rn_status := RunFailed, rn_finished := Some now, rn_error := Some msg\<rparr>)"

definition append_run_log :: "env \<Rightarrow> int \<Rightarrow> string \<Rightarrow> string \<Rightarrow> db \<Rightarrow> unit db_result" where
  "append_run_log ev rid level msg =
     sql ev (\<lambda>s. ((), s\<lparr>db_seq := db_seq s + 1, db_logs := db_logs s @
       [\<lparr>lg_id = db_seq s + 1, lg_run = rid, lg_level = (if level = [] then ''info'' else level), lg_message = msg,
         lg_created = sql_now ev s\<rparr>]\<rparr>))"

definition list_run_logs :: "env \<Rightarrow> int \<Rightarrow> db \<Rightarrow> log_row list db_result" where
  "list_run_logs ev rid = query ev (\<lambda>s. sort_key lg_id (filter (\<lambda>l. lg_run l = rid) (db_logs s)))"

definition update_run_progress :: "env \<Rightarrow> progress_row \<Rightarrow> db \<Rightarrow> progress_row db_result" where
  "update_run_progress ev inp s =
     (if pg_run inp \<le> 0 then (Inl (DbRequired ''run id''), s)
      else let row = inp\<lparr>pg_phase := if pg_phase inp = [] then ''running'' else pg_phase inp,
             pg_total_files := non_negative (pg_total_files inp), pg_processed_files := non_negative (pg_processed_files inp),
             pg_total_bytes := non_negative (pg_total_bytes inp), pg_processed_bytes := non_negative (pg_processed_bytes inp),
             pg_uploaded := non_negative (pg_uploaded inp), pg_reused := non_negative (pg_reused inp)\<rparr>
      in sbind (sql ev (\<lambda>s. ((), s\<lparr>db_progress :=
              (let r = row\<lparr>pg_updated := sql_now ev s\<rparr>
               in if list_ex (\<lambda>p. pg_run p = pg_run inp) (db_progress s)
                  then update_where (\<lambda>p. pg_run p = pg_run inp) (\<lambda>p. r) (db_progress s) else db_progress s @ [r])\<rparr>)) s) (\<lambda>u s1.
         sbind (get_run_progress ev (pg_run inp) s1) (\<lambda>found s2.
           case found of None \<Rightarrow> (Inl (DbNotFound ''run progress'' (pg_run inp)), s2) | Some p \<Rightarrow> (Inr p, s2))))"

subsection \<open>Snapshots\<close>

definition get_snapshot :: "env \<Rightarrow> int \<Rightarrow> db \<Rightarrow> snapshot_row db_result" where
  "get_snapshot ev sid s =
     sbind (query ev (\<lambda>s. find (\<lambda>x. sn_id x = sid) (db_snapshots s)) s) (\<lambda>found t.
       case found of None \<Rightarrow> (Inl (DbNotFound ''snapshot'' sid), t) | Some x \<Rightarrow> (Inr x, t))"

definition create_snapshot ::
    "env \<Rightarrow> int option \<Rightarrow> int option \<Rightarrow> int option \<Rightarrow> string \<Rightarrow> string \<Rightarrow> int \<Rightarrow> int \<Rightarrow> db \<Rightarrow> snapshot_row db_result" where
  "create_snapshot ev job host run source_type manifest_ref files byte_sum s =
     sbind (sql ev (\<lambda>s. let sid = db_seq s + 1
         in (sid, s\<lparr>db_seq := sid, db_snapshots := db_snapshots s @
              [\<lparr>sn_id = sid, sn_job = job, sn_host = host, sn_run = run, sn_created = sql_now ev s, sn_source_type = source_type,
                sn_manifest = manifest_ref, sn_files = files, sn_size = byte_sum, sn_deleted = None, sn_reason = None,
                sn_deleted_by = None, sn_health = ''unknown'', sn_message = None, sn_verified = None\<rparr>]\<rparr>)) s)
       (get_snapshot ev)"

definition get_snapshot_by_run :: "env \<Rightarrow> int \<Rightarrow> db \<Rightarrow> snapshot_row option db_result" where
  "get_snapshot_by_run ev rid = query ev (\<lambda>s. head (desc_by sn_id (filter (\<lambda>x. sn_run x = Some rid) (db_snapshots s))))"

definition get_latest_snapshot_for_job :: "env \<Rightarrow> int \<Rightarrow> db \<Rightarrow> snapshot_row option db_result" where
  "get_latest_snapshot_for_job ev job =
     query ev (\<lambda>s. head (desc_by sn_created (desc_by sn_id
       (filter (\<lambda>x. sn_job x = Some job \<and> sn_deleted x = None) (db_snapshots s)))))"

definition task_active :: "task_row \<Rightarrow> bool" where
  "task_active t \<longleftrightarrow> tk_status t = ''pending'' \<or> tk_status t = ''running''"

definition snapshot_in_use :: "int \<Rightarrow> db \<Rightarrow> bool" where
  "snapshot_in_use sid s \<longleftrightarrow> list_ex (\<lambda>t. tk_snapshot t = sid \<and> task_active t) (db_tasks s)"

definition snapshot_has_active_restore_task :: "env \<Rightarrow> int \<Rightarrow> db \<Rightarrow> bool db_result" where
  "snapshot_has_active_restore_task ev sid = query ev (snapshot_in_use sid)"

definition mark_deleted :: "int \<Rightarrow> string \<Rightarrow> string \<Rightarrow> snapshot_row \<Rightarrow> snapshot_row" where
  "mark_deleted now reason by x = x\<lparr>sn_deleted := Some now, sn_reason := Some reason, sn_deleted_by := Some by\<rparr>"

definition delete_snapshot :: "env \<Rightarrow> int \<Rightarrow> string \<Rightarrow> string \<Rightarrow> int \<Rightarrow> db \<Rightarrow> (snapshot_row \<times> bool) db_result" where
  "delete_snapshot ev sid reason0 by0 now s =
     (if sid \<le> 0 then (Inl (DbRequired ''snapshot id''), s)
      else let reason = (if reason0 = [] then ''manual'' else reason0); by = (if by0 = [] then ''admin'' else by0)
      in sbind (get_snapshot ev sid s) (\<lambda>x s1.
           if sn_deleted x \<noteq> None then (Inr (x, False), s1)
           else sbind (snapshot_has_active_restore_task ev sid s1) (\<lambda>in_use s2.
             if in_use then (Inl DbSnapshotInUse, s2)
             else sbind (sql ev (\<lambda>s. (count_where (\<lambda>x. sn_id x = sid \<and> sn_deleted x = None) (db_snapshots s),
                     s\<lparr>db_snapshots := update_where (\<lambda>x. sn_id x = sid \<and> sn_deleted x = None) (mark_deleted now reason by)
                          (db_snapshots s)\<rparr>)) s2) (\<lambda>changed s3.
               sbind (get_snapshot ev sid s3) (\<lambda>x s4. (Inr (x, 0 < changed), s4))))))"

definition update_snapshot_health :: "env \<Rightarrow> int \<Rightarrow> string \<Rightarrow> string \<Rightarrow> int option \<Rightarrow> db \<Rightarrow> unit db_result" where
  "update_snapshot_health ev sid health0 msg verified s =
     (if sid \<le> 0 then (Inl (DbRequired ''snapshot id''), s)
      else let health = (if health0 = [] then ''unknown'' else health0)
      in sbind (sql ev (\<lambda>s. (count_where (\<lambda>x. sn_id x = sid) (db_snapshots s),
             s\<lparr>db_snapshots := update_where (\<lambda>x. sn_id x = sid)
                 (\<lambda>x. x\<lparr>sn_health := health, sn_message := (if msg = [] then None else Some msg), sn_verified := verified\<rparr>)
                 (db_snapshots s)\<rparr>)) s) (\<lambda>changed s1.
           if changed = 0 then (Inl (DbNotFound ''snapshot'' sid), s1) else (Inr (), s1)))"

definition expirable :: "int \<Rightarrow> db \<Rightarrow> snapshot_row \<Rightarrow> bool" where
  "expirable sid s x \<longleftrightarrow> sn_id x = sid \<and> sn_deleted x = None \<and> \<not> snapshot_in_use sid s"

fun expire_loop :: "env \<Rightarrow> int \<Rightarrow> int list \<Rightarrow> int \<Rightarrow> db \<Rightarrow> int db_result" where
  "expire_loop ev now [] n s = (Inr n, s)"
| "expire_loop ev now (sid # sids) n s =
     sbind (sql ev (\<lambda>s. (count_where (expirable sid s) (db_snapshots s),
         s\<lparr>db_snapshots := update_where (expirable sid s) (mark_deleted now ''retention'' ''maintenance'') (db_snapshots s)\<rparr>)) s)
       (\<lambda>changed s1. expire_loop ev now sids (n + changed) s1)"

definition expire_snapshots :: "env \<Rightarrow> int list \<Rightarrow> int \<Rightarrow> db \<Rightarrow> int db_result" where
  "expire_snapshots ev sids now s = (if sids = [] then (Inr 0, s) else in_tx ev (expire_loop ev now sids 0) s)"

record snapshot_counts =
  sc_active :: int
  sc_deleted :: int

definition count_snapshots :: "env \<Rightarrow> db \<Rightarrow> snapshot_counts db_result" where
  "count_snapshots ev s =
     sbind (query ev (\<lambda>s. count_where (\<lambda>x. sn_deleted x = None) (db_snapshots s)) s) (\<lambda>a s1.
     sbind (query ev (\<lambda>s. count_where (\<lambda>x. sn_deleted x \<noteq> None) (db_snapshots s)) s1) (\<lambda>b s2.
       (Inr \<lparr>sc_active = a, sc_deleted = b\<rparr>, s2)))"

text \<open>\<open>ORDER BY job_id ASC, created_at DESC, id DESC\<close>; SQLite sorts NULL first.\<close>

definition active_snapshots :: "db \<Rightarrow> snapshot_row list" where
  "active_snapshots s =
     sort_key (\<lambda>x. case sn_job x of None \<Rightarrow> (0 :: int) | Some j \<Rightarrow> 1)
      (sort_key (\<lambda>x. case sn_job x of None \<Rightarrow> 0 | Some j \<Rightarrow> j)
        (desc_by sn_created (desc_by sn_id (filter (\<lambda>x. sn_deleted x = None) (db_snapshots s)))))"

definition list_active_snapshots :: "env \<Rightarrow> db \<Rightarrow> snapshot_row list db_result" where
  "list_active_snapshots ev = query ev active_snapshots"

definition list_deleted_snapshots :: "env \<Rightarrow> db \<Rightarrow> snapshot_row list db_result" where
  "list_deleted_snapshots ev =
     query ev (\<lambda>s. desc_by (\<lambda>x. case sn_deleted x of None \<Rightarrow> 0 | Some t \<Rightarrow> t)
        (desc_by sn_id (filter (\<lambda>x. sn_deleted x \<noteq> None) (db_snapshots s))))"

subsection \<open>Retention\<close>

record retention_policy =
  rp_last :: int
  rp_daily :: int
  rp_weekly :: int

definition group_key :: "snapshot_row \<Rightarrow> bool \<times> int" where
  "group_key x = (case sn_job x of Some j \<Rightarrow> (True, j) | None \<Rightarrow> (False, sn_id x))"

text \<open>
  The UTC day and the ISO week of a time, as numbers since the epoch; the code compares their printed
  forms. The epoch is a Thursday, so that the week changes three days before it.
\<close>

definition utc_day :: "snapshot_row \<Rightarrow> int" where
  "utc_day x = sn_created x div 86400000000000"

definition iso_week :: "snapshot_row \<Rightarrow> int" where
  "iso_week x = (utc_day x + 3) div 7"

fun keep_buckets :: "(snapshot_row \<Rightarrow> int) \<Rightarrow> int \<Rightarrow> int list \<Rightarrow> snapshot_row list \<Rightarrow> int list" where
  "keep_buckets f limit seen [] = []"
| "keep_buckets f limit seen (x # xs) =
     (if limit \<le> 0 \<or> limit \<le> int (length seen) then []
      else if f x \<in> set seen then keep_buckets f limit seen xs
      else sn_id x # keep_buckets f limit (f x # seen) xs)"

definition keep_of_group :: "retention_policy \<Rightarrow> snapshot_row list \<Rightarrow> int list" where
  "keep_of_group p g =
     map sn_id (take (nat (rp_last p)) g) @ keep_buckets utc_day (rp_daily p) [] g @ keep_buckets iso_week (rp_weekly p) [] g"

definition expired_snapshot_ids :: "snapshot_row list \<Rightarrow> retention_policy \<Rightarrow> int list" where
  "expired_snapshot_ids xs p0 =
     (let p = (if rp_last p0 \<le> 0 then p0\<lparr>rp_last := 30\<rparr> else p0);
          keep = concat (map (\<lambda>k. keep_of_group p (filter (\<lambda>x. group_key x = k) xs)) (remdups (map group_key xs)))
      in map sn_id (filter (\<lambda>x. sn_id x \<notin> set keep) xs))"

subsection \<open>Restore tasks and maintenance runs\<close>

definition get_restore_task :: "env \<Rightarrow> int \<Rightarrow> db \<Rightarrow> task_row db_result" where
  "get_restore_task ev tid s =
     sbind (query ev (\<lambda>s. find (\<lambda>t. tk_id t = tid) (db_tasks s)) s) (\<lambda>found t.
       case found of None \<Rightarrow> (Inl (DbNotFound ''restore task'' tid), t) | Some x \<Rightarrow> (Inr x, t))"

definition create_restore_task :: "env \<Rightarrow> int \<Rightarrow> string \<Rightarrow> string \<Rightarrow> db \<Rightarrow> task_row db_result" where
  "create_restore_task ev sid target status0 s =
     (if sid \<le> 0 then (Inl (DbRequired ''snapshot_id''), s)
      else if target = [] then (Inl (DbRequired ''target_path''), s)
      else let status = (if status0 = [] then ''pending'' else status0)
      in sbind (sql ev (\<lambda>s. let tid = db_seq s + 1; now = sql_now ev s
           in (tid, s\<lparr>db_seq := tid, db_tasks := db_tasks s @
                [\<lparr>tk_id = tid, tk_snapshot = sid, tk_target = target, tk_status = status, tk_created = now, tk_updated = now\<rparr>]\<rparr>)) s)
         (get_restore_task ev))"

definition update_restore_task_status :: "env \<Rightarrow> int \<Rightarrow> string \<Rightarrow> db \<Rightarrow> task_row db_result" where
  "update_restore_task_status ev tid status s =
     (if tid \<le> 0 then (Inl (DbRequired ''restore task id''), s)
      else if status = [] then (Inl (DbRequired ''restore task status''), s)
      else sbind (sql ev (\<lambda>s. ((), s\<lparr>db_tasks := update_where (\<lambda>t. tk_id t = tid)
               (\<lambda>t. t\<lparr>tk_status := status, tk_updated := sql_now ev s\<rparr>) (db_tasks s)\<rparr>)) s)
         (\<lambda>u. get_restore_task ev tid))"

definition list_restore_tasks :: "env \<Rightarrow> db \<Rightarrow> task_row list db_result" where
  "list_restore_tasks ev = query ev (\<lambda>s. take 200 (desc_by tk_created (desc_by tk_id (db_tasks s))))"

definition get_maintenance_run :: "env \<Rightarrow> int \<Rightarrow> db \<Rightarrow> maintenance_row db_result" where
  "get_maintenance_run ev mid s =
     sbind (query ev (\<lambda>s. find (\<lambda>m. mt_id m = mid) (db_maintenance s)) s) (\<lambda>found t.
       case found of None \<Rightarrow> (Inl (DbNotFound ''maintenance run'' mid), t) | Some x \<Rightarrow> (Inr x, t))"

definition opt_string :: "string \<Rightarrow> string option" where
  "opt_string v = (if v = [] then None else Some v)"

text \<open>A zero time is \<open>None\<close> here.\<close>

definition record_maintenance_run ::
    "env \<Rightarrow> string \<Rightarrow> string \<Rightarrow> int option \<Rightarrow> int option \<Rightarrow> string \<Rightarrow> string \<Rightarrow> string \<Rightarrow> db \<Rightarrow> maintenance_row db_result" where
  "record_maintenance_run ev mode status started finished skipped report err s =
     (if mode = [] then (Inl (DbRequired ''maintenance mode''), s)
      else sbind (sql ev (\<lambda>s. let mid = db_seq s + 1
           in (mid, s\<lparr>db_seq := mid, db_maintenance := db_maintenance s @
                [\<lparr>mt_id = mid, mt_mode = mode, mt_status = (if status = [] then ''completed'' else status),
                  mt_started = (case started of None \<Rightarrow> env_now ev (db_step s) | Some t \<Rightarrow> t), mt_finished = finished,
                  mt_skipped = opt_string skipped, mt_report = (if report = [] then ''{}'' else report),
                  mt_error = opt_string err\<rparr>]\<rparr>)) s)
         (get_maintenance_run ev))"

definition list_maintenance_runs :: "env \<Rightarrow> int \<Rightarrow> db \<Rightarrow> maintenance_row list db_result" where
  "list_maintenance_runs ev limit =
     query ev (\<lambda>s. take (nat (if limit \<le> 0 \<or> 200 < limit then 50 else limit)) (desc_by mt_started (desc_by mt_id (db_maintenance s))))"

subsection \<open>Generations and the journal of removed chunks\<close>

text \<open>
  \<open>ensureRepositoryState\<close> runs one \<open>INSERT OR IGNORE\<close> for each of five keys, which are there once the
  store is open; only its failures remain.
\<close>

fun ensure_repository_state :: "env \<Rightarrow> nat \<Rightarrow> db \<Rightarrow> unit db_result" where
  "ensure_repository_state ev 0 s = (Inr (), s)"
| "ensure_repository_state ev (Suc n) s = sbind (query ev (\<lambda>s. ()) s) (\<lambda>u. ensure_repository_state ev n)"

definition repository_state :: "env \<Rightarrow> db \<Rightarrow> repo_meta db_result" where
  "repository_state ev s = sbind (ensure_repository_state ev 5 s) (\<lambda>u. query ev db_meta)"

datatype meta_key = MetaConfig | MetaCommand

definition bump_meta :: "meta_key \<Rightarrow> repo_meta \<Rightarrow> repo_meta" where
  "bump_meta k m =
     (case k of MetaConfig \<Rightarrow> m\<lparr>me_config_gen := me_config_gen m + 1\<rparr> | MetaCommand \<Rightarrow> m\<lparr>me_command_gen := me_command_gen m + 1\<rparr>)"

definition meta_value :: "meta_key \<Rightarrow> repo_meta \<Rightarrow> int" where
  "meta_value k m = (case k of MetaConfig \<Rightarrow> me_config_gen m | MetaCommand \<Rightarrow> me_command_gen m)"

definition bump_counter :: "env \<Rightarrow> meta_key \<Rightarrow> db \<Rightarrow> int db_result" where
  "bump_counter ev k s =
     sbind (ensure_repository_state ev 5 s) (\<lambda>u s1.
     sbind (sql ev (\<lambda>s. ((), s\<lparr>db_meta := bump_meta k (db_meta s)\<rparr>)) s1) (\<lambda>u s2.
       query ev (\<lambda>s. meta_value k (db_meta s)) s2))"

definition bump_config_generation :: "env \<Rightarrow> db \<Rightarrow> int db_result" where
  "bump_config_generation ev = bump_counter ev MetaConfig"

definition bump_command_generation :: "env \<Rightarrow> db \<Rightarrow> int db_result" where
  "bump_command_generation ev = bump_counter ev MetaCommand"

definition journal_insert :: "int \<Rightarrow> string \<Rightarrow> string \<Rightarrow> int \<Rightarrow> journal_row list \<Rightarrow> journal_row list" where
  "journal_insert g h reason now js =
     (if list_ex (\<lambda>j. jr_generation j = g \<and> jr_hash j = h) js then js
      else js @ [\<lparr>jr_generation = g, jr_hash = h, jr_reason = reason, jr_created = now\<rparr>])"

fun journal_loop :: "env \<Rightarrow> int \<Rightarrow> string \<Rightarrow> int \<Rightarrow> string list \<Rightarrow> db \<Rightarrow> unit db_result" where
  "journal_loop ev g reason now [] s = (Inr (), s)"
| "journal_loop ev g reason now (h # hs) s =
     (if trim_space h = [] then journal_loop ev g reason now hs s
      else sbind (sql ev (\<lambda>s. ((), s\<lparr>db_journal := journal_insert g (trim_space h) reason now (db_journal s)\<rparr>)) s)
             (\<lambda>u. journal_loop ev g reason now hs))"

definition bump_chunk_generation :: "env \<Rightarrow> string list \<Rightarrow> string \<Rightarrow> int \<Rightarrow> db \<Rightarrow> int db_result" where
  "bump_chunk_generation ev hashes reason0 now =
     (let reason = (if trim_space reason0 = [] then ''unknown'' else trim_space reason0)
      in in_tx ev (\<lambda>s.
           sbind (sql ev (\<lambda>s. ((), s\<lparr>db_meta := (db_meta s)\<lparr>me_chunk_gen := me_chunk_gen (db_meta s) + 1\<rparr>\<rparr>)) s) (\<lambda>u s1.
           sbind (query ev (\<lambda>s. me_chunk_gen (db_meta s)) s1) (\<lambda>g s2.
           sbind (journal_loop ev g reason now hashes s2) (\<lambda>u s3. (Inr g, s3))))))"

definition max_generation :: "journal_row list \<Rightarrow> int option" where
  "max_generation js = (case js of [] \<Rightarrow> None | j # r \<Rightarrow> Some (foldl (\<lambda>m x. max m (jr_generation x)) (jr_generation j) r))"

text \<open>A zero cutoff is \<open>None\<close>. The three statements are not in a transaction.\<close>

definition prune_chunk_invalidations :: "env \<Rightarrow> int option \<Rightarrow> db \<Rightarrow> int db_result" where
  "prune_chunk_invalidations ev cutoff0 s =
     (case cutoff0 of
        None \<Rightarrow> (Inr 0, s)
      | Some cutoff \<Rightarrow>
          sbind (query ev (\<lambda>s. max_generation (filter (\<lambda>j. jr_created j < cutoff) (db_journal s))) s) (\<lambda>newest s1.
          sbind (sql ev (\<lambda>s. (count_where (\<lambda>j. jr_created j < cutoff) (db_journal s),
                  s\<lparr>db_journal := filter (\<lambda>j. \<not> jr_created j < cutoff) (db_journal s)\<rparr>)) s1) (\<lambda>removed s2.
          (case newest of
             None \<Rightarrow> (Inr removed, s2)
           | Some g \<Rightarrow> sbind (sql ev (\<lambda>s. ((), s\<lparr>db_meta := (db_meta s)\<lparr>me_available_from := max (me_available_from (db_meta s)) g\<rparr>\<rparr>)) s2)
                         (\<lambda>u s3. (Inr removed, s3))))))"

datatype incomplete = JournalCompacted | LimitExceeded

record invalidations =
  iv_state :: repo_meta
  iv_from :: int
  iv_to :: int
  iv_incomplete :: "incomplete option"
  iv_hashes :: "string list"

definition journal_between :: "int \<Rightarrow> int \<Rightarrow> db \<Rightarrow> journal_row list" where
  "journal_between a b s = filter (\<lambda>j. a < jr_generation j \<and> jr_generation j \<le> b) (db_journal s)"

text \<open>Within a generation the code orders by hash; the model keeps the order of insertion there.\<close>

definition chunk_invalidations_since :: "env \<Rightarrow> int \<Rightarrow> int \<Rightarrow> db \<Rightarrow> invalidations db_result" where
  "chunk_invalidations_since ev since0 max0 s =
     sbind (repository_state ev s) (\<lambda>m s1.
       let since = (if since0 < 0 then 0 else since0); upto = me_chunk_gen m;
           answer = \<lparr>iv_state = m, iv_from = since, iv_to = upto, iv_incomplete = None, iv_hashes = []\<rparr>;
           limit = (if max0 \<le> 0 then 100000 else max0)
       in if upto \<le> since then (Inr answer, s1)
          else if since < me_available_from m then (Inr (answer\<lparr>iv_incomplete := Some JournalCompacted\<rparr>), s1)
          else sbind (query ev (\<lambda>s. int (length (journal_between since upto s))) s1) (\<lambda>n s2.
            if limit < n then (Inr (answer\<lparr>iv_incomplete := Some LimitExceeded\<rparr>), s2)
            else sbind (query ev (\<lambda>s. map jr_hash (sort_key jr_generation (journal_between since upto s))) s2) (\<lambda>hs s3.
              (Inr (answer\<lparr>iv_hashes := hs\<rparr>), s3))))"

subsection \<open>Jobs\<close>

definition get_host :: "env \<Rightarrow> int \<Rightarrow> db \<Rightarrow> host_row db_result" where
  "get_host ev hid s =
     sbind (query ev (\<lambda>s. find (\<lambda>h. ho_id h = hid) (db_hosts s)) s) (\<lambda>found t.
       case found of None \<Rightarrow> (Inl (DbNotFound ''host'' hid), t) | Some h \<Rightarrow> (Inr h, t))"

definition get_job :: "env \<Rightarrow> int \<Rightarrow> db \<Rightarrow> job_row db_result" where
  "get_job ev jid s =
     sbind (query ev (\<lambda>s. find (\<lambda>j. jb_id j = jid) (db_jobs s)) s) (\<lambda>found t.
       case found of None \<Rightarrow> (Inl (DbNotFound ''job'' jid), t) | Some j \<Rightarrow> (Inr j, t))"

definition agent_job_of :: "int \<Rightarrow> job_row \<Rightarrow> bool" where
  "agent_job_of hid j \<longleftrightarrow> jb_source_type j = ''agent'' \<and> jb_host j = Some hid"

text \<open>The insertion, which the unique index on the host of agent jobs can refuse.\<close>

definition insert_job :: "env \<Rightarrow> job_row \<Rightarrow> db \<Rightarrow> int option \<times> db" where
  "insert_job ev row s =
     (if jb_source_type row = ''agent'' \<and> (case jb_host row of None \<Rightarrow> False | Some h \<Rightarrow> list_ex (agent_job_of h) (db_jobs s))
      then (None, s)
      else let jid = db_seq s + 1; now = sql_now ev s
           in (Some jid, s\<lparr>db_seq := jid, db_jobs := db_jobs s @ [row\<lparr>jb_id := jid, jb_created := now, jb_updated := now\<rparr>]\<rparr>))"

definition insert_job_row :: "env \<Rightarrow> job_row \<Rightarrow> db \<Rightarrow> int db_result" where
  "insert_job_row ev row s =
     sbind (sql ev (insert_job ev row) s) (\<lambda>found t. case found of None \<Rightarrow> (Inl DbUnique, t) | Some jid \<Rightarrow> (Inr jid, t))"

definition job_config :: "string \<Rightarrow> string" where
  "job_config c = (if c = [] then ''{}'' else c)"

definition job_timezone :: "string \<Rightarrow> string" where
  "job_timezone tz = (if tz = [] then ''Asia/Shanghai'' else tz)"

definition create_job ::
    "env \<Rightarrow> string \<Rightarrow> int \<Rightarrow> string \<Rightarrow> bool \<Rightarrow> string option \<Rightarrow> string \<Rightarrow> int \<Rightarrow> int \<Rightarrow> db \<Rightarrow> job_row db_result" where
  "create_job ev name hid config enabled schedule tz max_run retries s =
     (if name = [] then (Inl (DbRequired ''job name''), s)
      else if hid \<le> 0 then (Inl (DbRequired ''job host_id''), s)
      else sbind (get_host ev hid s) (\<lambda>h s1.
        if \<not> json_valid (job_config config) then (Inl DbBadJson, s1)
        else if max_run < 0 then (Inl (DbNegative ''job max_runtime_seconds''), s1)
        else if retries < 0 then (Inl (DbNegative ''job retry_attempts''), s1)
        else sbind (insert_job_row ev \<lparr>jb_id = 0, jb_host = Some (ho_id h), jb_credential = ho_credential h, jb_name = name,
                 jb_source_type = ho_source_type h, jb_config = job_config config, jb_enabled = enabled,
                 jb_schedule = schedule, jb_timezone = job_timezone tz, jb_max_runtime = max_run, jb_retries = retries,
                 jb_created = 0, jb_updated = 0\<rparr> s1) (\<lambda>jid s2.
             sbind (bump_config_generation ev s2) (\<lambda>g. get_job ev jid))))"

definition update_job ::
    "env \<Rightarrow> int \<Rightarrow> string \<Rightarrow> string \<Rightarrow> bool \<Rightarrow> string option \<Rightarrow> string \<Rightarrow> int \<Rightarrow> int \<Rightarrow> db \<Rightarrow> job_row db_result" where
  "update_job ev jid name config enabled schedule tz max_run retries s =
     (if jid \<le> 0 then (Inl (DbRequired ''job id''), s)
      else if name = [] then (Inl (DbRequired ''job name''), s)
      else if \<not> json_valid (job_config config) then (Inl DbBadJson, s)
      else if max_run < 0 then (Inl (DbNegative ''job max_runtime_seconds''), s)
      else if retries < 0 then (Inl (DbNegative ''job retry_attempts''), s)
      else sbind (sql ev (\<lambda>s. (count_where (\<lambda>j. jb_id j = jid) (db_jobs s),
               s\<lparr>db_jobs := update_where (\<lambda>j. jb_id j = jid)
                  (\<lambda>j. j\<lparr>jb_name := name, jb_config := job_config config, jb_enabled := enabled, jb_schedule := schedule,
                     jb_timezone := job_timezone tz, jb_max_runtime := max_run, jb_retries := retries, jb_updated := sql_now ev s\<rparr>)
                  (db_jobs s)\<rparr>)) s) (\<lambda>changed s1.
             if changed = 0 then (Inl (DbNotFound ''job'' jid), s1)
             else sbind (bump_config_generation ev s1) (\<lambda>g. get_job ev jid)))"

text \<open>
  \<open>FindOrCreateAgentJob\<close>: in a transaction, the first agent job of the host is updated, or there is a
  new one, which counts as a change of the configuration.
\<close>

definition find_or_create_agent_job ::
    "env \<Rightarrow> int \<Rightarrow> int \<Rightarrow> string \<Rightarrow> string \<Rightarrow> string \<Rightarrow> db \<Rightarrow> (job_row \<times> bool) db_result" where
  "find_or_create_agent_job ev hid cred name config tz s =
     (if hid \<le> 0 then (Inl (DbRequired ''agent host_id''), s)
      else if cred \<le> 0 then (Inl (DbRequired ''agent credential_id''), s)
      else if name = [] then (Inl (DbRequired ''agent job name''), s)
      else if \<not> json_valid (job_config config) then (Inl DbBadJson, s)
      else sbind (in_tx ev (\<lambda>s.
          sbind (query ev (\<lambda>s. head (sort_key jb_id (filter (agent_job_of hid) (db_jobs s)))) s) (\<lambda>found s1.
            case found of
              Some j \<Rightarrow>
                sbind (sql ev (\<lambda>s. ((), s\<lparr>db_jobs := update_where (\<lambda>x. jb_id x = jb_id j)
                    (\<lambda>x. x\<lparr>jb_credential := Some cred, jb_name := name, jb_config := job_config config, jb_updated := sql_now ev s\<rparr>)
                    (db_jobs s)\<rparr>)) s1) (\<lambda>u s2. (Inr (jb_id j, False), s2))
            | None \<Rightarrow>
                sbind (insert_job_row ev \<lparr>jb_id = 0, jb_host = Some hid, jb_credential = Some cred, jb_name = name,
                    jb_source_type = ''agent'', jb_config = job_config config, jb_enabled = True, jb_schedule = None,
                    jb_timezone = job_timezone tz, jb_max_runtime = 0, jb_retries = 0, jb_created = 0, jb_updated = 0\<rparr> s1)
                  (\<lambda>jid s2. (Inr (jid, True), s2)))) s)
        (\<lambda>(jid, created) s1.
          if created then sbind (bump_config_generation ev s1) (\<lambda>g s2. sbind (get_job ev jid s2) (\<lambda>j s3. (Inr (j, True), s3)))
          else sbind (get_job ev jid s1) (\<lambda>j s2. (Inr (j, False), s2))))"

text \<open>\<open>TRIM\<close> of SQLite removes spaces only.\<close>

definition list_scheduled_jobs :: "env \<Rightarrow> db \<Rightarrow> job_row list db_result" where
  "list_scheduled_jobs ev =
     query ev (\<lambda>s. sort_key jb_id (filter (\<lambda>j. jb_enabled j \<and>
        (case jb_schedule j of None \<Rightarrow> False | Some c \<Rightarrow> list_ex (\<lambda>x. x \<noteq> CHR 0x20) c) \<and>
        jb_source_type j \<noteq> ''agent'') (db_jobs s)))"

definition get_active_agent_run_for_host ::
    "env \<Rightarrow> int \<Rightarrow> db \<Rightarrow> (job_row \<times> run_row \<times> progress_row option) option db_result" where
  "get_active_agent_run_for_host ev hid s =
     (if hid \<le> 0 then (Inl (DbRequired ''agent host_id''), s)
      else sbind (query ev (\<lambda>s. head (desc_by rn_id (filter (\<lambda>r. run_active (rn_status r) \<and>
              list_ex (\<lambda>j. rn_job r = Some (jb_id j) \<and> agent_job_of hid j) (db_jobs s)) (db_runs s)))) s) (\<lambda>found s1.
        case found of
          None \<Rightarrow> (Inr None, s1)
        | Some r0 \<Rightarrow>
            sbind (get_run ev (rn_id r0) s1) (\<lambda>(r, p) s2.
              case rn_job r of
                None \<Rightarrow> (Inl (DbNotFound ''job of run'' (rn_id r)), s2)
              | Some jid \<Rightarrow> sbind (get_job ev jid s2) (\<lambda>j s3. (Inr (Some (j, r, p)), s3)))))"

subsection \<open>Agent commands\<close>

definition get_agent_command :: "env \<Rightarrow> int \<Rightarrow> db \<Rightarrow> command_row db_result" where
  "get_agent_command ev cid s =
     sbind (query ev (\<lambda>s. find (\<lambda>c. cm_id c = cid) (db_commands s)) s) (\<lambda>found t.
       case found of None \<Rightarrow> (Inl (DbNotFound ''agent command'' cid), t) | Some c \<Rightarrow> (Inr c, t))"

text \<open>A zero expiry is \<open>None\<close>.\<close>

definition create_agent_command ::
    "env \<Rightarrow> int \<Rightarrow> int option \<Rightarrow> string \<Rightarrow> string \<Rightarrow> string \<Rightarrow> int option \<Rightarrow> db \<Rightarrow> command_row db_result" where
  "create_agent_command ev host job type0 payload0 by0 expires s =
     (let type = trim_space type0; by = trim_space by0; payload = (if payload0 = [] then ''{}'' else payload0)
      in if host \<le> 0 then (Inl (DbRequired ''agent command host_id''), s)
         else if type = [] then (Inl (DbRequired ''agent command type''), s)
         else if \<not> json_valid payload then (Inl DbBadJson, s)
         else (case expires of
            None \<Rightarrow> (Inl (DbRequired ''agent command expires_at''), s)
          | Some e \<Rightarrow>
              sbind (in_tx ev (\<lambda>s.
                sbind (sql ev (\<lambda>s. let cid = db_seq s + 1; now = sql_now ev s
                    in (cid, s\<lparr>db_seq := cid, db_commands := db_commands s @
                         [\<lparr>cm_id = cid, cm_host = host, cm_job = job, cm_run = None, cm_type = type, cm_status = ''pending'',
                           cm_payload = payload, cm_reason = None, cm_created_by = opt_string by, cm_created = now,
                           cm_updated = now, cm_expires = e, cm_claimed = None, cm_finished = None\<rparr>]\<rparr>)) s) (\<lambda>cid s1.
                sbind (sql ev (\<lambda>s. ((), s\<lparr>db_meta := bump_meta MetaCommand (db_meta s)\<rparr>)) s1) (\<lambda>u s2. (Inr cid, s2)))) s)
                (get_agent_command ev)))"

definition update_commands :: "env \<Rightarrow> (command_row \<Rightarrow> bool) \<Rightarrow> (db \<Rightarrow> command_row \<Rightarrow> command_row) \<Rightarrow> db \<Rightarrow> int db_result" where
  "update_commands ev p f =
     sql ev (\<lambda>s. (count_where p (db_commands s), s\<lparr>db_commands := update_where p (f s) (db_commands s)\<rparr>))"

definition waiting :: "command_row \<Rightarrow> bool" where
  "waiting c \<longleftrightarrow> cm_status c = ''pending'' \<or> cm_status c = ''claimed''"

definition unfinished :: "command_row \<Rightarrow> bool" where
  "unfinished c \<longleftrightarrow> waiting c \<or> cm_status c = ''running''"

definition final_status :: "string \<Rightarrow> bool" where
  "final_status st \<longleftrightarrow> st = ''completed'' \<or> st = ''failed'' \<or> st = ''dropped'' \<or> st = ''expired''"

definition expire_agent_commands :: "env \<Rightarrow> int \<Rightarrow> db \<Rightarrow> int db_result" where
  "expire_agent_commands ev now s =
     sbind (update_commands ev (\<lambda>c. waiting c \<and> cm_expires c \<le> now)
         (\<lambda>s c. c\<lparr>cm_status := ''expired'', cm_updated := sql_now ev s, cm_finished := Some now\<rparr>) s) (\<lambda>changed s1.
       if 0 < changed then sbind (bump_command_generation ev s1) (\<lambda>g s2. (Inr changed, s2)) else (Inr changed, s1))"

definition list_pending_agent_commands :: "env \<Rightarrow> int \<Rightarrow> int \<Rightarrow> int \<Rightarrow> db \<Rightarrow> command_row list db_result" where
  "list_pending_agent_commands ev host limit now s =
     (if host \<le> 0 then (Inl (DbRequired ''agent command host_id''), s)
      else query ev (\<lambda>s. take (nat (if limit \<le> 0 then 10 else limit))
        (sort_key cm_id (filter (\<lambda>c. cm_host c = host \<and> cm_status c = ''pending'' \<and> now < cm_expires c) (db_commands s)))) s)"

definition claim_time :: "int \<Rightarrow> command_row \<Rightarrow> int option" where
  "claim_time now c = (case cm_claimed c of None \<Rightarrow> Some now | Some t \<Rightarrow> Some t)"

definition mark_agent_command_running :: "env \<Rightarrow> int \<Rightarrow> int \<Rightarrow> int \<Rightarrow> int \<Rightarrow> db \<Rightarrow> command_row db_result" where
  "mark_agent_command_running ev cid host run now s =
     (if cid \<le> 0 then (Inl (DbRequired ''agent command id''), s)
      else if host \<le> 0 then (Inl (DbRequired ''agent command host_id''), s)
      else if run \<le> 0 then (Inl (DbRequired ''agent command run_id''), s)
      else sbind (update_commands ev (\<lambda>c. cm_id c = cid \<and> cm_host c = host \<and> waiting c \<and> now < cm_expires c)
              (\<lambda>s c. c\<lparr>cm_status := ''running'', cm_run := Some run, cm_claimed := claim_time now c, cm_updated := sql_now ev s\<rparr>) s)
        (\<lambda>changed s1.
          if changed = 0
          then (case get_agent_command ev cid s1 of
                  (Inr c, s2) \<Rightarrow> if cm_host c = host \<and> cm_status c = ''running'' \<and> cm_run c = Some run then (Inr c, s2)
                                 else (Inl (DbNotRunnable cid), s2)
                | (Inl e, s2) \<Rightarrow> (Inl (DbNotRunnable cid), s2))
          else sbind (bump_command_generation ev s1) (\<lambda>g. get_agent_command ev cid)))"

definition finish_agent_command_for_run :: "env \<Rightarrow> int \<Rightarrow> int \<Rightarrow> string \<Rightarrow> string \<Rightarrow> int \<Rightarrow> db \<Rightarrow> unit db_result" where
  "finish_agent_command_for_run ev host run status0 reason0 now s =
     (let status = trim_space status0; reason = trim_space reason0
      in if \<not> final_status status then (Inl (DbBadStatus status), s)
         else if host \<le> 0 \<or> run \<le> 0 then (Inr (), s)
         else sbind (update_commands ev (\<lambda>c. cm_host c = host \<and> cm_run c = Some run \<and> unfinished c)
                (\<lambda>s c. c\<lparr>cm_status := status, cm_reason := opt_string reason, cm_finished := Some now, cm_updated := sql_now ev s\<rparr>) s)
           (\<lambda>changed s1. if 0 < changed then sbind (bump_command_generation ev s1) (\<lambda>g s2. (Inr (), s2)) else (Inr (), s1)))"

text \<open>The heartbeat row that \<open>RecordAgentDroppedCommand\<close> updates is not in the model, only its statement.\<close>

definition ack_agent_command :: "env \<Rightarrow> int \<Rightarrow> int \<Rightarrow> string \<Rightarrow> string \<Rightarrow> int \<Rightarrow> db \<Rightarrow> command_row db_result" where
  "ack_agent_command ev cid host status0 reason0 now s =
     (let status = trim_space status0; reason = opt_string (trim_space reason0); mine = (\<lambda>c. cm_id c = cid \<and> cm_host c = host)
      in if cid \<le> 0 then (Inl (DbRequired ''agent command id''), s)
         else if host \<le> 0 then (Inl (DbRequired ''agent command host_id''), s)
         else if \<not> (status = ''claimed'' \<or> status = ''running'' \<or> final_status status) then (Inl (DbBadStatus status), s)
         else sbind
           (if status = ''claimed'' then
              update_commands ev (\<lambda>c. mine c \<and> cm_status c = ''pending'' \<and> now < cm_expires c)
                (\<lambda>s c. c\<lparr>cm_status := ''claimed'', cm_reason := reason, cm_claimed := Some now, cm_updated := sql_now ev s\<rparr>) s
            else if status = ''running'' then
              update_commands ev (\<lambda>c. mine c \<and> waiting c \<and> now < cm_expires c)
                (\<lambda>s c. c\<lparr>cm_status := ''running'', cm_reason := reason, cm_claimed := claim_time now c, cm_updated := sql_now ev s\<rparr>) s
            else
              update_commands ev (\<lambda>c. mine c \<and> unfinished c)
                (\<lambda>s c. c\<lparr>cm_status := status, cm_reason := reason, cm_finished := Some now, cm_updated := sql_now ev s\<rparr>) s)
           (\<lambda>changed s1.
             if changed = 0 then (Inl (DbNotRunnable cid), s1)
             else sbind (bump_command_generation ev s1) (\<lambda>g s2.
               get_agent_command ev cid (if status = ''dropped'' then snd (query ev (\<lambda>s. ()) s2) else s2))))"

end
