(* ===== verification/StateLaws.thy ===== *)
theory StateLaws
  imports StateStore
begin

text \<open>
  What holds of the database whatever sequence of operations runs on it, and with whatever failures:
  a transition relation with one rule for every operation of \<open>StateStore\<close> that changes a table, a
  locale that reduces a relation between states before and after a transition to the single
  statements, and its interpretations.
\<close>

subsection \<open>Transitions\<close>

inductive db_trans :: "db \<Rightarrow> db \<Rightarrow> bool" where
  create_run: "db_trans s (snd (create_run ev job host s))"
| stale_runs: "db_trans s (snd (mark_stale_runs_failed ev cutoff started now s))"
| run_running: "db_trans s (snd (mark_run_running ev rid now s))"
| run_complete: "db_trans s (snd (complete_run ev rid now s))"
| run_fail: "db_trans s (snd (fail_run ev rid msg now s))"
| run_log: "db_trans s (snd (append_run_log ev rid level msg s))"
| run_progress: "db_trans s (snd (update_run_progress ev inp s))"
| new_snapshot: "db_trans s (snd (create_snapshot ev jb hst rid source_type ref files bs s))"
| delete: "db_trans s (snd (delete_snapshot ev sid reason by now s))"
| health: "db_trans s (snd (update_snapshot_health ev sid h msg verified s))"
| expire: "db_trans s (snd (expire_snapshots ev sids now s))"
| new_task: "db_trans s (snd (create_restore_task ev sid target status s))"
| task_status: "db_trans s (snd (update_restore_task_status ev tid status s))"
| maintenance: "db_trans s (snd (record_maintenance_run ev mode status start finish skipped report err s))"
| chunk_generation: "db_trans s (snd (bump_chunk_generation ev hashes reason now s))"
| prune: "db_trans s (snd (prune_chunk_invalidations ev zcutoff s))"
| config_generation: "db_trans s (snd (bump_config_generation ev s))"
| new_command: "db_trans s (snd (create_agent_command ev hid jb type payload by expires s))"
| expire_commands: "db_trans s (snd (expire_agent_commands ev now s))"
| command_running: "db_trans s (snd (mark_agent_command_running ev cid hid rid now s))"
| command_finished: "db_trans s (snd (finish_agent_command_for_run ev hid rid status reason now s))"
| new_job: "db_trans s (snd (create_job ev name hid config enabled schedule tz max_run retries s))"
| edit_job: "db_trans s (snd (update_job ev jid name config enabled schedule tz max_run retries s))"
| agent_job: "db_trans s (snd (find_or_create_agent_job ev hid cred name config tz s))"
| command_ack: "db_trans s (snd (ack_agent_command ev cid hid status reason now s))"

inductive db_reaches :: "db \<Rightarrow> db \<Rightarrow> bool" where
  start: "db_reaches s s"
| step: "db_reaches s t \<Longrightarrow> db_trans t u \<Longrightarrow> db_reaches s u"

subsection \<open>Relations that statements keep\<close>

locale db_relation =
  fixes R :: "db \<Rightarrow> db \<Rightarrow> bool"
  assumes stepped: "R s (s\<lparr>db_step := n\<rparr>)"
    and trans: "R s t \<Longrightarrow> R t u \<Longrightarrow> R s u"
begin

lemma refl: "R s s"
  using stepped [of s "db_step s"] by simp

lemma sql: "R s (snd (f s)) \<Longrightarrow> R s (snd (sql ev f s))"
  using stepped trans by (auto simp: sql_def step_db_def split: prod.splits)

lemma query: "R s (snd (query ev f s))"
  unfolding query_def by (rule sql) (simp add: refl)

lemma sbind: "R s (snd m) \<Longrightarrow> (\<And>x t. m = (Inr x, t) \<Longrightarrow> R t (snd (f x t))) \<Longrightarrow> R s (snd (sbind m f))"
  by (cases "(m, f)" rule: sbind.cases) (auto intro: trans)

lemma in_tx: "(\<And>s. R s (snd (f s))) \<Longrightarrow> R s (snd (in_tx ev f s))"
proof -
  assume f: "\<And>s. R s (snd (f s))"
  obtain r1 s1 where q: "query ev (\<lambda>s. ()) s = (r1, s1)" by fastforce
  have 1: "R s s1" using query [of s ev "\<lambda>s. ()"] q by simp
  obtain r2 s2 where f2: "f s1 = (r2, s2)" by fastforce
  have 2: "R s s2" using f [of s1] f2 1 trans by fastforce
  obtain r3 s3 where q3: "query ev (\<lambda>s. ()) s2 = (r3, s3)" by fastforce
  have 3: "R s s3" using query [of s2 ev "\<lambda>s. ()"] q3 2 trans by fastforce
  have undo: "R s (rolled_back s1 t)" for t using trans [OF 1 stepped] by (simp add: rolled_back_def)
  show ?thesis using q f2 q3 1 3 undo
    by (auto simp: in_tx_def split: sum.splits)
qed

lemmas steps = refl query sbind in_tx

lemma ensure_state: "R s (snd (ensure_repository_state ev n s))"
  by (induction n arbitrary: s) (auto intro: steps)

lemma if_state: "(b \<Longrightarrow> R s (snd x)) \<Longrightarrow> (\<not> b \<Longrightarrow> R s (snd y)) \<Longrightarrow> R s (snd (if b then x else y))"
  by simp

lemma get_state:
  "R s (snd (get_run_progress ev rid s))" "R s (snd (get_snapshot ev sid s))" "R s (snd (get_restore_task ev tid s))"
  "R s (snd (get_maintenance_run ev mid s))" "R s (snd (get_agent_command ev cid s))"
  unfolding get_run_progress_def get_snapshot_def get_restore_task_def get_maintenance_run_def get_agent_command_def
  by (auto intro!: steps split: option.splits)

lemma got_command: "get_agent_command ev cid s = (r, t) \<Longrightarrow> R s t"
  using get_state(5) [of s ev cid] by simp

lemma hydrate_state: "R s (snd (hydrate_run ev run s))"
  unfolding hydrate_run_def by (auto intro!: steps get_state)

lemma get_run_state: "R s (snd (get_run ev rid s))"
  unfolding get_run_def by (auto intro!: steps hydrate_state split: option.splits)

end

text \<open>The statements that the operations consist of, one assumption for each table.\<close>

definition run_update :: "(run_row \<Rightarrow> bool) \<Rightarrow> (run_row \<Rightarrow> run_row) \<Rightarrow> bool" where
  "run_update p f \<longleftrightarrow> (\<forall>r. p r \<longrightarrow> rn_id (f r) = rn_id r \<and> rn_job (f r) = rn_job r \<and>
     (run_active (rn_status (f r)) \<longrightarrow> run_active (rn_status r)))"

definition snapshot_update :: "(snapshot_row \<Rightarrow> bool) \<Rightarrow> (snapshot_row \<Rightarrow> snapshot_row) \<Rightarrow> bool" where
  "snapshot_update p f \<longleftrightarrow> (\<forall>x. p x \<longrightarrow> sn_id (f x) = sn_id x \<and> sn_manifest (f x) = sn_manifest x \<and> sn_run (f x) = sn_run x \<and>
     (sn_deleted x = None \<or> (sn_deleted (f x) = sn_deleted x \<and> sn_reason (f x) = sn_reason x)))"

definition command_update :: "(command_row \<Rightarrow> bool) \<Rightarrow> (command_row \<Rightarrow> command_row) \<Rightarrow> bool" where
  "command_update p f \<longleftrightarrow> (\<forall>c. p c \<longrightarrow> unfinished c \<and> cm_id (f c) = cm_id c \<and> cm_host (f c) = cm_host c)"

locale db_statements = db_relation +
  assumes run_insert: "active_run_of job s = None \<Longrightarrow> R s (snd (insert_run ev job host s))"
    and run_updated: "run_update p f \<Longrightarrow> R s (s\<lparr>db_runs := update_where p f (db_runs s)\<rparr>)"
    and numbered: "db_seq s \<le> n \<Longrightarrow> R s (s\<lparr>db_seq := n\<rparr>)"
    and logged: "R s (s\<lparr>db_logs := ls\<rparr>)" "R s (s\<lparr>db_progress := ps\<rparr>)" "R s (s\<lparr>db_maintenance := ms\<rparr>)" "R s (s\<lparr>db_tasks := ts\<rparr>)"
    and snapshot_insert: "sn_deleted x = None \<Longrightarrow> R s (s\<lparr>db_snapshots := db_snapshots s @ [x]\<rparr>)"
    and snapshot_updated: "snapshot_update sp sf \<Longrightarrow> R s (s\<lparr>db_snapshots := update_where sp sf (db_snapshots s)\<rparr>)"
    and jobs: "R s (s\<lparr>db_jobs := jbs\<rparr>)"
    and meta: "R s (s\<lparr>db_meta := m\<rparr>)" "R s (s\<lparr>db_journal := js\<rparr>)"
    and command_insert: "R s (s\<lparr>db_commands := db_commands s @ [c]\<rparr>)"
    and command_updated: "command_update cp cf \<Longrightarrow> R s (s\<lparr>db_commands := update_where cp cf (db_commands s)\<rparr>)"
begin

lemma numbered_row:
  "R (s\<lparr>db_seq := db_seq s + 1\<rparr>) (g (s\<lparr>db_seq := db_seq s + 1\<rparr>)) \<Longrightarrow> R s (g (s\<lparr>db_seq := db_seq s + 1\<rparr>))"
  by (rule trans [OF numbered]) simp_all

lemma bump: "R s (snd (bump_counter ev k s))"
  unfolding bump_counter_def by (intro sbind ensure_state sql query) (simp add: meta)

lemma commands: "(\<And>s. command_update cp (cf s)) \<Longrightarrow> R s (snd (update_commands ev cp cf s))"
  unfolding update_commands_def by (rule sql) (simp add: command_updated)

lemma run_ops:
  "R s (snd (mark_stale_runs_failed ev cutoff started now s))" "R s (snd (mark_run_running ev rid now s))"
  "R s (snd (complete_run ev rid now s))" "R s (snd (fail_run ev rid msg now s))"
  unfolding mark_stale_runs_failed_def mark_run_running_def complete_run_def fail_run_def update_run_def
  by (auto intro!: sql run_updated simp: run_update_def)

lemma create_run_op: "R s (snd (create_run ev job host s))"
  unfolding create_run_def
proof (intro sbind in_tx get_run_state query)
  fix s' active t
  assume q: "query ev (active_run_of job) s' = (Inr active, t)"
  then have "active = active_run_of job s'" "t = step_db s'" by (auto simp: query_def sql_def split: if_splits)
  then show "R t (snd (case active of None \<Rightarrow> sql ev (insert_run ev job host) t | Some run \<Rightarrow> (Inl (DbActiveRun (rn_id run)), t)))"
    by (auto simp: refl step_db_def active_run_of_def split: option.splits intro!: sql run_insert)
qed

lemma run_log_ops: "R s (snd (append_run_log ev rid level msg s))" "R s (snd (update_run_progress ev inp s))"
proof -
  show "R s (snd (append_run_log ev rid level msg s))"
    unfolding append_run_log_def by (rule sql) (auto simp: refl logged intro!: trans [OF numbered [of s "db_seq s + 1"]])
  show "R s (snd (update_run_progress ev inp s))"
    unfolding update_run_progress_def Let_def
    by (intro if_state sbind sql get_state) (auto simp: refl logged split: option.splits)
qed

lemma snapshot_ops:
  "R s (snd (create_snapshot ev job host run source_type ref files bs s))" "R s (snd (delete_snapshot ev sid reason by now s))"
  "R s (snd (update_snapshot_health ev sid h msg verified s))" "R s (snd (expire_snapshots ev sids now s))"
proof -
  show "R s (snd (create_snapshot ev job host run source_type ref files bs s))"
    unfolding create_snapshot_def Let_def
  proof (intro sbind sql get_state)
    have "R (s\<lparr>db_seq := db_seq s + 1\<rparr>) ((s\<lparr>db_seq := db_seq s + 1\<rparr>)\<lparr>db_snapshots := db_snapshots (s\<lparr>db_seq := db_seq s + 1\<rparr>) @ [x]\<rparr>)"
      if "sn_deleted x = None" for x using snapshot_insert that by blast
    then show "R s (snd (db_seq s + 1, s\<lparr>db_seq := db_seq s + 1, db_snapshots := db_snapshots s @
              [\<lparr>sn_id = db_seq s + 1, sn_job = job, sn_host = host, sn_run = run, sn_created = sql_now ev s, sn_source_type = source_type,
                sn_manifest = ref, sn_files = files, sn_size = bs, sn_deleted = None, sn_reason = None,
                sn_deleted_by = None, sn_health = ''unknown'', sn_message = None, sn_verified = None\<rparr>]\<rparr>))"
      by (auto intro!: trans [OF numbered [of s "db_seq s + 1"]])
  qed
  show "R s (snd (delete_snapshot ev sid reason by now s))"
    unfolding delete_snapshot_def Let_def snapshot_has_active_restore_task_def
    by (intro if_state sbind sql query get_state)
       (auto simp: refl snapshot_update_def mark_deleted_def intro!: snapshot_updated sbind get_state)
  show "R s (snd (update_snapshot_health ev sid h msg verified s))"
    unfolding update_snapshot_health_def Let_def
    by (intro if_state sbind sql) (auto simp: refl snapshot_update_def intro!: snapshot_updated)
  have loop: "R s (snd (expire_loop ev now sids n s))" for n s
    by (induction sids arbitrary: n s)
       (auto simp: refl snapshot_update_def expirable_def mark_deleted_def intro!: sbind sql snapshot_updated)
  show "R s (snd (expire_snapshots ev sids now s))"
    unfolding expire_snapshots_def by (auto simp: refl intro!: in_tx loop)
qed

lemma task_ops: "R s (snd (create_restore_task ev sid target status s))" "R s (snd (update_restore_task_status ev tid status s))"
proof -
  show "R s (snd (create_restore_task ev sid target status s))"
    unfolding create_restore_task_def Let_def
    by (intro if_state sbind sql get_state) (auto simp: refl logged intro!: trans [OF numbered [of s "db_seq s + 1"]])
  show "R s (snd (update_restore_task_status ev tid status s))"
    unfolding update_restore_task_status_def by (intro if_state sbind sql get_state) (auto simp: refl logged)
qed

lemma maintenance_op: "R s (snd (record_maintenance_run ev mode status start finish skipped report err s))"
  unfolding record_maintenance_run_def Let_def
  by (intro if_state sbind sql get_state) (auto simp: refl logged intro!: trans [OF numbered [of s "db_seq s + 1"]])

lemma journal_ops: "R s (snd (bump_chunk_generation ev hashes reason now s))" "R s (snd (prune_chunk_invalidations ev cutoff s))"
proof -
  have loop: "R s (snd (journal_loop ev g reason now hs s))" for g reason hs s
    by (induction hs arbitrary: s) (auto simp: refl meta intro!: sbind sql)
  show "R s (snd (bump_chunk_generation ev hashes reason now s))"
    unfolding bump_chunk_generation_def Let_def
    by (intro in_tx sbind sql query loop) (auto simp: meta refl)
  show "R s (snd (prune_chunk_invalidations ev cutoff s))"
    unfolding prune_chunk_invalidations_def
    by (auto split: option.splits simp: refl meta intro!: sbind sql query)
qed

lemma new_command: "R s (s\<lparr>db_seq := db_seq s + 1, db_commands := db_commands s @ [c]\<rparr>)"
  using trans [OF numbered [of s "db_seq s + 1"] command_insert [of "s\<lparr>db_seq := db_seq s + 1\<rparr>" c]] by simp

lemma job_ops:
  "R s (snd (create_job ev name hid config enabled schedule tz max_run retries s))"
  "R s (snd (update_job ev jid name config enabled schedule tz max_run retries s))"
  "R s (snd (find_or_create_agent_job ev hid cred name config tz s))"
proof -
  have ins: "R s (snd (insert_job ev row s))" for ev row s
    unfolding insert_job_def Let_def
    using trans [OF numbered [of s "db_seq s + 1"] jobs] by (auto simp: refl)
  have upd: "R s (s\<lparr>db_jobs := f\<rparr>)" for f s by (rule jobs)
  have ins_op: "R s (snd (insert_job_row ev row s))" for ev row s
    unfolding insert_job_row_def
    by (intro sbind sql ins) (auto simp: refl split: option.splits)
  show "R s (snd (create_job ev name hid config enabled schedule tz max_run retries s))"
    unfolding create_job_def Let_def bump_config_generation_def get_host_def get_job_def
    by (intro if_state sbind ins_op bump query) (auto simp: refl split: option.splits)
  show "R s (snd (update_job ev jid name config enabled schedule tz max_run retries s))"
    unfolding update_job_def Let_def bump_config_generation_def get_job_def
    by (intro if_state sbind sql bump query) (auto simp: refl upd split: option.splits)
  show "R s (snd (find_or_create_agent_job ev hid cred name config tz s))"
    unfolding find_or_create_agent_job_def Let_def bump_config_generation_def get_job_def
    by (intro if_state sbind in_tx ins_op bump query) (auto simp: refl upd split: option.splits intro!: sbind sql ins_op bump query)
qed

lemma command_ops:
  "R s (snd (create_agent_command ev host job type payload by expires s))" "R s (snd (expire_agent_commands ev now s))"
  "R s (snd (mark_agent_command_running ev cid host run now s))"
  "R s (snd (finish_agent_command_for_run ev host run status reason now s))"
  "R s (snd (ack_agent_command ev cid host status reason now s))"
proof -
  show "R s (snd (create_agent_command ev host job type payload by expires s))"
    unfolding create_agent_command_def Let_def
    by (intro if_state) (cases expires; auto simp: refl intro!: sbind in_tx get_state sql meta new_command)+
  show "R s (snd (expire_agent_commands ev now s))"
    unfolding expire_agent_commands_def bump_command_generation_def
    by (intro sbind commands if_state bump) (auto simp: refl command_update_def unfinished_def)
  show "R s (snd (mark_agent_command_running ev cid host run now s))"
    unfolding mark_agent_command_running_def bump_command_generation_def
    by (intro if_state sbind commands bump get_state)
       (auto simp: refl command_update_def unfinished_def dest: got_command split: prod.splits sum.splits)
  show "R s (snd (finish_agent_command_for_run ev host run status reason now s))"
    unfolding finish_agent_command_for_run_def Let_def bump_command_generation_def
    by (intro if_state sbind commands bump) (auto simp: refl command_update_def)
  show "R s (snd (ack_agent_command ev cid host status reason now s))"
    unfolding ack_agent_command_def Let_def bump_command_generation_def
    by (intro if_state sbind commands bump get_state)
       (auto simp: refl command_update_def unfinished_def waiting_def intro!: trans [OF query get_state(5)] get_state)
qed

theorem transition: "db_trans s t \<Longrightarrow> R s t"
  by (induction rule: db_trans.induct)
     (simp_all add: create_run_op run_ops run_log_ops snapshot_ops task_ops maintenance_op journal_ops job_ops command_ops
       bump_config_generation_def bump)

theorem reached: "db_reaches s t \<Longrightarrow> R s t"
  by (induction rule: db_reaches.induct) (auto intro: refl trans transition)

end

subsection \<open>Runs\<close>

text \<open>Runs have distinct numbers, and a job has at most one run that is pending or running.\<close>

definition runs_ok :: "db \<Rightarrow> bool" where
  "runs_ok s \<longleftrightarrow> distinct (map rn_id (db_runs s)) \<and> (\<forall>r \<in> set (db_runs s). rn_id r \<le> db_seq s) \<and>
     (\<forall>r \<in> set (db_runs s). \<forall>q \<in> set (db_runs s). run_active (rn_status r) \<longrightarrow> run_active (rn_status q) \<longrightarrow>
        rn_job r \<noteq> None \<longrightarrow> rn_job q = rn_job r \<longrightarrow> q = r)"

lemma active_run_of_None: "active_run_of job s = None \<Longrightarrow> r \<in> set (db_runs s) \<Longrightarrow> rn_job r = Some job \<Longrightarrow> \<not> run_active (rn_status r)"
proof
  assume a: "active_run_of job s = None" "r \<in> set (db_runs s)" "rn_job r = Some job" "run_active (rn_status r)"
  then have "r \<in> set (desc_by rn_id (filter (\<lambda>r. rn_job r = Some job \<and> run_active (rn_status r)) (db_runs s)))"
    by (simp add: desc_by_def)
  then show False using a(1) by (auto simp: active_run_of_def head_def split: list.splits)
qed

lemma runs_ok_insert:
  assumes "active_run_of job s = None" "runs_ok s"
  shows "runs_ok (snd (insert_run ev job host s))"
proof -
  have fresh: "db_seq s + 1 \<notin> rn_id ` set (db_runs s)" using assms(2) by (auto simp: runs_ok_def)
  then show ?thesis
    using assms(2) active_run_of_None [OF assms(1)] by (force simp: runs_ok_def insert_run_def Let_def)
qed

lemma runs_ok_update:
  assumes u: "run_update p f" and ok: "runs_ok s"
  shows "runs_ok (s\<lparr>db_runs := update_where p f (db_runs s)\<rparr>)"
proof -
  obtain g where gd: "g = (\<lambda>r. if p r then f r else r)" by simp
  have g: "rn_id (g r) = rn_id r" "rn_job (g r) = rn_job r" "run_active (rn_status (g r)) \<Longrightarrow> run_active (rn_status r)" for r
    using u by (auto simp: run_update_def gd split: if_splits)
  let ?t = "s\<lparr>db_runs := map g (db_runs s)\<rparr>"
  have ids: "map rn_id (db_runs ?t) = map rn_id (db_runs s)" using g(1) by simp
  have one: "y = x" if "x \<in> set (db_runs ?t)" "y \<in> set (db_runs ?t)" "run_active (rn_status x)" "run_active (rn_status y)"
    "rn_job x \<noteq> None" "rn_job y = rn_job x" for x y
  proof -
    obtain r q where rq: "r \<in> set (db_runs s)" "x = g r" "q \<in> set (db_runs s)" "y = g q" using \<open>x \<in> _\<close> \<open>y \<in> _\<close> by auto
    have "run_active (rn_status r)" "run_active (rn_status q)" "rn_job r \<noteq> None" "rn_job q = rn_job r"
      using g rq(2,4) that(3-6) by auto
    then have "q = r" using ok rq(1,3) unfolding runs_ok_def by blast
    then show ?thesis using rq by simp
  qed
  have "runs_ok ?t" unfolding runs_ok_def
  proof (intro conjI ballI impI)
    show "distinct (map rn_id (db_runs ?t))" unfolding ids using ok by (simp add: runs_ok_def)
    show "rn_id r \<le> db_seq ?t" if "r \<in> set (db_runs ?t)" for r using that ok g(1) by (auto simp: runs_ok_def)
  qed (rule one)
  then show ?thesis unfolding update_where_def gd .
qed

interpretation run_invariant: db_statements "\<lambda>s t. runs_ok s \<longrightarrow> runs_ok t"
proof unfold_locales
  show "runs_ok s \<longrightarrow> runs_ok (snd (insert_run ev job host s))" if "active_run_of job s = None" for job s ev host
    using runs_ok_insert [OF that] by blast
  show "runs_ok s \<longrightarrow> runs_ok (s\<lparr>db_runs := update_where p f (db_runs s)\<rparr>)" if "run_update p f" for p f s
    using runs_ok_update [OF that] by blast
qed (force simp: runs_ok_def)+

subsection \<open>Snapshots\<close>

text \<open>Snapshots are never lost, keep their manifest and run, and a deletion is final.\<close>

definition snapshot_kept :: "snapshot_row \<Rightarrow> snapshot_row \<Rightarrow> bool" where
  "snapshot_kept x y \<longleftrightarrow> sn_id y = sn_id x \<and> sn_manifest y = sn_manifest x \<and> sn_run y = sn_run x \<and>
     (sn_deleted x = None \<or> (sn_deleted y = sn_deleted x \<and> sn_reason y = sn_reason x))"

definition snapshots_kept :: "db \<Rightarrow> db \<Rightarrow> bool" where
  "snapshots_kept s t \<longleftrightarrow> (\<exists>new. list_all2 snapshot_kept (db_snapshots s @ new) (db_snapshots t))"

lemma snapshot_kept_refl [simp]: "snapshot_kept x x"
  by (simp add: snapshot_kept_def)

lemma snapshot_kept_trans: "snapshot_kept x y \<Longrightarrow> snapshot_kept y z \<Longrightarrow> snapshot_kept x z"
  by (auto simp: snapshot_kept_def)

lemma snapshots_kept_same: "db_snapshots t = db_snapshots s \<Longrightarrow> snapshots_kept s t"
  unfolding snapshots_kept_def by (auto intro!: exI [of _ "[]"] list.rel_refl)

lemma snapshots_kept_trans:
  assumes "snapshots_kept s t" "snapshots_kept t u"
  shows "snapshots_kept s u"
proof -
  obtain a b where a: "list_all2 snapshot_kept (db_snapshots s @ a) (db_snapshots t)"
    and b: "list_all2 snapshot_kept (db_snapshots t @ b) (db_snapshots u)"
    using assms unfolding snapshots_kept_def by blast
  have "list_all2 snapshot_kept ((db_snapshots s @ a) @ b) (db_snapshots t @ b)"
    using a by (intro list_all2_appendI) (auto intro: list.rel_refl)
  from list_all2_trans [OF _ this b, of snapshot_kept] show ?thesis
    unfolding snapshots_kept_def using snapshot_kept_trans by (auto intro!: exI [of _ "a @ b"])
qed

interpretation snapshot_history: db_statements snapshots_kept
proof unfold_locales
  show "snapshots_kept s t \<Longrightarrow> snapshots_kept t u \<Longrightarrow> snapshots_kept s u" for s t u by (rule snapshots_kept_trans)
  show "snapshots_kept s (s\<lparr>db_snapshots := db_snapshots s @ [x]\<rparr>)" for s x
    unfolding snapshots_kept_def by (auto intro!: exI [of _ "[x]"] list.rel_refl)
  show "snapshots_kept s (s\<lparr>db_snapshots := update_where sp sf (db_snapshots s)\<rparr>)" if "snapshot_update sp sf" for sp sf s
    unfolding snapshots_kept_def using that
    by (intro exI [of _ "[]"]) (auto simp: update_where_def snapshot_update_def snapshot_kept_def list_all2_conv_all_nth)
qed (auto simp: insert_run_def Let_def intro!: snapshots_kept_same)

subsection \<open>Agent commands\<close>

text \<open>A command that is completed, failed, dropped or expired never changes again.\<close>

definition commands_kept :: "db \<Rightarrow> db \<Rightarrow> bool" where
  "commands_kept s t \<longleftrightarrow> (\<forall>c \<in> set (db_commands s). \<not> unfinished c \<longrightarrow> c \<in> set (db_commands t))"

interpretation command_history: db_statements commands_kept
proof unfold_locales
  show "commands_kept s (s\<lparr>db_commands := update_where cp cf (db_commands s)\<rparr>)" if "command_update cp cf" for cp cf s
    using that by (force simp: commands_kept_def command_update_def update_where_def)
qed (auto simp: commands_kept_def insert_run_def Let_def)

subsection \<open>Snapshots that are being restored\<close>

definition in_use_kept :: "db \<Rightarrow> db \<Rightarrow> bool" where
  "in_use_kept s t \<longleftrightarrow> db_tasks t = db_tasks s \<and>
     (\<forall>x \<in> set (db_snapshots s). sn_deleted x = None \<longrightarrow> snapshot_in_use (sn_id x) s \<longrightarrow> x \<in> set (db_snapshots t))"

lemma snapshot_in_use_cong: "db_tasks t = db_tasks s \<Longrightarrow> snapshot_in_use sid t = snapshot_in_use sid s"
  by (simp add: snapshot_in_use_def)

interpretation in_use: db_relation in_use_kept
proof unfold_locales
  show "in_use_kept s t \<Longrightarrow> in_use_kept t u \<Longrightarrow> in_use_kept s u" for s t u
    using snapshot_in_use_cong [of t s] unfolding in_use_kept_def by auto
qed (simp add: in_use_kept_def)

lemma delete_in_use: "in_use_kept s (snd (delete_snapshot ev sid reason by now s))"
  unfolding delete_snapshot_def Let_def
proof (intro in_use.if_state in_use.sbind in_use.get_state)
  show "in_use_kept s (snd (Inl (DbRequired ''snapshot id''), s))" by (simp add: in_use.refl)
next
  fix x s1 show "in_use_kept s1 (snd (Inr (x, False), s1))" by (simp add: in_use.refl)
next
  fix s1 show "in_use_kept s1 (snd (snapshot_has_active_restore_task ev sid s1))"
    unfolding snapshot_has_active_restore_task_def by (rule in_use.query)
next
  fix s1 s2 inu assume q: "snapshot_has_active_restore_task ev sid s1 = (Inr inu, s2)"
  show "in_use_kept s2 (snd (Inl DbSnapshotInUse, s2))" by (simp add: in_use.refl)
  assume "\<not> inu"
  then have free: "\<not> snapshot_in_use sid s2" using q
    by (auto simp: snapshot_has_active_restore_task_def query_def sql_def step_db_def snapshot_in_use_def split: if_splits)
  show "in_use_kept s2 (snd (sql ev (\<lambda>s. (count_where (\<lambda>x. sn_id x = sid \<and> sn_deleted x = None) (db_snapshots s),
      s\<lparr>db_snapshots := update_where (\<lambda>x. sn_id x = sid \<and> sn_deleted x = None)
         (mark_deleted now (if reason = [] then ''manual'' else reason) (if by = [] then ''admin'' else by)) (db_snapshots s)\<rparr>)) s2))"
    by (rule in_use.sql) (use free in \<open>force simp: in_use_kept_def update_where_def\<close>)
next
  fix x s4 changed show "in_use_kept s4 (snd (Inr (x, 0 < changed), s4))" by (simp add: in_use.refl)
qed

lemma expire_in_use: "in_use_kept s (snd (expire_snapshots ev sids now s))"
proof -
  have "in_use_kept s (s\<lparr>db_snapshots := update_where (expirable sid s) f (db_snapshots s)\<rparr>)" for sid f s
    by (force simp: in_use_kept_def update_where_def expirable_def)
  then have "in_use_kept s (snd (expire_loop ev now sids n s))" for n s
    by (induction sids arbitrary: n s) (auto simp: in_use.refl intro!: in_use.sbind in_use.sql)
  then show ?thesis unfolding expire_snapshots_def by (auto simp: in_use.refl intro!: in_use.in_tx)
qed

subsection \<open>The journal of removed chunks\<close>

text \<open>
  Every removal \<open>(generation, hash)\<close> that was recorded is still in the journal or is covered by the
  generation up to which the journal is declared to be compacted.
\<close>

definition journal_complete :: "(int \<times> string) set \<Rightarrow> db \<Rightarrow> bool" where
  "journal_complete H s \<longleftrightarrow> (\<forall>(g, h) \<in> H. g \<le> me_chunk_gen (db_meta s) \<and>
     (me_available_from (db_meta s) < g \<longrightarrow> (\<exists>j \<in> set (db_journal s). jr_generation j = g \<and> jr_hash j = h)))"

definition recorded :: "string list \<Rightarrow> string set" where
  "recorded hashes = {trim_space h | h. h \<in> set hashes \<and> trim_space h \<noteq> []}"

inductive journal_history :: "(int \<times> string) set \<Rightarrow> db \<Rightarrow> bool" where
  start: "journal_history {} s"
| bumped: "journal_history H s \<Longrightarrow> bump_chunk_generation ev hashes reason now s = (Inr g, t) \<Longrightarrow>
    journal_history (H \<union> {g} \<times> recorded hashes) t"
| bump_failed: "journal_history H s \<Longrightarrow> bump_chunk_generation ev hashes reason now s = (Inl e, t) \<Longrightarrow> journal_history H t"
| pruned: "journal_history H s \<Longrightarrow> prune_chunk_invalidations ev cutoff s = (Inr n, t) \<Longrightarrow> journal_history H t"
| unrelated: "journal_history H s \<Longrightarrow> db_journal t = db_journal s \<Longrightarrow> me_chunk_gen (db_meta t) = me_chunk_gen (db_meta s) \<Longrightarrow>
    me_available_from (db_meta t) = me_available_from (db_meta s) \<Longrightarrow> journal_history H t"

lemma sql_Inr: "sql ev f s = (Inr x, t) \<longleftrightarrow> env_io ev (db_step s) = None \<and> (\<exists>u. f s = (x, u) \<and> t = step_db u)"
  by (auto simp: sql_def split: prod.splits if_splits)

lemma query_Inr: "query ev f s = (Inr x, t) \<longleftrightarrow> env_io ev (db_step s) = None \<and> x = f s \<and> t = step_db s"
  by (auto simp: query_def sql_Inr)

lemma step_db_fields [simp]:
  "db_runs (step_db s) = db_runs s" "db_journal (step_db s) = db_journal s" "db_meta (step_db s) = db_meta s"
  "db_snapshots (step_db s) = db_snapshots s" "db_tasks (step_db s) = db_tasks s" "db_commands (step_db s) = db_commands s"
  by (simp_all add: step_db_def)

lemma in_tx_Inl: "in_tx ev f s = (Inl e, t) \<Longrightarrow> t = s\<lparr>db_step := db_step t\<rparr>"
  by (auto simp: in_tx_def rolled_back_def query_def sql_def step_db_def split: prod.splits sum.splits if_splits)

lemma in_tx_Inr: "in_tx ev f s = (Inr x, t) \<Longrightarrow> \<exists>u. f (step_db s) = (Inr x, u) \<and> t = step_db u"
  by (auto simp: in_tx_def query_def sql_def split: prod.splits sum.splits if_splits)

lemma journal_loop_Inr:
  "journal_loop ev g reason now hs s = (Inr u, t) \<Longrightarrow>
   db_meta t = db_meta s \<and> set (db_journal s) \<subseteq> set (db_journal t) \<and>
   (\<forall>h \<in> recorded hs. \<exists>j \<in> set (db_journal t). jr_generation j = g \<and> jr_hash j = h)"
proof (induction hs arbitrary: s)
  case Nil
  then show ?case by (simp add: recorded_def)
next
  case (Cons h hs)
  show ?case
  proof (cases "trim_space h = []")
    case True
    then have "recorded (h # hs) = recorded hs" by (auto simp: recorded_def)
    then show ?thesis using Cons True by simp
  next
    case False
    obtain s1 where s1: "sql ev (\<lambda>s. ((), s\<lparr>db_journal := journal_insert g (trim_space h) reason now (db_journal s)\<rparr>)) s = (Inr (), s1)"
      "journal_loop ev g reason now hs s1 = (Inr u, t)"
      using Cons.prems False by (auto simp: result_simps)
    have j1: "db_journal s1 = journal_insert g (trim_space h) reason now (db_journal s)" "db_meta s1 = db_meta s"
      using s1(1) by (auto simp: sql_Inr)
    have here: "\<exists>j \<in> set (db_journal s1). jr_generation j = g \<and> jr_hash j = trim_space h" "set (db_journal s) \<subseteq> set (db_journal s1)"
      using j1(1) by (auto simp: journal_insert_def list_ex_iff)
    have "recorded (h # hs) = insert (trim_space h) (recorded hs)" using False by (auto simp: recorded_def)
    then show ?thesis using Cons.IH [OF s1(2)] here j1(2) by auto
  qed
qed

lemma foldl_max_le: "(\<forall>x \<in> set xs. f x \<le> foldl (\<lambda>m x. max m (f x)) m xs) \<and> (m :: int) \<le> foldl (\<lambda>m x. max m (f x)) m xs"
proof (induction xs arbitrary: m)
  case (Cons x xs)
  from Cons.IH [of "max m (f x)"] show ?case by auto
qed simp

lemma max_generation_le: "max_generation js = Some g \<Longrightarrow> j \<in> set js \<Longrightarrow> jr_generation j \<le> g"
  using foldl_max_le [of _ jr_generation] by (fastforce simp: max_generation_def split: list.splits)

lemma max_generation_None: "max_generation js = None \<longleftrightarrow> js = []"
  by (simp add: max_generation_def split: list.splits)

lemma journal_history_complete: "journal_history H s \<Longrightarrow> journal_complete H s"
proof (induction rule: journal_history.induct)
  case (start s)
  then show ?case by (simp add: journal_complete_def)
next
  case (bumped H s ev hashes reason now g t)
  let ?s2 = "step_db (step_db (step_db s\<lparr>db_meta := db_meta s\<lparr>me_chunk_gen := me_chunk_gen (db_meta s) + 1\<rparr>\<rparr>))"
  obtain u where g: "g = me_chunk_gen (db_meta s) + 1" and t: "t = step_db u"
    and l: "journal_loop ev g (if trim_space reason = [] then ''unknown'' else trim_space reason) now hashes ?s2 = (Inr (), u)"
    using in_tx_Inr [OF bumped.hyps(2) [unfolded bump_chunk_generation_def Let_def]]
    by (auto simp: result_simps sql_Inr query_Inr)
  show ?case
    using bumped.IH journal_loop_Inr [OF l] g t by (force simp: journal_complete_def)
next
  case (bump_failed H s ev hashes reason now e t)
  obtain n where "t = s\<lparr>db_step := n\<rparr>"
    using in_tx_Inl [OF bump_failed.hyps(2) [unfolded bump_chunk_generation_def Let_def]] by blast
  with bump_failed.IH show ?case by (simp add: journal_complete_def)
next
  case (pruned H s ev cutoff n t)
  show ?case
  proof (cases cutoff)
    case None
    then show ?thesis using pruned by (simp add: prune_chunk_invalidations_def)
  next
    case (Some c)
    let ?old = "filter (\<lambda>j. jr_created j < c) (db_journal s)"
    have keep: "db_journal t = filter (\<lambda>j. \<not> jr_created j < c) (db_journal s)"
      and gen: "me_chunk_gen (db_meta t) = me_chunk_gen (db_meta s)"
      and avail: "me_available_from (db_meta t) = (case max_generation ?old of None \<Rightarrow> me_available_from (db_meta s)
          | Some g \<Rightarrow> max (me_available_from (db_meta s)) g)"
      using pruned.hyps(2) Some by (auto simp: prune_chunk_invalidations_def result_simps sql_Inr query_Inr split: option.splits)
    have "\<exists>j \<in> set (db_journal t). jr_generation j = g \<and> jr_hash j = h"
      if gh: "(g, h) \<in> H" and above: "me_available_from (db_meta t) < g" for g h
    proof -
      have "me_available_from (db_meta s) < g" using above avail by (auto split: option.splits)
      then obtain j where j: "j \<in> set (db_journal s)" "jr_generation j = g" "jr_hash j = h"
        using pruned.IH [unfolded journal_complete_def, THEN bspec, OF gh] by auto
      have "\<not> jr_created j < c"
      proof
        assume "jr_created j < c"
        then have old: "j \<in> set ?old" using j(1) by simp
        then have "?old \<noteq> []" by (metis empty_iff list.set(1))
        then have "max_generation ?old \<noteq> None" by (simp only: max_generation_None not_False_eq_True)
        then obtain m where m: "max_generation ?old = Some m" by blast
        have "g \<le> m" using max_generation_le [OF m old] j(2) by simp
        then show False using above avail m by simp
      qed
      then show ?thesis using keep j by auto
    qed
    then show ?thesis using pruned.IH gen by (auto simp: journal_complete_def)
  qed
next
  case (unrelated H s t)
  then show ?case by (simp add: journal_complete_def)
qed

subsection \<open>Retention\<close>

lemma keep_buckets_first:
  "distinct seen \<Longrightarrow> f x \<notin> f ` set a \<union> set seen \<Longrightarrow> int (card (f ` set a \<union> set seen)) < limit \<Longrightarrow>
   sn_id x \<in> set (keep_buckets f limit seen (a @ x # b))"
proof (induction a arbitrary: seen)
  case Nil
  then show ?case by (simp add: distinct_card)
next
  case (Cons y a)
  have "card (set seen) \<le> card (f ` set (y # a) \<union> set seen)" by (rule card_mono) auto
  then have l: "\<not> (limit \<le> 0 \<or> limit \<le> int (length seen))" using Cons.prems by (simp add: distinct_card)
  show ?case
  proof (cases "f y \<in> set seen")
    case True
    then have "f ` set (y # a) \<union> set seen = f ` set a \<union> set seen" by auto
    then show ?thesis using Cons.IH [of seen] Cons.prems True l by simp
  next
    case False
    have "f ` set (y # a) \<union> set seen = f ` set a \<union> set (f y # seen)" by auto
    then show ?thesis using Cons.IH [of "f y # seen"] Cons.prems False l by simp
  qed
qed

lemma kept_not_expired:
  assumes "x \<in> set xs" and "sn_id x \<in> set (keep_of_group (if rp_last p \<le> 0 then p\<lparr>rp_last := 30\<rparr> else p) (filter (\<lambda>y. group_key y = group_key x) xs))"
  shows "sn_id x \<notin> set (expired_snapshot_ids xs p)"
proof -
  have "\<exists>k \<in> set (remdups (map group_key xs)). sn_id x \<in> set (keep_of_group (if rp_last p \<le> 0 then p\<lparr>rp_last := 30\<rparr> else p) (filter (\<lambda>y. group_key y = k) xs))"
    using assms by (intro bexI [of _ "group_key x"]) auto
  then show ?thesis by (auto simp: expired_snapshot_ids_def Let_def)
qed

subsection \<open>Properties\<close>

text \<open>
  Property C24. Whatever operations ran on the database, in whatever order and with whatever failures
  of statements and commits, no job ever has two runs that are pending or running.
\<close>

theorem one_active_run_per_job:
  assumes "runs_ok s" and "db_reaches s t" and "r \<in> set (db_runs t)" and "q \<in> set (db_runs t)"
    and "run_active (rn_status r)" and "run_active (rn_status q)" and "rn_job r = Some job" and "rn_job q = Some job"
  shows "q = r"
  using run_invariant.reached [OF assms(2)] assms by (auto simp: runs_ok_def)

definition empty_db :: db where
  "empty_db = \<lparr>db_runs = [], db_progress = [], db_logs = [], db_snapshots = [], db_tasks = [], db_maintenance = [],
     db_journal = [], db_commands = [], db_hosts = [], db_jobs = [], db_meta = \<lparr>me_repository = ''repo'', me_chunk_gen = 0, me_config_gen = 0,
     me_command_gen = 0, me_available_from = 0\<rparr>, db_seq = 0, db_step = 0\<rparr>"

definition one_run_db :: db where
  "one_run_db = snd (create_run good_env 7 (Some 1) empty_db)"

lemma empty_runs_ok: "runs_ok empty_db"
  by (simp add: runs_ok_def empty_db_def)

lemma one_active_run_per_job_witness:
  "map rn_id (filter (\<lambda>r. run_active (rn_status r)) (db_runs (snd (create_run good_env 7 (Some 1) one_run_db)))) = [1] \<and>
   last (db_runs (snd (create_run good_env 7 (Some 1) one_run_db))) = hd (db_runs (snd (create_run good_env 7 (Some 1) one_run_db)))"
proof -
  let ?t = "snd (create_run good_env 7 (Some 1) one_run_db)"
  have "db_reaches empty_db one_run_db" unfolding one_run_db_def by (rule db_reaches.step [OF db_reaches.start db_trans.create_run])
  then have re: "db_reaches empty_db ?t" by (rule db_reaches.step [OF _ db_trans.create_run])
  have runs: "map rn_id (filter (\<lambda>r. run_active (rn_status r)) (db_runs ?t)) = [1]"
    "list_all (\<lambda>r. run_active (rn_status r) \<and> rn_job r = Some 7) (db_runs ?t)" "db_runs ?t \<noteq> []" by code_simp+
  then have "hd (db_runs ?t) \<in> set (db_runs ?t)" "last (db_runs ?t) \<in> set (db_runs ?t)" by simp_all
  then have "last (db_runs ?t) = hd (db_runs ?t)"
    by (rule one_active_run_per_job [OF empty_runs_ok re]) (use runs(2,3) in \<open>auto simp: list_all_iff\<close>)
  with runs(1) show ?thesis by blast
qed

text \<open>
  A run that is over is not protected: completing or failing it again rewrites its status.
\<close>

lemma finished_run_fails_again:
  "map rn_status (db_runs (snd (complete_run good_env 1 5 one_run_db))) = [RunCompleted] \<and>
   map rn_status (db_runs (snd (fail_run good_env 1 ''late'' 6 (snd (complete_run good_env 1 5 one_run_db))))) = [RunFailed]"
  by code_simp

text \<open>
  No sequence of operations loses a snapshot, changes the manifest or the run it
  belongs to, or takes back or changes its deletion.
\<close>

theorem snapshot_rows_stay:
  assumes "db_reaches s t" and "x \<in> set (db_snapshots s)"
  shows "\<exists>y \<in> set (db_snapshots t). sn_id y = sn_id x \<and> sn_manifest y = sn_manifest x \<and> sn_run y = sn_run x \<and>
    (sn_deleted x = None \<or> (sn_deleted y = sn_deleted x \<and> sn_reason y = sn_reason x))"
proof -
  obtain new where "list_all2 snapshot_kept (db_snapshots s @ new) (db_snapshots t)"
    using snapshot_history.reached [OF assms(1)] by (auto simp: snapshots_kept_def)
  then obtain y where "y \<in> set (db_snapshots t)" "snapshot_kept x y"
    using assms(2) by (metis (no_types, lifting) Un_iff in_set_conv_nth list_all2_conv_all_nth set_append)
  then show ?thesis by (auto simp: snapshot_kept_def)
qed

definition two_snapshots_db :: db where
  "two_snapshots_db = snd (create_restore_task good_env 2 ''/restore'' [] (snd (create_snapshot good_env (Some 7) (Some 1) (Some 2) ''agent'' ''run-2'' 1 1
     (snd (create_snapshot good_env (Some 7) (Some 1) (Some 1) ''agent'' ''run-1'' 1 1 empty_db)))))"

lemma snapshot_rows_stay_witness:
  "\<exists>y \<in> set (db_snapshots (snd (delete_snapshot good_env 1 [] [] 9 two_snapshots_db))). sn_id y = 1 \<and> sn_manifest y = ''run-1''"
proof -
  have "list_ex (\<lambda>x. sn_id x = 1 \<and> sn_manifest x = ''run-1'') (db_snapshots two_snapshots_db)" by code_simp
  then obtain x where x: "x \<in> set (db_snapshots two_snapshots_db)" "sn_id x = 1" "sn_manifest x = ''run-1''"
    by (auto simp: list_ex_iff)
  have "db_reaches two_snapshots_db (snd (delete_snapshot good_env 1 [] [] 9 two_snapshots_db))"
    by (rule db_reaches.step [OF db_reaches.start db_trans.delete])
  from snapshot_rows_stay [OF this x(1)] x(2,3) show ?thesis by auto
qed

text \<open>
  Property C25. A snapshot that a pending or running restore task uses is deleted neither by hand nor
  by retention, whichever statements fail.
\<close>

theorem restoring_snapshot_stays:
  assumes "x \<in> set (db_snapshots s)" and "sn_deleted x = None" and "snapshot_in_use (sn_id x) s"
  shows "x \<in> set (db_snapshots (snd (delete_snapshot ev sid reason by_user now s))) \<and>
    x \<in> set (db_snapshots (snd (expire_snapshots ev sids now s)))"
  using delete_in_use [of s ev sid reason by_user now] expire_in_use [of s ev sids now] assms
  by (simp add: in_use_kept_def)

lemma restoring_snapshot_stays_witness:
  "\<exists>x \<in> set (db_snapshots (snd (expire_snapshots good_env [1, 2] 9 two_snapshots_db))). sn_id x = 2 \<and> sn_deleted x = None"
proof -
  have "list_ex (\<lambda>x. sn_id x = 2 \<and> sn_deleted x = None \<and> snapshot_in_use 2 two_snapshots_db) (db_snapshots two_snapshots_db)"
    by code_simp
  then obtain x where x: "x \<in> set (db_snapshots two_snapshots_db)" "sn_deleted x = None" "snapshot_in_use (sn_id x) two_snapshots_db" "sn_id x = 2"
    by (auto simp: list_ex_iff)
  from restoring_snapshot_stays [OF x(1-3)] x show ?thesis by blast
qed

text \<open>
  Property C29. Agent commands end once: a command that is completed, failed, dropped or expired is
  never changed by any later operation.
\<close>

theorem finished_command_stays:
  assumes "db_reaches s t" and "c \<in> set (db_commands s)" and "final_status (cm_status c)"
  shows "c \<in> set (db_commands t)"
  using command_history.reached [OF assms(1)] assms(2,3)
  by (auto simp: commands_kept_def unfinished_def waiting_def final_status_def)

definition dropped_command_db :: db where
  "dropped_command_db = snd (ack_agent_command good_env 1 1 ''dropped'' [] 5
     (snd (create_agent_command good_env 1 None ''run_backup'' [] ''admin'' (Some 100) empty_db)))"

lemma finished_command_stays_witness:
  "\<exists>c \<in> set (db_commands (snd (mark_agent_command_running good_env 1 1 3 6 dropped_command_db))). cm_status c = ''dropped''"
proof -
  have "list_ex (\<lambda>c. cm_status c = ''dropped'') (db_commands dropped_command_db)" by code_simp
  then obtain c where c: "c \<in> set (db_commands dropped_command_db)" "cm_status c = ''dropped''" by (auto simp: list_ex_iff)
  have "db_reaches dropped_command_db (snd (mark_agent_command_running good_env 1 1 3 6 dropped_command_db))"
    by (rule db_reaches.step [OF db_reaches.start db_trans.command_running])
  from finished_command_stays [OF this c(1)] c(2) show ?thesis by (auto simp: final_status_def)
qed

text \<open>
  Property C27. An agent that asks for the chunks removed since a generation, and gets a complete
  answer, is told every hash that was recorded as removed after that generation, after any number of
  recorded removals and successful prunings of the journal.
\<close>

theorem invalidations_complete:
  assumes "journal_history H s" and "chunk_invalidations_since ev since max_hashes s = (Inr answer, t)"
    and "iv_incomplete answer = None" and "(g, h) \<in> H" and "since < g"  and "0 \<le> since"
  shows "h \<in> set (iv_hashes answer)"
proof -
  have jc: "g \<le> me_chunk_gen (db_meta s)" "me_available_from (db_meta s) < g \<Longrightarrow> \<exists>j \<in> set (db_journal s). jr_generation j = g \<and> jr_hash j = h"
    using journal_history_complete [OF assms(1)] assms(4) by (auto simp: journal_complete_def)
  have ens: "ensure_repository_state ev n s = (Inr u, s1) \<Longrightarrow> db_meta s1 = db_meta s \<and> db_journal s1 = db_journal s" for n s s1 u
    by (induction n arbitrary: s) (auto simp: result_simps query_Inr)
  obtain m s1 where rs: "repository_state ev s = (Inr m, s1)" using assms(2) by (auto simp: chunk_invalidations_since_def result_simps)
  have m: "m = db_meta s" "db_journal s1 = db_journal s"
    using rs ens by (auto simp: repository_state_def result_simps query_Inr)
  have "since < me_chunk_gen m" using assms(5) jc(1) m by simp
  then have "me_available_from m \<le> since \<and> iv_hashes answer = map jr_hash (sort_key jr_generation (journal_between since (me_chunk_gen m) s))"
    using assms(2,3,6) rs m
    by (auto simp: chunk_invalidations_since_def Let_def result_simps query_Inr journal_between_def split: if_splits)
  then show ?thesis using jc m assms(5) by (force simp: journal_between_def)
qed

definition removed_chunk_db :: db where
  "removed_chunk_db = snd (bump_chunk_generation good_env [''c1''] ''compact'' 5 empty_db)"

lemma invalidations_complete_witness:
  "\<exists>answer t. chunk_invalidations_since good_env 0 0 removed_chunk_db = (Inr answer, t) \<and> ''c1'' \<in> set (iv_hashes answer)"
proof -
  have "fst (bump_chunk_generation good_env [''c1''] ''compact'' 5 empty_db) = Inr 1" by code_simp
  then have "bump_chunk_generation good_env [''c1''] ''compact'' 5 empty_db = (Inr 1, removed_chunk_db)"
    unfolding removed_chunk_db_def by (metis prod.collapse)
  from journal_history.bumped [OF journal_history.start this]
  have h: "journal_history ({} \<union> {1} \<times> recorded [''c1'']) removed_chunk_db" .
  have "recorded [''c1''] = {''c1''}"
  proof -
    have "trim_space ''c1'' = ''c1''" by code_simp
    then show ?thesis by (auto simp: recorded_def)
  qed
  then have in_H: "(1, ''c1'') \<in> {} \<union> {1} \<times> recorded [''c1'']" by simp
  have "case fst (chunk_invalidations_since good_env 0 0 removed_chunk_db) of Inr a \<Rightarrow> iv_incomplete a = None | Inl e \<Rightarrow> False" by code_simp
  then obtain answer t where a: "chunk_invalidations_since good_env 0 0 removed_chunk_db = (Inr answer, t)" "iv_incomplete answer = None"
    by (cases "chunk_invalidations_since good_env 0 0 removed_chunk_db") (auto split: sum.splits)
  from invalidations_complete [OF h a in_H] a(1) show ?thesis by auto
qed


text \<open>
  Property C26. Retention keeps what the policy promises: of every job the newest snapshots, and the
  newest snapshot of each of its latest days and weeks, are not in the list of expired snapshots. The
  list is in the order of the active snapshots, newest first.
\<close>

theorem retention_keeps:
  assumes "xs = a @ x # b" and "rp_last p > 0" and "before = filter (\<lambda>y. group_key y = group_key x) a"
    and "int (length before) < rp_last p \<or>
      (utc_day x \<notin> utc_day ` set before \<and> int (card (utc_day ` set before)) < rp_daily p) \<or>
      (iso_week x \<notin> iso_week ` set before \<and> int (card (iso_week ` set before)) < rp_weekly p)"
  shows "sn_id x \<notin> set (expired_snapshot_ids xs p)"
proof -
  let ?g = "filter (\<lambda>y. group_key y = group_key x) xs"
  have g: "?g = before @ x # filter (\<lambda>y. group_key y = group_key x) b" using assms(1,3) by simp
  have "sn_id x \<in> set (keep_of_group p ?g)"
    using assms(4)
  proof (elim disjE)
    assume "int (length before) < rp_last p"
    then have "x \<in> set (take (nat (rp_last p)) ?g)" unfolding g by (cases "nat (rp_last p) - length before") auto
    then show ?thesis by (simp add: keep_of_group_def)
  next
    assume "utc_day x \<notin> utc_day ` set before \<and> int (card (utc_day ` set before)) < rp_daily p"
    then show ?thesis using keep_buckets_first [of "[]" utc_day x before "rp_daily p"] unfolding g keep_of_group_def by auto
  next
    assume "iso_week x \<notin> iso_week ` set before \<and> int (card (iso_week ` set before)) < rp_weekly p"
    then show ?thesis using keep_buckets_first [of "[]" iso_week x before "rp_weekly p"] unfolding g keep_of_group_def by auto
  qed
  then show ?thesis using assms(1,2) by (intro kept_not_expired) auto
qed

lemma retention_keeps_witness:
  "2 \<notin> set (expired_snapshot_ids (active_snapshots two_snapshots_db) \<lparr>rp_last = 1, rp_daily = 0, rp_weekly = 0\<rparr>) \<and>
   expired_snapshot_ids (active_snapshots two_snapshots_db) \<lparr>rp_last = 1, rp_daily = 0, rp_weekly = 0\<rparr> = [1]"
proof -
  have "map sn_id (active_snapshots two_snapshots_db) = [2, 1]" by code_simp
  then obtain x b where x: "active_snapshots two_snapshots_db = [] @ x # b" "sn_id x = 2"
    by (cases "active_snapshots two_snapshots_db") auto
  have "expired_snapshot_ids (active_snapshots two_snapshots_db) \<lparr>rp_last = 1, rp_daily = 0, rp_weekly = 0\<rparr> = [1]" by code_simp
  with retention_keeps [OF x(1) _ refl, of "\<lparr>rp_last = 1, rp_daily = 0, rp_weekly = 0\<rparr>"] x(2) show ?thesis by simp
qed

end
