(* ===== verification/Maintenance.thy ===== *)
theory Maintenance
  imports ChunkStore Manifest ManifestCheck StateStore
begin

text \<open>
  \<open>internal/httpapi/maintenance.go\<close>: the maintenance runs of the server, which expire snapshots,
  remove what no snapshot needs any more, rewrite the live chunks into fresh segments and verify
  snapshots. The state of the server is its database, its repository, the directory of manifests and
  the gate that keeps backups and compactions apart. A maintenance run asks for the state of the
  clock where the code calls \<open>time.Now\<close>. The utilization, a rounded quotient of two counts of the
  report, is left out of the report.
\<close>

subsection \<open>The server\<close>

record 'k server =
  sv_db :: db
  sv_repo :: "'k repo"
  sv_man :: man_state
  sv_writers :: nat
  sv_locked :: bool

datatype maint_error =
    MtInvalidMode string
  | MtDb db_error
  | MtRepo repo_error
  | MtManifest manifest_error
  | MtReadManifest int string manifest_error
  | MtRewrite string repo_error
  | MtWriteManifest int manifest_error

type_synonym ('a, 'k) maint_result = "(maint_error + 'a) \<times> 'k server"

definition on_db :: "(db \<Rightarrow> 'a db_result) \<Rightarrow> 'k server \<Rightarrow> ('a, 'k) maint_result" where
  "on_db f s =
     (case f (sv_db s) of (Inl e, t) \<Rightarrow> (Inl (MtDb e), s\<lparr>sv_db := t\<rparr>) | (Inr x, t) \<Rightarrow> (Inr x, s\<lparr>sv_db := t\<rparr>))"

definition on_repo :: "(repo_error \<Rightarrow> maint_error) \<Rightarrow> ('k repo \<Rightarrow> ('a, 'k) repo_result) \<Rightarrow> 'k server \<Rightarrow> ('a, 'k) maint_result" where
  "on_repo w f s =
     (case f (sv_repo s) of (Inl e, t) \<Rightarrow> (Inl (w e), s\<lparr>sv_repo := t\<rparr>) | (Inr x, t) \<Rightarrow> (Inr x, s\<lparr>sv_repo := t\<rparr>))"

definition on_man ::
    "(manifest_error \<Rightarrow> maint_error) \<Rightarrow> (man_state \<Rightarrow> (manifest_error + 'a) \<times> man_state) \<Rightarrow> 'k server \<Rightarrow> ('a, 'k) maint_result" where
  "on_man w f s =
     (case f (sv_man s) of (Inl e, t) \<Rightarrow> (Inl (w e), s\<lparr>sv_man := t\<rparr>) | (Inr x, t) \<Rightarrow> (Inr x, s\<lparr>sv_man := t\<rparr>))"

text \<open>A removal that reports counts beside its error.\<close>

definition counted :: "('e option \<times> int \<times> int) \<times> 's \<Rightarrow> ('e + int \<times> int) \<times> 's" where
  "counted r = (case r of ((None, n, b), t) \<Rightarrow> (Inr (n, b), t) | ((Some e, n, b), t) \<Rightarrow> (Inl e, t))"

definition now_of :: "env \<Rightarrow> 'k server \<Rightarrow> int" where
  "now_of ev s = env_now ev (db_step (sv_db s))"

text \<open>The read-write lock: backups hold it shared, a compaction holds it alone; nobody waits.\<close>

definition try_enter_backup_write :: "'k server \<Rightarrow> 'k server option" where
  "try_enter_backup_write s = (if sv_locked s then None else Some (s\<lparr>sv_writers := Suc (sv_writers s)\<rparr>))"

definition try_enter_compact :: "'k server \<Rightarrow> 'k server option" where
  "try_enter_compact s = (if sv_locked s \<or> sv_writers s \<noteq> 0 then None else Some (s\<lparr>sv_locked := True\<rparr>))"

subsection \<open>What snapshots reference\<close>

definition same_location :: "chunk_ref \<Rightarrow> chunk_ref \<Rightarrow> bool" where
  "same_location a b \<longleftrightarrow> cr_hash a = cr_hash b \<and> cr_segment a = cr_segment b \<and> cr_offset a = cr_offset b \<and>
     cr_length a = cr_length b \<and> cr_original a = cr_original b \<and> cr_compressed a = cr_compressed b"

definition manifest_chunk_refs :: "snapshot_manifest \<Rightarrow> chunk_ref list" where
  "manifest_chunk_refs m =
     concat (map fe_chunks (filter (\<lambda>e. fe_type e = EntryFile) (sm_entries m))) @ concat (map pm_chunks (sm_packs m))"

text \<open>A map from hashes to the first reference seen, in the order of insertion.\<close>

fun collect_refs :: "chunk_ref list \<Rightarrow> (string \<times> chunk_ref) list \<Rightarrow> (string \<times> chunk_ref) list" where
  "collect_refs [] acc = acc"
| "collect_refs (r # rs) acc =
     (if cr_hash r = [] \<or> map_of acc (cr_hash r) \<noteq> None then collect_refs rs acc
      else collect_refs rs (acc @ [(cr_hash r, r)]))"

record live_sets =
  lv_manifests :: "string list"
  lv_refs :: "(string \<times> chunk_ref) list"
  lv_errors :: "manifest_error list"

fun live_loop :: "env \<Rightarrow> man_codec \<Rightarrow> snapshot_row list \<Rightarrow> live_sets \<Rightarrow> 'k server \<Rightarrow> live_sets \<times> 'k server" where
  "live_loop ev c [] lv s = (lv, s)"
| "live_loop ev c (x # xs) lv s =
     (case read_manifest ev c (sn_manifest x) (sv_man s) of
        (Inl e, t) \<Rightarrow> live_loop ev c xs (lv\<lparr>lv_errors := lv_errors lv @ [e]\<rparr>) (s\<lparr>sv_man := t\<rparr>)
      | (Inr m, t) \<Rightarrow> live_loop ev c xs
          (lv\<lparr>lv_manifests := sn_manifest x # lv_manifests lv, lv_refs := collect_refs (manifest_chunk_refs m) (lv_refs lv)\<rparr>)
          (s\<lparr>sv_man := t\<rparr>))"

definition snapshot_live_sets :: "env \<Rightarrow> man_codec \<Rightarrow> snapshot_row list \<Rightarrow> 'k server \<Rightarrow> live_sets \<times> 'k server" where
  "snapshot_live_sets ev c xs s = live_loop ev c xs \<lparr>lv_manifests = [], lv_refs = [], lv_errors = []\<rparr> s"

definition live_stats :: "live_sets \<Rightarrow> cleanup_stats" where
  "live_stats lv = foldl (\<lambda>st (h, r). add_cleanup st h r) empty_cleanup (lv_refs lv)"

subsection \<open>Cleaning up after failed backups\<close>

text \<open>
  The configuration of a run. The two durations are what \<open>time.ParseDuration\<close> makes of the configured
  texts, \<open>None\<close> when it rejects them. Days are added in UTC, where each has 24 hours.
\<close>

record maint_config =
  mg_policy :: retention_policy
  mg_error_grace :: "int option"
  mg_stale_after :: "int option"
  mg_deleted_days :: int
  mg_invalidation_days :: int
  mg_started :: int

record cleanup_report =
  cl_stale :: int
  cl_manifests :: int
  cl_manifest_bytes :: int
  cl_chunks :: int
  cl_logical :: int
  cl_compressed :: int
  cl_skipped :: string
  cl_errors :: "manifest_error list"

definition empty_cleanup_report :: cleanup_report where
  "empty_cleanup_report = \<lparr>cl_stale = 0, cl_manifests = 0, cl_manifest_bytes = 0, cl_chunks = 0, cl_logical = 0,
     cl_compressed = 0, cl_skipped = [], cl_errors = []\<rparr>"

definition hours :: "int \<Rightarrow> int" where
  "hours n = n * 3600000000000"

definition keep_deleted :: "maint_config \<Rightarrow> int \<Rightarrow> snapshot_row \<Rightarrow> bool" where
  "keep_deleted cfg now x \<longleftrightarrow> sn_manifest x \<noteq> [] \<and>
     (mg_deleted_days cfg = 0 \<or>
      (case sn_deleted x of None \<Rightarrow> True
       | Some at \<Rightarrow> (if 0 < mg_deleted_days cfg then now - hours (24 * mg_deleted_days cfg) else zero_time) < at))"

text \<open>
  The cleanup proper, after the live sets were read without an error; the failure of the pruning at
  its end is only logged.
\<close>

definition sweep_unreferenced ::
    "env \<Rightarrow> 'k repo_deps \<Rightarrow> maint_config \<Rightarrow> live_sets \<Rightarrow> int \<Rightarrow> cleanup_report \<Rightarrow> 'k server \<Rightarrow> (cleanup_report, 'k) maint_result" where
  "sweep_unreferenced ev d cfg lv now rep s =
     (let cutoff = now - (case mg_error_grace cfg of None \<Rightarrow> hours 24 | Some g \<Rightarrow> g)
      in sbind (on_db (list_deleted_snapshots ev) s) (\<lambda>deleted s1.
         let keep = set (lv_manifests lv) \<union> set (map sn_manifest (filter (keep_deleted cfg now) deleted))
         in sbind (on_man MtManifest (\<lambda>m. counted (delete_manifests_except ev keep cutoff m)) s1) (\<lambda>(n, b) s2.
            sbind (on_repo MtRepo (delete_unreferenced_chunks ev d (set (map fst (lv_refs lv))) cutoff) s2) (\<lambda>st s3.
            sbind (if cs_hashes st \<noteq> [] then on_db (bump_chunk_generation ev (cs_hashes st) ''cleanup-errors'' now) s3
                   else (Inr 0, s3)) (\<lambda>g s4.
              (Inr (rep\<lparr>cl_manifests := n, cl_manifest_bytes := b, cl_chunks := cs_count st, cl_logical := cs_logical st,
                  cl_compressed := cs_compressed st\<rparr>),
               if 0 < mg_invalidation_days cfg
               then snd (on_db (prune_chunk_invalidations ev (Some (now - hours (24 * mg_invalidation_days cfg)))) s4)
               else s4))))))"

definition cleanup_error_backup_data ::
    "env \<Rightarrow> 'k repo_deps \<Rightarrow> man_codec \<Rightarrow> maint_config \<Rightarrow> snapshot_row list \<Rightarrow> int \<Rightarrow> 'k server \<Rightarrow> (cleanup_report, 'k) maint_result" where
  "cleanup_error_backup_data ev d c cfg active now s =
     (let stale = (case mg_stale_after cfg of None \<Rightarrow> hours 6 | Some g \<Rightarrow> g)
      in sbind (on_db (mark_stale_runs_failed ev (now - stale) (mg_started cfg) now) s) (\<lambda>stale_runs s1.
         let rep = empty_cleanup_report\<lparr>cl_stale := stale_runs\<rparr>
         in case snapshot_live_sets ev c active s1 of (lv, s2) \<Rightarrow>
              if lv_errors lv \<noteq> []
              then (Inr (rep\<lparr>cl_errors := lv_errors lv, cl_skipped := ''active manifest errors exist''\<rparr>), s2)
              else sweep_unreferenced ev d cfg lv now rep s2))"

subsection \<open>Compaction\<close>

record compact_report =
  co_rewritten :: int
  co_bytes :: int
  co_removed_chunks :: int
  co_removed_segments :: int
  co_removed_bytes :: int
  co_skipped :: string

definition empty_compact_report :: compact_report where
  "empty_compact_report = \<lparr>co_rewritten = 0, co_bytes = 0, co_removed_chunks = 0, co_removed_segments = 0,
     co_removed_bytes = 0, co_skipped = []\<rparr>"

type_synonym loaded = "(snapshot_row \<times> snapshot_manifest) list"

fun load_manifests :: "env \<Rightarrow> man_codec \<Rightarrow> snapshot_row list \<Rightarrow> 'k server \<Rightarrow> (loaded, 'k) maint_result" where
  "load_manifests ev c [] s = (Inr [], s)"
| "load_manifests ev c (x # xs) s =
     sbind (on_repo MtRepo (check_ctx ev) s) (\<lambda>_ s1.
     sbind (on_man (MtReadManifest (sn_id x) (sn_manifest x)) (read_manifest ev c (sn_manifest x)) s1) (\<lambda>m s2.
     sbind (load_manifests ev c xs s2) (\<lambda>ms s3. (Inr ((x, m) # ms), s3))))"

definition refs_by_hash :: "loaded \<Rightarrow> (string \<times> chunk_ref) list" where
  "refs_by_hash ms = foldl (\<lambda>acc (x, m). collect_refs (manifest_chunk_refs m) acc) [] ms"

text \<open>The map from hashes to their new references, and the two counters of the report.\<close>

fun rewrite_refs ::
    "env \<Rightarrow> 'k repo_deps \<Rightarrow> (string \<times> chunk_ref) list \<Rightarrow> int \<Rightarrow> int \<Rightarrow> (string \<times> chunk_ref) list \<Rightarrow> 'k server \<Rightarrow>
     (int \<times> int \<times> (string \<times> chunk_ref) list, 'k) maint_result" where
  "rewrite_refs ev d [] n b acc s = (Inr (n, b, acc), s)"
| "rewrite_refs ev d ((h, old) # refs) n b acc s =
     sbind (on_repo MtRepo (check_ctx ev) s) (\<lambda>_ s1.
     sbind (on_repo (MtRewrite h) (rewrite_chunk_ref ev d old) s1) (\<lambda>new s2.
       rewrite_refs ev d refs (n + 1) (wrap64 (b + cr_original old)) ((h, new) # acc) s2))"

definition moved :: "(string \<times> chunk_ref) list \<Rightarrow> chunk_ref \<Rightarrow> bool" where
  "moved new r = (case map_of new (cr_hash r) of None \<Rightarrow> False | Some n \<Rightarrow> \<not> same_location r n)"

definition move_ref :: "(string \<times> chunk_ref) list \<Rightarrow> chunk_ref \<Rightarrow> chunk_ref" where
  "move_ref new r = (if moved new r then the (map_of new (cr_hash r)) else r)"

definition move_manifest :: "(string \<times> chunk_ref) list \<Rightarrow> snapshot_manifest \<Rightarrow> snapshot_manifest" where
  "move_manifest new m =
     m\<lparr>sm_entries := map (\<lambda>e. e\<lparr>fe_chunks := map (move_ref new) (fe_chunks e)\<rparr>) (sm_entries m),
       sm_packs := map (\<lambda>p. p\<lparr>pm_chunks := map (move_ref new) (pm_chunks p)\<rparr>) (sm_packs m)\<rparr>"

definition manifest_moved :: "(string \<times> chunk_ref) list \<Rightarrow> snapshot_manifest \<Rightarrow> bool" where
  "manifest_moved new m \<longleftrightarrow>
     list_ex (\<lambda>e. list_ex (moved new) (fe_chunks e)) (sm_entries m) \<or> list_ex (\<lambda>p. list_ex (moved new) (pm_chunks p)) (sm_packs m)"

fun write_back :: "env \<Rightarrow> man_codec \<Rightarrow> (string \<times> chunk_ref) list \<Rightarrow> loaded \<Rightarrow> 'k server \<Rightarrow> (unit, 'k) maint_result" where
  "write_back ev c new [] s = (Inr (), s)"
| "write_back ev c new ((x, m) # ms) s =
     (if manifest_moved new m
      then sbind (on_man (MtWriteManifest (sn_id x)) (write_manifest ev c (move_manifest new m)) s) (\<lambda>_ s1. write_back ev c new ms s1)
      else write_back ev c new ms s)"

text \<open>
  \<open>compactRepository\<close> in its two phases: the live chunks are rewritten and the manifests follow them,
  then the index forgets the other chunks and the old segments go. Between them stands what the
  second phase needs: the counters, the keep set of hashes and the new references.
\<close>

definition compact_rewrite ::
    "env \<Rightarrow> 'k repo_deps \<Rightarrow> man_codec \<Rightarrow> snapshot_row list \<Rightarrow> 'k server \<Rightarrow>
     ((compact_report \<times> string set \<times> (string \<times> chunk_ref) list) option, 'k) maint_result" where
  "compact_rewrite ev d c xs s =
     sbind (on_db (count_active_runs ev) s) (\<lambda>active s1.
       if 0 < active then (Inr None, s1)
       else sbind (load_manifests ev c xs s1) (\<lambda>ms s2.
         let refs = refs_by_hash ms
         in sbind (on_repo MtRepo (rotate_for_maintenance ev) s2) (\<lambda>_ s3.
            sbind (rewrite_refs ev d (sort_key (\<lambda>(h, r). bytes_of h) refs) 0 0 [] s3) (\<lambda>(n, b, new) s4.
            sbind (write_back ev c new ms s4) (\<lambda>_ s5.
              (Inr (Some (empty_compact_report\<lparr>co_rewritten := n, co_bytes := b\<rparr>, set (map fst refs), new)), s5))))))"

definition compact_remove ::
    "env \<Rightarrow> 'k repo_deps \<Rightarrow> compact_report \<times> string set \<times> (string \<times> chunk_ref) list \<Rightarrow> 'k server \<Rightarrow> (compact_report, 'k) maint_result" where
  "compact_remove ev d p s =
     (case p of (rep, keep, new) \<Rightarrow>
        sbind (on_repo MtRepo (delete_unreferenced_chunks ev d keep zero_time) s) (\<lambda>st s1.
        sbind (if cs_hashes st \<noteq> [] then on_db (bump_chunk_generation ev (cs_hashes st) ''compact'' (now_of ev s1)) s1
               else (Inr 0, s1)) (\<lambda>_ s2.
        sbind (on_repo MtRepo (\<lambda>r. counted (delete_segments_except ev (set (map (cr_segment \<circ> snd) new)) r)) s2) (\<lambda>(n, b) s3.
          (Inr (rep\<lparr>co_removed_chunks := cs_count st, co_removed_segments := n, co_removed_bytes := b\<rparr>), s3)))))"

definition compact_repository ::
    "env \<Rightarrow> 'k repo_deps \<Rightarrow> man_codec \<Rightarrow> snapshot_row list \<Rightarrow> 'k server \<Rightarrow> (compact_report, 'k) maint_result" where
  "compact_repository ev d c xs s =
     sbind (compact_rewrite ev d c xs s) (\<lambda>p s1.
       case p of None \<Rightarrow> (Inr (empty_compact_report\<lparr>co_skipped := ''active runs exist''\<rparr>), s1)
               | Some q \<Rightarrow> compact_remove ev d q s1)"

subsection \<open>Verification\<close>

datatype verify_label = PackLabel string | FileLabel string

datatype verify_error =
    VerifyCanceled
  | VerifyNoManifest int string manifest_error
  | VerifyEmptyHash int verify_label
  | VerifyKnownCorrupt int verify_label string verify_error
  | VerifyIndexFailed string repo_error
  | VerifyNotIndexed string
  | VerifyOtherPlace string
  | VerifyUnreadable string repo_error
  | VerifyPackUnreadable int string repo_error
  | VerifyPackBroken int string pack_error
  | VerifyPackedUnreadable int string repo_error
  | VerifyPackedSize int string int nat
  | VerifyFileSize int string int int

record verify_report =
  vr_verified :: int
  vr_missing :: int
  vr_corrupt :: int
  vr_errors :: "verify_error list"

text \<open>The variables of the loops: those of the whole run and the errors of the current snapshot.\<close>

record verify_state =
  vs_report :: verify_report
  vs_seen :: "string list"
  vs_bad :: "(string \<times> verify_error) list"
  vs_errors :: "verify_error list"

definition add_error :: "verify_error \<Rightarrow> verify_report \<Rightarrow> verify_report" where
  "add_error e r = (if length (vr_errors r) < 200 then r\<lparr>vr_errors := vr_errors r @ [e]\<rparr> else r)"

definition add_snapshot_error :: "verify_error \<Rightarrow> verify_state \<Rightarrow> verify_state" where
  "add_snapshot_error e v =
     v\<lparr>vs_errors := (if length (vs_errors v) < 5 then vs_errors v @ [e] else vs_errors v),
       vs_report := add_error e (vs_report v)\<rparr>"

definition count_corrupt :: "verify_state \<Rightarrow> verify_state" where
  "count_corrupt v = v\<lparr>vs_report := (vs_report v)\<lparr>vr_corrupt := vr_corrupt (vs_report v) + 1\<rparr>\<rparr>"

definition count_missing :: "verify_state \<Rightarrow> verify_state" where
  "count_missing v = v\<lparr>vs_report := (vs_report v)\<lparr>vr_missing := vr_missing (vs_report v) + 1\<rparr>\<rparr>"

definition count_verified :: "verify_state \<Rightarrow> verify_state" where
  "count_verified v = v\<lparr>vs_report := (vs_report v)\<lparr>vr_verified := vr_verified (vs_report v) + 1\<rparr>\<rparr>"

definition bad_hash :: "string \<Rightarrow> verify_error \<Rightarrow> verify_state \<Rightarrow> verify_state" where
  "bad_hash h e v = add_snapshot_error e (v\<lparr>vs_bad := (h, e) # vs_bad v\<rparr>)"

definition verify_ref ::
    "env \<Rightarrow> 'k repo_deps \<Rightarrow> int \<Rightarrow> verify_label \<Rightarrow> chunk_ref \<Rightarrow> verify_state \<Rightarrow> 'k repo \<Rightarrow> verify_state \<times> 'k repo" where
  "verify_ref ev d sid label ref v s =
     (let h = cr_hash ref
      in if h = [] then (add_snapshot_error (VerifyEmptyHash sid label) (count_corrupt v), s)
         else if h \<in> set (vs_seen v)
         then ((case map_of (vs_bad v) h of None \<Rightarrow> v | Some e \<Rightarrow> add_snapshot_error (VerifyKnownCorrupt sid label h e) v), s)
         else let v1 = v\<lparr>vs_seen := h # vs_seen v\<rparr>
              in case get_chunk_ref ev d h s of
                   (Inl e, t) \<Rightarrow> (bad_hash h (VerifyIndexFailed h e) (count_corrupt v1), t)
                 | (Inr None, t) \<Rightarrow> (bad_hash h (VerifyNotIndexed h) (count_missing v1), t)
                 | (Inr (Some ix), t) \<Rightarrow>
                     if \<not> same_location ref ix then (bad_hash h (VerifyOtherPlace h) (count_corrupt v1), t)
                     else (case read_chunk_ref ev d ix t of
                             (Inl e, u) \<Rightarrow> (bad_hash h (VerifyUnreadable h e) (count_corrupt v1), u)
                           | (Inr data, u) \<Rightarrow> (count_verified v1, u)))"

fun verify_refs ::
    "env \<Rightarrow> 'k repo_deps \<Rightarrow> int \<Rightarrow> verify_label \<Rightarrow> chunk_ref list \<Rightarrow> verify_state \<Rightarrow> 'k repo \<Rightarrow> verify_state \<times> 'k repo" where
  "verify_refs ev d sid label [] v s = (v, s)"
| "verify_refs ev d sid label (r # rs) v s =
     (case verify_ref ev d sid label r v s of (v1, s1) \<Rightarrow> verify_refs ev d sid label rs v1 s1)"

definition verify_pack ::
    "env \<Rightarrow> 'k repo_deps \<Rightarrow> int \<Rightarrow> pack_manifest \<Rightarrow> verify_state \<Rightarrow> 'k repo \<Rightarrow> verify_state \<times> 'k repo" where
  "verify_pack ev d sid p v s =
     (case verify_refs ev d sid (PackLabel (pm_id p)) (pm_chunks p) v s of
        (v1, s1) \<Rightarrow>
          (case read_pack_data ev d p s1 of
             (Inl e, s2) \<Rightarrow> (add_snapshot_error (VerifyPackUnreadable sid (pm_id p) e) (count_corrupt v1), s2)
           | (Inr data, s2) \<Rightarrow>
               ((case decode_pack_index data of
                   Inl e \<Rightarrow> add_snapshot_error (VerifyPackBroken sid (pm_id p) e) (count_corrupt v1) | Inr ixs \<Rightarrow> v1), s2)))"

definition original_sum :: "chunk_ref list \<Rightarrow> int" where
  "original_sum rs = foldl (\<lambda>n r. wrap64 (n + cr_original r)) 0 rs"

definition verify_entry ::
    "env \<Rightarrow> 'k repo_deps \<Rightarrow> int \<Rightarrow> snapshot_manifest \<Rightarrow> file_entry \<Rightarrow> verify_state \<Rightarrow> 'k repo \<Rightarrow> verify_state \<times> 'k repo" where
  "verify_entry ev d sid m e v s =
     (case fe_type e of
        EntryPackedFile \<Rightarrow>
          (case read_packed_file ev d (Some m) e s of
             (Inl err, s1) \<Rightarrow> (add_snapshot_error (VerifyPackedUnreadable sid (fe_path e) err) (count_corrupt v), s1)
           | (Inr data, s1) \<Rightarrow>
               (if int (length data) \<noteq> fe_size e
                then add_snapshot_error (VerifyPackedSize sid (fe_path e) (fe_size e) (length data)) (count_corrupt v) else v, s1))
      | EntryFile \<Rightarrow>
          (case verify_refs ev d sid (FileLabel (fe_path e)) (fe_chunks e) v s of
             (v1, s1) \<Rightarrow>
               (if original_sum (fe_chunks e) \<noteq> fe_size e
                then add_snapshot_error (VerifyFileSize sid (fe_path e) (fe_size e) (original_sum (fe_chunks e))) (count_corrupt v1)
                else v1, s1))
      | _ \<Rightarrow> (v, s))"

fun fold_verify :: "('x \<Rightarrow> 'v \<Rightarrow> 's \<Rightarrow> 'v \<times> 's) \<Rightarrow> 'x list \<Rightarrow> 'v \<Rightarrow> 's \<Rightarrow> 'v \<times> 's" where
  "fold_verify f [] v s = (v, s)"
| "fold_verify f (x # xs) v s = (case f x v s of (v1, s1) \<Rightarrow> fold_verify f xs v1 s1)"

definition verify_manifest ::
    "env \<Rightarrow> 'k repo_deps \<Rightarrow> int \<Rightarrow> snapshot_manifest \<Rightarrow> verify_state \<Rightarrow> 'k repo \<Rightarrow> verify_state \<times> 'k repo" where
  "verify_manifest ev d sid m v s =
     (case fold_verify (verify_pack ev d sid) (sm_packs m) v s of
        (v1, s1) \<Rightarrow> fold_verify (verify_entry ev d sid m) (sm_entries m) v1 s1)"

text \<open>
  The health that is recorded. \<open>say\<close> renders an error as the text of the message; the texts of a
  snapshot are joined and, when its manifest could be read, cut to 1000 bytes.
\<close>

definition joined :: "(verify_error \<Rightarrow> string) \<Rightarrow> verify_error list \<Rightarrow> string" where
  "joined say es = concat (map (\<lambda>(i, e). if i = 0 then say e else ''; '' @ say e) (enumerate 0 es))"

definition record_health ::
    "env \<Rightarrow> int \<Rightarrow> string \<Rightarrow> string \<Rightarrow> 'k server \<Rightarrow> 'k server" where
  "record_health ev sid health msg s = snd (on_db (update_snapshot_health ev sid health msg (Some (now_of ev s))) s)"

definition verify_snapshot ::
    "env \<Rightarrow> 'k repo_deps \<Rightarrow> man_codec \<Rightarrow> (verify_error \<Rightarrow> string) \<Rightarrow> snapshot_row \<Rightarrow> verify_state \<Rightarrow> 'k server \<Rightarrow> verify_state \<times> 'k server" where
  "verify_snapshot ev d c say x v0 s =
     (let v = v0\<lparr>vs_errors := []\<rparr>
      in case read_manifest ev c (sn_manifest x) (sv_man s) of
           (Inl e, t) \<Rightarrow>
             let v1 = add_snapshot_error (VerifyNoManifest (sn_id x) (sn_manifest x) e) v
             in (v1, record_health ev (sn_id x) ''corrupt'' (joined say (vs_errors v1)) (s\<lparr>sv_man := t\<rparr>))
         | (Inr m, t) \<Rightarrow>
             (case verify_manifest ev d (sn_id x) m v (sv_repo s) of
                (v1, r) \<Rightarrow>
                  (v1, record_health ev (sn_id x) (if vs_errors v1 = [] then ''healthy'' else ''corrupt'')
                         (take 1000 (joined say (vs_errors v1))) (s\<lparr>sv_man := t, sv_repo := r\<rparr>))))"

fun verify_loop ::
    "env \<Rightarrow> 'k repo_deps \<Rightarrow> man_codec \<Rightarrow> (verify_error \<Rightarrow> string) \<Rightarrow> snapshot_row list \<Rightarrow> verify_state \<Rightarrow> 'k server \<Rightarrow> verify_state \<times> 'k server" where
  "verify_loop ev d c say [] v s = (v, s)"
| "verify_loop ev d c say (x # xs) v s =
     (case check_ctx ev (sv_repo s) of
        (Inl e, r) \<Rightarrow> (v\<lparr>vs_report := add_error VerifyCanceled (vs_report v)\<rparr>, s\<lparr>sv_repo := r\<rparr>)
      | (Inr u, r) \<Rightarrow>
          (case verify_snapshot ev d c say x v (s\<lparr>sv_repo := r\<rparr>) of (v1, s1) \<Rightarrow> verify_loop ev d c say xs v1 s1))"

definition verify_start :: verify_state where
  "verify_start = \<lparr>vs_report = \<lparr>vr_verified = 0, vr_missing = 0, vr_corrupt = 0, vr_errors = []\<rparr>, vs_seen = [], vs_bad = [], vs_errors = []\<rparr>"

definition verify_referenced_chunks ::
    "env \<Rightarrow> 'k repo_deps \<Rightarrow> man_codec \<Rightarrow> (verify_error \<Rightarrow> string) \<Rightarrow> snapshot_row list \<Rightarrow> 'k server \<Rightarrow> verify_report \<times> 'k server" where
  "verify_referenced_chunks ev d c say xs s =
     (case verify_loop ev d c say xs verify_start s of (v, t) \<Rightarrow> (vs_report v, t))"

subsection \<open>A maintenance run\<close>

record maint_report =
  mr_mode :: string
  mr_started :: int
  mr_finished :: int
  mr_policy :: retention_policy
  mr_expired :: int
  mr_active :: int
  mr_deleted :: int
  mr_stats :: "repo_stats option"
  mr_referenced :: int
  mr_orphans :: int
  mr_manifests :: int
  mr_manifest_errors :: "manifest_error list"
  mr_verify :: verify_report
  mr_compact :: compact_report
  mr_cleanup :: cleanup_report

definition maintenance_modes :: "string list" where
  "maintenance_modes = [''retention'', ''compact-report'', ''verify'', ''cleanup-errors'', ''compact'', ''full-cleanup'']"

definition compacts :: "string \<Rightarrow> bool" where
  "compacts mode \<longleftrightarrow> mode = ''compact'' \<or> mode = ''full-cleanup''"

definition expires :: "string \<Rightarrow> bool" where
  "expires mode \<longleftrightarrow> mode = ''retention'' \<or> mode = ''compact-report'' \<or> compacts mode"

definition cleans :: "string \<Rightarrow> bool" where
  "cleans mode \<longleftrightarrow> mode = ''cleanup-errors'' \<or> compacts mode"

definition start_report :: "string \<Rightarrow> int \<Rightarrow> maint_config \<Rightarrow> maint_report" where
  "start_report mode now cfg = \<lparr>mr_mode = mode, mr_started = now, mr_finished = zero_time, mr_policy = mg_policy cfg,
     mr_expired = 0, mr_active = 0, mr_deleted = 0, mr_stats = None, mr_referenced = 0, mr_orphans = 0, mr_manifests = 0,
     mr_manifest_errors = [], mr_verify = vs_report verify_start, mr_compact = empty_compact_report,
     mr_cleanup = empty_cleanup_report\<rparr>"

text \<open>The steps of a run in their order; each answers the report so far and the active snapshots.\<close>

definition retention_step ::
    "env \<Rightarrow> string \<Rightarrow> maint_config \<Rightarrow> maint_report \<Rightarrow> 'k server \<Rightarrow> (maint_report \<times> snapshot_row list, 'k) maint_result" where
  "retention_step ev mode cfg rep s =
     sbind (on_db (list_active_snapshots ev) s) (\<lambda>active s1.
       if expires mode
       then sbind (on_db (expire_snapshots ev (expired_snapshot_ids active (mg_policy cfg)) (now_of ev s1)) s1) (\<lambda>n s2.
         let rep = rep\<lparr>mr_expired := n, mr_manifests := int (length active)\<rparr>
         in if 0 < n then sbind (on_db (list_active_snapshots ev) s2) (\<lambda>active s3.
              (Inr (rep\<lparr>mr_manifests := int (length active)\<rparr>, active), s3))
            else (Inr (rep, active), s2))
       else (Inr (rep\<lparr>mr_manifests := int (length active)\<rparr>, active), s1))"

definition cleanup_step ::
    "env \<Rightarrow> 'k repo_deps \<Rightarrow> man_codec \<Rightarrow> string \<Rightarrow> maint_config \<Rightarrow> maint_report \<times> snapshot_row list \<Rightarrow> 'k server \<Rightarrow>
     (maint_report \<times> snapshot_row list, 'k) maint_result" where
  "cleanup_step ev d c mode cfg p s =
     (case p of (rep, active) \<Rightarrow>
        if cleans mode
        then sbind (cleanup_error_backup_data ev d c cfg active (now_of ev s) s) (\<lambda>cl s1.
             sbind (on_db (list_active_snapshots ev) s1) (\<lambda>active s2.
               (Inr (rep\<lparr>mr_cleanup := cl, mr_manifests := int (length active)\<rparr>, active), s2)))
        else (Inr p, s))"

definition compact_step ::
    "env \<Rightarrow> 'k repo_deps \<Rightarrow> man_codec \<Rightarrow> string \<Rightarrow> maint_report \<times> snapshot_row list \<Rightarrow> 'k server \<Rightarrow>
     (maint_report \<times> snapshot_row list, 'k) maint_result" where
  "compact_step ev d c mode p s =
     (case p of (rep, active) \<Rightarrow>
        if compacts mode
        then sbind (compact_repository ev d c active s) (\<lambda>co s1.
             sbind (on_db (list_active_snapshots ev) s1) (\<lambda>active s2.
               (Inr (rep\<lparr>mr_compact := co, mr_manifests := int (length active)\<rparr>, active), s2)))
        else (Inr p, s))"

definition stats_step ::
    "env \<Rightarrow> 'k repo_deps \<Rightarrow> man_codec \<Rightarrow> repo_options \<Rightarrow> maint_report \<times> snapshot_row list \<Rightarrow> 'k server \<Rightarrow> (maint_report \<times> snapshot_row list, 'k) maint_result" where
  "stats_step ev d c opts p s =
     (case p of (rep, active) \<Rightarrow>
        sbind (on_db (count_snapshots ev) s) (\<lambda>counts s1.
        case count_manifests ev (sv_man s1) of (mc, mt) \<Rightarrow>
        sbind (on_repo MtRepo (repository_stats ev d opts (case mc of Inl e \<Rightarrow> Inl RepoListFailed | Inr n \<Rightarrow> Inr n)) (s1\<lparr>sv_man := mt\<rparr>)) (\<lambda>stats s2.
        case snapshot_live_sets ev c active s2 of (lv, s3) \<Rightarrow>
          let referenced = cs_count (live_stats lv)
          in (Inr (rep\<lparr>mr_active := sc_active counts, mr_deleted := sc_deleted counts, mr_stats := Some stats,
                mr_referenced := referenced, mr_orphans := (if referenced < rs_chunks stats then rs_chunks stats - referenced else 0),
                mr_manifest_errors := lv_errors lv\<rparr>, active), s3))))"

definition verify_step ::
    "env \<Rightarrow> 'k repo_deps \<Rightarrow> man_codec \<Rightarrow> (verify_error \<Rightarrow> string) \<Rightarrow> string \<Rightarrow> maint_report \<times> snapshot_row list \<Rightarrow> 'k server \<Rightarrow> (maint_report, 'k) maint_result" where
  "verify_step ev d c say mode p s =
     (case p of (rep, active) \<Rightarrow>
        if mode = ''verify''
        then (case verify_referenced_chunks ev d c say active s of (vr, t) \<Rightarrow> (Inr (rep\<lparr>mr_verify := vr, mr_finished := now_of ev t\<rparr>), t))
        else (Inr (rep\<lparr>mr_finished := now_of ev s\<rparr>), s))"

definition maintenance_steps ::
    "env \<Rightarrow> 'k repo_deps \<Rightarrow> man_codec \<Rightarrow> (verify_error \<Rightarrow> string) \<Rightarrow> repo_options \<Rightarrow> maint_config \<Rightarrow> string \<Rightarrow> maint_report \<Rightarrow> 'k server \<Rightarrow>
     (maint_report, 'k) maint_result" where
  "maintenance_steps ev d c say opts cfg mode rep s =
     sbind (retention_step ev mode cfg rep s) (\<lambda>p s1.
     sbind (cleanup_step ev d c mode cfg p s1) (\<lambda>p s2.
     sbind (compact_step ev d c mode p s2) (\<lambda>p s3.
     sbind (stats_step ev d c opts p s3) (\<lambda>p s4.
       verify_step ev d c say mode p s4))))"

text \<open>The gate is held for the whole run of a compaction and given back on every path.\<close>

definition run_storage_maintenance ::
    "env \<Rightarrow> 'k repo_deps \<Rightarrow> man_codec \<Rightarrow> (verify_error \<Rightarrow> string) \<Rightarrow> repo_options \<Rightarrow> maint_config \<Rightarrow> string \<Rightarrow> 'k server \<Rightarrow>
     (maint_report, 'k) maint_result" where
  "run_storage_maintenance ev d c say opts cfg mode s =
     (if mode \<notin> set maintenance_modes then (Inl (MtInvalidMode mode), s)
      else let rep = start_report mode (now_of ev s) cfg
           in if compacts mode
              then (case try_enter_compact s of
                      None \<Rightarrow> (Inr (rep\<lparr>mr_compact := (mr_compact rep)\<lparr>co_skipped := ''backup or chunk upload in progress''\<rparr>,
                                mr_finished := now_of ev s\<rparr>), s)
                    | Some s1 \<Rightarrow>
                        (case maintenance_steps ev d c say opts cfg mode rep s1 of (r, t) \<Rightarrow> (r, t\<lparr>sv_locked := False\<rparr>)))
              else maintenance_steps ev d c say opts cfg mode rep s)"

text \<open>The row that is recorded for a run; \<open>json\<close> and \<open>say_err\<close> render the report and the error.\<close>

definition run_and_record ::
    "env \<Rightarrow> 'k repo_deps \<Rightarrow> man_codec \<Rightarrow> (verify_error \<Rightarrow> string) \<Rightarrow> (maint_error \<Rightarrow> string) \<Rightarrow> (maint_report \<Rightarrow> string option) \<Rightarrow>
     repo_options \<Rightarrow> maint_config \<Rightarrow> string \<Rightarrow> 'k server \<Rightarrow> (maint_report, 'k) maint_result" where
  "run_and_record ev d c say say_err json opts cfg mode s =
     (case run_storage_maintenance ev d c say opts cfg mode s of
        (Inl e, t) \<Rightarrow>
          (Inl e, snd (on_db (record_maintenance_run ev mode ''failed'' (Some (now_of ev s)) (Some (now_of ev t)) [] ''{}'' (say_err e)) t))
      | (Inr rep, t) \<Rightarrow>
          let skipped = (if co_skipped (mr_compact rep) = [] then cl_skipped (mr_cleanup rep) else co_skipped (mr_compact rep))
          in sbind (on_db (record_maintenance_run ev mode (if skipped \<noteq> [] then ''skipped'' else ''completed'')
                 (Some (mr_started rep)) (Some (mr_finished rep)) skipped (case json rep of None \<Rightarrow> ''{}'' | Some j \<Rightarrow> j) []) t)
               (\<lambda>row t1. (Inr rep, t1)))"

end
