(* ===== verification/MaintenanceLaws.thy ===== *)
theory MaintenanceLaws
  imports Maintenance StateLaws
begin

text \<open>
  What maintenance promises: a run, whatever its mode and its outcome, keeps every snapshot that is
  still active restorable. The theory follows the manifests and the references of snapshots through
  cleanup and compaction, and closes with the properties of maintenance.
\<close>

subsection \<open>Manifests and references on disk\<close>

abbreviation sv_files :: "'k server \<Rightarrow> files" where
  "sv_files s \<equiv> sg_files (rp_seg (sv_repo s))"

definition manifest_at :: "man_codec \<Rightarrow> man_state \<Rightarrow> string \<Rightarrow> snapshot_manifest option" where
  "manifest_at c ms i = (case man_lookup ms (manifest_name i) of Some (MFile b t) \<Rightarrow> mc_dec c b | _ \<Rightarrow> None)"

definition ref_held :: "'k repo_deps \<Rightarrow> files \<Rightarrow> chunk_ref \<Rightarrow> bool" where
  "ref_held d fs r \<longleftrightarrow> (\<exists>data. ref_reads d fs r data \<and> data_fits (rd_crypto d) (rd_key d) data)"

definition manifest_named :: "man_codec \<Rightarrow> man_state \<Rightarrow> string \<Rightarrow> snapshot_manifest \<Rightarrow> bool" where
  "manifest_named c ms i m \<longleftrightarrow> manifest_at c ms i = Some m \<and> validate_manifest_id i = Inr () \<and> sm_id m = i \<and>
     sm_created m \<noteq> zero_time \<and> manifest_json_ok m"

definition snapshot_intact :: "'k repo_deps \<Rightarrow> man_codec \<Rightarrow> 'k server \<Rightarrow> string \<Rightarrow> snapshot_manifest \<Rightarrow> bool" where
  "snapshot_intact d c s i m \<longleftrightarrow> manifest_named c (sv_man s) i m \<and>
     (\<forall>r \<in> set (manifest_chunk_refs m). ref_held d (sv_files s) r)"

text \<open>The same files with the same content: the manifests differ at most in where chunks are stored.\<close>

definition map_refs :: "(chunk_ref \<Rightarrow> chunk_ref) \<Rightarrow> snapshot_manifest \<Rightarrow> snapshot_manifest" where
  "map_refs f m =
     m\<lparr>sm_entries := map (\<lambda>e. e\<lparr>fe_chunks := map f (fe_chunks e)\<rparr>) (sm_entries m),
       sm_packs := map (\<lambda>p. p\<lparr>pm_chunks := map f (pm_chunks p)\<rparr>) (sm_packs m)\<rparr>"

definition unplaced :: "chunk_ref \<Rightarrow> chunk_ref" where
  "unplaced r = zero_ref\<lparr>cr_hash := cr_hash r\<rparr>"

definition same_content :: "snapshot_manifest \<Rightarrow> snapshot_manifest \<Rightarrow> bool" where
  "same_content m k \<longleftrightarrow> map_refs unplaced m = map_refs unplaced k"

lemma same_content_refl [simp]: "same_content m m"
  by (simp add: same_content_def)

lemma move_manifest_map_refs: "move_manifest new m = map_refs (move_ref new) m"
  by (simp add: move_manifest_def map_refs_def)

lemma map_refs_fields [simp]:
  "sm_id (map_refs f m) = sm_id m" "sm_created (map_refs f m) = sm_created m"
  by (simp_all add: map_refs_def)

lemma map_refs_comp: "map_refs f (map_refs g m) = map_refs (f \<circ> g) m"
  by (simp add: map_refs_def comp_def)

lemma map_refs_id:
  assumes "\<forall>e \<in> set (sm_entries m). \<forall>r \<in> set (fe_chunks e). f r = r"
    and "\<forall>p \<in> set (sm_packs m). \<forall>r \<in> set (pm_chunks p). f r = r"
  shows "map_refs f m = m"
proof -
  have "map (\<lambda>e. e\<lparr>fe_chunks := map f (fe_chunks e)\<rparr>) (sm_entries m) = sm_entries m"
    using assms(1) by (intro map_idI) (simp add: map_idI)
  moreover have "map (\<lambda>p. p\<lparr>pm_chunks := map f (pm_chunks p)\<rparr>) (sm_packs m) = sm_packs m"
    using assms(2) by (intro map_idI) (simp add: map_idI)
  ultimately show ?thesis by (simp add: map_refs_def)
qed

lemma manifest_chunk_refs_map: "manifest_chunk_refs (map_refs f m) = map f (manifest_chunk_refs m)"
  by (simp add: manifest_chunk_refs_def map_refs_def map_concat filter_map comp_def)

lemma map_refs_json_ok:
  assumes "manifest_json_ok m" and "\<And>r. chunk_ref_ok r \<Longrightarrow> chunk_ref_ok (f r)"
  shows "manifest_json_ok (map_refs f m)"
  using assms by (auto simp: manifest_json_ok_def map_refs_def file_entry_ok_def list_all_iff)

lemma move_manifest_still: "\<not> manifest_moved new m \<Longrightarrow> move_manifest new m = m"
  unfolding move_manifest_map_refs
  by (rule map_refs_id) (auto simp: manifest_moved_def list_ex_iff move_ref_def)

lemma same_location_reads: "same_location a b \<Longrightarrow> segment_read cy key fault fs a = segment_read cy key fault fs b"
  unfolding same_location_def segment_read_def by (elim conjE) (simp only:)

lemma ref_held_extends: "ref_held d fs r \<Longrightarrow> extends fs gs \<Longrightarrow> ref_held d gs r"
  unfolding ref_held_def using ref_reads_extends by blast

lemma ref_held_hash: "crypto_laws (rd_crypto d) \<Longrightarrow> ref_held d fs r \<Longrightarrow> cr_hash r \<noteq> []"
proof -
  assume l: "crypto_laws (rd_crypto d)" and "ref_held d fs r"
  then obtain data where "segment_read (rd_crypto d) (rd_key d) False fs r = Inr data"
    by (auto simp: ref_held_def ref_reads_def)
  then have "cr_hash r = hex_encode (cy_blake3 (rd_crypto d) data)"
    using segment_read_hash by (metis hash_bytes_def)
  then have "length (cr_hash r) = 64" using l by (simp add: crypto_lawsD)
  then show "cr_hash r \<noteq> []" by auto
qed

text \<open>Replacing references by ones with the same hash keeps the content.\<close>

definition new_ok :: "'k repo_deps \<Rightarrow> files \<Rightarrow> string \<times> chunk_ref \<Rightarrow> bool" where
  "new_ok d fs p \<longleftrightarrow> cr_hash (snd p) = fst p \<and> ref_json_ok (snd p) \<and> ref_held d fs (snd p)"

lemma move_ref_cases:
  obtains (still) "move_ref new r = r" "\<not> moved new r"
  | (gone) n where "map_of new (cr_hash r) = Some n" "move_ref new r = n"
  by (cases "moved new r") (auto simp: move_ref_def moved_def split: option.splits)

lemma move_ref_hash: "\<forall>p \<in> set new. new_ok d fs p \<Longrightarrow> cr_hash (move_ref new r) = cr_hash r"
  by (cases rule: move_ref_cases [of new r]) (auto dest!: map_of_SomeD simp: new_ok_def)

lemma move_manifest_content: "\<forall>p \<in> set new. new_ok d fs p \<Longrightarrow> same_content m (move_manifest new m)"
proof -
  assume "\<forall>p \<in> set new. new_ok d fs p"
  then have "unplaced \<circ> move_ref new = unplaced" by (auto simp: unplaced_def move_ref_hash)
  then show ?thesis by (simp add: same_content_def move_manifest_map_refs map_refs_comp)
qed

lemma move_ref_ok:
  assumes "\<forall>p \<in> set new. new_ok d fs p" and "chunk_ref_ok r"
  shows "chunk_ref_ok (move_ref new r)"
proof (cases rule: move_ref_cases [of new r])
  case still
  then show ?thesis using assms(2) by simp
next
  case (gone n)
  then have n: "new_ok d fs (cr_hash r, n)" using assms(1) map_of_SomeD by fast
  then show ?thesis using gone(2) assms(2) by (auto simp: new_ok_def chunk_ref_ok_def ref_json_ok_def)
qed

lemma move_manifest_named:
  assumes "\<forall>p \<in> set new. new_ok d fs p" and "manifest_json_ok m"
  shows "manifest_json_ok (move_manifest new m)"
  unfolding move_manifest_map_refs by (rule map_refs_json_ok [OF assms(2) move_ref_ok [OF assms(1)]])

lemma move_ref_held:
  assumes "\<forall>p \<in> set new. new_ok d fs p" and "ref_held d fs r"
  shows "ref_held d fs (move_ref new r)"
proof (cases rule: move_ref_cases [of new r])
  case still
  then show ?thesis using assms(2) by simp
next
  case (gone n)
  then show ?thesis using assms(1) map_of_SomeD by (fastforce simp: new_ok_def)
qed

subsection \<open>Running parts of the server\<close>

lemma on_repo_sv [simp]:
  "sv_man (snd (on_repo w f s)) = sv_man s" "sv_db (snd (on_repo w f s)) = sv_db s"
  "sv_repo (snd (on_repo w f s)) = snd (f (sv_repo s))"
  by (simp_all add: on_repo_def split: prod.splits sum.splits)

lemma on_man_sv [simp]:
  "sv_repo (snd (on_man w f s)) = sv_repo s" "sv_db (snd (on_man w f s)) = sv_db s"
  "sv_man (snd (on_man w f s)) = snd (f (sv_man s))"
  by (simp_all add: on_man_def split: prod.splits sum.splits)

lemma on_db_sv [simp]:
  "sv_repo (snd (on_db f s)) = sv_repo s" "sv_man (snd (on_db f s)) = sv_man s"
  "sv_db (snd (on_db f s)) = snd (f (sv_db s))"
  by (simp_all add: on_db_def split: prod.splits sum.splits)

lemma on_db_state: "on_db f s = (b, t) \<Longrightarrow> sv_repo t = sv_repo s \<and> sv_man t = sv_man s"
  using on_db_sv [of f s] by simp

lemma on_repo_Inr: "on_repo w f s = (Inr x, t) \<longleftrightarrow> (\<exists>r. f (sv_repo s) = (Inr x, r) \<and> t = s\<lparr>sv_repo := r\<rparr>)"
  by (cases "f (sv_repo s)"; cases "fst (f (sv_repo s))") (auto simp: on_repo_def)

lemma on_man_Inr: "on_man w f s = (Inr x, t) \<longleftrightarrow> (\<exists>r. f (sv_man s) = (Inr x, r) \<and> t = s\<lparr>sv_man := r\<rparr>)"
  by (cases "f (sv_man s)"; cases "fst (f (sv_man s))") (auto simp: on_man_def)

lemma on_db_Inr: "on_db f s = (Inr x, t) \<longleftrightarrow> (\<exists>r. f (sv_db s) = (Inr x, r) \<and> t = s\<lparr>sv_db := r\<rparr>)"
  by (cases "f (sv_db s)"; cases "fst (f (sv_db s))") (auto simp: on_db_def)

text \<open>A property that every step keeps holds after a chain of steps, whatever its outcome.\<close>

lemma chain:
  assumes "R s (snd m)" and "\<And>x t. m = (Inr x, t) \<Longrightarrow> R t (snd (f x t))"
    and "\<And>a b c. R a b \<Longrightarrow> R b c \<Longrightarrow> R a c"
  shows "R s (snd (sbind m f))"
proof (cases m)
  case (Pair r t)
  then show ?thesis using assms by (cases r) auto
qed

definition steady :: "'k server \<Rightarrow> 'k server \<Rightarrow> bool" where
  "steady s t \<longleftrightarrow> same_store (sv_repo s) (sv_repo t) \<and> man_lookup (sv_man t) = man_lookup (sv_man s)"

lemma steady_refl [simp]: "steady s s"
  by (simp add: steady_def)

lemma steady_trans: "steady s t \<Longrightarrow> steady t u \<Longrightarrow> steady s u"
  by (auto simp: steady_def intro: same_store_trans)

lemma steady_db [simp]: "steady s (s\<lparr>sv_db := x\<rparr>)" "steady s (snd (on_db f s))"
  by (simp_all add: steady_def)

lemma steady_on_repo: "same_store (sv_repo s) (snd (f (sv_repo s))) \<Longrightarrow> steady s (snd (on_repo w f s))"
  by (simp add: steady_def)

lemma steady_check_ctx [simp]: "steady s (snd (on_repo w (check_ctx ev) s))"
  by (simp add: steady_on_repo check_ctx_same)

lemma manifest_at_cong: "man_lookup t = man_lookup s \<Longrightarrow> manifest_at c t = manifest_at c s"
  by (simp add: manifest_at_def fun_eq_iff)

lemma steady_intact: "steady s t \<Longrightarrow> snapshot_intact d c t i m \<longleftrightarrow> snapshot_intact d c s i m"
  by (auto simp: steady_def snapshot_intact_def manifest_named_def manifest_at_cong [of "sv_man t" "sv_man s"] same_store_fields)

lemma steady_repo_inv: "steady s t \<Longrightarrow> repo_inv d (sv_repo t) \<longleftrightarrow> repo_inv d (sv_repo s)"
  by (simp add: steady_def same_store_inv)

lemma steady_files: "steady s t \<Longrightarrow> sv_files t = sv_files s"
  by (simp add: steady_def same_store_fields)

lemma read_manifest_lookup: "man_lookup (snd (read_manifest ev c i s)) = man_lookup s"
  by (auto simp: read_manifest_def fun_eq_iff split: sum.splits option.splits mnode.splits)

lemma steady_read_manifest [simp]: "steady s (snd (on_man w (read_manifest ev c i) s))"
  by (simp add: steady_def read_manifest_lookup)

lemma read_manifest_Inr: "read_manifest ev c i s = (Inr m, t) \<Longrightarrow> manifest_at c s i = Some m"
  by (auto simp: read_manifest_def manifest_at_def split: sum.splits option.splits mnode.splits if_splits)

subsection \<open>Loading the manifests\<close>

lemma load_manifests_steady: "steady s (snd (load_manifests ev c xs s))"
proof (induction xs arbitrary: s)
  case Nil
  then show ?case by simp
next
  case (Cons x xs)
  show ?case unfolding load_manifests.simps
    by (rule chain [where R = steady], simp, rule chain [where R = steady], simp, rule chain [where R = steady])
      (auto intro: Cons.IH steady_trans)
qed

lemma load_manifests_Inr:
  "load_manifests ev c xs s = (Inr ms, t) \<Longrightarrow>
   map fst ms = xs \<and> (\<forall>p \<in> set ms. manifest_at c (sv_man s) (sn_manifest (fst p)) = Some (snd p))"
proof (induction xs arbitrary: s ms)
  case Nil
  then show ?case by simp
next
  case (Cons x xs)
  obtain u s1 m s2 ms' where a: "on_repo MtRepo (check_ctx ev) s = (Inr u, s1)"
    "on_man (MtReadManifest (sn_id x) (sn_manifest x)) (read_manifest ev c (sn_manifest x)) s1 = (Inr m, s2)"
    "load_manifests ev c xs s2 = (Inr ms', t)" "ms = (x, m) # ms'"
    using Cons.prems by (auto simp: result_simps)
  have "steady s s1" "steady s1 s2"
    using steady_check_ctx [of s MtRepo ev] steady_read_manifest [of s1 "MtReadManifest (sn_id x) (sn_manifest x)" ev c "sn_manifest x"] a(1,2)
    by simp_all
  then have same: "manifest_at c (sv_man s1) = manifest_at c (sv_man s)" "manifest_at c (sv_man s2) = manifest_at c (sv_man s)"
    by (auto simp: steady_def intro: manifest_at_cong)
  have "manifest_at c (sv_man s1) (sn_manifest x) = Some m"
    using a(2) read_manifest_Inr by (auto simp: on_man_Inr)
  then show ?case using Cons.IH [OF a(3)] same a(4) by auto
qed

lemma collect_refs_dom: "fst ` set (collect_refs rs acc) = fst ` set acc \<union> (cr_hash ` set rs - {[]})"
proof (induction rs arbitrary: acc)
  case Nil
  then show ?case by simp
next
  case (Cons r rs)
  show ?case
  proof (cases "cr_hash r = [] \<or> map_of acc (cr_hash r) \<noteq> None")
    case True
    then have "cr_hash r = [] \<or> cr_hash r \<in> fst ` set acc" by (auto simp: map_of_eq_None_iff)
    then show ?thesis using True Cons.IH [of acc] by auto
  next
    case False
    then show ?thesis using Cons.IH [of "acc @ [(cr_hash r, r)]"] by auto
  qed
qed

lemma collect_refs_mem: "p \<in> set (collect_refs rs acc) \<Longrightarrow> p \<in> set acc \<or> (snd p \<in> set rs \<and> cr_hash (snd p) = fst p)"
proof (induction rs arbitrary: acc)
  case Nil
  then show ?case by simp
next
  case (Cons r rs)
  then show ?case
    by (cases "cr_hash r = [] \<or> map_of acc (cr_hash r) \<noteq> None") (fastforce dest!: Cons.IH)+
qed

lemma refs_by_hash_snoc: "refs_by_hash (ms @ [(x, m)]) = collect_refs (manifest_chunk_refs m) (refs_by_hash ms)"
  by (simp add: refs_by_hash_def)

lemma refs_by_hash_dom:
  "fst ` set (refs_by_hash ms) = (\<Union>p \<in> set ms. cr_hash ` set (manifest_chunk_refs (snd p)) - {[]})"
proof (induction ms rule: rev_induct)
  case Nil
  then show ?case by (simp add: refs_by_hash_def)
next
  case (snoc p ms)
  then show ?case by (cases p) (auto simp: refs_by_hash_snoc collect_refs_dom)
qed

lemma refs_by_hash_mem:
  "q \<in> set (refs_by_hash ms) \<Longrightarrow> cr_hash (snd q) = fst q \<and> (\<exists>p \<in> set ms. snd q \<in> set (manifest_chunk_refs (snd p)))"
proof (induction ms rule: rev_induct)
  case Nil
  then show ?case by (simp add: refs_by_hash_def)
next
  case (snoc p ms)
  obtain x m where p: "p = (x, m)" by fastforce
  have "q \<in> set (refs_by_hash ms) \<or> (snd q \<in> set (manifest_chunk_refs m) \<and> cr_hash (snd q) = fst q)"
    using snoc.prems collect_refs_mem unfolding p refs_by_hash_snoc by blast
  then show ?case using snoc.IH p by auto
qed

subsection \<open>Rewriting the chunks\<close>

definition grown :: "'k server \<Rightarrow> 'k server \<Rightarrow> bool" where
  "grown s t \<longleftrightarrow> extends (sv_files s) (sv_files t) \<and> man_lookup (sv_man t) = man_lookup (sv_man s)"

lemma grown_trans: "grown s t \<Longrightarrow> grown t u \<Longrightarrow> grown s u"
  unfolding grown_def using extends_trans by metis

lemma steady_grown: "steady s t \<Longrightarrow> grown s t"
  unfolding steady_def grown_def using same_store_fields(2) by fastforce

lemma grown_intact: "grown s t \<Longrightarrow> snapshot_intact d c s i m \<Longrightarrow> snapshot_intact d c t i m"
  by (auto simp: grown_def snapshot_intact_def manifest_named_def manifest_at_cong [of "sv_man t" "sv_man s"] intro: ref_held_extends)

lemma rotate_grown: "grown s (snd (on_repo w (rotate_for_maintenance ev) s))"
proof -
  have "extends (sg_files (rp_seg r)) (sg_files (rp_seg (snd (rotate_for_maintenance ev r))))" for r :: "'a repo"
    using on_segments_files [of r "rotate_segment ev"] rotate_segment_extends [of "rp_seg r" ev]
    by (auto simp: rotate_for_maintenance_def snd_sbind split: sum.splits)
  then show ?thesis by (simp add: grown_def)
qed

lemma rotate_repo_inv:
  assumes "rotate_for_maintenance ev r = (Inr i, t)" and "repo_inv d r"
  shows "repo_inv d t \<and> rp_db t = rp_db r \<and> extends (sg_files (rp_seg r)) (sg_files (rp_seg t))"
proof (cases "0 < sg_offset (rp_seg r)")
  case False
  then show ?thesis using assms by (simp add: rotate_for_maintenance_def)
next
  case True
  then obtain g u where g: "rotate_segment ev (rp_seg r) = (Inr u, g)" "t = r\<lparr>rp_seg := g\<rparr>"
    using assms(1) by (auto simp: rotate_for_maintenance_def result_simps on_segments_Inr)
  have ext: "extends (sg_files (rp_seg r)) (sg_files g)" using rotate_segment_extends [of "rp_seg r" ev] g(1) by simp
  have "index_sound d t"
    using assms(2) ref_reads_extends [OF _ ext] unfolding repo_inv_def index_sound_def g(2) by fastforce
  moreover have "seg_inv g \<and> int64 (sg_id g)"
    using rotate_segment_inv [OF g(1)] by (simp add: int64_wrap64)
  ultimately show ?thesis using g(2) ext by (simp add: repo_inv_def)
qed

lemma rewrite_refs_grown: "grown s (snd (rewrite_refs ev d refs n b acc s))"
proof (induction refs arbitrary: n b acc s)
  case Nil
  then show ?case by (simp add: steady_grown)
next
  case (Cons p refs)
  obtain h old where p: "p = (h, old)" by fastforce
  have one: "grown t (snd (on_repo (MtRewrite h) (rewrite_chunk_ref ev d old) t))" for t
    by (simp add: grown_def rewrite_chunk_ref_extends)
  show ?case unfolding p rewrite_refs.simps
    by (rule chain [where R = grown], simp add: steady_grown, rule chain [where R = grown], rule one)
      (auto intro: Cons.IH grown_trans)
qed

lemma new_ok_extends: "new_ok d fs p \<Longrightarrow> extends fs gs \<Longrightarrow> new_ok d gs p"
  unfolding new_ok_def using ref_held_extends by blast

text \<open>One rewritten chunk, seen from the server.\<close>

lemma rewrite_one_ok:
  assumes inv: "repo_inv d (sv_repo s)" and ok: "deps_ok d" "good_rand ev" "good_clock ev"
    and old: "ref_held d (sv_files s) old" and rw: "on_repo w (rewrite_chunk_ref ev d old) s = (Inr new, t)"
    and fit: "files_fit (sv_files t)"
  shows "repo_inv d (sv_repo t) \<and> new_ok d (sv_files t) (cr_hash old, new) \<and>
    index_view (rd_index d) (rp_db (sv_repo t)) = (index_view (rd_index d) (rp_db (sv_repo s)))(cr_hash old \<mapsto> new)"
proof -
  obtain r where r: "rewrite_chunk_ref ev d old (sv_repo s) = (Inr new, r)" "t = s\<lparr>sv_repo := r\<rparr>"
    using rw by (auto simp: on_repo_Inr)
  obtain data where data: "ref_reads d (sv_files s) old data" "data_fits (rd_crypto d) (rd_key d) data"
    using old by (auto simp: ref_held_def)
  have fits: "data_fits (rd_crypto d) (rd_key d) x" if "ref_reads d (sv_files s) old x" for x
    using that data by (simp add: ref_reads_def)
  from rewrite_chunk_ref_ok [OF inv ok r(1) fits] fit r(2)
  have res: "repo_inv d r" "ref_json_ok new" "cr_hash new = cr_hash old"
    "\<exists>data. ref_reads d (sv_files s) old data \<and> ref_reads d (sg_files (rp_seg r)) new data"
    "index_view (rd_index d) (rp_db r) = (index_view (rd_index d) (rp_db (sv_repo s)))(cr_hash old \<mapsto> new)"
    by auto
  then show ?thesis using fits r(2) by (auto simp: new_ok_def ref_held_def)
qed

lemma rewrite_refs_ok:
  assumes ok: "deps_ok d" "good_rand ev" "good_clock ev" and fit: "files_fit (sv_files t)"
  shows "rewrite_refs ev d refs n b acc s = (Inr (n', b', new), t) \<Longrightarrow> repo_inv d (sv_repo s) \<Longrightarrow>
    \<forall>p \<in> set refs. cr_hash (snd p) = fst p \<and> ref_held d (sv_files s) (snd p) \<Longrightarrow>
    \<forall>p \<in> set acc. new_ok d (sv_files s) p \<Longrightarrow>
    index_view (rd_index d) (rp_db (sv_repo s)) = V ++ map_of acc \<Longrightarrow>
    repo_inv d (sv_repo t) \<and> (\<forall>p \<in> set new. new_ok d (sv_files t) p) \<and>
    fst ` set new = fst ` set acc \<union> fst ` set refs \<and>
    index_view (rd_index d) (rp_db (sv_repo t)) = V ++ map_of new"
proof (induction refs arbitrary: n b acc s)
  case Nil
  then show ?case by simp
next
  case (Cons p refs)
  obtain h old where p: "p = (h, old)" by fastforce
  obtain u s1 ref s2 where a: "on_repo MtRepo (check_ctx ev) s = (Inr u, s1)"
    "on_repo (MtRewrite h) (rewrite_chunk_ref ev d old) s1 = (Inr ref, s2)"
    "rewrite_refs ev d refs (n + 1) (wrap64 (b + cr_original old)) ((h, ref) # acc) s2 = (Inr (n', b', new), t)"
    using Cons.prems(1) unfolding p rewrite_refs.simps by (auto simp only: result_simps)
  have st: "steady s s1" using steady_check_ctx [of s MtRepo ev] a(1) by simp
  have g2: "grown s1 s2"
    using a(2) rewrite_chunk_ref_extends [of "sv_repo s1" ev d old] by (auto simp: grown_def on_repo_Inr)
  have fit2: "files_fit (sv_files s2)"
    using files_fit_extends [OF _ fit] rewrite_refs_grown [of s2 ev d refs "n + 1" "wrap64 (b + cr_original old)" "(h, ref) # acc"] a(3)
    by (simp add: grown_def)
  have f1: "sv_files s1 = sv_files s" "rp_db (sv_repo s1) = rp_db (sv_repo s)"
    using st by (auto simp: steady_def same_store_fields)
  have old: "cr_hash old = h" "ref_held d (sv_files s1) old" using Cons.prems(3) p f1 by auto
  have inv1: "repo_inv d (sv_repo s1)" using Cons.prems(2) steady_repo_inv [OF st] by blast
  note one = rewrite_one_ok [OF inv1 ok old(2) a(2) fit2, unfolded old(1)]
  have ext: "extends (sv_files s) (sv_files s2)" using g2 f1 by (simp add: grown_def)
  have refs2: "\<forall>p \<in> set refs. cr_hash (snd p) = fst p \<and> ref_held d (sv_files s2) (snd p)"
    using Cons.prems(3) ref_held_extends [OF _ ext] by auto
  have acc2: "\<forall>p \<in> set ((h, ref) # acc). new_ok d (sv_files s2) p"
    using Cons.prems(4) one new_ok_extends [OF _ ext] by auto
  have view2: "index_view (rd_index d) (rp_db (sv_repo s2)) = V ++ map_of ((h, ref) # acc)"
    using one Cons.prems(5) f1 by simp
  from Cons.IH [OF a(3) one [THEN conjunct1] refs2 acc2 view2] show ?case using p by auto
qed

subsection \<open>Writing the manifests back\<close>

text \<open>
  \<open>M\<close> are the manifests that were loaded. While they are written back each of them is on disk either
  as it was or moved; a moved one stays moved.
\<close>

definition all_moved :: "man_codec \<Rightarrow> (string \<times> chunk_ref) list \<Rightarrow> loaded \<Rightarrow> 'k server \<Rightarrow> bool" where
  "all_moved c new M s \<longleftrightarrow> (\<forall>p \<in> set M. manifest_at c (sv_man s) (sm_id (snd p)) = Some (move_manifest new (snd p)))"

definition each_either :: "man_codec \<Rightarrow> (string \<times> chunk_ref) list \<Rightarrow> loaded \<Rightarrow> 'k server \<Rightarrow> bool" where
  "each_either c new M s \<longleftrightarrow> (\<forall>p \<in> set M. manifest_at c (sv_man s) (sm_id (snd p)) \<in> {Some (snd p), Some (move_manifest new (snd p))})"

definition loaded_ok :: "(string \<times> chunk_ref) list \<Rightarrow> loaded \<Rightarrow> bool" where
  "loaded_ok new M \<longleftrightarrow> (\<forall>p \<in> set M. sm_id (snd p) \<noteq> [] \<and> sm_created (snd p) \<noteq> zero_time \<and> manifest_json_ok (move_manifest new (snd p))) \<and>
     (\<forall>p \<in> set M. \<forall>q \<in> set M. sm_id (snd p) = sm_id (snd q) \<longrightarrow> snd p = snd q)"

lemma write_manifest_filled:
  assumes "write_manifest ev c m s = (res, t)" and "sm_id m \<noteq> []" and "sm_created m \<noteq> zero_time"
    and "man_codec_laws c" and "manifest_json_ok m"
  shows "(\<forall>i. i \<noteq> sm_id m \<longrightarrow> manifest_at c t i = manifest_at c s i) \<and>
    manifest_at c t (sm_id m) \<in> {manifest_at c s (sm_id m), Some m} \<and>
    (\<forall>m'. res = Inr m' \<longrightarrow> manifest_at c t (sm_id m) = Some m)"
proof -
  have filled: "m' = m" if "res = Inr m'" for m'
    using assms(1-3) that by (auto simp: write_manifest_def Let_def result_simps split: sum.splits option.splits)
  note eff = write_manifest_effect [OF assms(1)]
  show ?thesis
  proof (cases res)
    case (Inl e)
    then have "man_lookup t (manifest_name i) = man_lookup s (manifest_name i)" for i using eff by simp
    then show ?thesis using Inl by (simp add: manifest_at_def)
  next
    case (Inr m')
    obtain b where b: "mc_enc c m = Some b" "mc_dec c b = Some m" using assms(4,5) by (auto simp: man_codec_laws_def)
    then have "\<exists>mt. man_lookup t (manifest_name (sm_id m)) = Some (MFile b mt)"
      and "\<forall>i. i \<noteq> sm_id m \<longrightarrow> man_lookup t (manifest_name i) = man_lookup s (manifest_name i)"
      using eff Inr filled [OF Inr] by auto
    then show ?thesis using b by (auto simp: manifest_at_def)
  qed
qed

lemma write_back_moves:
  assumes codec: "man_codec_laws c" and lo: "loaded_ok new M"
  shows "write_back ev c new ms s = (res, t) \<Longrightarrow> set ms \<subseteq> set M \<Longrightarrow> each_either c new M s \<Longrightarrow>
    sv_repo t = sv_repo s \<and> each_either c new M t \<and>
    (\<forall>p \<in> set M. manifest_at c (sv_man s) (sm_id (snd p)) = Some (move_manifest new (snd p)) \<longrightarrow>
       manifest_at c (sv_man t) (sm_id (snd p)) = Some (move_manifest new (snd p))) \<and>
    (\<forall>u. res = Inr u \<longrightarrow> all_moved c new ms t)"
proof (induction ms arbitrary: s)
  case Nil
  then show ?case by (simp add: all_moved_def)
next
  case (Cons p ms)
  obtain x m where p: "p = (x, m)" by fastforce
  have m: "sm_id m \<noteq> []" "sm_created m \<noteq> zero_time" "manifest_json_ok (move_manifest new m)" "(x, m) \<in> set M"
    using lo Cons.prems(2) p by (auto simp: loaded_ok_def)
  show ?case
  proof (cases "manifest_moved new m")
    case False
    then have same: "move_manifest new m = m" by (rule move_manifest_still)
    have "write_back ev c new ms s = (res, t)" using Cons.prems(1) False p by simp
    from Cons.IH [OF this _ Cons.prems(3)] Cons.prems(2) have ih:
      "sv_repo t = sv_repo s" "each_either c new M t"
      "\<forall>p \<in> set M. manifest_at c (sv_man s) (sm_id (snd p)) = Some (move_manifest new (snd p)) \<longrightarrow>
         manifest_at c (sv_man t) (sm_id (snd p)) = Some (move_manifest new (snd p))"
      "\<forall>u. res = Inr u \<longrightarrow> all_moved c new ms t" by auto
    have "manifest_at c (sv_man t) (sm_id m) = Some (move_manifest new m)"
      using ih(2) m(4) same by (auto simp: each_either_def)
    then show ?thesis using ih p by (auto simp: all_moved_def)
  next
    case True
    obtain r s1 where w: "on_man (MtWriteManifest (sn_id x)) (write_manifest ev c (move_manifest new m)) s = (r, s1)" by fastforce
    obtain wr wt where wm: "write_manifest ev c (move_manifest new m) (sv_man s) = (wr, wt)" by fastforce
    have s1: "sv_man s1 = wt" "sv_repo s1 = sv_repo s" "(\<exists>y. r = Inr y) \<longleftrightarrow> (\<exists>y. wr = Inr y)"
      using w wm by (auto simp: on_man_def split: sum.splits)
    have f: "sm_id (move_manifest new m) = sm_id m" "sm_created (move_manifest new m) = sm_created m"
      by (simp_all add: move_manifest_map_refs)
    note eff = write_manifest_filled [OF wm, unfolded f, OF m(1,2) codec m(3)]
    have uniq: "snd q = m" if "q \<in> set M" "sm_id (snd q) = sm_id m" for q
      using lo m(4) that by (fastforce simp: loaded_ok_def)
    have e1: "each_either c new M s1"
      unfolding each_either_def
    proof
      fix q assume q: "q \<in> set M"
      have old: "manifest_at c (sv_man s) (sm_id (snd q)) \<in> {Some (snd q), Some (move_manifest new (snd q))}"
        using Cons.prems(3) q unfolding each_either_def by blast
      show "manifest_at c (sv_man s1) (sm_id (snd q)) \<in> {Some (snd q), Some (move_manifest new (snd q))}"
      proof (cases "sm_id (snd q) = sm_id m")
        case False
        then show ?thesis using old eff s1(1) by simp
      next
        case True
        then show ?thesis using old eff s1(1) uniq [OF q True] by auto
      qed
    qed
    have k1: "\<forall>p \<in> set M. manifest_at c (sv_man s) (sm_id (snd p)) = Some (move_manifest new (snd p)) \<longrightarrow>
         manifest_at c (sv_man s1) (sm_id (snd p)) = Some (move_manifest new (snd p))"
    proof (intro ballI impI)
      fix q assume q: "q \<in> set M" "manifest_at c (sv_man s) (sm_id (snd q)) = Some (move_manifest new (snd q))"
      show "manifest_at c (sv_man s1) (sm_id (snd q)) = Some (move_manifest new (snd q))"
      proof (cases "sm_id (snd q) = sm_id m")
        case False
        then show ?thesis using q eff s1(1) by simp
      next
        case True
        then show ?thesis using q eff s1(1) uniq [OF q(1) True] by auto
      qed
    qed
    show ?thesis
    proof (cases r)
      case (Inl e)
      then have "t = s1" "\<not> (\<exists>u. res = Inr u)" using Cons.prems(1) True p w by auto
      then show ?thesis using e1 k1 s1 by auto
    next
      case (Inr y)
      then have wb: "write_back ev c new ms s1 = (res, t)" using Cons.prems(1) True p w by simp
      have now: "manifest_at c (sv_man s1) (sm_id m) = Some (move_manifest new m)" using eff s1 Inr by auto
      from Cons.IH [OF wb _ e1] Cons.prems(2) have ih:
        "sv_repo t = sv_repo s1" "each_either c new M t"
        "\<forall>p \<in> set M. manifest_at c (sv_man s1) (sm_id (snd p)) = Some (move_manifest new (snd p)) \<longrightarrow>
           manifest_at c (sv_man t) (sm_id (snd p)) = Some (move_manifest new (snd p))"
        "\<forall>u. res = Inr u \<longrightarrow> all_moved c new ms t" by auto
      have "manifest_at c (sv_man t) (sm_id m) = Some (move_manifest new m)" using ih(3) m(4) now by fastforce
      then show ?thesis using ih k1 s1(2) p by (auto simp: all_moved_def)
    qed
  qed
qed

subsection \<open>The two phases of a compaction\<close>

text \<open>What the first phase hands over: every reference of a live manifest is a new one.\<close>

definition placed :: "(string \<times> chunk_ref) list \<Rightarrow> chunk_ref \<Rightarrow> bool" where
  "placed new r \<longleftrightarrow> int64 (cr_segment r) \<and> cr_segment r \<in> cr_segment ` snd ` set new"

definition compacted :: "'k repo_deps \<Rightarrow> man_codec \<Rightarrow> 'k server \<Rightarrow> 'k server \<Rightarrow> string \<Rightarrow> snapshot_manifest \<Rightarrow> bool" where
  "compacted d c s t i m \<longleftrightarrow> (\<exists>k. snapshot_intact d c t i k \<and> same_content m k)"

lemma intact_manifest: "snapshot_intact d c s i m \<Longrightarrow> snapshot_intact d c s i k \<Longrightarrow> k = m"
  by (simp add: snapshot_intact_def manifest_named_def)

lemma move_intact:
  assumes "manifest_named c ms i m" and "\<forall>r \<in> set (manifest_chunk_refs m). ref_held d (sv_files t) r"
    and "\<forall>p \<in> set new. new_ok d (sv_files t) p" and "manifest_at c (sv_man t) i \<in> {Some m, Some (move_manifest new m)}"
  shows "\<exists>k. snapshot_intact d c t i k \<and> same_content m k \<and> manifest_at c (sv_man t) i = Some k"
proof (cases "manifest_at c (sv_man t) i = Some m")
  case True
  then show ?thesis using assms(1,2) by (auto simp: snapshot_intact_def manifest_named_def)
next
  case False
  then have at: "manifest_at c (sv_man t) i = Some (move_manifest new m)" using assms(4) by simp
  have "manifest_json_ok (move_manifest new m)"
    using move_manifest_named [OF assms(3)] assms(1) by (simp add: manifest_named_def)
  moreover have "\<forall>r \<in> set (manifest_chunk_refs (move_manifest new m)). ref_held d (sv_files t) r"
    using assms(2) move_ref_held [OF assms(3)] by (simp add: move_manifest_map_refs manifest_chunk_refs_map)
  ultimately have "snapshot_intact d c t i (move_manifest new m)"
    using assms(1) at by (simp add: snapshot_intact_def manifest_named_def move_manifest_map_refs)
  then show ?thesis using at move_manifest_content [OF assms(3)] by blast
qed

lemma moved_placed:
  assumes "\<forall>p \<in> set new. new_ok d fs p" and "cr_hash r \<in> fst ` set new"
  shows "placed new (move_ref new r)"
proof -
  obtain n where n: "map_of new (cr_hash r) = Some n" using assms(2) by (metis map_of_eq_None_iff option.exhaust)
  then have mem: "(cr_hash r, n) \<in> set new" by (rule map_of_SomeD)
  then have j: "int64 (cr_segment n)" using assms(1) by (auto simp: new_ok_def ref_json_ok_def)
  have "cr_segment (move_ref new r) = cr_segment n"
    using n by (auto simp: move_ref_def moved_def same_location_def)
  then show ?thesis using mem j by (force simp: placed_def)
qed

text \<open>
  The first phase. Whatever its outcome, the live snapshots stay intact; when it hands over, every
  live manifest is moved, its references are new ones, and the index points to new references for
  exactly the hashes of the keep set.
\<close>

definition handed_over ::
    "'k repo_deps \<Rightarrow> man_codec \<Rightarrow> snapshot_row list \<Rightarrow> string set \<Rightarrow> (string \<times> chunk_ref) list \<Rightarrow> 'k server \<Rightarrow> bool" where
  "handed_over d c xs keep new t \<longleftrightarrow>
     repo_inv d (sv_repo t) \<and> (\<forall>p \<in> set new. new_ok d (sv_files t) p) \<and>
     (\<forall>h \<in> keep. \<exists>p \<in> set new. index_view (rd_index d) (rp_db (sv_repo t)) h = Some (snd p)) \<and>
     (\<forall>x \<in> set xs. \<forall>k. manifest_at c (sv_man t) (sn_manifest x) = Some k \<longrightarrow> (\<forall>r \<in> set (manifest_chunk_refs k). placed new r))"

lemma compact_rewrite_cases:
  assumes rw: "compact_rewrite ev d c xs s = (res, t)"
  obtains (quiet) "grown s t" "\<forall>q. res \<noteq> Inr (Some q)" "res = Inr None \<longrightarrow> steady s t"
  | (written) s1 ms s2 u s3 n bt new s4 r5 where "steady s s1" "load_manifests ev c xs s1 = (Inr ms, s2)"
      "on_repo MtRepo (rotate_for_maintenance ev) s2 = (Inr u, s3)"
      "rewrite_refs ev d (sort_key (\<lambda>(h, r). bytes_of h) (refs_by_hash ms)) 0 0 [] s3 = (Inr (n, bt, new), s4)"
      "write_back ev c new ms s4 = (r5, t)"
      "res = (case r5 of Inl e \<Rightarrow> Inl e
          | Inr u \<Rightarrow> Inr (Some (empty_compact_report\<lparr>co_rewritten := n, co_bytes := bt\<rparr>, set (map fst (refs_by_hash ms)), new)))"
proof -
  obtain a s1 where a: "on_db (count_active_runs ev) s = (a, s1)" by fastforce
  have st1: "steady s s1" using steady_db(2) [of s "count_active_runs ev"] a by simp
  obtain b s2 where b: "load_manifests ev c xs s1 = (b, s2)" by fastforce
  have st2: "steady s s2" using load_manifests_steady [of s1 ev c xs] b steady_trans [OF st1] by simp
  show thesis
  proof (cases "\<exists>n ms. a = Inr n \<and> n \<le> 0 \<and> b = Inr ms")
    case False
    have no: "t = s1 \<or> t = s2" "\<forall>q. res \<noteq> Inr (Some q)"
      using rw a b False by (cases a; cases b; auto simp: compact_rewrite_def split: if_splits)+
    then have "steady s t" using st1 st2 by blast
    then show ?thesis using quiet no(2) steady_grown by blast
  next
    case True
    then obtain n0 ms where ms: "a = Inr n0" "n0 \<le> 0" "b = Inr ms" by blast
    let ?refs = "sort_key (\<lambda>(h, r). bytes_of h) (refs_by_hash ms)"
    obtain r3 s3 where r3: "on_repo MtRepo (rotate_for_maintenance ev) s2 = (r3, s3)" by fastforce
    have g3: "grown s s3" using rotate_grown [of s2 MtRepo ev] r3 grown_trans [OF steady_grown [OF st2]] by simp
    obtain r4 s4 where r4: "rewrite_refs ev d ?refs 0 0 [] s3 = (r4, s4)" by fastforce
    have g4: "grown s s4" using rewrite_refs_grown [of s3 ev d ?refs 0 0 "[]"] r4 grown_trans [OF g3] by simp
    have run: "sbind (r3, s3) (\<lambda>_ s3. sbind (rewrite_refs ev d ?refs 0 0 [] s3) (\<lambda>(n, b, new) s4.
        sbind (write_back ev c new ms s4) (\<lambda>_ s5.
          (Inr (Some (empty_compact_report\<lparr>co_rewritten := n, co_bytes := b\<rparr>, set (map fst (refs_by_hash ms)), new)), s5)))) = (res, t)"
      using rw a b ms r3 by (simp add: compact_rewrite_def Let_def)
    show ?thesis
    proof (cases "\<exists>u n b new. r3 = Inr u \<and> r4 = Inr (n, b, new)")
      case False
      then have "t = s3 \<or> t = s4" "\<forall>q. res \<noteq> Inr q"
        using run r4 by (cases r3; cases r4; auto)+
      then show ?thesis using g3 g4 quiet by blast
    next
      case True
      then obtain u n bt new where rr: "r3 = Inr u" "r4 = Inr (n, bt, new)" by blast
      obtain r5 t5 where r5: "write_back ev c new ms s4 = (r5, t5)" by fastforce
      have "t5 = t" "res = (case r5 of Inl e \<Rightarrow> Inl e
          | Inr u \<Rightarrow> Inr (Some (empty_compact_report\<lparr>co_rewritten := n, co_bytes := bt\<rparr>, set (map fst (refs_by_hash ms)), new)))"
        using run r4 rr r5 by (cases r5; simp)+
      then show ?thesis using written [OF st1 b [unfolded ms(3)] r3 [unfolded rr(1)] r4 [unfolded rr(2)]] r5 rr by simp
    qed
  qed
qed

lemma write_back_repo: "sv_repo (snd (write_back ev c new ms s)) = sv_repo s"
proof (induction ms arbitrary: s)
  case Nil
  then show ?case by simp
next
  case (Cons p ms)
  show ?case
    by (cases p) (simp add: Cons.IH snd_sbind split: sum.splits)
qed

lemma compact_rewrite_ok:
  assumes inv: "repo_inv d (sv_repo s)" and ok: "deps_ok d" "good_rand ev" "good_clock ev" and codec: "man_codec_laws c"
    and rw: "compact_rewrite ev d c xs s = (res, t)" and fit: "files_fit (sv_files t)"
    and live: "\<And>x. x \<in> set xs \<Longrightarrow> \<exists>m. snapshot_intact d c s (sn_manifest x) m"
  shows "(\<forall>x \<in> set xs. \<forall>m. snapshot_intact d c s (sn_manifest x) m \<longrightarrow> compacted d c s t (sn_manifest x) m) \<and>
    (res = Inr None \<longrightarrow> repo_inv d (sv_repo t)) \<and>
    (\<forall>rep keep new. res = Inr (Some (rep, keep, new)) \<longrightarrow> handed_over d c xs keep new t)"
  using rw
proof (cases rule: compact_rewrite_cases)
  case quiet
  have "compacted d c s t i m" if "snapshot_intact d c s i m" for i m
    using grown_intact [OF quiet(1) that] unfolding compacted_def by (metis same_content_refl)
  then show ?thesis using quiet(2,3) steady_repo_inv [of s t d] inv by auto
next
  case (written s1 ms s2 u s3 n bt new s4 r5)
  let ?refs = "sort_key (\<lambda>(h, r). bytes_of h) (refs_by_hash ms)"
  have st2: "steady s s2" using load_manifests_steady [of s1 ev c xs] written(2) steady_trans [OF written(1)] by simp
  have fst: "map fst ms = xs" and at1: "\<forall>p \<in> set ms. manifest_at c (sv_man s1) (sn_manifest (fst p)) = Some (snd p)"
    using load_manifests_Inr [OF written(2)] by auto
  have same1: "manifest_at c (sv_man s1) = manifest_at c (sv_man s)"
    using written(1) by (auto simp: steady_def intro: manifest_at_cong)
  have at: "snapshot_intact d c s (sn_manifest (fst p)) (snd p)" if "p \<in> set ms" for p
  proof -
    have "fst p \<in> set xs" using fst that by auto
    then obtain m where "snapshot_intact d c s (sn_manifest (fst p)) m" using live by blast
    then show ?thesis using at1 same1 that by (auto simp: snapshot_intact_def manifest_named_def)
  qed
  then have named: "manifest_named c (sv_man s) (sn_manifest (fst p)) (snd p)"
    and held: "\<forall>r \<in> set (manifest_chunk_refs (snd p)). ref_held d (sv_files s) r" if "p \<in> set ms" for p
    using that by (auto simp: snapshot_intact_def)
  have g3: "grown s2 s3" using rotate_grown [of s2 MtRepo ev] written(3) by simp
  have g4: "grown s3 s4" using rewrite_refs_grown [of s3 ev d ?refs 0 0 "[]"] written(4) by simp
  have g: "grown s s3" "grown s s4" using grown_trans [OF steady_grown [OF st2] g3] grown_trans [OF _ g4] by blast+
  have inv3: "repo_inv d (sv_repo s3)"
  proof -
    obtain r where "rotate_for_maintenance ev (sv_repo s2) = (Inr u, r)" "s3 = s2\<lparr>sv_repo := r\<rparr>"
      using written(3) by (auto simp: on_repo_Inr)
    then show ?thesis using rotate_repo_inv [of ev "sv_repo s2" u r d] steady_repo_inv [OF st2] inv by simp
  qed
  have refs3: "\<forall>p \<in> set ?refs. cr_hash (snd p) = fst p \<and> ref_held d (sv_files s3) (snd p)"
    using refs_by_hash_mem held ref_held_extends g(1) unfolding grown_def set_sort by blast
  have repo4: "sv_repo t = sv_repo s4" using write_back_repo [of ev c new ms s4] written(5) by simp
  from rewrite_refs_ok [OF ok fit [unfolded repo4] written(4) inv3 refs3, of "index_view (rd_index d) (rp_db (sv_repo s3))"]
  have inv4: "repo_inv d (sv_repo s4)" and new: "\<forall>p \<in> set new. new_ok d (sv_files s4) p"
    and dom: "fst ` set new = fst ` set (refs_by_hash ms)"
    and view: "index_view (rd_index d) (rp_db (sv_repo s4)) = index_view (rd_index d) (rp_db (sv_repo s3)) ++ map_of new"
    by simp_all
  have mid: "sm_id (snd p) = sn_manifest (fst p)" if "p \<in> set ms" for p using named [OF that] by (simp add: manifest_named_def)
  have lo: "loaded_ok new ms"
    unfolding loaded_ok_def
  proof (intro conjI ballI impI)
    fix p assume p: "p \<in> set ms"
    show "sm_id (snd p) \<noteq> []" "sm_created (snd p) \<noteq> zero_time"
      using named [OF p] by (auto simp: manifest_named_def validate_manifest_id_def rguard_def split: if_splits)
    show "manifest_json_ok (move_manifest new (snd p))"
      using move_manifest_named [OF new] named [OF p] by (simp add: manifest_named_def)
    fix q assume q: "q \<in> set ms" "sm_id (snd p) = sm_id (snd q)"
    have "sn_manifest (fst p) = sn_manifest (fst q)" using mid [OF p] mid [OF q(1)] q(2) by simp
    then show "snd p = snd q" using named [OF p] named [OF q(1)] by (simp add: manifest_named_def)
  qed
  have at4: "manifest_at c (sv_man s4) = manifest_at c (sv_man s)"
    using g(2) by (auto simp: grown_def intro: manifest_at_cong)
  have e4: "each_either c new ms s4"
    using named mid at4 by (simp add: each_either_def manifest_named_def)
  note wb = write_back_moves [OF codec lo written(5) subset_refl e4]
  have ext: "extends (sv_files s) (sv_files t)" using g(2) repo4 by (simp add: grown_def)
  have one: "compacted d c s t (sn_manifest (fst p)) (snd p)" if "p \<in> set ms" for p
  proof -
    have "\<forall>r \<in> set (manifest_chunk_refs (snd p)). ref_held d (sv_files t) r" using held [OF that] ref_held_extends [OF _ ext] by blast
    moreover have "manifest_at c (sv_man t) (sn_manifest (fst p)) \<in> {Some (snd p), Some (move_manifest new (snd p))}"
      using wb that mid [OF that] unfolding each_either_def by metis
    ultimately show ?thesis
      using move_intact [OF named [OF that]] new repo4 unfolding compacted_def by (metis (no_types, lifting))
  qed
  have "compacted d c s t (sn_manifest x) m" if x: "x \<in> set xs" and m: "snapshot_intact d c s (sn_manifest x) m" for x m
  proof -
    obtain p where p: "p \<in> set ms" "fst p = x" using x unfolding fst [symmetric] set_map by blast
    then have "m = snd p" using at [OF p(1)] m intact_manifest by metis
    then show ?thesis using one [OF p(1)] p(2) by simp
  qed
  moreover have "handed_over d c xs keep new' t" if r: "res = Inr (Some (rep, keep, new'))" for rep keep new'
  proof -
    have r5: "r5 = Inr ()" "keep = set (map fst (refs_by_hash ms))" "new' = new" using r written(6) by (auto split: sum.splits)
    have keep: "\<exists>p \<in> set new. index_view (rd_index d) (rp_db (sv_repo t)) h = Some (snd p)" if "h \<in> keep" for h
    proof -
      have "h \<in> fst ` set new" using that dom r5(2) by simp
      then obtain n where n: "map_of new h = Some n" by (metis map_of_eq_None_iff option.exhaust)
      then show ?thesis using view repo4 map_of_SomeD [OF n] by (auto intro!: bexI)
    qed
    have "placed new r" if x: "x \<in> set xs" "manifest_at c (sv_man t) (sn_manifest x) = Some k" "r \<in> set (manifest_chunk_refs k)" for x k r
    proof -
      obtain p where p: "p \<in> set ms" "fst p = x" using x(1) unfolding fst [symmetric] set_map by blast
      have "k = move_manifest new (snd p)" using wb r5(1) p mid [OF p(1)] x(2) by (auto simp: all_moved_def)
      then obtain q where q: "q \<in> set (manifest_chunk_refs (snd p))" "r = move_ref new q"
        using x(3) by (auto simp: move_manifest_map_refs manifest_chunk_refs_map)
      have "cr_hash q \<noteq> []" using ref_held_hash held [OF p(1)] q(1) ok(1) by (auto simp: deps_ok_def)
      then have "cr_hash q \<in> fst ` set new" using q(1) p(1) unfolding dom refs_by_hash_dom by blast
      then show ?thesis using moved_placed [OF new] q(2) by simp
    qed
    then show ?thesis using keep inv4 new repo4 r5(3) unfolding handed_over_def by auto
  qed
  ultimately show ?thesis using inv4 repo4 by auto
qed

lemma unreferenced_ok:
  assumes "delete_unreferenced_chunks ev d keep cutoff r = (res, r')" and "repo_inv d r" and "deps_ok d"
  shows "repo_inv d r' \<and> sg_files (rp_seg r') = sg_files (rp_seg r) \<and>
    (\<forall>h q. index_view (rd_index d) (rp_db r') h = Some q \<longrightarrow> index_view (rd_index d) (rp_db r) h = Some q) \<and>
    (\<forall>h. h \<in> keep \<longrightarrow> index_view (rd_index d) (rp_db r') h = index_view (rd_index d) (rp_db r) h) \<and>
    (\<forall>st. res = Inr st \<longrightarrow> (\<forall>h q. index_view (rd_index d) (rp_db r') h = Some q \<longrightarrow> \<not> expendable keep cutoff h q))"
proof -
  obtain x db where del: "delete_unreferenced (rd_index d) (rp_db r) (io_fault ev r) (io_fault ev (repo_tick r)) keep cutoff = (x, db)"
    by fastforce
  then have r': "rp_db r' = db" "rp_seg r' = tick (tick (rp_seg r))" "res = lift_index x"
    using assms(1) by (auto simp: delete_unreferenced_chunks_def)
  have laws: "index_laws (rd_index d)" and wf: "index_wf (rd_index d) (rp_db r)"
    using assms(2,3) by (auto simp: deps_ok_def repo_inv_def index_sound_def)
  have view: "index_wf (rd_index d) db \<and>
    (\<forall>h q. index_view (rd_index d) db h = Some q \<longrightarrow> index_view (rd_index d) (rp_db r) h = Some q) \<and>
    (\<forall>h. h \<in> keep \<longrightarrow> index_view (rd_index d) db h = index_view (rd_index d) (rp_db r) h) \<and>
    (\<forall>st. x = Inr st \<longrightarrow> (\<forall>h q. index_view (rd_index d) db h = Some q \<longrightarrow> \<not> expendable keep cutoff h q))"
  proof (cases x)
    case (Inl e)
    then have "db = rp_db r" using delete_unreferenced_Inl del by metis
    then show ?thesis using wf Inl by simp
  next
    case (Inr st)
    then show ?thesis using delete_unreferenced_view [OF laws wf, of "io_fault ev r" "io_fault ev (repo_tick r)" keep cutoff st db] del
      by (auto simp: expendable_def split: option.splits if_splits)
  qed
  then have "index_sound d r'"
    using assms(2) unfolding repo_inv_def index_sound_def r' tick_simps by metis
  then have "repo_inv d r'" using assms(2) by (simp add: repo_inv_def seg_inv_def r')
  moreover have "x = Inr st" if "res = Inr st" for st
    using that r'(3) by (auto simp: lift_index_def split: sum.splits)
  ultimately show ?thesis using view unfolding r'(1,2) tick_simps by blast
qed

lemma delete_segment_files_fields:
  "rp_db (snd (delete_segment_files ev keep ids n b s)) = rp_db s \<and>
   sg_id (rp_seg (snd (delete_segment_files ev keep ids n b s))) = sg_id (rp_seg s) \<and>
   sg_offset (rp_seg (snd (delete_segment_files ev keep ids n b s))) = sg_offset (rp_seg s)"
  by (induction ids arbitrary: n b s) (auto simp: Let_def tick_def split: option.splits)

lemma delete_segments_ok:
  assumes "delete_segments_except ev keep s = (res, t)"
  shows "rp_db t = rp_db s \<and> sg_id (rp_seg t) = sg_id (rp_seg s) \<and> sg_offset (rp_seg t) = sg_offset (rp_seg s) \<and>
    (\<forall>i. int64 i \<longrightarrow> i = sg_id (rp_seg s) \<or> i \<in> keep \<longrightarrow>
      map_of (sg_files (rp_seg t)) (segment_name i) = map_of (sg_files (rp_seg s)) (segment_name i))"
proof (cases "io_fault ev s")
  case True
  then show ?thesis using assms by (auto simp: delete_segments_except_def tick_def)
next
  case False
  let ?keep = "insert (sg_id (rp_seg s)) keep" and ?ids = "list_segment_ids (sg_files (rp_seg s))"
  have del: "delete_segment_files ev ?keep ?ids 0 0 (repo_tick s) = (res, t)"
    using False assms by (simp add: delete_segments_except_def)
  show ?thesis
    using delete_segment_files_fields [of ev ?keep ?ids 0 0 "repo_tick s"]
      delete_segment_files_keeps [of ?ids _ ?keep ev 0 0 "repo_tick s"] list_segment_ids_int64 del by auto
qed

lemma ref_held_cong:
  "map_of gs (segment_name (cr_segment r)) = map_of fs (segment_name (cr_segment r)) \<Longrightarrow> ref_held d fs r \<Longrightarrow> ref_held d gs r"
  unfolding ref_held_def ref_reads_def segment_read_def by simp

lemma remove_segments_ok:
  assumes "delete_segments_except ev (set (map (cr_segment \<circ> snd) new)) s = (res, t)"
    and inv: "repo_inv d s" and "\<forall>p \<in> set new. new_ok d (sg_files (rp_seg s)) p"
    and idx: "\<forall>h q. index_view (rd_index d) (rp_db s) h = Some q \<longrightarrow> q \<in> snd ` set new"
  shows "repo_inv d t \<and> (\<forall>r. placed new r \<longrightarrow> ref_held d (sg_files (rp_seg s)) r \<longrightarrow> ref_held d (sg_files (rp_seg t)) r)"
proof -
  note del = delete_segments_ok [OF assms(1)]
  have held: "ref_held d (sg_files (rp_seg t)) r" if "placed new r" "ref_held d (sg_files (rp_seg s)) r" for r
    using ref_held_cong [OF _ that(2)] del that(1) by (auto simp: placed_def)
  have "placed new q \<and> ref_held d (sg_files (rp_seg s)) q" if "q \<in> snd ` set new" for q
    using that assms(3) by (auto simp: placed_def new_ok_def ref_json_ok_def)
  then have "\<exists>data. ref_reads d (sg_files (rp_seg t)) q data" if "index_view (rd_index d) (rp_db t) h = Some q" for h q
    using that idx held del unfolding ref_held_def by metis
  then have "index_sound d t" using inv del unfolding repo_inv_def index_sound_def by simp
  moreover have "map_of (sg_files (rp_seg t)) (segment_name (sg_id (rp_seg s))) = map_of (sg_files (rp_seg s)) (segment_name (sg_id (rp_seg s)))"
    using inv del unfolding repo_inv_def by blast
  then have "seg_inv (rp_seg t) \<and> int64 (sg_id (rp_seg t))"
    using inv del by (simp add: repo_inv_def seg_inv_def read_file_def)
  ultimately show ?thesis using held by (simp add: repo_inv_def)
qed

lemma compact_remove_ok:
  assumes ho: "handed_over d c xs keep new s" and rm: "compact_remove ev d (rep, keep, new) s = (res, t)" and deps: "deps_ok d"
  shows "repo_inv d (sv_repo t) \<and>
    (\<forall>x \<in> set xs. \<forall>k. snapshot_intact d c s (sn_manifest x) k \<longrightarrow> snapshot_intact d c t (sn_manifest x) k)"
proof -
  have inv: "repo_inv d (sv_repo s)" using ho by (simp add: handed_over_def)
  obtain a s1 where a: "on_repo MtRepo (delete_unreferenced_chunks ev d keep zero_time) s = (a, s1)" by fastforce
  obtain a' r1 where a': "delete_unreferenced_chunks ev d keep zero_time (sv_repo s) = (a', r1)" by fastforce
  have s1: "s1 = s\<lparr>sv_repo := r1\<rparr>" "\<And>st. a = Inr st \<Longrightarrow> a' = Inr st"
    using a a' by (auto simp: on_repo_def split: sum.splits)
  note un = unreferenced_ok [OF a' inv deps]
  have stop: ?thesis if "sv_repo t = r1" "sv_man t = sv_man s"
    using that un by (auto simp: snapshot_intact_def)
  show ?thesis
  proof (cases a)
    case (Inl e)
    then have "t = s1" using rm a by (simp add: compact_remove_def)
    then show ?thesis using stop s1(1) by simp
  next
    case (Inr st)
    let ?bump = "if cs_hashes st \<noteq> [] then on_db (bump_chunk_generation ev (cs_hashes st) ''compact'' (now_of ev s1)) s1 else (Inr 0, s1)"
    obtain b s2 where b: "?bump = (b, s2)" by fastforce
    have "sv_repo s2 = sv_repo s1 \<and> sv_man s2 = sv_man s1"
    proof (cases "cs_hashes st = []")
      case True
      then show ?thesis using b by simp
    next
      case False
      then have "on_db (bump_chunk_generation ev (cs_hashes st) ''compact'' (now_of ev s1)) s1 = (b, s2)" using b by simp
      then show ?thesis by (rule on_db_state)
    qed
    then have s2: "sv_repo s2 = r1" "sv_man s2 = sv_man s" using s1(1) by simp_all
    show ?thesis
    proof (cases b)
      case (Inl e)
      then have "t = s2" using rm a Inr b by (simp add: compact_remove_def)
      then show ?thesis using stop s2 by simp
    next
      case (Inr g)
      let ?del = "\<lambda>r. counted (delete_segments_except ev (set (map (cr_segment \<circ> snd) new)) r)"
      have t: "t = snd (on_repo MtRepo ?del s2)"
        using rm a \<open>a = Inr st\<close> b Inr
        by (cases "on_repo MtRepo ?del s2"; cases "fst (on_repo MtRepo ?del s2)") (auto simp: compact_remove_def split: prod.splits)
      obtain x r2 where del: "delete_segments_except ev (set (map (cr_segment \<circ> snd) new)) r1 = (x, r2)" by fastforce
      have tr: "sv_repo t = r2" "sv_man t = sv_man s"
        unfolding t using del s2 by (auto simp: counted_def split: prod.splits option.splits)
      have idx: "q \<in> snd ` set new" if "index_view (rd_index d) (rp_db r1) h = Some q" for h q
      proof -
        have "h \<in> keep" using un s1(2) [OF \<open>a = Inr st\<close>] that by (auto simp: expendable_def)
        then show ?thesis using un ho that unfolding handed_over_def by (metis image_eqI option.inject)
      qed
      have f1: "sg_files (rp_seg r1) = sv_files s" using un by blast
      have new1: "\<forall>p \<in> set new. new_ok d (sg_files (rp_seg r1)) p" using ho f1 by (simp add: handed_over_def)
      have end2: "repo_inv d r2 \<and> (\<forall>r. placed new r \<longrightarrow> ref_held d (sg_files (rp_seg r1)) r \<longrightarrow> ref_held d (sg_files (rp_seg r2)) r)"
        by (rule remove_segments_ok [OF del un [THEN conjunct1] new1]) (use idx in blast)
      have "snapshot_intact d c t (sn_manifest x) k" if x: "x \<in> set xs" and k: "snapshot_intact d c s (sn_manifest x) k" for x k
      proof -
        have at: "manifest_at c (sv_man s) (sn_manifest x) = Some k" using k by (simp add: snapshot_intact_def manifest_named_def)
        have "placed new r \<and> ref_held d (sg_files (rp_seg r1)) r" if r: "r \<in> set (manifest_chunk_refs k)" for r
          using ho x at r k f1 unfolding handed_over_def snapshot_intact_def by metis
        then show ?thesis using end2 k tr unfolding snapshot_intact_def by metis
      qed
      then show ?thesis using end2 tr by blast
    qed
  qed
qed

text \<open>Both phases together.\<close>

lemma compaction_ok:
  assumes "repo_inv d (sv_repo s)" "deps_ok d" "good_rand ev" "good_clock ev" "man_codec_laws c"
    and rp: "compact_repository ev d c xs s = (res, t)"
    and fit: "files_fit (sv_files (snd (compact_rewrite ev d c xs s)))"
    and live: "\<And>x. x \<in> set xs \<Longrightarrow> \<exists>m. snapshot_intact d c s (sn_manifest x) m"
  shows "(\<forall>x \<in> set xs. \<forall>m. snapshot_intact d c s (sn_manifest x) m \<longrightarrow> compacted d c s t (sn_manifest x) m) \<and>
    (\<forall>rep. res = Inr rep \<longrightarrow> repo_inv d (sv_repo t))"
proof -
  obtain r1 s1 where rw: "compact_rewrite ev d c xs s = (r1, s1)" by fastforce
  note ph = compact_rewrite_ok [OF assms(1-5) rw _ live]
  have fit1: "files_fit (sv_files s1)" using fit rw by simp
  note p1 = ph [OF fit1]
  consider (stop) "t = s1" "\<And>q. r1 \<noteq> Inr (Some q)" "\<And>rep. res = Inr rep \<Longrightarrow> r1 = Inr None"
    | (go) rep keep new where "r1 = Inr (Some (rep, keep, new))" "compact_remove ev d (rep, keep, new) s1 = (res, t)"
  proof (cases r1)
    case (Inl e)
    then have "t = s1" "res = Inl e" using rp rw by (auto simp: compact_repository_def)
    then show ?thesis using that(1) Inl by simp
  next
    case (Inr o1)
    then show ?thesis
      using that rp rw by (cases o1) (auto simp: compact_repository_def)
  qed
  then show ?thesis
  proof cases
    case stop
    then show ?thesis using p1 by auto
  next
    case go
    have "handed_over d c xs keep new s1" using p1 go(1) by blast
    from compact_remove_ok [OF this go(2) assms(2)] show ?thesis
      using p1 unfolding compacted_def by blast
  qed
qed

subsection \<open>Active snapshots in the database\<close>

text \<open>Maintenance adds no active snapshot: each one after it was there before, with its manifest.\<close>

definition no_new_active :: "db \<Rightarrow> db \<Rightarrow> bool" where
  "no_new_active s t \<longleftrightarrow> (\<forall>x \<in> set (db_snapshots t). sn_deleted x = None \<longrightarrow>
     (\<exists>y \<in> set (db_snapshots s). sn_deleted y = None \<and> sn_manifest y = sn_manifest x))"

interpretation active_rows: db_relation no_new_active
proof unfold_locales
  show "no_new_active s (s\<lparr>db_step := n\<rparr>)" for s n by (auto simp: no_new_active_def)
  show "no_new_active s t \<Longrightarrow> no_new_active t u \<Longrightarrow> no_new_active s u" for s t u
    unfolding no_new_active_def by metis
qed

lemma no_new_same: "db_snapshots t = db_snapshots s \<Longrightarrow> no_new_active s t"
  by (auto simp: no_new_active_def)

lemma no_new_updated: "snapshot_update p f \<Longrightarrow> no_new_active s (s\<lparr>db_snapshots := update_where p f (db_snapshots s)\<rparr>)"
  unfolding no_new_active_def snapshot_update_def update_where_def by (force split: if_splits)

lemma no_new_ops:
  "no_new_active s (snd (mark_stale_runs_failed ev cutoff started now s))" "no_new_active s (snd (list_active_snapshots ev s))"
  "no_new_active s (snd (list_deleted_snapshots ev s))" "no_new_active s (snd (count_active_runs ev s))"
  "no_new_active s (snd (count_snapshots ev s))" "no_new_active s (snd (expire_snapshots ev ids now s))"
  "no_new_active s (snd (update_snapshot_health ev sid h msg v s))"
  unfolding mark_stale_runs_failed_def list_active_snapshots_def list_deleted_snapshots_def count_active_runs_def count_snapshots_def
proof -
  show "no_new_active s (snd (sql ev (\<lambda>s. (count_where (run_stale cutoff started s) (db_runs s), s\<lparr>db_runs := update_where (run_stale cutoff started s)
      (\<lambda>r. r\<lparr>rn_status := RunFailed, rn_finished := Some now, rn_error := Some ''stale run expired by maintenance''\<rparr>) (db_runs s)\<rparr>)) s))"
    by (rule active_rows.sql) (simp add: no_new_same)
  have loop: "no_new_active s (snd (expire_loop ev now ids n s))" for n s
  proof (induction ids arbitrary: n s)
    case Nil
    then show ?case by (simp add: no_new_same)
  next
    case (Cons i ids)
    show ?case unfolding expire_loop.simps
      by (intro active_rows.sbind active_rows.sql Cons.IH)
        (simp add: no_new_updated snapshot_update_def mark_deleted_def expirable_def)
  qed
  show "no_new_active s (snd (expire_snapshots ev ids now s))"
    unfolding expire_snapshots_def by (auto simp: no_new_same intro!: active_rows.in_tx loop)
  show "no_new_active s (snd (update_snapshot_health ev sid h msg v s))"
    unfolding update_snapshot_health_def Let_def
    by (intro active_rows.if_state active_rows.sbind active_rows.sql)
      (auto simp: no_new_same snapshot_update_def intro!: no_new_updated)
qed (auto intro!: active_rows.steps)

lemma no_new_journal:
  "no_new_active s (snd (bump_chunk_generation ev hashes reason now s))" "no_new_active s (snd (prune_chunk_invalidations ev cutoff s))"
proof -
  have loop: "no_new_active s (snd (journal_loop ev g reason now hs s))" for g reason hs s
    by (induction hs arbitrary: s) (auto simp: no_new_same intro!: active_rows.sbind active_rows.sql)
  show "no_new_active s (snd (bump_chunk_generation ev hashes reason now s))"
    unfolding bump_chunk_generation_def Let_def
    by (intro active_rows.in_tx active_rows.sbind active_rows.sql active_rows.query loop) (auto simp: no_new_same)
  show "no_new_active s (snd (prune_chunk_invalidations ev cutoff s))"
    unfolding prune_chunk_invalidations_def
    by (auto split: option.splits simp: no_new_same intro!: active_rows.sbind active_rows.sql active_rows.query)
qed

lemma active_snapshots_set: "x \<in> set (active_snapshots s) \<longleftrightarrow> x \<in> set (db_snapshots s) \<and> sn_deleted x = None"
  by (simp add: active_snapshots_def desc_by_def)

lemma listed_active: "on_db (list_active_snapshots ev) s = (Inr xs, t) \<Longrightarrow> xs = active_snapshots (sv_db s)"
  by (auto simp: on_db_Inr list_active_snapshots_def query_def sql_def split: if_splits)

subsection \<open>Cleanup\<close>

lemma live_loop_steady: "steady s (snd (live_loop ev c xs lv s))"
proof (induction xs arbitrary: lv s)
  case Nil
  then show ?case by simp
next
  case (Cons x xs)
  obtain r t where r: "read_manifest ev c (sn_manifest x) (sv_man s) = (r, t)" by fastforce
  have "steady s (s\<lparr>sv_man := t\<rparr>)" using read_manifest_lookup [of ev c "sn_manifest x" "sv_man s"] r by (simp add: steady_def)
  then have "steady s (snd (live_loop ev c xs lv1 (s\<lparr>sv_man := t\<rparr>)))" for lv1 by (rule steady_trans [OF _ Cons.IH])
  then show ?case using r by (cases r) auto
qed

lemma live_loop_done:
  "live_loop ev c xs lv s = (lv', t) \<Longrightarrow> lv_errors lv' = [] \<Longrightarrow>
   lv_errors lv = [] \<and> set (lv_manifests lv') = set (lv_manifests lv) \<union> sn_manifest ` set xs \<and>
   fst ` set (lv_refs lv) \<subseteq> fst ` set (lv_refs lv') \<and>
   (\<forall>x \<in> set xs. \<forall>m. manifest_at c (sv_man s) (sn_manifest x) = Some m \<longrightarrow>
      cr_hash ` set (manifest_chunk_refs m) - {[]} \<subseteq> fst ` set (lv_refs lv'))"
proof (induction xs arbitrary: lv s)
  case Nil
  then show ?case by simp
next
  case (Cons x xs)
  obtain r u where r: "read_manifest ev c (sn_manifest x) (sv_man s) = (r, u)" by fastforce
  have same: "manifest_at c u = manifest_at c (sv_man s)"
    using read_manifest_lookup [of ev c "sn_manifest x" "sv_man s"] r by (auto intro: manifest_at_cong)
  show ?case
  proof (cases r)
    case (Inl e)
    then show ?thesis using Cons.IH [of "lv\<lparr>lv_errors := lv_errors lv @ [e]\<rparr>" "s\<lparr>sv_man := u\<rparr>"] Cons.prems r by simp
  next
    case (Inr m)
    have at: "manifest_at c (sv_man s) (sn_manifest x) = Some m" using read_manifest_Inr r Inr by simp
    show ?thesis
      using Cons.IH [of "lv\<lparr>lv_manifests := sn_manifest x # lv_manifests lv, lv_refs := collect_refs (manifest_chunk_refs m) (lv_refs lv)\<rparr>"
          "s\<lparr>sv_man := u\<rparr>"] Cons.prems r Inr at same collect_refs_dom [of "manifest_chunk_refs m" "lv_refs lv"]
      by auto
  qed
qed

lemma kept_manifest_stays:
  assumes "delete_manifests_except ev keep cutoff s = (r, t)" and "i \<in> keep"
  shows "man_lookup t (manifest_name i) = man_lookup s (manifest_name i)"
proof (cases "man_fault ev s")
  case True
  then show ?thesis using assms(1) by (auto simp: delete_manifests_except_def)
next
  case False
  have k: "manifest_kept keep cutoff (manifest_name i) node" for node
    using assms(2) by (auto simp: manifest_kept_def trim_suffix_def manifest_name_def split: mnode.splits)
  have "delete_manifest_entries ev keep cutoff (sort_key (\<lambda>(n, x). bytes_of n) (dir_of s)) 0 0 (man_tick s) = (r, t)"
    using False assms(1) by (simp add: delete_manifests_except_def)
  from delete_manifest_entries_lookup [OF this, of "manifest_name i"] show ?thesis using k by auto
qed

text \<open>What a cleanup leaves alone, whatever its outcome.\<close>

definition spares :: "'k repo_deps \<Rightarrow> man_codec \<Rightarrow> snapshot_row list \<Rightarrow> 'k server \<Rightarrow> 'k server \<Rightarrow> bool" where
  "spares d c xs s t \<longleftrightarrow> sv_files t = sv_files s \<and> (repo_inv d (sv_repo s) \<longrightarrow> repo_inv d (sv_repo t)) \<and>
     no_new_active (sv_db s) (sv_db t) \<and>
     (\<forall>x \<in> set xs. manifest_at c (sv_man t) (sn_manifest x) = manifest_at c (sv_man s) (sn_manifest x)) \<and>
     (\<forall>x \<in> set xs. \<forall>m. manifest_at c (sv_man s) (sn_manifest x) = Some m \<longrightarrow> (\<forall>r \<in> set (manifest_chunk_refs m). cr_hash r \<noteq> [] \<longrightarrow>
        index_view (rd_index d) (rp_db (sv_repo t)) (cr_hash r) = index_view (rd_index d) (rp_db (sv_repo s)) (cr_hash r)))"

lemma spares_trans: "spares d c xs s t \<Longrightarrow> spares d c xs t u \<Longrightarrow> spares d c xs s u"
  unfolding spares_def
proof (elim conjE, intro conjI)
  assume "no_new_active (sv_db s) (sv_db t)" "no_new_active (sv_db t) (sv_db u)"
  then show "no_new_active (sv_db s) (sv_db u)" by (rule active_rows.trans)
qed simp_all

lemma spares_steady: "steady s t \<Longrightarrow> no_new_active (sv_db s) (sv_db t) \<Longrightarrow> spares d c xs s t"
  using steady_files [of s t] steady_repo_inv [of s t d]
  by (auto simp: spares_def steady_def same_store_fields manifest_at_cong [of "sv_man t" "sv_man s"])

lemma spares_db: "no_new_active (sv_db s) (snd (f (sv_db s))) \<Longrightarrow> spares d c xs s (snd (on_db f s))"
  by (rule spares_steady) simp_all

lemma spares_manifests:
  assumes "\<forall>x \<in> set xs. sn_manifest x \<in> keep"
  shows "spares d c xs s (snd (on_man w (\<lambda>m. counted (delete_manifests_except ev keep cutoff m)) s))"
proof -
  obtain r t where r: "delete_manifests_except ev keep cutoff (sv_man s) = (r, t)" by fastforce
  have "snd (counted (r, t)) = t" by (auto simp: counted_def split: prod.splits option.splits)
  then show ?thesis
    using kept_manifest_stays [OF r] assms r by (simp add: spares_def manifest_at_def no_new_same)
qed

lemma spares_chunks:
  assumes "repo_inv d (sv_repo s)" and "deps_ok d"
    and "\<forall>x \<in> set xs. \<forall>m. manifest_at c (sv_man s) (sn_manifest x) = Some m \<longrightarrow> cr_hash ` set (manifest_chunk_refs m) - {[]} \<subseteq> keep"
  shows "spares d c xs s (snd (on_repo w (delete_unreferenced_chunks ev d keep cutoff) s))"
proof -
  obtain r t where r: "delete_unreferenced_chunks ev d keep cutoff (sv_repo s) = (r, t)" by fastforce
  note un = unreferenced_ok [OF r assms(1,2)]
  have "index_view (rd_index d) (rp_db t) (cr_hash q) = index_view (rd_index d) (rp_db (sv_repo s)) (cr_hash q)"
    if "x \<in> set xs" "manifest_at c (sv_man s) (sn_manifest x) = Some m" "q \<in> set (manifest_chunk_refs m)" "cr_hash q \<noteq> []" for x m q
  proof -
    have "cr_hash q \<in> keep" using assms(3) that by blast
    then show ?thesis using un [THEN conjunct2, THEN conjunct2, THEN conjunct2, THEN conjunct1] by simp
  qed
  moreover have "repo_inv d t" "sg_files (rp_seg t) = sv_files s" using un [THEN conjunct1] un [THEN conjunct2, THEN conjunct1] by simp_all
  ultimately show ?thesis using r by (simp add: spares_def no_new_same)
qed

lemma spares_if: "(b \<Longrightarrow> spares d c xs s (snd x)) \<Longrightarrow> (\<not> b \<Longrightarrow> spares d c xs s (snd y)) \<Longrightarrow> spares d c xs s (snd (if b then x else y))"
  by simp

lemma spares_refl: "spares d c xs s s"
  by (rule spares_steady) (simp_all add: no_new_same)

lemma sweep_end:
  "spares d c active s (snd (sbind (if b then on_db (bump_chunk_generation ev hs why now) s else (Inr 0, s)) (\<lambda>g t.
     (Inr r, if p then snd (on_db (prune_chunk_invalidations ev limit) t) else t))))"
proof (rule chain [where R = "spares d c active"])
  show "spares d c active s (snd (if b then on_db (bump_chunk_generation ev hs why now) s else (Inr 0, s)))"
    by (simp add: spares_refl spares_db no_new_journal)
  show "spares d c active t (snd (Inr r, if p then snd (on_db (prune_chunk_invalidations ev limit) t) else t))" for t
    by (simp add: spares_refl spares_db no_new_journal)
qed (rule spares_trans)

lemma live_loop_db: "sv_db (snd (live_loop ev c xs lv s)) = sv_db s"
  by (induction xs arbitrary: lv s) (auto split: prod.splits sum.splits)

lemma sweep_spares:
  assumes inv: "repo_inv d (sv_repo s)" and deps: "deps_ok d" and ids: "set (lv_manifests lv) = sn_manifest ` set active"
    and hs: "\<forall>x \<in> set active. \<forall>m. manifest_at c (sv_man s) (sn_manifest x) = Some m \<longrightarrow>
      cr_hash ` set (manifest_chunk_refs m) - {[]} \<subseteq> fst ` set (lv_refs lv)"
  shows "spares d c active s (snd (sweep_unreferenced ev d cfg lv now rep s))"
  unfolding sweep_unreferenced_def Let_def
proof (rule chain [where R = "spares d c active"])
  let ?cutoff = "now - (case mg_error_grace cfg of None \<Rightarrow> hours 24 | Some g \<Rightarrow> g)"
  fix deleted s1
  assume s1: "on_db (list_deleted_snapshots ev) s = (Inr deleted, s1)"
  let ?keep = "set (lv_manifests lv) \<union> set (map sn_manifest (filter (keep_deleted cfg now) deleted))"
  let ?del = "\<lambda>m. counted (delete_manifests_except ev ?keep ?cutoff m)"
  have man: "spares d c active s1 (snd (on_man MtManifest ?del s1))" by (rule spares_manifests) (use ids in blast)
  have rest: "spares d c active s2 (snd (sbind (on_repo MtRepo (delete_unreferenced_chunks ev d (set (map fst (lv_refs lv))) ?cutoff) s2) (\<lambda>st s3.
      sbind (if cs_hashes st \<noteq> [] then on_db (bump_chunk_generation ev (cs_hashes st) ''cleanup-errors'' now) s3 else (Inr 0, s3)) (\<lambda>g s4.
        (Inr (rep\<lparr>cl_manifests := n, cl_manifest_bytes := b, cl_chunks := cs_count st, cl_logical := cs_logical st, cl_compressed := cs_compressed st\<rparr>),
         if 0 < mg_invalidation_days cfg then snd (on_db (prune_chunk_invalidations ev (Some (now - hours (24 * mg_invalidation_days cfg)))) s4) else s4)))))"
    if s2: "on_man MtManifest ?del s1 = (Inr p, s2)" for p s2 n b
  proof -
    have sp: "spares d c active s1 s2" using man s2 by simp
    have inv2: "repo_inv d (sv_repo s2)" using sp on_db_state [OF s1] inv by (simp add: spares_def)
    have at: "manifest_at c (sv_man s2) (sn_manifest x) = manifest_at c (sv_man s) (sn_manifest x)" if "x \<in> set active" for x
      using sp on_db_state [OF s1] that by (simp add: spares_def)
    show ?thesis
      by (rule chain [where R = "spares d c active", OF spares_chunks [OF inv2 deps] sweep_end])
        (use at hs in \<open>auto intro: spares_trans\<close>)
  qed
  show "spares d c active s1 (snd (sbind (on_man MtManifest ?del s1) (\<lambda>(n, b) s2.
      sbind (on_repo MtRepo (delete_unreferenced_chunks ev d (set (map fst (lv_refs lv))) ?cutoff) s2) (\<lambda>st s3.
      sbind (if cs_hashes st \<noteq> [] then on_db (bump_chunk_generation ev (cs_hashes st) ''cleanup-errors'' now) s3 else (Inr 0, s3)) (\<lambda>g s4.
        (Inr (rep\<lparr>cl_manifests := n, cl_manifest_bytes := b, cl_chunks := cs_count st, cl_logical := cs_logical st, cl_compressed := cs_compressed st\<rparr>),
         if 0 < mg_invalidation_days cfg then snd (on_db (prune_chunk_invalidations ev (Some (now - hours (24 * mg_invalidation_days cfg)))) s4) else s4))))))"
    by (rule chain [where R = "spares d c active", OF man]) (use rest in \<open>auto split: prod.splits intro: spares_trans\<close>)
qed (auto intro: spares_db no_new_ops spares_trans)

lemma cleanup_spares:
  assumes inv: "repo_inv d (sv_repo s)" and deps: "deps_ok d"
  shows "spares d c active s (snd (cleanup_error_backup_data ev d c cfg active now s))"
  unfolding cleanup_error_backup_data_def Let_def
proof (rule chain [where R = "spares d c active"])
  fix stale s1
  assume s1: "on_db (mark_stale_runs_failed ev (now - (case mg_stale_after cfg of None \<Rightarrow> hours 6 | Some g \<Rightarrow> g)) (mg_started cfg) now) s = (Inr stale, s1)"
  have inv1: "repo_inv d (sv_repo s1)" using on_db_state [OF s1] inv by simp
  obtain lv s2 where lv: "live_loop ev c active \<lparr>lv_manifests = [], lv_refs = [], lv_errors = []\<rparr> s1 = (lv, s2)" by fastforce
  have st: "steady s1 s2" and db2: "sv_db s2 = sv_db s1"
    using live_loop_steady [of s1 ev c active] live_loop_db [of ev c active _ s1] lv by (metis snd_conv)+
  have sp: "spares d c active s1 s2" using spares_steady [OF st] db2 by (simp add: no_new_same)
  have sweep: "spares d c active s2 (snd (sweep_unreferenced ev d cfg lv now rep s2))" if "lv_errors lv = []" for rep
  proof (rule sweep_spares [OF _ deps])
    show "repo_inv d (sv_repo s2)" using steady_repo_inv [OF st] inv1 by blast
    show "set (lv_manifests lv) = sn_manifest ` set active" using live_loop_done [OF lv that] by simp
    have "manifest_at c (sv_man s2) = manifest_at c (sv_man s1)" using st by (auto simp: steady_def intro: manifest_at_cong)
    then show "\<forall>x \<in> set active. \<forall>m. manifest_at c (sv_man s2) (sn_manifest x) = Some m \<longrightarrow>
        cr_hash ` set (manifest_chunk_refs m) - {[]} \<subseteq> fst ` set (lv_refs lv)"
      using live_loop_done [OF lv that] by simp
  qed
  show "spares d c active s1 (snd (case snapshot_live_sets ev c active s1 of (lv, s2) \<Rightarrow>
      if lv_errors lv \<noteq> []
      then (Inr (empty_cleanup_report\<lparr>cl_stale := stale, cl_errors := lv_errors lv, cl_skipped := ''active manifest errors exist''\<rparr>), s2)
      else sweep_unreferenced ev d cfg lv now (empty_cleanup_report\<lparr>cl_stale := stale\<rparr>) s2))"
    using sp sweep spares_trans [OF sp] lv by (simp add: snapshot_live_sets_def)
qed (auto intro: spares_db no_new_ops spares_trans)

end
