(* ===== verification/MaintenanceRun.thy ===== *)
theory MaintenanceRun
  imports MaintenanceLaws
begin

text \<open>
  Whole maintenance runs, composed of retention, cleanup, compaction, statistics and verification,
  and what a verification without errors means.
\<close>

subsection \<open>Verification only reads\<close>

lemma verify_ref_same: "same_store s (snd (verify_ref ev d sid label r v s))"
proof -
  obtain q t where q: "get_chunk_ref ev d (cr_hash r) s = (q, t)" by fastforce
  have t: "same_store s t" using lookup_ref_same [of s ev d "cr_hash r"] q by (simp add: get_chunk_ref_def)
  have u: "same_store s (snd (read_chunk_ref ev d ix t))" for ix by (rule same_store_trans [OF t read_chunk_ref_same])
  have "same_store s u" if "read_chunk_ref ev d ix t = (res, u)" for ix res u using u [of ix] that by simp
  then show ?thesis using q t by (auto simp: verify_ref_def Let_def split: sum.splits option.splits prod.splits)
qed

lemma fold_verify_same:
  assumes "\<And>x v s. same_store s (snd (f x v s))"
  shows "same_store s (snd (fold_verify f xs v s))"
proof (induction xs arbitrary: v s)
  case Nil
  then show ?case by simp
next
  case (Cons x xs)
  obtain v1 s1 where x: "f x v s = (v1, s1)" by fastforce
  then have "same_store s s1" using assms [of s x v] by simp
  then show ?case using Cons.IH [of s1 v1] x same_store_trans by auto
qed

lemma verify_refs_fold: "verify_refs ev d sid label rs v s = fold_verify (verify_ref ev d sid label) rs v s"
  by (induction rs arbitrary: v s) (simp_all split: prod.splits)

lemma verify_refs_same: "same_store s (snd (verify_refs ev d sid label rs v s))"
  unfolding verify_refs_fold by (rule fold_verify_same [OF verify_ref_same])

lemma verify_pack_same: "same_store s (snd (verify_pack ev d sid p v s))"
proof -
  obtain v1 s1 where r: "verify_refs ev d sid (PackLabel (pm_id p)) (pm_chunks p) v s = (v1, s1)" by fastforce
  obtain q s2 where q: "read_pack_data ev d p s1 = (q, s2)" by fastforce
  have "same_store s s2"
    using verify_refs_same [of s ev d sid "PackLabel (pm_id p)" "pm_chunks p" v] read_pack_data_same [of s1 ev d p] r q same_store_trans by auto
  then show ?thesis using r q by (auto simp: verify_pack_def split: sum.splits)
qed

lemma verify_entry_same: "same_store s (snd (verify_entry ev d sid m e v s))"
proof -
  obtain q s1 where q: "read_packed_file ev d (Some m) e s = (q, s1)" by fastforce
  obtain v2 s2 where r: "verify_refs ev d sid (FileLabel (fe_path e)) (fe_chunks e) v s = (v2, s2)" by fastforce
  have "same_store s s1" "same_store s s2"
    using read_packed_file_same [of s ev d "Some m" e] verify_refs_same [of s ev d sid "FileLabel (fe_path e)" "fe_chunks e" v] q r by auto
  then show ?thesis using r q by (auto simp: verify_entry_def split: sum.splits entry_type.splits)
qed

lemma verify_manifest_same: "same_store s (snd (verify_manifest ev d sid m v s))"
proof -
  obtain v1 s1 where a: "fold_verify (verify_pack ev d sid) (sm_packs m) v s = (v1, s1)" by fastforce
  have "same_store s s1" using fold_verify_same [of "verify_pack ev d sid" s "sm_packs m" v, OF verify_pack_same] a by simp
  then show ?thesis
    using a same_store_trans fold_verify_same [of "verify_entry ev d sid m" s1 "sm_entries m" v1, OF verify_entry_same] by (simp add: verify_manifest_def)
qed

text \<open>What reading alone does to the server: nothing but health columns and step counters.\<close>

definition looks :: "'k server \<Rightarrow> 'k server \<Rightarrow> bool" where
  "looks s t \<longleftrightarrow> steady s t \<and> no_new_active (sv_db s) (sv_db t)"

lemma looks_trans: "looks s t \<Longrightarrow> looks t u \<Longrightarrow> looks s u"
  unfolding looks_def using steady_trans active_rows.trans by blast

lemma looks_refl: "looks s s"
  by (simp add: looks_def no_new_same)

lemma looks_db: "no_new_active (sv_db s) (snd (f (sv_db s))) \<Longrightarrow> looks s (snd (on_db f s))"
  by (simp add: looks_def)

lemma looks_record_health: "looks s (record_health ev sid h msg s)"
  unfolding record_health_def by (intro looks_db no_new_ops)

lemma verify_snapshot_looks: "looks s (snd (verify_snapshot ev d c say x v s))"
proof -
  obtain r t where r: "read_manifest ev c (sn_manifest x) (sv_man s) = (r, t)" by fastforce
  have l: "man_lookup t = man_lookup (sv_man s)" using read_manifest_lookup [of ev c "sn_manifest x" "sv_man s"] r by simp
  have after: "looks s (record_health ev sid h msg u)"
    if "man_lookup (sv_man u) = man_lookup (sv_man s)" "same_store (sv_repo s) (sv_repo u)" "sv_db u = sv_db s" for u sid h msg
    by (rule looks_trans [OF _ looks_record_health]) (use that in \<open>simp add: looks_def steady_def no_new_same\<close>)
  show ?thesis
  proof (cases r)
    case (Inl e)
    then show ?thesis using r l by (auto simp: verify_snapshot_def Let_def intro!: after)
  next
    case (Inr m)
    obtain v1 q where q: "verify_manifest ev d (sn_id x) m (v\<lparr>vs_errors := []\<rparr>) (sv_repo s) = (v1, q)" by fastforce
    have "same_store (sv_repo s) q" using verify_manifest_same [of "sv_repo s" ev d "sn_id x" m "v\<lparr>vs_errors := []\<rparr>"] q by simp
    then show ?thesis using r l Inr q by (auto simp: verify_snapshot_def Let_def intro!: after)
  qed
qed

lemma verify_loop_looks: "looks s (snd (verify_loop ev d c say xs v s))"
proof (induction xs arbitrary: v s)
  case Nil
  then show ?case by (simp add: looks_refl)
next
  case (Cons x xs)
  obtain r q where r: "check_ctx ev (sv_repo s) = (r, q)" by fastforce
  have 1: "looks s (s\<lparr>sv_repo := q\<rparr>)"
    using check_ctx_same [of "sv_repo s" ev] r by (simp add: looks_def steady_def no_new_same)
  obtain v1 s1 where v: "verify_snapshot ev d c say x v (s\<lparr>sv_repo := q\<rparr>) = (v1, s1)" by fastforce
  have 2: "looks s s1" using verify_snapshot_looks [of "s\<lparr>sv_repo := q\<rparr>" ev d c say x v] v looks_trans [OF 1] by simp
  show ?case using r v 1 looks_trans [OF 2 Cons.IH] by (cases r) auto
qed

subsection \<open>The steps of a run\<close>

definition active_ids :: "'k server \<Rightarrow> string set" where
  "active_ids s = sn_manifest ` set (active_snapshots (sv_db s))"

definition all_live :: "'k repo_deps \<Rightarrow> man_codec \<Rightarrow> string set \<Rightarrow> 'k server \<Rightarrow> bool" where
  "all_live d c ids s \<longleftrightarrow> (\<forall>i \<in> ids. \<exists>m. snapshot_intact d c s i m)"

definition run_keeps :: "'k repo_deps \<Rightarrow> man_codec \<Rightarrow> 'k server \<Rightarrow> 'k server \<Rightarrow> bool" where
  "run_keeps d c s t \<longleftrightarrow> active_ids t \<subseteq> active_ids s \<and>
     (\<forall>i \<in> active_ids t. \<forall>m. snapshot_intact d c s i m \<longrightarrow> compacted d c s t i m)"

lemma no_new_active_ids: "no_new_active (sv_db s) (sv_db t) \<Longrightarrow> active_ids t \<subseteq> active_ids s"
proof
  fix i assume n: "no_new_active (sv_db s) (sv_db t)" and "i \<in> active_ids t"
  then obtain x where x: "x \<in> set (db_snapshots (sv_db t))" "sn_deleted x = None" "i = sn_manifest x"
    by (auto simp: active_ids_def active_snapshots_set)
  obtain y where y: "y \<in> set (db_snapshots (sv_db s))" "sn_deleted y = None" "sn_manifest y = i"
    using n x unfolding no_new_active_def by metis
  then have "y \<in> set (active_snapshots (sv_db s))" by (simp add: active_snapshots_set)
  then show "i \<in> active_ids s" unfolding active_ids_def using y(3) by blast
qed

lemma compacted_same: "compacted d c s t i m \<longleftrightarrow> compacted d c s' t i m"
  by (simp add: compacted_def)

lemma run_keeps_trans: "run_keeps d c s t \<Longrightarrow> run_keeps d c t u \<Longrightarrow> run_keeps d c s u"
proof -
  assume a: "run_keeps d c s t" "run_keeps d c t u"
  have "compacted d c s u i m" if i: "i \<in> active_ids u" and m: "snapshot_intact d c s i m" for i m
  proof -
    obtain k where k: "snapshot_intact d c t i k" "same_content m k"
      using a i m unfolding run_keeps_def compacted_def by blast
    then obtain k' where "snapshot_intact d c u i k'" "same_content k k'"
      using a(2) i unfolding run_keeps_def compacted_def by blast
    then show ?thesis using k(2) by (auto simp: compacted_def same_content_def)
  qed
  then show ?thesis using a unfolding run_keeps_def by blast
qed

lemma looks_run_keeps: "looks s t \<Longrightarrow> run_keeps d c s t"
  using no_new_active_ids steady_intact [of s t d c] same_content_refl unfolding run_keeps_def compacted_def looks_def by blast

lemma run_keeps_live: "run_keeps d c s t \<Longrightarrow> all_live d c (active_ids s) s \<Longrightarrow> all_live d c (active_ids t) t"
  unfolding run_keeps_def all_live_def compacted_def by blast

text \<open>
  What holds between the steps: the snapshots a step hands on are intact and cover the active ones.
\<close>

definition step_ok ::
    "'k repo_deps \<Rightarrow> man_codec \<Rightarrow> maint_error + maint_report \<times> snapshot_row list \<Rightarrow> 'k server \<Rightarrow> bool" where
  "step_ok d c r t \<longleftrightarrow> (\<forall>rep xs. r = Inr (rep, xs) \<longrightarrow> repo_inv d (sv_repo t) \<and>
     active_ids t \<subseteq> sn_manifest ` set xs \<and> all_live d c (sn_manifest ` set xs) t)"

lemma list_active_looks: "looks s (snd (on_db (list_active_snapshots ev) s))"
  by (intro looks_db no_new_ops)

lemma looks_ids: "looks s t \<Longrightarrow> active_ids t \<subseteq> active_ids s"
  using no_new_active_ids by (auto simp: looks_def)

lemma listed_ids: "on_db (list_active_snapshots ev) s = (Inr xs, t) \<Longrightarrow> sn_manifest ` set xs = active_ids s"
  using listed_active [of ev s xs t] by (simp add: active_ids_def)

lemma looks_step_ok:
  assumes t: "looks s t" and inv: "repo_inv d (sv_repo s)" and live: "all_live d c ids s"
    and r: "\<And>rep xs. r = Inr (rep, xs) \<Longrightarrow> active_ids t \<subseteq> sn_manifest ` set xs \<and> sn_manifest ` set xs \<subseteq> ids"
  shows "step_ok d c r t"
proof -
  have st: "steady s t" using t by (simp add: looks_def)
  have "all_live d c ids t" using live steady_intact [OF st] by (simp add: all_live_def)
  then show ?thesis using r steady_repo_inv [OF st] inv unfolding step_ok_def all_live_def by blast
qed

lemma retention_step_ok:
  assumes inv: "repo_inv d (sv_repo s)" and live: "all_live d c (active_ids s) s" and st: "retention_step ev mode cfg rep s = (r, t)"
  shows "run_keeps d c s t \<and> step_ok d c r t"
proof -
  have close: "run_keeps d c s t \<and> step_ok d c r t"
    if "looks s t" "\<And>rep xs. r = Inr (rep, xs) \<Longrightarrow> active_ids t \<subseteq> sn_manifest ` set xs \<and> sn_manifest ` set xs \<subseteq> active_ids s"
    by (rule conjI [OF looks_run_keeps [OF that(1)] looks_step_ok [OF that(1) inv live that(2)]])
  obtain a s1 where a: "on_db (list_active_snapshots ev) s = (a, s1)" by fastforce
  have 1: "looks s s1" using list_active_looks [of s ev] a by simp
  show ?thesis
  proof (cases a)
    case (Inl e)
    then show ?thesis using st a 1 by (intro close) (auto simp: retention_step_def)
  next
    case (Inr xs)
    have xs: "sn_manifest ` set xs = active_ids s" using listed_ids a Inr by blast
    show ?thesis
    proof (cases "expires mode")
      case False
      then show ?thesis using st a Inr 1 xs looks_ids [OF 1] by (intro close) (auto simp: retention_step_def)
    next
      case True
      obtain b s2 where b: "on_db (expire_snapshots ev (expired_snapshot_ids xs (mg_policy cfg)) (now_of ev s1)) s1 = (b, s2)" by fastforce
      have 2: "looks s s2"
        using looks_db [of s1 "expire_snapshots ev (expired_snapshot_ids xs (mg_policy cfg)) (now_of ev s1)", OF no_new_ops(6)]
          b looks_trans [OF 1] by simp
      obtain q s3 where q: "on_db (list_active_snapshots ev) s2 = (q, s3)" by fastforce
      have 3: "looks s2 s3" using list_active_looks [of s2 ev] q by simp
      consider (failed) e where "b = Inl e" | (none) n where "b = Inr n" "n \<le> 0" | (some) n where "b = Inr n" "0 < n"
        by (cases b) (auto, fastforce)
      then show ?thesis
      proof cases
        case failed
        then show ?thesis using st a Inr b True 2 by (intro close) (auto simp: retention_step_def)
      next
        case none
        then show ?thesis using st a Inr b True 2 xs looks_ids [OF 2] by (intro close) (auto simp: retention_step_def Let_def)
      next
        case some
        then have run: "sbind (q, s3) (\<lambda>active s3. (Inr (rep\<lparr>mr_expired := n, mr_manifests := int (length active)\<rparr>, active), s3)) = (r, t)"
          using st a Inr b True q by (simp add: retention_step_def Let_def)
        have "t = s3" using run by (cases q) auto
        moreover have "active_ids s3 \<subseteq> sn_manifest ` set ys \<and> sn_manifest ` set ys \<subseteq> active_ids s" if "q = Inr ys" for ys
          using listed_ids q that looks_ids [OF 2] looks_ids [OF 3] by blast
        ultimately show ?thesis using run looks_trans [OF 2 3] by (intro close) (cases q; auto)+
      qed
    qed
  qed
qed

text \<open>A step that lists the active snapshots at its end.\<close>

lemma relisted:
  assumes keeps: "run_keeps d c s u" and inv: "\<And>x. q = Inr x \<Longrightarrow> repo_inv d (sv_repo u)" and live: "all_live d c (active_ids s) s"
    and run: "sbind (q, u) (\<lambda>x u. sbind (on_db (list_active_snapshots ev) u) (\<lambda>xs t. (Inr (f x xs, xs), t))) = (r, t)"
  shows "run_keeps d c s t \<and> step_ok d c r t"
proof (cases q)
  case (Inl e)
  then have "t = u" "r = Inl e" using run by auto
  then show ?thesis using keeps by (simp add: step_ok_def)
next
  case (Inr x)
  obtain b t1 where b: "on_db (list_active_snapshots ev) u = (b, t1)" by fastforce
  have l: "looks u t1" using list_active_looks [of u ev] b by simp
  have t: "t = t1" using run Inr b by (cases b) auto
  have "all_live d c (active_ids u) u" by (rule run_keeps_live [OF keeps live])
  moreover have "active_ids t1 \<subseteq> sn_manifest ` set ys \<and> sn_manifest ` set ys \<subseteq> active_ids u" if "r = Inr (rep, ys)" for rep ys
  proof -
    have "b = Inr ys" using that run Inr b by (cases b) auto
    then have "sn_manifest ` set ys = active_ids u" using listed_ids [of ev u ys t1] b by simp
    then show ?thesis using looks_ids [OF l] by simp
  qed
  ultimately have "step_ok d c r t1" using looks_step_ok [OF l inv [OF Inr]] by blast
  then show ?thesis using run_keeps_trans [OF keeps looks_run_keeps [OF l]] t by simp
qed

lemma cleanup_step_ok:
  assumes inv: "repo_inv d (sv_repo s)" and deps: "deps_ok d" and cover: "active_ids s \<subseteq> sn_manifest ` set xs"
    and live: "all_live d c (sn_manifest ` set xs) s" and st: "cleanup_step ev d c mode cfg (rep, xs) s = (r, t)"
  shows "run_keeps d c s t \<and> step_ok d c r t"
proof (cases "cleans mode")
  case False
  then show ?thesis using st looks_run_keeps [OF looks_refl, of d c s] looks_step_ok [OF looks_refl inv live, of r] cover
    by (auto simp: cleanup_step_def)
next
  case True
  obtain q u where q: "cleanup_error_backup_data ev d c cfg xs (now_of ev s) s = (q, u)" by fastforce
  have sp: "spares d c xs s u" using cleanup_spares [OF inv deps, of c xs ev cfg "now_of ev s"] q by simp
  have ids: "active_ids u \<subseteq> active_ids s" using sp no_new_active_ids by (auto simp: spares_def)
  have "compacted d c s u i m" if "i \<in> active_ids u" "snapshot_intact d c s i m" for i m
  proof -
    have "i \<in> sn_manifest ` set xs" using that(1) ids cover by blast
    then have "snapshot_intact d c u i m"
      using that(2) sp by (auto simp: spares_def snapshot_intact_def manifest_named_def)
    then show ?thesis unfolding compacted_def using same_content_refl by blast
  qed
  then have keeps: "run_keeps d c s u" using ids by (simp add: run_keeps_def)
  have inv_u: "repo_inv d (sv_repo u)" using sp inv by (simp add: spares_def)
  have all: "all_live d c (active_ids s) s" using live cover unfolding all_live_def by blast
  have "sbind (q, u) (\<lambda>cl u. sbind (on_db (list_active_snapshots ev) u) (\<lambda>xs t.
      (Inr (rep\<lparr>mr_cleanup := cl, mr_manifests := int (length xs)\<rparr>, xs), t))) = (r, t)"
    using st True q by (simp add: cleanup_step_def)
  then show ?thesis by (rule relisted [OF keeps inv_u all, rotated])
qed

lemma load_manifests_db: "sv_db (snd (load_manifests ev c xs s)) = sv_db s"
  by (induction xs arbitrary: s) (auto simp: snd_sbind split: sum.splits)

lemma rewrite_refs_db: "sv_db (snd (rewrite_refs ev d refs n b acc s)) = sv_db s"
  by (induction refs arbitrary: n b acc s) (auto simp: snd_sbind split: sum.splits)

lemma write_back_db: "sv_db (snd (write_back ev c new ms s)) = sv_db s"
  by (induction ms arbitrary: s) (auto simp: snd_sbind split: sum.splits)

lemma compact_no_new: "no_new_active (sv_db s) (sv_db (snd (compact_repository ev d c xs s)))"
  unfolding compact_repository_def
proof (rule chain [where R = "\<lambda>s t. no_new_active (sv_db s) (sv_db t)"])
  show "no_new_active (sv_db s) (sv_db (snd (compact_rewrite ev d c xs s)))"
    unfolding compact_rewrite_def Let_def
  proof (rule chain [where R = "\<lambda>s t. no_new_active (sv_db s) (sv_db t)"])
    show "no_new_active (sv_db s) (sv_db (snd (on_db (count_active_runs ev) s)))" by (simp add: no_new_ops)
  qed (auto simp: no_new_same snd_sbind load_manifests_db rewrite_refs_db write_back_db split: sum.splits prod.splits
      intro: active_rows.trans)
  show "no_new_active (sv_db t) (sv_db (snd (case p of None \<Rightarrow> (Inr (empty_compact_report\<lparr>co_skipped := ''active runs exist''\<rparr>), t)
      | Some q \<Rightarrow> compact_remove ev d q t)))" for p t
    by (auto simp: compact_remove_def no_new_same no_new_journal snd_sbind split: option.splits sum.splits prod.splits)
qed (rule active_rows.trans)

lemma compact_step_ok:
  assumes inv: "repo_inv d (sv_repo s)" and ok: "deps_ok d" "good_rand ev" "good_clock ev" "man_codec_laws c"
    and cover: "active_ids s \<subseteq> sn_manifest ` set xs" and live: "all_live d c (sn_manifest ` set xs) s"
    and fit: "compacts mode \<Longrightarrow> files_fit (sv_files (snd (compact_rewrite ev d c xs s)))"
    and st: "compact_step ev d c mode (rep, xs) s = (r, t)"
  shows "run_keeps d c s t \<and> step_ok d c r t"
proof (cases "compacts mode")
  case False
  then show ?thesis using st looks_run_keeps [OF looks_refl, of d c s] looks_step_ok [OF looks_refl inv live, of r] cover
    by (auto simp: compact_step_def)
next
  case True
  obtain q u where q: "compact_repository ev d c xs s = (q, u)" by fastforce
  have "\<exists>m. snapshot_intact d c s (sn_manifest x) m" if "x \<in> set xs" for x using live that by (auto simp: all_live_def)
  note co = compaction_ok [OF inv ok q fit [OF True] this]
  have ids: "active_ids u \<subseteq> active_ids s" using compact_no_new [of s ev d c xs] q no_new_active_ids by (metis snd_conv)
  have keeps: "run_keeps d c s u" using co ids cover unfolding run_keeps_def by blast
  have all: "all_live d c (active_ids s) s" using live cover unfolding all_live_def by blast
  have "sbind (q, u) (\<lambda>cl u. sbind (on_db (list_active_snapshots ev) u) (\<lambda>xs t.
      (Inr (rep\<lparr>mr_compact := cl, mr_manifests := int (length xs)\<rparr>, xs), t))) = (r, t)"
    using st True q by (simp add: compact_step_def)
  then show ?thesis by (rule relisted [rotated 3]) (use co keeps all in blast)+
qed

lemma stats_step_ok:
  assumes inv: "repo_inv d (sv_repo s)" and st: "stats_step ev d c opts (rep, xs) s = (r, t)"
  shows "looks s t \<and> (\<forall>rep ys. r = Inr (rep, ys) \<longrightarrow> ys = xs)"
proof -
  obtain a s1 where a: "on_db (count_snapshots ev) s = (a, s1)" by fastforce
  have 1: "looks s s1" using looks_db [of s "count_snapshots ev", OF no_new_ops(5)] a by simp
  obtain mc mt where m: "count_manifests ev (sv_man s1) = (mc, mt)" by fastforce
  let ?f = "repository_stats ev d opts (case mc of Inl e \<Rightarrow> Inl RepoListFailed | Inr n \<Rightarrow> Inr n)"
  obtain b s2 where b: "on_repo MtRepo ?f (s1\<lparr>sv_man := mt\<rparr>) = (b, s2)" by fastforce
  have "man_lookup mt = man_lookup (sv_man s1)" using m by (auto simp: count_manifests_def fun_eq_iff split: if_splits)
  moreover have "same_store (sv_repo s1) (snd (?f (sv_repo s1)))"
    using same_store_trans [OF same_store_tick same_store_tick] by (auto simp: repository_stats_def split: sum.splits)
  ultimately have 2: "looks s1 s2"
    using on_repo_sv [of MtRepo ?f "s1\<lparr>sv_man := mt\<rparr>"] b by (simp add: looks_def steady_def no_new_same)
  obtain lv s3 where l: "live_loop ev c xs \<lparr>lv_manifests = [], lv_refs = [], lv_errors = []\<rparr> s2 = (lv, s3)" by fastforce
  have 3: "looks s2 s3"
    using live_loop_steady [of s2 ev c xs] live_loop_db [of ev c xs _ s2] l unfolding looks_def by (metis no_new_same snd_conv)
  have "t \<in> {s1, s2, s3} \<and> (\<forall>rep ys. r = Inr (rep, ys) \<longrightarrow> ys = xs)"
    using st a m b l by (cases a; cases b) (auto simp: stats_step_def snapshot_live_sets_def Let_def)
  then show ?thesis using 1 looks_trans [OF 1 2] looks_trans [OF looks_trans [OF 1 2] 3] by blast
qed

lemma verify_step_looks: "looks s (snd (verify_step ev d c say mode p s))"
  using verify_loop_looks [of s ev d c say "snd p" verify_start]
  by (auto simp: verify_step_def verify_referenced_chunks_def looks_refl split: prod.splits)

text \<open>The files still fit the machine when the compaction of the run, if there is one, has rewritten them.\<close>

definition rewrite_fits ::
    "env \<Rightarrow> 'k repo_deps \<Rightarrow> man_codec \<Rightarrow> maint_config \<Rightarrow> string \<Rightarrow> maint_report \<Rightarrow> 'k server \<Rightarrow> bool" where
  "rewrite_fits ev d c cfg mode rep s \<longleftrightarrow>
     (case sbind (retention_step ev mode cfg rep s) (cleanup_step ev d c mode cfg) of
        (Inr (rep, xs), t) \<Rightarrow> files_fit (sv_files (snd (compact_rewrite ev d c xs t))) | (Inl e, t) \<Rightarrow> True)"

lemma maintenance_steps_keep:
  assumes inv: "repo_inv d (sv_repo s)" and ok: "deps_ok d" "good_rand ev" "good_clock ev" "man_codec_laws c"
    and live: "all_live d c (active_ids s) s" and fit: "compacts mode \<Longrightarrow> rewrite_fits ev d c cfg mode rep s"
    and run: "maintenance_steps ev d c say opts cfg mode rep s = (r, t)"
  shows "run_keeps d c s t"
proof -
  obtain r1 s1 where 1: "retention_step ev mode cfg rep s = (r1, s1)" by fastforce
  note k1 = retention_step_ok [OF inv live 1]
  show ?thesis
  proof (cases r1)
    case (Inl e)
    then show ?thesis using run 1 k1 by (simp add: maintenance_steps_def)
  next
    case (Inr p1)
    obtain rep1 xs1 where p1: "p1 = (rep1, xs1)" by fastforce
    have so1: "repo_inv d (sv_repo s1)" "active_ids s1 \<subseteq> sn_manifest ` set xs1" "all_live d c (sn_manifest ` set xs1) s1"
      using k1 Inr p1 by (auto simp: step_ok_def)
    obtain r2 s2 where 2: "cleanup_step ev d c mode cfg (rep1, xs1) s1 = (r2, s2)" by fastforce
    note k2 = cleanup_step_ok [OF so1(1) ok(1) so1(2,3) 2]
    have k12: "run_keeps d c s s2" using run_keeps_trans k1 k2 by blast
    show ?thesis
    proof (cases r2)
      case (Inl e)
      then show ?thesis using run 1 2 Inr p1 k12 by (simp add: maintenance_steps_def)
    next
      case (Inr p2)
      obtain rep2 xs2 where p2: "p2 = (rep2, xs2)" by fastforce
      have so2: "repo_inv d (sv_repo s2)" "active_ids s2 \<subseteq> sn_manifest ` set xs2" "all_live d c (sn_manifest ` set xs2) s2"
        using k2 Inr p2 by (auto simp: step_ok_def)
      obtain r3 s3 where 3: "compact_step ev d c mode (rep2, xs2) s2 = (r3, s3)" by fastforce
      have fit2: "files_fit (sv_files (snd (compact_rewrite ev d c xs2 s2)))" if "compacts mode"
        using fit [OF that] 1 2 \<open>r1 = Inr p1\<close> p1 Inr p2 by (simp add: rewrite_fits_def)
      note k3 = compact_step_ok [OF so2(1) ok so2(2,3) fit2 3]
      have k13: "run_keeps d c s s3" using run_keeps_trans k12 k3 by blast
      show ?thesis
      proof (cases r3)
        case (Inl e)
        then show ?thesis using run 1 2 3 \<open>r1 = Inr p1\<close> p1 \<open>r2 = Inr p2\<close> p2 k13 by (simp add: maintenance_steps_def)
      next
        case (Inr p3)
        obtain rep3 xs3 where p3: "p3 = (rep3, xs3)" by fastforce
        obtain r4 s4 where 4: "stats_step ev d c opts (rep3, xs3) s3 = (r4, s4)" by fastforce
        have "repo_inv d (sv_repo s3)" using k3 Inr p3 by (simp add: step_ok_def)
        from stats_step_ok [OF this 4] have l4: "looks s3 s4" by blast
        have "t = s4 \<or> t = snd (verify_step ev d c say mode p s4)" if "r4 = Inr p" for p
          using run 1 2 3 4 \<open>r1 = Inr p1\<close> p1 \<open>r2 = Inr p2\<close> p2 Inr p3 that by (simp add: maintenance_steps_def)
        moreover have "t = s4" if "r4 = Inl e" for e
          using run 1 2 3 4 \<open>r1 = Inr p1\<close> p1 \<open>r2 = Inr p2\<close> p2 Inr p3 that by (simp add: maintenance_steps_def)
        ultimately have "looks s4 t" using looks_refl verify_step_looks [of s4 ev d c say mode] by (cases r4) auto
        then show ?thesis using run_keeps_trans [OF k13 looks_run_keeps [OF looks_trans [OF l4]]] by blast
      qed
    qed
  qed
qed

text \<open>The gate plays no part in what is stored.\<close>

lemma locked_fields [simp]:
  "active_ids (s\<lparr>sv_locked := b\<rparr>) = active_ids s" "snapshot_intact d c (s\<lparr>sv_locked := b\<rparr>) i m = snapshot_intact d c s i m"
  by (simp_all add: active_ids_def snapshot_intact_def)

lemma run_maintenance_keeps:
  assumes "repo_inv d (sv_repo s)" "deps_ok d" "good_rand ev" "good_clock ev" "man_codec_laws c"
    and live: "all_live d c (active_ids s) s"
    and fit: "compacts mode \<Longrightarrow> rewrite_fits ev d c cfg mode (start_report mode (now_of ev s) cfg) (s\<lparr>sv_locked := True\<rparr>)"
    and run: "run_storage_maintenance ev d c say opts cfg mode s = (r, t)"
  shows "run_keeps d c s t"
proof (cases "mode \<in> set maintenance_modes \<and> (compacts mode \<longrightarrow> try_enter_compact s \<noteq> None)")
  case False
  then have "t = s" using run by (auto simp: run_storage_maintenance_def Let_def split: if_splits option.splits)
  then show ?thesis using looks_run_keeps [OF looks_refl] by simp
next
  case True
  let ?rep = "start_report mode (now_of ev s) cfg"
  show ?thesis
  proof (cases "compacts mode")
    case False
    then have "maintenance_steps ev d c say opts cfg mode ?rep s = (r, t)"
      using run True by (simp add: run_storage_maintenance_def Let_def)
    then show ?thesis using maintenance_steps_keep [OF assms(1-6)] False by blast
  next
    case comp: True
    let ?s1 = "s\<lparr>sv_locked := True\<rparr>"
    have enter: "try_enter_compact s = Some ?s1" using True comp by (auto simp: try_enter_compact_def split: if_splits)
    obtain t1 where t1: "maintenance_steps ev d c say opts cfg mode ?rep ?s1 = (r, t1)" "t = t1\<lparr>sv_locked := False\<rparr>"
      using run True comp enter by (auto simp: run_storage_maintenance_def Let_def split: prod.splits)
    have "all_live d c (active_ids ?s1) ?s1" using live by (simp add: all_live_def)
    then have "run_keeps d c ?s1 t1"
      using maintenance_steps_keep [of d ?s1 ev c mode cfg ?rep say opts r t1] assms(1-5) fit t1(1) by simp
    then show ?thesis using t1(2) by (simp add: run_keeps_def compacted_def)
  qed
qed

subsection \<open>What a verification without errors means\<close>

definition ref_checked :: "'k repo_deps \<Rightarrow> 'k repo \<Rightarrow> chunk_ref \<Rightarrow> bool" where
  "ref_checked d s r \<longleftrightarrow> (\<exists>ix data. indexed d s (cr_hash r) = Some ix \<and> same_location r ix \<and>
     ref_reads d (sg_files (rp_seg s)) ix data)"

abbreviation clean :: "verify_state \<Rightarrow> bool" where
  "clean v \<equiv> vr_errors (vs_report v) = []"

text \<open>\<open>Q\<close> are the references that were looked at.\<close>

definition verify_good :: "'k repo_deps \<Rightarrow> 'k repo \<Rightarrow> chunk_ref set \<Rightarrow> verify_state \<Rightarrow> bool" where
  "verify_good d s Q v \<longleftrightarrow> (clean v \<longrightarrow> vs_bad v = [] \<and> (\<forall>h \<in> set (vs_seen v). \<exists>r \<in> Q. cr_hash r = h \<and> ref_checked d s r))"

definition verify_step_good ::
    "'k repo_deps \<Rightarrow> 'k repo \<Rightarrow> chunk_ref set \<Rightarrow> (verify_state \<Rightarrow> bool) \<Rightarrow> verify_state \<Rightarrow> verify_state \<Rightarrow> bool" where
  "verify_step_good d s Q P v w \<longleftrightarrow> set (vs_seen v) \<subseteq> set (vs_seen w) \<and> (clean w \<longrightarrow> clean v \<and> P w) \<and>
     (\<forall>Q0. verify_good d s Q0 v \<longrightarrow> verify_good d s (Q0 \<union> Q) w)"

lemma add_errors [simp]:
  "clean (add_snapshot_error e v) \<longleftrightarrow> False" "vs_seen (add_snapshot_error e v) = vs_seen v" "clean (bad_hash h e v) \<longleftrightarrow> False"
  "vs_seen (bad_hash h e v) = vs_seen v" "clean (count_corrupt v) = clean v" "clean (count_missing v) = clean v"
  "clean (count_verified v) = clean v" "vs_seen (count_corrupt v) = vs_seen v" "vs_seen (count_missing v) = vs_seen v"
  "vs_seen (count_verified v) = vs_seen v" "vs_bad (count_verified v) = vs_bad v"
  by (auto simp: add_snapshot_error_def add_error_def bad_hash_def count_corrupt_def count_missing_def count_verified_def)

lemma verify_good_errors [simp]: "verify_good d s Q (v\<lparr>vs_errors := es\<rparr>) \<longleftrightarrow> verify_good d s Q v"
  by (simp add: verify_good_def)

lemma same_checked: "same_store s t \<Longrightarrow> ref_checked d t r = ref_checked d s r"
  by (simp add: ref_checked_def same_store_fields)

lemma verify_ref_good:
  assumes "verify_ref ev d sid label r v s = (w, t)"
  shows "verify_step_good d s {r} (\<lambda>w. cr_hash r \<in> set (vs_seen w)) v w"
proof -
  obtain q t1 where q: "get_chunk_ref ev d (cr_hash r) s = (q, t1)" by fastforce
  have s1: "same_store s t1" using lookup_ref_same [of s ev d "cr_hash r"] q by (simp add: get_chunk_ref_def)
  have ok: "ref_checked d s r" if "q = Inr (Some ix)" "same_location r ix" "read_chunk_ref ev d ix t1 = (Inr data, u)" for ix data u
  proof -
    have "indexed d s (cr_hash r) = Some ix" using lookup_ref_Inr q that(1) unfolding get_chunk_ref_def by metis
    moreover have "ref_reads d (sg_files (rp_seg s)) ix data" using read_chunk_ref_Inr [OF that(3)] same_store_fields(2) [OF s1] by simp
    ultimately show ?thesis using that(2) by (auto simp: ref_checked_def)
  qed
  show ?thesis
    using assms q ok
    by (auto simp: verify_ref_def Let_def verify_step_good_def verify_good_def split: if_splits option.splits sum.splits prod.splits)
qed

lemma verify_good_same: "same_store s t \<Longrightarrow> verify_good d t = verify_good d s"
  by (simp add: verify_good_def fun_eq_iff same_checked)

lemma step_good_refl: "(clean v \<Longrightarrow> P v) \<Longrightarrow> verify_step_good d s {} P v v"
  by (simp add: verify_step_good_def)

lemma step_good_trans:
  assumes "verify_step_good d s Q P v w" and "verify_step_good d s Q' P' w u"
    and "\<And>a b. set (vs_seen a) \<subseteq> set (vs_seen b) \<Longrightarrow> P a \<Longrightarrow> P b"
  shows "verify_step_good d s (Q \<union> Q') (\<lambda>u. P u \<and> P' u) v u"
  using assms unfolding verify_step_good_def by (metis Un_assoc subset_trans)

lemma step_good_weaken:
  "verify_step_good d s Q P v w \<Longrightarrow> (P w \<Longrightarrow> P' w) \<Longrightarrow> verify_step_good d s Q P' v w"
  by (auto simp: verify_step_good_def)

text \<open>Adding an error, or nothing, at the end of a step.\<close>

lemma step_good_error: "verify_step_good d s Q P v w \<Longrightarrow> verify_step_good d s Q P' v (add_snapshot_error e (count_corrupt w))"
  by (simp add: verify_step_good_def verify_good_def)

lemma fold_verify_good:
  assumes step: "\<And>x v u w t. x \<in> set xs \<Longrightarrow> same_store s u \<Longrightarrow> f x v u = (w, t) \<Longrightarrow>
      same_store s t \<and> verify_step_good d s (Q x) (P x) v w"
    and mono: "\<And>x a b. set (vs_seen a) \<subseteq> set (vs_seen b) \<Longrightarrow> P x a \<Longrightarrow> P x b"
  shows "same_store s u \<Longrightarrow> fold_verify f xs v u = (w, t) \<Longrightarrow>
    same_store s t \<and> verify_step_good d s (\<Union>x \<in> set xs. Q x) (\<lambda>w. \<forall>x \<in> set xs. P x w) v w"
  using step
proof (induction xs arbitrary: v u)
  case Nil
  then show ?case by (simp add: step_good_refl)
next
  case (Cons x xs)
  obtain v1 u1 where x: "f x v u = (v1, u1)" by fastforce
  have 1: "same_store s u1" "verify_step_good d s (Q x) (P x) v v1"
    using Cons.prems(3) [OF _ Cons.prems(1) x] by simp_all
  have f: "fold_verify f xs v1 u1 = (w, t)" using Cons.prems(2) x by simp
  have 2: "same_store s t \<and> verify_step_good d s (\<Union>x \<in> set xs. Q x) (\<lambda>w. \<forall>x \<in> set xs. P x w) v1 w"
    by (rule Cons.IH [OF 1(1) f]) (rule Cons.prems(3), simp_all)
  have "verify_step_good d s (Q x \<union> (\<Union>x \<in> set xs. Q x)) (\<lambda>w. P x w \<and> (\<forall>x \<in> set xs. P x w)) v w"
    by (rule step_good_trans [OF 1(2) 2 [THEN conjunct2] mono])
  then show ?case using 2 by simp
qed

lemma verify_refs_good:
  assumes "same_store s u" and "verify_refs ev d sid label rs v u = (w, t)"
  shows "same_store s t \<and> verify_step_good d s (set rs) (\<lambda>w. cr_hash ` set rs \<subseteq> set (vs_seen w)) v w"
proof -
  have one: "same_store s t1 \<and> verify_step_good d s {r} (\<lambda>w. cr_hash r \<in> set (vs_seen w)) v1 w1"
    if "same_store s u1" "verify_ref ev d sid label r v1 u1 = (w1, t1)" for r v1 u1 w1 t1
  proof -
    have "same_store u1 t1" using verify_ref_same [of u1 ev d sid label r v1] that(2) by simp
    moreover have "verify_step_good d u1 {r} (\<lambda>w. cr_hash r \<in> set (vs_seen w)) v1 w1" by (rule verify_ref_good [OF that(2)])
    ultimately show ?thesis
      using same_store_trans that(1) verify_good_same [OF that(1), of d] by (auto simp: verify_step_good_def)
  qed
  have "same_store s t \<and> verify_step_good d s (\<Union>x \<in> set rs. {x}) (\<lambda>w. \<forall>r \<in> set rs. cr_hash r \<in> set (vs_seen w)) v w"
    by (rule fold_verify_good [OF one _ assms(1) assms(2) [unfolded verify_refs_fold]]) auto
  then show ?thesis by (auto simp: image_subset_iff elim: step_good_weaken)
qed

definition pack_checked :: "'k repo_deps \<Rightarrow> 'k repo \<Rightarrow> pack_manifest \<Rightarrow> bool" where
  "pack_checked d s p \<longleftrightarrow> (\<exists>ds ixs. list_all2 (repo_reads d s) (pm_chunks p) ds \<and> decode_pack_index (concat ds) = Inr ixs)"

lemma verify_pack_good:
  assumes "same_store s u" and "verify_pack ev d sid p v u = (w, t)"
  shows "same_store s t \<and> verify_step_good d s (set (pm_chunks p)) (\<lambda>w. pack_checked d s p) v w"
proof -
  obtain v1 s1 where r: "verify_refs ev d sid (PackLabel (pm_id p)) (pm_chunks p) v u = (v1, s1)" by fastforce
  note rg = verify_refs_good [OF assms(1) r]
  obtain q s2 where q: "read_pack_data ev d p s1 = (q, s2)" by fastforce
  have s2: "same_store s s2" using rg read_pack_data_same [of s1 ev d p] q same_store_trans by fastforce
  show ?thesis
  proof (cases q)
    case (Inl e)
    then show ?thesis using assms(2) r q s2 rg by (auto simp: verify_pack_def intro: step_good_error)
  next
    case (Inr data)
    show ?thesis
    proof (cases "decode_pack_index data")
      case (Inl e)
      then show ?thesis using assms(2) r q s2 rg Inr by (auto simp: verify_pack_def intro: step_good_error)
    next
      case (Inr ixs)
      obtain ds where "list_all2 (repo_reads d s1) (pm_chunks p) ds" "data = concat ds"
        using read_pack_chunks_Inr [of ev d "pm_chunks p" "[]" s1 data s2] q \<open>q = Inr data\<close> by (auto simp: read_pack_data_def)
      then have "pack_checked d s p"
        using Inr rg unfolding pack_checked_def repo_reads_def by (metis same_store_fields(2))
      then show ?thesis using assms(2) r q s2 rg Inr \<open>q = Inr data\<close> by (auto simp: verify_pack_def elim: step_good_weaken)
    qed
  qed
qed

definition entry_checked ::
    "env \<Rightarrow> 'k repo_deps \<Rightarrow> 'k repo \<Rightarrow> snapshot_manifest \<Rightarrow> file_entry \<Rightarrow> verify_state \<Rightarrow> bool" where
  "entry_checked ev d s m e w \<longleftrightarrow>
     (fe_type e = EntryPackedFile \<longrightarrow>
        (\<exists>u out. same_store s u \<and> fst (read_packed_file ev d (Some m) e u) = Inr out \<and> int (length out) = fe_size e)) \<and>
     (fe_type e = EntryFile \<longrightarrow> original_sum (fe_chunks e) = fe_size e \<and> cr_hash ` set (fe_chunks e) \<subseteq> set (vs_seen w))"

definition entry_looked_at :: "file_entry \<Rightarrow> chunk_ref set" where
  "entry_looked_at e = (if fe_type e = EntryFile then set (fe_chunks e) else {})"

lemma verify_entry_good:
  assumes "same_store s u" and "verify_entry ev d sid m e v u = (w, t)"
  shows "same_store s t \<and> verify_step_good d s (entry_looked_at e) (entry_checked ev d s m e) v w"
proof (cases "fe_type e")
  case EntryFile
  obtain v1 s1 where r: "verify_refs ev d sid (FileLabel (fe_path e)) (fe_chunks e) v u = (v1, s1)" by fastforce
  note rg = verify_refs_good [OF assms(1) r]
  show ?thesis
    using assms(2) r rg EntryFile
    by (auto simp: verify_entry_def entry_looked_at_def entry_checked_def intro: step_good_error elim: step_good_weaken split: if_splits)
next
  case EntryPackedFile
  obtain q s1 where q: "read_packed_file ev d (Some m) e u = (q, s1)" by fastforce
  have s1: "same_store s s1" using read_packed_file_same [of u ev d "Some m" e] q same_store_trans [OF assms(1)] by simp
  have none: "verify_step_good d s {} (\<lambda>_. True) v v" by (simp add: step_good_refl)
  show ?thesis
  proof (cases q)
    case (Inl err)
    then show ?thesis using assms(2) q s1 EntryPackedFile none
      by (auto simp: verify_entry_def entry_looked_at_def intro: step_good_error)
  next
    case (Inr out)
    show ?thesis
    proof (cases "int (length out) = fe_size e")
      case True
      then have "entry_checked ev d s m e v" using EntryPackedFile assms(1) q Inr by (auto simp: entry_checked_def)
      then show ?thesis using assms(2) q s1 EntryPackedFile Inr True
        by (auto simp: verify_entry_def entry_looked_at_def intro: step_good_refl)
    next
      case False
      then show ?thesis using assms(2) q s1 EntryPackedFile Inr none
        by (auto simp: verify_entry_def entry_looked_at_def intro: step_good_error)
    qed
  qed
qed (use assms in \<open>auto simp: verify_entry_def entry_looked_at_def entry_checked_def intro: step_good_refl\<close>)

definition manifest_checked ::
    "env \<Rightarrow> 'k repo_deps \<Rightarrow> 'k repo \<Rightarrow> snapshot_manifest \<Rightarrow> verify_state \<Rightarrow> bool" where
  "manifest_checked ev d s m w \<longleftrightarrow> (\<forall>p \<in> set (sm_packs m). pack_checked d s p) \<and> (\<forall>e \<in> set (sm_entries m). entry_checked ev d s m e w)"

lemma entry_checked_mono: "set (vs_seen a) \<subseteq> set (vs_seen b) \<Longrightarrow> entry_checked ev d s m e a \<Longrightarrow> entry_checked ev d s m e b"
  unfolding entry_checked_def by blast

lemma manifest_checked_mono: "set (vs_seen a) \<subseteq> set (vs_seen b) \<Longrightarrow> manifest_checked ev d s m a \<Longrightarrow> manifest_checked ev d s m b"
  unfolding manifest_checked_def using entry_checked_mono by metis

lemma refs_looked_at:
  "set (manifest_chunk_refs m) = (\<Union>p \<in> set (sm_packs m). set (pm_chunks p)) \<union> (\<Union>e \<in> set (sm_entries m). entry_looked_at e)"
  by (auto simp: manifest_chunk_refs_def entry_looked_at_def split: if_splits)

lemma verify_manifest_good:
  assumes "same_store s u" and "verify_manifest ev d sid m v u = (w, t)"
  shows "same_store s t \<and> verify_step_good d s (set (manifest_chunk_refs m)) (manifest_checked ev d s m) v w"
proof -
  obtain v1 s1 where p: "fold_verify (verify_pack ev d sid) (sm_packs m) v u = (v1, s1)" by fastforce
  have e: "fold_verify (verify_entry ev d sid m) (sm_entries m) v1 s1 = (w, t)" using assms(2) p by (simp add: verify_manifest_def)
  have 1: "same_store s s1 \<and> verify_step_good d s (\<Union>p \<in> set (sm_packs m). set (pm_chunks p)) (\<lambda>w. \<forall>p \<in> set (sm_packs m). pack_checked d s p) v v1"
    by (rule fold_verify_good [OF verify_pack_good _ assms(1) p])
  have 2: "same_store s t \<and> verify_step_good d s (\<Union>e \<in> set (sm_entries m). entry_looked_at e)
      (\<lambda>w. \<forall>e \<in> set (sm_entries m). entry_checked ev d s m e w) v1 w"
    by (rule fold_verify_good [OF verify_entry_good entry_checked_mono 1 [THEN conjunct1] e])
  show ?thesis
    using step_good_trans [OF 1 [THEN conjunct2] 2 [THEN conjunct2]] 2 unfolding refs_looked_at manifest_checked_def by blast
qed

text \<open>The whole loop, seen from the state it started in.\<close>

definition snapshot_refs :: "man_codec \<Rightarrow> 'k server \<Rightarrow> snapshot_row \<Rightarrow> chunk_ref set" where
  "snapshot_refs c s x = (case manifest_at c (sv_man s) (sn_manifest x) of None \<Rightarrow> {} | Some m \<Rightarrow> set (manifest_chunk_refs m))"

definition snapshot_checked :: "env \<Rightarrow> 'k repo_deps \<Rightarrow> man_codec \<Rightarrow> 'k server \<Rightarrow> snapshot_row \<Rightarrow> verify_state \<Rightarrow> bool" where
  "snapshot_checked ev d c s x w \<longleftrightarrow> (\<exists>m. manifest_at c (sv_man s) (sn_manifest x) = Some m \<and> manifest_checked ev d (sv_repo s) m w)"

lemma verify_snapshot_good:
  assumes st: "steady s u" and v: "verify_snapshot ev d c say x v u = (w, t)"
  shows "steady s t \<and> verify_step_good d (sv_repo s) (snapshot_refs c s x) (snapshot_checked ev d c s x) v w"
proof -
  have t: "steady s t" using verify_snapshot_looks [of u ev d c say x v] v steady_trans [OF st] by (simp add: looks_def)
  obtain r mt where r: "read_manifest ev c (sn_manifest x) (sv_man u) = (r, mt)" by fastforce
  have ss: "same_store (sv_repo s) (sv_repo u)" using st by (simp add: steady_def)
  show ?thesis
  proof (cases r)
    case (Inl e)
    then have w: "w = add_snapshot_error (VerifyNoManifest (sn_id x) (sn_manifest x) e) (v\<lparr>vs_errors := []\<rparr>)"
      using v r by (simp add: verify_snapshot_def Let_def)
    then show ?thesis using t by (simp add: verify_step_good_def verify_good_def)
  next
    case (Inr m)
    have at: "manifest_at c (sv_man s) (sn_manifest x) = Some m"
    proof -
      have "manifest_at c (sv_man u) = manifest_at c (sv_man s)" by (rule manifest_at_cong) (use st in \<open>simp add: steady_def\<close>)
      then show ?thesis using read_manifest_Inr [of ev c "sn_manifest x" "sv_man u" m mt] r Inr by simp
    qed
    obtain v1 q where q: "verify_manifest ev d (sn_id x) m (v\<lparr>vs_errors := []\<rparr>) (sv_repo u) = (v1, q)" by fastforce
    then have "v1 = w" using v r Inr by (simp add: verify_snapshot_def Let_def)
    then have "verify_step_good d (sv_repo s) (set (manifest_chunk_refs m)) (manifest_checked ev d (sv_repo s) m) (v\<lparr>vs_errors := []\<rparr>) w"
      using verify_manifest_good [OF ss q] by simp
    then show ?thesis
      using t at by (simp add: verify_step_good_def snapshot_refs_def snapshot_checked_def)
  qed
qed

lemma verify_loop_good:
  "steady s u \<Longrightarrow> verify_loop ev d c say xs v u = (w, t) \<Longrightarrow>
   verify_step_good d (sv_repo s) (\<Union>x \<in> set xs. snapshot_refs c s x) (\<lambda>w. \<forall>x \<in> set xs. snapshot_checked ev d c s x w) v w"
proof (induction xs arbitrary: v u)
  case Nil
  then show ?case by (simp add: step_good_refl)
next
  case (Cons x xs)
  obtain r q where r: "check_ctx ev (sv_repo u) = (r, q)" by fastforce
  have st: "steady s (u\<lparr>sv_repo := q\<rparr>)"
    using check_ctx_same [of "sv_repo u" ev] r Cons.prems(1) same_store_trans by (auto simp: steady_def)
  show ?case
  proof (cases r)
    case (Inl e)
    then have "w = v\<lparr>vs_report := add_error VerifyCanceled (vs_report v)\<rparr>" using Cons.prems(2) r by simp
    then have "\<not> clean w" "vs_seen w = vs_seen v"
      by (cases "vr_errors (vs_report v)"; auto simp: add_error_def)+
    then show ?thesis by (simp add: verify_step_good_def verify_good_def)
  next
    case (Inr y)
    obtain v1 s1 where v: "verify_snapshot ev d c say x v (u\<lparr>sv_repo := q\<rparr>) = (v1, s1)" by fastforce
    have l: "verify_loop ev d c say xs v1 s1 = (w, t)" using Cons.prems(2) r Inr v by simp
    note 1 = verify_snapshot_good [OF st v]
    have mono: "snapshot_checked ev d c s x b" if "set (vs_seen a) \<subseteq> set (vs_seen b)" "snapshot_checked ev d c s x a" for a b
      using manifest_checked_mono [OF that(1)] that(2) unfolding snapshot_checked_def by blast
    have "verify_step_good d (sv_repo s) (snapshot_refs c s x \<union> (\<Union>x \<in> set xs. snapshot_refs c s x))
        (\<lambda>w. snapshot_checked ev d c s x w \<and> (\<forall>x \<in> set xs. snapshot_checked ev d c s x w)) v w"
      by (rule step_good_trans [OF 1 [THEN conjunct2] Cons.IH [OF 1 [THEN conjunct1] l] mono])
    then show ?thesis by simp
  qed
qed

lemma verified_snapshots:
  assumes run: "verify_referenced_chunks ev d c say xs s = (rep, t)" and no: "vr_errors rep = []" and x: "x \<in> set xs"
    and one: "\<And>y z r q. y \<in> set xs \<Longrightarrow> z \<in> set xs \<Longrightarrow> r \<in> snapshot_refs c s y \<Longrightarrow> q \<in> snapshot_refs c s z \<Longrightarrow>
      cr_hash r = cr_hash q \<Longrightarrow> same_location r q"
  shows "\<exists>m w. manifest_at c (sv_man s) (sn_manifest x) = Some m \<and> manifest_checked ev d (sv_repo s) m w \<and>
    (\<forall>e \<in> set (sm_entries m). fe_type e = EntryFile \<longrightarrow> (\<forall>r \<in> set (fe_chunks e). \<exists>data. ref_reads d (sv_files s) r data))"
proof -
  obtain w where w: "verify_loop ev d c say xs verify_start s = (w, t)" "rep = vs_report w"
    using run by (auto simp: verify_referenced_chunks_def split: prod.splits)
  note good = verify_loop_good [OF steady_refl w(1)]
  have "clean w" using no w(2) by simp
  then have ch: "\<forall>x \<in> set xs. snapshot_checked ev d c s x w" using good by (simp add: verify_step_good_def)
  have "verify_good d (sv_repo s) {} verify_start" by (simp add: verify_good_def verify_start_def)
  then have "verify_good d (sv_repo s) (\<Union>x \<in> set xs. snapshot_refs c s x) w" using good by (auto simp: verify_step_good_def)
  then have seen: "\<forall>h \<in> set (vs_seen w). \<exists>r \<in> (\<Union>x \<in> set xs. snapshot_refs c s x). cr_hash r = h \<and> ref_checked d (sv_repo s) r"
    using \<open>clean w\<close> unfolding verify_good_def by blast
  obtain m where m: "manifest_at c (sv_man s) (sn_manifest x) = Some m" "manifest_checked ev d (sv_repo s) m w"
    using ch x by (auto simp: snapshot_checked_def)
  have "\<exists>data. ref_reads d (sv_files s) r data"
    if e: "e \<in> set (sm_entries m)" "fe_type e = EntryFile" and r: "r \<in> set (fe_chunks e)" for e r
  proof -
    have "cr_hash r \<in> set (vs_seen w)" using m(2) e r by (auto simp: manifest_checked_def entry_checked_def)
    then obtain y q where q: "y \<in> set xs" "q \<in> snapshot_refs c s y" "cr_hash q = cr_hash r" "ref_checked d (sv_repo s) q"
      using seen by blast
    have "r \<in> snapshot_refs c s x" using m(1) e r by (auto simp: snapshot_refs_def refs_looked_at entry_looked_at_def)
    then have loc: "same_location r q" using one [OF x q(1)] q(2,3) by simp
    obtain ix data where "same_location q ix" "ref_reads d (sv_files s) ix data" using q(4) by (auto simp: ref_checked_def)
    then show ?thesis using loc same_location_reads unfolding ref_reads_def by metis
  qed
  then show ?thesis using m by blast
qed

end
