(* ===== verification/MaintenanceProperties.thy ===== *)
theory MaintenanceProperties
  imports MaintenanceRun
begin

text \<open>
  The properties of maintenance, with a small server on which runs are evaluated.
\<close>

subsection \<open>Evaluation\<close>

text \<open>
  The chains of the model are evaluated from the front: the continuation of a step is looked at only
  when the step has its result.
\<close>

lemma sbind_unfold [code_unfold]:
  "sbind m f = (case m of (r, s) \<Rightarrow> case r of Inl e \<Rightarrow> (Inl e, s) | Inr x \<Rightarrow> f x s)"
  by (cases "(m, f)" rule: sbind.cases) auto

lemma let_unfold [code_unfold]: "Let x f = (case (x, ()) of (y, u) \<Rightarrow> f y)"
  by simp

lemma case_app_unfold [code_unfold]: "(case p of (a, b) \<Rightarrow> f a b) s = (case p of (a, b) \<Rightarrow> f a b s)"
  by (cases p) simp

lemmas server_unfold [code_unfold] = on_db_def on_repo_def on_man_def

subsection \<open>A small server\<close>

text \<open>
  A repository of two chunks, and one whose last upload ran into a full disk: it had opened a new
  segment and wrote 5 bytes of its record. Both are what \<open>put_chunks\<close> makes of them; the parts are
  written out so that the runs below start from values.
\<close>

definition small_hash :: "char \<Rightarrow> string" where
  "small_hash b = CHR ''0'' # b # replicate 62 (CHR ''0'')"

definition small_ref_at :: "char \<Rightarrow> int \<Rightarrow> chunk_ref" where
  "small_ref_at b off = \<lparr>cr_hash = small_hash b, cr_segment = 1, cr_offset = off, cr_length = 117, cr_original = 1,
     cr_compressed = 1, cr_created = 0\<rparr>"

abbreviation small_ref :: chunk_ref where
  "small_ref \<equiv> small_ref_at (CHR ''3'') 0"

definition small_magic :: bytes where
  "small_magic = [84, 66, 75, 82, 69, 67, 49, 10, 116, 0, 1, 0, 3, 0, 0, 0]"

definition small_record :: "8 word \<Rightarrow> 8 word \<Rightarrow> bytes" where
  "small_record b nonce = small_magic @ b # replicate 31 0 @ 1 # replicate 7 0 @ 1 # replicate 7 0 @ 1 # replicate 7 0 @
     replicate 12 nonce @ small_magic @ b # replicate 15 0 @ [b]"

definition small_entry :: "char \<Rightarrow> 8 word \<Rightarrow> 8 word list \<Rightarrow> bytes \<times> bytes" where
  "small_entry c b loc = (bytes_of ''chunk:'' @ 48 # b # replicate 62 48, loc @ 48 # b # replicate 62 48)"

definition small_loc :: bytes where
  "small_loc = [1, 2, 2, 1, 0, 1, 0, 1, 1, 1, 2, 1, 2, 1, 2, 2]"

definition small_repo :: "(bytes \<times> bytes) list repo" where
  "small_repo = \<lparr>rp_seg = \<lparr>sg_files = [(segment_name 1, FileNode (small_record 3 4 @ small_record 9 7))],
       sg_max = 1000, sg_id = 1, sg_offset = 234, sg_step = 12\<rparr>,
     rp_db = [small_entry (CHR ''3'') 51 small_loc,
       small_entry (CHR ''9'') 57 [1, 2, 1, 0, 1, 0, 1, 1, 1, 2, 1, 0, 1, 0, 1, 1, 1, 2, 1, 2, 1, 2, 2]]\<rparr>"

definition small_put :: "(put_result list, (bytes \<times> bytes) list) repo_result" where
  "small_put = put_chunks still_env plain_deps [[3], [9]] empty_repo"

lemma small_put_eval: "small_put =
    (Inr [\<lparr>pu_ref = small_ref, pu_existed = False\<rparr>, \<lparr>pu_ref = small_ref_at (CHR ''9'') 117, pu_existed = False\<rparr>], small_repo)"
  by code_simp

definition tight_files :: files where
  "tight_files = [(segment_name 1, FileNode (small_record 3 3))]"

definition tight_repo :: "files \<Rightarrow> int \<Rightarrow> int \<Rightarrow> nat \<Rightarrow> (bytes \<times> bytes) list repo" where
  "tight_repo fs i off n = \<lparr>rp_seg = \<lparr>sg_files = fs, sg_max = 100, sg_id = i, sg_offset = off, sg_step = n\<rparr>,
     rp_db = [small_entry (CHR ''3'') 51 small_loc]\<rparr>"

definition tight_put :: "(put_result list, (bytes \<times> bytes) list) repo_result" where
  "tight_put = put_chunks still_env plain_deps [[3]] (empty_repo\<lparr>rp_seg := empty_segments\<lparr>sg_max := 100\<rparr>\<rparr>)"

definition full_disk :: env where
  "full_disk = still_env\<lparr>env_io := (\<lambda>n. if n = 15 then Some 5 else None)\<rparr>"

definition torn_repo :: "(bytes \<times> bytes) list repo" where
  "torn_repo = tight_repo (tight_files @ [(segment_name 2, FileNode (take 5 small_magic))]) 2 0 16"

lemma tight_put_eval: "tight_put = (Inr [\<lparr>pu_ref = small_ref, pu_existed = False\<rparr>], tight_repo tight_files 1 117 8)"
  by code_simp

lemma torn_put_eval: "put_chunks full_disk plain_deps [[8]] (tight_repo tight_files 1 117 8) = (Inl (RepoSegment SegWriteFailed), torn_repo)"
  by code_simp

definition small_manifest :: "string \<Rightarrow> chunk_ref \<Rightarrow> snapshot_manifest" where
  "small_manifest i r = \<lparr>sm_id = i, sm_created = 1, sm_source_type = ''local'', sm_source_root = ''/srv'', sm_source_roots = [],
     sm_packs = [], sm_entries = [\<lparr>fe_path = ''a'', fe_type = EntryFile, fe_size = 1, fe_mode = 0, fe_uid = 0, fe_gid = 0,
       fe_mtime = 0, fe_link = [], fe_chunks = [r], fe_pack = None\<rparr>]\<rparr>"

definition small_row :: "int \<Rightarrow> string \<Rightarrow> snapshot_row" where
  "small_row n i = \<lparr>sn_id = n, sn_job = Some 7, sn_host = Some 1, sn_run = Some n, sn_created = 0, sn_source_type = ''local'',
     sn_manifest = i, sn_files = 1, sn_size = 1, sn_deleted = None, sn_reason = None, sn_deleted_by = None,
     sn_health = ''unknown'', sn_message = None, sn_verified = None\<rparr>"

text \<open>A codec that has a short name for two manifests.\<close>

definition short_man :: "snapshot_manifest \<Rightarrow> snapshot_manifest \<Rightarrow> man_codec" where
  "short_man a b = \<lparr>mc_enc = (\<lambda>m. if m = a then Some [1] else if m = b then Some [2]
        else map_option (\<lambda>x. 0 # 0 # x) (mc_enc plain_man m)),
     mc_dec = (\<lambda>x. case x of [] \<Rightarrow> None | [y] \<Rightarrow> Some (if y = 1 then a else b) | y # z # x \<Rightarrow> mc_dec plain_man x)\<rparr>"

lemma short_man_laws: "man_codec_laws (short_man a b)"
  using plain_man_laws by (fastforce simp: man_codec_laws_def short_man_def)

definition snap_man :: man_codec where
  "snap_man = short_man (small_manifest ''snap'' small_ref) (small_manifest ''snap'' (small_ref\<lparr>cr_segment := 2\<rparr>))"

lemma snap_man_laws: "man_codec_laws snap_man"
  by (simp add: snap_man_def short_man_laws)

definition small_config :: maint_config where
  "small_config = \<lparr>mg_policy = \<lparr>rp_last = 5, rp_daily = 0, rp_weekly = 0\<rparr>, mg_error_grace = None, mg_stale_after = None,
     mg_deleted_days = 0, mg_invalidation_days = 0, mg_started = 0\<rparr>"

definition small_options :: repo_options where
  "small_options = \<lparr>ro_state_dir = ''/s'', ro_repo_dir = ''/r'', ro_segment_size = 1000, ro_chunk_avg = 1000\<rparr>"

text \<open>A server with the snapshots of the given names, whose manifests have the short names of the codec.\<close>

definition with_snapshots :: "(bytes \<times> bytes) list repo \<Rightarrow> string list \<Rightarrow> (bytes \<times> bytes) list server" where
  "with_snapshots r ids = \<lparr>sv_db = empty_db\<lparr>db_snapshots := map (\<lambda>(n, i). small_row (int n) i) (enumerate 1 ids)\<rparr>, sv_repo = r,
     sv_man = \<lparr>mn_dir = Some (map (\<lambda>(n, i). (i @ ''.json'', MFile [word_of_nat n] 0)) (enumerate 1 ids)), mn_step = 0\<rparr>,
     sv_writers = 0, sv_locked = False\<rparr>"

definition small_server :: "(bytes \<times> bytes) list server" where
  "small_server = with_snapshots small_repo [''snap'']"

definition lost_server :: "(bytes \<times> bytes) list server" where
  "lost_server = with_snapshots torn_repo [''snap'']"

text \<open>The server between the steps of its runs, after its chunk was moved to the second segment.\<close>

definition moved_ref :: chunk_ref where
  "moved_ref = small_ref\<lparr>cr_segment := 2\<rparr>"

definition moved_server :: "(bytes \<times> bytes) list repo \<Rightarrow> nat \<Rightarrow> nat \<Rightarrow> (bytes \<times> bytes) list server" where
  "moved_server r n j = \<lparr>sv_db = empty_db\<lparr>db_snapshots := [small_row 1 ''snap''], db_step := n\<rparr>, sv_repo = r,
     sv_man = \<lparr>mn_dir = Some [(''snap.json'', MFile [2] 0)], mn_step = j\<rparr>, sv_writers = 0, sv_locked = False\<rparr>"

definition moved_repo :: "int \<Rightarrow> files \<Rightarrow> nat \<Rightarrow> (bytes \<times> bytes) list \<Rightarrow> (bytes \<times> bytes) list repo" where
  "moved_repo mx fs n ix = \<lparr>rp_seg = \<lparr>sg_files = fs, sg_max = mx, sg_id = 2, sg_offset = 117, sg_step = n\<rparr>, rp_db = ix\<rparr>"

definition moved_entry :: "bytes \<times> bytes" where
  "moved_entry = small_entry (CHR ''3'') 51 (0 # small_loc)"

definition moved_refs :: "compact_report \<times> string set \<times> (string \<times> chunk_ref) list" where
  "moved_refs = (empty_compact_report\<lparr>co_rewritten := 1, co_bytes := 1\<rparr>, {small_hash (CHR ''3'')}, [(small_hash (CHR ''3''), moved_ref)])"

definition torn_segment :: "string \<times> fnode" where
  "torn_segment = (segment_name 2, FileNode (take 5 small_magic @ small_record 3 20))"

lemma lost_rewritten: "compact_rewrite still_env plain_deps snap_man [small_row 1 ''snap''] lost_server =
    (Inr (Some moved_refs), moved_server (moved_repo 100 (tight_files @ [torn_segment]) 25 [moved_entry]) (Suc 0) 8)"
  by code_simp

lemma lost_removed: "compact_remove still_env plain_deps moved_refs (moved_server (moved_repo 100 (tight_files @ [torn_segment]) 25 [moved_entry]) (Suc 0) 8) =
    (Inr (empty_compact_report\<lparr>co_rewritten := 1, co_bytes := 1, co_removed_segments := 1, co_removed_bytes := 117\<rparr>),
     moved_server (moved_repo 100 [torn_segment] 30 [moved_entry]) (Suc 0) 8)"
  by code_simp

definition stale_man :: man_codec where
  "stale_man = short_man (small_manifest ''one'' (small_ref\<lparr>cr_offset := 1\<rparr>)) (small_manifest ''two'' small_ref)"

definition stale_server :: "(bytes \<times> bytes) list server" where
  "stale_server = with_snapshots small_repo [''one'', ''two'']"

text \<open>What the chunks of a snapshot read as.\<close>

definition read_back :: "man_codec \<Rightarrow> string \<Rightarrow> (bytes \<times> bytes) list server \<Rightarrow> (segment_error + bytes) list" where
  "read_back c i s = (case manifest_at c (sv_man s) i of None \<Rightarrow> []
     | Some m \<Rightarrow> map (segment_read plain_crypto [] False (sv_files s)) (manifest_chunk_refs m))"

lemma small_server_inv: "repo_inv plain_deps (sv_repo small_server)"
proof -
  have a: "case small_put of (Inr rs, t) \<Rightarrow> files_fit_exec (sg_files (rp_seg t)) | (Inl e, t) \<Rightarrow> False" by code_simp
  from run_okD [OF a] obtain rs t where t: "small_put = (Inr rs, t)" "files_fit_exec (sg_files (rp_seg t))" by blast
  have fits: "\<forall>c \<in> set [[3], [9]]. data_fits (rd_crypto plain_deps) (rd_key plain_deps) c"
    by (simp add: plain_deps_def plain_data_fits)
  have "repo_inv plain_deps t"
    using put_chunks_post [OF empty_repo_inv plain_deps_ok still_env_ok fits t(1) [unfolded small_put_def] files_fit_exec [OF t(2)]]
    by (simp add: put_post_def)
  moreover have "t = small_repo" using t(1) by (simp add: small_put_eval)
  ultimately show ?thesis by (simp add: small_server_def with_snapshots_def)
qed

lemma small_server_manifest: "manifest_at snap_man (sv_man small_server) ''snap'' = Some (small_manifest ''snap'' small_ref)"
  by code_simp

lemma small_server_active: "active_snapshots (sv_db small_server) = [small_row 1 ''snap'']"
  by code_simp

lemma small_server_ids: "active_ids small_server = {''snap''}"
  by (simp add: active_ids_def small_server_active small_row_def)

lemma small_server_intact: "snapshot_intact plain_deps snap_man small_server ''snap'' (small_manifest ''snap'' small_ref)"
proof -
  have r: "ref_reads plain_deps (sv_files small_server) small_ref [3]" by code_simp
  have "manifest_json_ok (small_manifest ''snap'' small_ref)" "validate_manifest_id ''snap'' = Inr ()" by code_simp+
  moreover have "sm_id (small_manifest ''snap'' small_ref) = ''snap''" "sm_created (small_manifest ''snap'' small_ref) \<noteq> zero_time"
    "manifest_chunk_refs (small_manifest ''snap'' small_ref) = [small_ref]"
    by (simp_all add: small_manifest_def zero_time_def manifest_chunk_refs_def)
  ultimately show ?thesis
    using r plain_data_fits [of "[3]"] small_server_manifest
    by (auto simp: snapshot_intact_def manifest_named_def ref_held_def plain_deps_def)
qed

lemma small_server_live: "all_live plain_deps snap_man (active_ids small_server) small_server"
  using small_server_intact by (auto simp: all_live_def small_server_ids)

subsection \<open>Properties\<close>

text \<open>
  Property C3. A maintenance run, in whatever mode, with whatever failures and wherever it stops, keeps
  every snapshot that is still active: it was active before, its manifest is there with the same files
  and the same chunk hashes, and every chunk can be read. Nothing else than the place of chunks changes.
\<close>

theorem maintenance_keeps_snapshots:
  assumes "repo_inv d (sv_repo s)" and "deps_ok d" and "good_rand ev" and "good_clock ev" and "man_codec_laws c"
    and "all_live d c (active_ids s) s"
    and "compacts mode \<Longrightarrow> rewrite_fits ev d c cfg mode (start_report mode (now_of ev s) cfg) (s\<lparr>sv_locked := True\<rparr>)"
    and "run_storage_maintenance ev d c say opts cfg mode s = (r, t)"
    and "i \<in> active_ids t" and "snapshot_intact d c s i m"
  shows "i \<in> active_ids s \<and> (\<exists>k. snapshot_intact d c t i k \<and> same_content m k)"
  using run_maintenance_keeps [OF assms(1-8)] assms(9,10) unfolding run_keeps_def compacted_def by blast

definition small_run :: "string \<Rightarrow> (maint_report, (bytes \<times> bytes) list) maint_result" where
  "small_run mode = run_storage_maintenance still_env plain_deps snap_man (\<lambda>e. ''bad'') small_options small_config mode small_server"

definition cleaned_server :: "(bytes \<times> bytes) list server" where
  "cleaned_server = \<lparr>sv_db = empty_db\<lparr>db_snapshots := [small_row 1 ''snap''], db_step := 4\<rparr>,
     sv_repo = small_repo\<lparr>rp_seg := (rp_seg small_repo)\<lparr>sg_step := 14\<rparr>\<rparr>,
     sv_man = \<lparr>mn_dir = Some [(''snap.json'', MFile [1] 0)], mn_step = 3\<rparr>, sv_writers = 0, sv_locked = True\<rparr>"

abbreviation small_report :: maint_report where
  "small_report \<equiv> (start_report ''full-cleanup'' 0 small_config)\<lparr>mr_manifests := 1\<rparr>"

lemma run_retained: "retention_step still_env ''full-cleanup'' small_config (start_report ''full-cleanup'' 0 small_config)
    (small_server\<lparr>sv_locked := True\<rparr>) =
    (Inr (small_report, [small_row 1 ''snap'']), small_server\<lparr>sv_locked := True, sv_db := (sv_db small_server)\<lparr>db_step := Suc 0\<rparr>\<rparr>)"
  by code_simp

lemma run_cleaned: "cleanup_step still_env plain_deps snap_man ''full-cleanup'' small_config (small_report, [small_row 1 ''snap''])
    (small_server\<lparr>sv_locked := True, sv_db := (sv_db small_server)\<lparr>db_step := Suc 0\<rparr>\<rparr>) = (Inr (small_report, [small_row 1 ''snap'']), cleaned_server)"
  by code_simp

definition fresh_segment :: "string \<times> fnode" where
  "fresh_segment = (segment_name 2, FileNode (small_record 3 21))"

definition run_moved :: "(bytes \<times> bytes) list server" where
  "run_moved = (moved_server (moved_repo 1000 (sg_files (rp_seg small_repo) @ [fresh_segment]) 26 (moved_entry # tl (rp_db small_repo))) 5 11)\<lparr>sv_locked := True\<rparr>"

lemma run_rewritten: "compact_rewrite still_env plain_deps snap_man [small_row 1 ''snap''] cleaned_server = (Inr (Some moved_refs), run_moved)"
  by code_simp

definition run_removed :: "(bytes \<times> bytes) list server" where
  "run_removed = (moved_server (moved_repo 1000 [fresh_segment] 31 [moved_entry]) 10 11)\<lparr>sv_locked := True,
     sv_db := empty_db\<lparr>db_snapshots := [small_row 1 ''snap''], db_step := 10,
       db_journal := [\<lparr>jr_generation = 1, jr_hash = small_hash (CHR ''9''), jr_reason = ''compact'', jr_created = 0\<rparr>],
       db_meta := (db_meta empty_db)\<lparr>me_chunk_gen := 1\<rparr>\<rparr>\<rparr>"

abbreviation small_compaction :: compact_report where
  "small_compaction \<equiv> empty_compact_report\<lparr>co_rewritten := 1, co_bytes := 1, co_removed_chunks := 1, co_removed_segments := 1,
     co_removed_bytes := 234\<rparr>"

lemma run_removes: "compact_remove still_env plain_deps moved_refs run_moved = (Inr small_compaction, run_removed)"
  by code_simp

lemma run_listed: "on_db (list_active_snapshots still_env) run_removed =
    (Inr [small_row 1 ''snap''], run_removed\<lparr>sv_db := (sv_db run_removed)\<lparr>db_step := 11\<rparr>\<rparr>)"
  by code_simp

lemma run_counted: "case stats_step still_env plain_deps snap_man small_options
      (small_report\<lparr>mr_compact := small_compaction\<rparr>, [small_row 1 ''snap'']) (run_removed\<lparr>sv_db := (sv_db run_removed)\<lparr>db_step := 11\<rparr>\<rparr>) of
    (Inr p, t) \<Rightarrow> active_snapshots (sv_db t) = [small_row 1 ''snap''] \<and>
      manifest_at snap_man (sv_man t) ''snap'' = Some (small_manifest ''snap'' moved_ref) | (Inl e, t) \<Rightarrow> False"
  by code_simp

lemma small_now: "now_of still_env small_server = 0"
  by (simp add: now_of_def still_env_def)

lemma small_run_result:
  "active_snapshots (sv_db (snd (small_run ''full-cleanup''))) = [small_row 1 ''snap''] \<and>
   manifest_at snap_man (sv_man (snd (small_run ''full-cleanup''))) ''snap'' = Some (small_manifest ''snap'' moved_ref)"
proof -
  let ?full = "''full-cleanup''"
  obtain rep xs t where st: "stats_step still_env plain_deps snap_man small_options
      (small_report\<lparr>mr_compact := small_compaction\<rparr>, [small_row 1 ''snap'']) (run_removed\<lparr>sv_db := (sv_db run_removed)\<lparr>db_step := 11\<rparr>\<rparr>) = (Inr (rep, xs), t)"
    and t: "active_snapshots (sv_db t) = [small_row 1 ''snap'']" "manifest_at snap_man (sv_man t) ''snap'' = Some (small_manifest ''snap'' moved_ref)"
    using run_counted by (auto split: prod.splits sum.splits)
  have "compact_repository still_env plain_deps snap_man [small_row 1 ''snap''] cleaned_server = (Inr small_compaction, run_removed)"
    by (simp add: compact_repository_def run_rewritten run_removes)
  then have co: "compact_step still_env plain_deps snap_man ?full (small_report, [small_row 1 ''snap'']) cleaned_server =
      (Inr (small_report\<lparr>mr_compact := small_compaction\<rparr>, [small_row 1 ''snap'']), run_removed\<lparr>sv_db := (sv_db run_removed)\<lparr>db_step := 11\<rparr>\<rparr>)"
    by (simp add: compact_step_def compacts_def run_listed start_report_def)
  have "try_enter_compact small_server = Some (small_server\<lparr>sv_locked := True\<rparr>)"
    by (simp add: try_enter_compact_def small_server_def with_snapshots_def)
  then have "snd (small_run ?full) = t\<lparr>sv_locked := False\<rparr>"
    unfolding small_run_def run_storage_maintenance_def maintenance_steps_def small_now
    by (simp add: compacts_def maintenance_modes_def run_retained run_cleaned co st verify_step_def)
  then show ?thesis using t by simp
qed

lemma maintenance_keeps_snapshots_witness:
  "\<exists>k. snapshot_intact plain_deps snap_man (snd (small_run ''full-cleanup'')) ''snap'' k \<and>
     same_content (small_manifest ''snap'' small_ref) k \<and> map cr_segment (manifest_chunk_refs k) = [2]"
proof -
  let ?run = "snd (small_run ''full-cleanup'')"
  have fits: "files_fit_exec (sv_files run_moved)" by code_simp
  have fit: "rewrite_fits still_env plain_deps snap_man small_config ''full-cleanup''
      (start_report ''full-cleanup'' (now_of still_env small_server) small_config) (small_server\<lparr>sv_locked := True\<rparr>)"
    using files_fit_exec [OF fits] small_now by (simp add: rewrite_fits_def run_retained run_cleaned run_rewritten)
  have ids: "''snap'' \<in> active_ids ?run" by (simp add: active_ids_def small_run_result small_row_def)
  have run: "run_storage_maintenance still_env plain_deps snap_man (\<lambda>e. ''bad'') small_options small_config ''full-cleanup'' small_server =
      (fst (small_run ''full-cleanup''), ?run)" by (simp add: small_run_def)
  from maintenance_keeps_snapshots [OF small_server_inv plain_deps_ok still_env_ok snap_man_laws small_server_live fit run ids small_server_intact]
  obtain k where k: "snapshot_intact plain_deps snap_man ?run ''snap'' k" "same_content (small_manifest ''snap'' small_ref) k" by blast
  then have "k = small_manifest ''snap'' moved_ref"
    by (simp add: snapshot_intact_def manifest_named_def small_run_result)
  then show ?thesis using k by (auto simp: small_manifest_def manifest_chunk_refs_def moved_ref_def)
qed


text \<open>
  Property C4. A cleanup never takes anything from a snapshot that is active: whatever its outcome and
  its configuration, the manifests of the active snapshots stay, the index keeps an entry for each of
  their chunks, no segment is touched, and every entry of the index is still readable.
\<close>

theorem cleanup_keeps_live:
  assumes "repo_inv d (sv_repo s)" and "deps_ok d" and "cleanup_error_backup_data ev d c cfg active now s = (res, t)"
    and "x \<in> set active" and "manifest_at c (sv_man s) (sn_manifest x) = Some m"
  shows "manifest_at c (sv_man t) (sn_manifest x) = Some m \<and> sv_files t = sv_files s \<and> repo_inv d (sv_repo t) \<and>
    (\<forall>r \<in> set (manifest_chunk_refs m). cr_hash r \<noteq> [] \<longrightarrow> indexed d (sv_repo t) (cr_hash r) = indexed d (sv_repo s) (cr_hash r))"
  using cleanup_spares [OF assms(1,2), of c active ev cfg now] assms unfolding spares_def by simp

lemma cleanup_keeps_live_witness:
  "indexed plain_deps (sv_repo (snd (cleanup_error_backup_data still_env plain_deps snap_man (small_config\<lparr>mg_error_grace := Some 0\<rparr>)
      [small_row 1 ''snap''] 5 small_server))) (cr_hash small_ref) = Some small_ref \<and>
   indexed plain_deps (sv_repo (snd (cleanup_error_backup_data still_env plain_deps snap_man (small_config\<lparr>mg_error_grace := Some 0\<rparr>)
      [small_row 1 ''snap''] 5 small_server))) (hash_bytes plain_crypto [9]) = None"
proof -
  let ?run = "cleanup_error_backup_data still_env plain_deps snap_man (small_config\<lparr>mg_error_grace := Some 0\<rparr>) [small_row 1 ''snap''] 5 small_server"
  have gone: "indexed plain_deps (sv_repo (snd ?run)) (hash_bytes plain_crypto [9]) = None" by code_simp
  have ix: "indexed plain_deps (sv_repo small_server) (cr_hash small_ref) = Some small_ref" "cr_hash small_ref \<noteq> []" by code_simp+
  have at: "manifest_at snap_man (sv_man small_server) (sn_manifest (small_row 1 ''snap'')) = Some (small_manifest ''snap'' small_ref)"
    by (simp add: small_row_def small_server_manifest)
  have mem: "small_row 1 ''snap'' \<in> set [small_row 1 ''snap'']" "small_ref \<in> set (manifest_chunk_refs (small_manifest ''snap'' small_ref))"
    by (simp_all add: small_manifest_def manifest_chunk_refs_def)
  have "?run = (fst ?run, snd ?run)" by simp
  from cleanup_keeps_live [OF small_server_inv plain_deps_ok this mem(1) at] show ?thesis
    using gone ix mem(2) by simp
qed

text \<open>
  Property C5. When a verification of snapshots reports no error and references to the same chunk agree
  on its place, then every snapshot it was given can be restored: its manifest and all chunks of its
  regular files are readable, the sizes of the chunks add up to the size of the file, every pack is
  readable and decodes, and every packed file was read with the size of its entry.
\<close>

theorem verify_clean_restorable:
  assumes "verify_referenced_chunks ev d c say xs s = (rep, t)" and "vr_errors rep = []" and "x \<in> set xs"
    and "\<And>y z r q. y \<in> set xs \<Longrightarrow> z \<in> set xs \<Longrightarrow> r \<in> snapshot_refs c s y \<Longrightarrow> q \<in> snapshot_refs c s z \<Longrightarrow>
      cr_hash r = cr_hash q \<Longrightarrow> same_location r q"
  shows "\<exists>m. manifest_at c (sv_man s) (sn_manifest x) = Some m \<and>
    (\<forall>p \<in> set (sm_packs m). \<exists>ds ixs. list_all2 (repo_reads d (sv_repo s)) (pm_chunks p) ds \<and> decode_pack_index (concat ds) = Inr ixs) \<and>
    (\<forall>e \<in> set (sm_entries m).
       (fe_type e = EntryFile \<longrightarrow> original_sum (fe_chunks e) = fe_size e \<and>
          (\<forall>r \<in> set (fe_chunks e). \<exists>data. ref_reads d (sv_files s) r data)) \<and>
       (fe_type e = EntryPackedFile \<longrightarrow>
          (\<exists>u out. same_store (sv_repo s) u \<and> fst (read_packed_file ev d (Some m) e u) = Inr out \<and> int (length out) = fe_size e)))"
proof -
  obtain m w where m: "manifest_at c (sv_man s) (sn_manifest x) = Some m" "manifest_checked ev d (sv_repo s) m w"
    "\<forall>e \<in> set (sm_entries m). fe_type e = EntryFile \<longrightarrow> (\<forall>r \<in> set (fe_chunks e). \<exists>data. ref_reads d (sv_files s) r data)"
    using verified_snapshots [OF assms(1-3)] assms(4) by metis
  note packs = m(2) [unfolded manifest_checked_def pack_checked_def, THEN conjunct1]
  have entries: "entry_checked ev d (sv_repo s) m e w" if "e \<in> set (sm_entries m)" for e
    using m(2) that by (simp add: manifest_checked_def)
  show ?thesis
  proof (rule exI [of _ m], intro conjI ballI impI)
    fix e assume e: "e \<in> set (sm_entries m)"
    note ch = entries [OF e, unfolded entry_checked_def]
    show "original_sum (fe_chunks e) = fe_size e" if "fe_type e = EntryFile" using ch that by simp
    show "\<exists>data. ref_reads d (sv_files s) r data" if "fe_type e = EntryFile" "r \<in> set (fe_chunks e)" for r
      using m(3) e that by simp
    show "\<exists>u out. same_store (sv_repo s) u \<and> fst (read_packed_file ev d (Some m) e u) = Inr out \<and> int (length out) = fe_size e"
      if "fe_type e = EntryPackedFile"
      using ch [THEN conjunct1, THEN mp, OF that] .
  qed (use m(1) packs in auto)
qed

lemma verify_clean_restorable_witness:
  "\<exists>m data. manifest_at snap_man (sv_man small_server) ''snap'' = Some m \<and> fe_size (hd (sm_entries m)) = 1 \<and>
     ref_reads plain_deps (sv_files small_server) small_ref data"
proof -
  let ?run = "verify_referenced_chunks still_env plain_deps snap_man (\<lambda>e. ''bad'') [small_row 1 ''snap''] small_server"
  have clean: "vr_errors (fst ?run) = []" by code_simp
  have refs: "snapshot_refs snap_man small_server (small_row 1 ''snap'') = {small_ref}"
    by (simp add: snapshot_refs_def small_row_def small_server_manifest) (simp add: small_manifest_def manifest_chunk_refs_def)
  have one: "same_location r q" if "y \<in> set [small_row 1 ''snap'']" "z \<in> set [small_row 1 ''snap'']"
      "r \<in> snapshot_refs snap_man small_server y" "q \<in> snapshot_refs snap_man small_server z" "cr_hash r = cr_hash q" for y z r q
    using that refs by (simp add: same_location_def)
  have run: "?run = (fst ?run, snd ?run)" by simp
  have mem: "small_row 1 ''snap'' \<in> set [small_row 1 ''snap'']" by simp
  obtain m where m: "manifest_at snap_man (sv_man small_server) (sn_manifest (small_row 1 ''snap'')) = Some m"
      "\<forall>e \<in> set (sm_entries m). fe_type e = EntryFile \<longrightarrow> (\<forall>r \<in> set (fe_chunks e). \<exists>data. ref_reads plain_deps (sv_files small_server) r data)"
    by (rule exE [OF verify_clean_restorable [OF run clean mem one]]) auto
  then have "m = small_manifest ''snap'' small_ref" by (simp add: small_row_def small_server_manifest)
  then show ?thesis using m(2) small_server_manifest by (simp add: small_manifest_def)
qed

lemma stale_verified: "verify_referenced_chunks still_env plain_deps stale_man (\<lambda>e. ''bad'') [small_row 2 ''two'', small_row 1 ''one''] stale_server =
    (\<lparr>vr_verified = 1, vr_missing = 0, vr_corrupt = 0, vr_errors = []\<rparr>,
     stale_server\<lparr>sv_db := empty_db\<lparr>db_snapshots := [(small_row 1 ''one'')\<lparr>sn_health := ''healthy'', sn_verified := Some 0\<rparr>,
         (small_row 2 ''two'')\<lparr>sn_health := ''healthy'', sn_verified := Some 0\<rparr>], db_step := 2\<rparr>,
       sv_repo := small_repo\<lparr>rp_seg := (rp_seg small_repo)\<lparr>sg_step := 16\<rparr>\<rparr>, sv_man := (sv_man stale_server)\<lparr>mn_step := 2\<rparr>\<rparr>)"
  by code_simp

lemma read_back_same: "sg_files (rp_seg (sv_repo t)) = sg_files (rp_seg (sv_repo s)) \<Longrightarrow> mn_dir (sv_man t) = mn_dir (sv_man s) \<Longrightarrow>
    read_back c i t = read_back c i s"
proof -
  assume a: "sg_files (rp_seg (sv_repo t)) = sg_files (rp_seg (sv_repo s))" "mn_dir (sv_man t) = mn_dir (sv_man s)"
  have "man_lookup (sv_man t) = man_lookup (sv_man s)" by (rule ext) (simp add: man_lookup_def dir_of_def a(2))
  then have "manifest_at c (sv_man t) = manifest_at c (sv_man s)" by (rule manifest_at_cong)
  then show ?thesis using a(1) by (simp add: read_back_def cong: option.case_cong)
qed


end
