(* ===== verification/ChunkWire.thy ===== *)
theory ChunkWire
  imports ChunkStore ManifestCheck Maintenance
begin

text \<open>
  The upload of chunks, as the server sees it (\<open>internal/httpapi/server.go\<close>): the batch format, which
  the agent writes (\<open>newAgentChunkBatchBody\<close> of \<open>cmd/turbk-agent/chunk_batch.go\<close>) and the server reads,
  the admission of uploads, the queue that joins the writes of several requests, and the handlers that
  check and store chunks.
\<close>

subsection \<open>The batch format\<close>

record wire_chunk =
  wc_hash :: string
  wc_data :: bytes

definition batch_magic :: bytes where
  "batch_magic = [84, 66, 75, 67, 72, 66, 49, 10]"

fun batch_records :: "wire_chunk list \<Rightarrow> string + bytes" where
  "batch_records [] = Inr []"
| "batch_records (c # cs) =
     (case hex_decode (wc_hash c) of
        None \<Rightarrow> Inl (wc_hash c)
      | Some h \<Rightarrow>
          if length h \<noteq> 32 then Inl (wc_hash c)
          else rbind (batch_records cs) (\<lambda>r. Inr (h @ put_be64 (of_nat (length (wc_data c))) @ wc_data c @ r)))"

definition batch_body :: "wire_chunk list \<Rightarrow> string + bytes" where
  "batch_body cs = rbind (batch_records cs) (\<lambda>r. Inr (batch_magic @ put_be32 (of_nat (length cs)) @ r))"

definition batch_size :: "wire_chunk list \<Rightarrow> nat" where
  "batch_size cs = 12 + sum_list (map (\<lambda>c. 40 + length (wc_data c)) cs)"

text \<open>
  A request body is its bytes and whether the connection breaks after them. Behind \<open>MaxBytesReader\<close> a
  reader gets at most the bytes of the limit; what a read beyond the end reports is the same every
  time.
\<close>

record request_body =
  rb_bytes :: bytes
  rb_broken :: bool

datatype read_error = ReadTooLarge | ReadBroken | ReadEnd

datatype batch_part = PartMagic | PartCount | PartHash nat | PartLength nat | PartData nat | PartTrailer

datatype batch_error =
    BatchRead batch_part read_error
  | BatchBadMagic
  | BatchEmpty
  | BatchTooMany
  | BatchTooLong nat
  | BatchMismatch nat string string
  | BatchTrailing

definition read_end :: "nat \<Rightarrow> request_body \<Rightarrow> read_error" where
  "read_end mx b = (if mx < length (rb_bytes b) then ReadTooLarge else if rb_broken b then ReadBroken else ReadEnd)"

definition read_full :: "nat \<Rightarrow> batch_part \<Rightarrow> read_error \<Rightarrow> bytes \<Rightarrow> batch_error + bytes \<times> bytes" where
  "read_full n p e bs = (if n \<le> length bs then Inr (take n bs, drop n bs) else Inl (BatchRead p e))"

definition read_chunk_record :: "crypto \<Rightarrow> nat \<Rightarrow> read_error \<Rightarrow> nat \<Rightarrow> bytes \<Rightarrow> batch_error + wire_chunk \<times> bytes" where
  "read_chunk_record cy mx e i bs =
     rbind (read_full 32 (PartHash i) e bs) (\<lambda>(h, bs).
     rbind (read_full 8 (PartLength i) e bs) (\<lambda>(l, bs).
       let n = unat (get_be64 l)
       in if mx < n \<or> 9223372036854775807 < n then Inl (BatchTooLong i)
          else rbind (read_full n (PartData i) e bs) (\<lambda>(data, bs).
            if hash_bytes cy data \<noteq> hex_encode h then Inl (BatchMismatch i (hex_encode h) (hash_bytes cy data))
            else Inr (\<lparr>wc_hash = hex_encode h, wc_data = data\<rparr>, bs))))"

fun read_chunk_records ::
    "crypto \<Rightarrow> nat \<Rightarrow> read_error \<Rightarrow> nat \<Rightarrow> nat \<Rightarrow> bytes \<Rightarrow> batch_error + wire_chunk list \<times> bytes" where
  "read_chunk_records cy mx e i 0 bs = Inr ([], bs)"
| "read_chunk_records cy mx e i (Suc n) bs =
     rbind (read_chunk_record cy mx e i bs) (\<lambda>(c, bs).
     rbind (read_chunk_records cy mx e (Suc i) n bs) (\<lambda>(cs, bs). Inr (c # cs, bs)))"

definition body_limit :: "int \<Rightarrow> nat" where
  "body_limit mx = (if mx \<le> 0 then 67108864 else nat mx)"

definition count_limit :: "int \<Rightarrow> nat" where
  "count_limit n = unat (word_of_int (if n \<le> 0 then 10000 else n) :: u32)"

definition read_batch :: "crypto \<Rightarrow> int \<Rightarrow> int \<Rightarrow> request_body \<Rightarrow> batch_error + wire_chunk list" where
  "read_batch cy max_bytes max_chunks b =
     (let mx = body_limit max_bytes; e = read_end mx b
      in rbind (read_full 8 PartMagic e (take mx (rb_bytes b))) (\<lambda>(m, bs).
         if m \<noteq> batch_magic then Inl BatchBadMagic
         else rbind (read_full 4 PartCount e bs) (\<lambda>(cb, bs).
           let n = unat (get_be32 cb)
           in if n = 0 then Inl BatchEmpty
              else if count_limit max_chunks < n then Inl BatchTooMany
              else rbind (read_chunk_records cy mx e 0 n bs) (\<lambda>(cs, bs).
                if bs \<noteq> [] then Inl BatchTrailing
                else if e \<noteq> ReadEnd then Inl (BatchRead PartTrailer e)
                else Inr cs))))"

subsection \<open>The format is read as it is written\<close>

lemma be_decode_inj: "length xs = length ys \<Longrightarrow> be_decode xs = be_decode ys \<Longrightarrow> xs = ys"
proof (induction xs ys rule: list_induct2)
  case Nil
  then show ?case by simp
next
  case (Cons x xs y ys)
  let ?p = "(256 :: nat) ^ length xs"
  have e: "unat x * ?p + be_decode xs = unat y * ?p + be_decode ys" using Cons.prems Cons.hyps by (simp add: be_decode_Cons)
  have l: "be_decode xs < ?p" "be_decode ys < ?p" using be_decode_less [of xs] be_decode_less [of ys] Cons.hyps by auto
  have "unat x = unat y" using arg_cong [OF e, of "\<lambda>n. n div ?p"] l by simp
  moreover have "be_decode xs = be_decode ys" using arg_cong [OF e, of "\<lambda>n. n mod ?p"] l by simp
  ultimately show ?case using Cons.IH by (simp add: word_unat_eq_iff)
qed

lemma be_encode_decode: "be_encode (length bs) (be_decode bs) = bs"
  by (rule be_decode_inj) (simp_all add: be_decode_encode be_decode_less)

lemma put_get_be64: "length bs = 8 \<Longrightarrow> put_be64 (get_be64 bs) = bs"
  using be_encode_decode [of bs] be_decode_less [of bs] by (simp add: put_be64_def get_be64_def unat_of_nat)

lemma put_get_be32: "length bs = 4 \<Longrightarrow> put_be32 (get_be32 bs) = bs"
  using be_encode_decode [of bs] be_decode_less [of bs] by (simp add: put_be32_def get_be32_def unat_of_nat)

lemma length_batch_records: "batch_records cs = Inr r \<Longrightarrow> length r + 12 = batch_size cs"
proof (induction cs arbitrary: r)
  case Nil
  then show ?case by (simp add: batch_size_def)
next
  case (Cons c cs)
  then show ?case by (fastforce simp: batch_size_def result_simps split: option.splits if_splits)
qed

lemma length_batch_body: "batch_body cs = Inr b \<Longrightarrow> length b = batch_size cs"
  using length_batch_records by (fastforce simp: batch_body_def batch_magic_def result_simps)

lemma read_full_Inr: "read_full n p e bs = Inr (x, y) \<longleftrightarrow> n \<le> length bs \<and> x = take n bs \<and> y = drop n bs"
  by (auto simp: read_full_def)

lemma read_full_append: "length x = n \<Longrightarrow> read_full n p e (x @ y) = Inr (x, y)"
  by (simp add: read_full_def)

text \<open>A record that is accepted is the encoding of the chunk, and the chunk has the hash it names.\<close>

lemma read_record_canonical:
  assumes "read_chunk_record cy mx e i bs = Inr (c, rest)"
  shows "\<exists>h. length h = 32 \<and> wc_hash c = hex_encode h \<and> hash_bytes cy (wc_data c) = wc_hash c \<and>
    bs = h @ put_be64 (of_nat (length (wc_data c))) @ wc_data c @ rest"
proof -
  obtain h bs1 where h: "read_full 32 (PartHash i) e bs = Inr (h, bs1)" using assms by (auto simp: read_chunk_record_def result_simps)
  obtain l bs2 where l: "read_full 8 (PartLength i) e bs1 = Inr (l, bs2)"
    using assms by (auto simp: read_chunk_record_def result_simps h)
  let ?n = "unat (get_be64 l)"
  obtain data where d: "read_full ?n (PartData i) e bs2 = Inr (data, rest)" "hash_bytes cy data = hex_encode h"
      "c = \<lparr>wc_hash = hex_encode h, wc_data = data\<rparr>"
    using assms by (auto simp: read_chunk_record_def h l Let_def result_simps split: if_splits)
  have "length l = 8" "bs1 = l @ bs2" using l by (auto simp: read_full_Inr)
  moreover have "length data = ?n" "bs2 = data @ rest" using d(1) by (auto simp: read_full_Inr)
  moreover have "length h = 32" "bs = h @ bs1" using h by (auto simp: read_full_Inr)
  moreover have "put_be64 (get_be64 l) = l" using \<open>length l = 8\<close> by (rule put_get_be64)
  ultimately show ?thesis using d by (auto intro!: exI [of _ h])
qed

lemma read_records_canonical:
  "read_chunk_records cy mx e i n bs = Inr (cs, rest) \<Longrightarrow>
   length cs = n \<and> (\<forall>c \<in> set cs. hash_bytes cy (wc_data c) = wc_hash c) \<and> (\<exists>r. batch_records cs = Inr r \<and> bs = r @ rest)"
proof (induction n arbitrary: i bs cs)
  case 0
  then show ?case by simp
next
  case (Suc n)
  then obtain c bs1 cs1 where c: "read_chunk_record cy mx e i bs = Inr (c, bs1)"
    and cs: "read_chunk_records cy mx e (Suc i) n bs1 = Inr (cs1, rest)" "cs = c # cs1"
    by (auto simp: result_simps)
  then show ?case using read_record_canonical [OF c] Suc.IH [OF cs(1)] by auto
qed

lemma read_batch_canonical:
  assumes "read_batch cy mb mc b = Inr cs"
  shows "batch_body cs = Inr (rb_bytes b) \<and> 0 < length cs \<and> length cs \<le> count_limit mc \<and> batch_size cs \<le> body_limit mb \<and>
    (\<forall>c \<in> set cs. hash_bytes cy (wc_data c) = wc_hash c) \<and> \<not> rb_broken b"
proof -
  let ?mx = "body_limit mb" and ?e = "read_end (body_limit mb) b"
  obtain m bs where m: "read_full 8 PartMagic ?e (take ?mx (rb_bytes b)) = Inr (m, bs)" "m = batch_magic"
    using assms by (auto simp: read_batch_def Let_def result_simps split: if_splits)
  obtain cb bs1 where cb: "read_full 4 PartCount ?e bs = Inr (cb, bs1)"
    using assms m by (auto simp: read_batch_def Let_def result_simps split: if_splits)
  let ?n = "unat (get_be32 cb)"
  have n: "?n \<noteq> 0" "?n \<le> count_limit mc" and e: "?e = ReadEnd" and cs: "read_chunk_records cy ?mx ?e 0 ?n bs1 = Inr (cs, [])"
    using assms m cb by (auto simp: read_batch_def Let_def result_simps split: if_splits)
  obtain r where r: "length cs = ?n" "\<forall>c \<in> set cs. hash_bytes cy (wc_data c) = wc_hash c" "batch_records cs = Inr r" "bs1 = r"
    using read_records_canonical [OF cs] by auto
  have fit: "length (rb_bytes b) \<le> ?mx" "\<not> rb_broken b" using e by (auto simp: read_end_def split: if_splits)
  have "rb_bytes b = m @ bs" using m fit by (auto simp: read_full_Inr simp del: append_take_drop_id) (metis append_take_drop_id)
  moreover have "bs = cb @ r" using cb r by (auto simp: read_full_Inr simp del: append_take_drop_id) (metis append_take_drop_id)
  ultimately have "rb_bytes b = m @ cb @ r" by simp
  moreover have "length cb = 4" using cb by (auto simp: read_full_Inr)
  then have "put_be32 (of_nat (length cs)) = cb" using r(1) put_get_be32 [of cb] by simp
  ultimately have body: "batch_body cs = Inr (rb_bytes b)" using r m by (simp add: batch_body_def)
  then show ?thesis using r n fit length_batch_body [OF body] by simp
qed

lemma read_records_written:
  assumes "batch_records cs = Inr r" and "\<forall>c \<in> set cs. hash_bytes cy (wc_data c) = wc_hash c \<and> length (wc_data c) \<le> mx"
    and "mx \<le> 9223372036854775807"
  shows "read_chunk_records cy mx e i (length cs) (r @ rest) = Inr (cs, rest)"
  using assms
proof (induction cs arbitrary: r i)
  case Nil
  then show ?case by simp
next
  case (Cons c cs)
  then obtain h r1 where h: "hex_decode (wc_hash c) = Some h" "length h = 32" and r1: "batch_records cs = Inr r1"
    and r: "r = h @ put_be64 (of_nat (length (wc_data c))) @ wc_data c @ r1"
    by (auto simp: result_simps split: option.splits if_splits)
  have eq: "hash_bytes cy (wc_data c) = wc_hash c" using Cons.prems by simp
  then have hx: "hex_encode h = wc_hash c"
    using h(1) by (simp add: hash_bytes_def) (metis hex_decode_encode option.inject)
  have n: "unat (of_nat (length (wc_data c)) :: u64) = length (wc_data c)"
    using Cons.prems by (simp add: unat_of_nat)
  have "read_chunk_record cy mx e i (r @ rest) = Inr (c, r1 @ rest)"
    using Cons.prems h(2) eq hx n by (simp add: r read_chunk_record_def read_full_append Let_def)
  then show ?case using Cons.IH [OF r1] Cons.prems by simp
qed

lemma read_batch_written:
  assumes "batch_body cs = Inr b" and "cs \<noteq> []" and "length cs \<le> count_limit mc" and "length b \<le> body_limit mb"
    and "body_limit mb \<le> 9223372036854775807" and "\<forall>c \<in> set cs. hash_bytes cy (wc_data c) = wc_hash c"
  shows "read_batch cy mb mc \<lparr>rb_bytes = b, rb_broken = False\<rparr> = Inr cs"
proof -
  obtain r where r: "batch_records cs = Inr r" "b = batch_magic @ put_be32 (of_nat (length cs)) @ r"
    using assms(1) by (auto simp: batch_body_def result_simps)
  have size: "length b = batch_size cs" by (rule length_batch_body [OF assms(1)])
  have "length (wc_data c) \<le> body_limit mb" if "c \<in> set cs" for c
  proof -
    have "40 + length (wc_data c) \<le> sum_list (map (\<lambda>c. 40 + length (wc_data c)) cs)" using that by (intro member_le_sum_list) auto
    then show ?thesis using size assms(4) by (simp add: batch_size_def)
  qed
  then have rec: "read_chunk_records cy (body_limit mb) ReadEnd 0 (length cs) (r @ []) = Inr (cs, [])"
    using read_records_written [OF r(1), of cy "body_limit mb" ReadEnd 0 "[]"] assms(5,6) by simp
  have "count_limit mc < 2 ^ 32" unfolding count_limit_def by (rule unat_u32_less)
  then have n: "unat (of_nat (length cs) :: u32) = length cs" using assms(3) by (simp add: unat_of_nat)
  have "length batch_magic = 8" by (simp add: batch_magic_def)
  then show ?thesis
    using assms(2,3,4) rec n by (simp add: read_batch_def r(2) read_end_def read_full_append Let_def)
qed

text \<open>
  Property C18. The server reads a batch of chunks exactly when it is what the agent writes: the body
  that \<open>newAgentChunkBatchBody\<close> makes of chunks with right hashes is read back as these chunks if it
  keeps the limits, and whatever bytes the server accepts are the body of the chunks it takes from
  them, whose data have the hashes that the body names, and which keep the limits.
\<close>

theorem batch_round_trip:
  assumes "0 < mb" and "mb < 2 ^ 63" and "\<not> rb_broken b"
  shows "read_batch cy mb mc b = Inr cs \<longleftrightarrow>
    batch_body cs = Inr (rb_bytes b) \<and> cs \<noteq> [] \<and> length cs \<le> count_limit mc \<and> int (batch_size cs) \<le> mb \<and>
    list_all (\<lambda>c. hash_bytes cy (wc_data c) = wc_hash c) cs"
proof
  have mx: "body_limit mb = nat mb" using assms(1) by (simp add: body_limit_def)
  show "batch_body cs = Inr (rb_bytes b) \<and> cs \<noteq> [] \<and> length cs \<le> count_limit mc \<and> int (batch_size cs) \<le> mb \<and>
    list_all (\<lambda>c. hash_bytes cy (wc_data c) = wc_hash c) cs" if r: "read_batch cy mb mc b = Inr cs"
    using read_batch_canonical [OF r] assms(1) mx by (auto simp: list_all_iff)
  assume a: "batch_body cs = Inr (rb_bytes b) \<and> cs \<noteq> [] \<and> length cs \<le> count_limit mc \<and> int (batch_size cs) \<le> mb \<and>
    list_all (\<lambda>c. hash_bytes cy (wc_data c) = wc_hash c) cs"
  have eq: "\<lparr>rb_bytes = rb_bytes b, rb_broken = False\<rparr> = b" using assms(3) by simp
  have "length (rb_bytes b) \<le> body_limit mb" using a assms(1) mx length_batch_body [of cs] by auto
  then have "read_batch cy mb mc \<lparr>rb_bytes = rb_bytes b, rb_broken = False\<rparr> = Inr cs"
    using a assms mx by (intro read_batch_written) (auto simp: list_all_iff)
  then show "read_batch cy mb mc b = Inr cs" by (simp only: eq)
qed

definition two_wire_chunks :: "wire_chunk list" where
  "two_wire_chunks = map (\<lambda>d. \<lparr>wc_hash = hash_bytes plain_crypto d, wc_data = d\<rparr>) [[3], [7, 7]]"

lemma batch_round_trip_witness:
  "\<exists>b. batch_body two_wire_chunks = Inr b \<and> length b = 95 \<and>
     read_batch plain_crypto 95 2 \<lparr>rb_bytes = b, rb_broken = False\<rparr> = Inr two_wire_chunks"
proof -
  have a: "case batch_body two_wire_chunks of Inr b \<Rightarrow> length b = 95 | Inl e \<Rightarrow> False" by code_simp
  then obtain b where b: "batch_body two_wire_chunks = Inr b" "length b = 95" by (auto split: sum.splits)
  have ok: "two_wire_chunks \<noteq> [] \<and> length two_wire_chunks \<le> count_limit 2 \<and> int (batch_size two_wire_chunks) \<le> 95 \<and>
      list_all (\<lambda>c. hash_bytes plain_crypto (wc_data c) = wc_hash c) two_wire_chunks" by code_simp
  show ?thesis
    using batch_round_trip [of 95 "\<lparr>rb_bytes = b, rb_broken = False\<rparr>" plain_crypto 2 two_wire_chunks] b ok by auto
qed

end
