(* ===== verification/UploadServer.thy ===== *)
theory UploadServer
  imports ChunkWire "HOL-Library.AList"
begin

text \<open>
  What the server does with uploads (\<open>internal/httpapi/server.go\<close>): the admission of requests, the
  queue that joins the writes of several requests, the division of a request into sub-batches, and the
  handlers that answer which chunks exist, store a batch and store a single chunk. The handlers start
  where the agent is authenticated and its run is known to be active.
\<close>

datatype upload_error =
    UpNoLength
  | UpTooLarge
  | UpTooManyRequests
  | UpTooManyBytes
  | UpGlobalBytes
  | UpBatch batch_error
  | UpDb db_error
  | UpRepo repo_error
  | UpMaintenance
  | UpQueueFull
  | UpQueueClosed
  | UpCanceled
  | UpResultCount nat nat
  | UpRefMismatch string string
  | UpTooManyHashes
  | UpRepositoryChanged string
  | UpBadHash string
  | UpBodyFailed
  | UpHashMismatch string string

text \<open>The HTTP status of an error.\<close>

definition upload_status :: "upload_error \<Rightarrow> int" where
  "upload_status e =
     (case e of
        UpNoLength \<Rightarrow> 411
      | UpTooLarge \<Rightarrow> 413
      | UpTooManyRequests \<Rightarrow> 429
      | UpTooManyBytes \<Rightarrow> 429
      | UpGlobalBytes \<Rightarrow> 429
      | UpQueueFull \<Rightarrow> 429
      | UpBatch b \<Rightarrow> (case b of BatchRead p r \<Rightarrow> (if r = ReadTooLarge then 413 else 400) | _ \<Rightarrow> 400)
      | UpMaintenance \<Rightarrow> 409
      | UpRepositoryChanged i \<Rightarrow> 409
      | UpTooManyHashes \<Rightarrow> 400
      | UpBadHash h \<Rightarrow> 400
      | UpBodyFailed \<Rightarrow> 400
      | UpHashMismatch a b \<Rightarrow> 400
      | _ \<Rightarrow> 500)"

subsection \<open>Admission\<close>

text \<open>
  The uploads in flight: requests and bytes of each agent, and the bytes of all. The limits come from
  the configuration, where \<open>None\<close> is a size that does not parse.
\<close>

record admission_limits =
  al_requests :: int
  al_bytes :: int
  al_global :: int

record admission =
  ad_agents :: "(int \<times> int \<times> int) list"
  ad_global :: int

definition size_or :: "int \<Rightarrow> int option \<Rightarrow> int" where
  "size_or n v = (case v of None \<Rightarrow> n | Some x \<Rightarrow> if x \<le> 0 then n else x)"

definition new_admission :: "int option \<Rightarrow> int option \<Rightarrow> int \<Rightarrow> admission_limits \<times> admission" where
  "new_admission per_agent global requests =
     (\<lparr>al_requests = (if requests \<le> 0 then 2 else requests), al_bytes = size_or 268435456 per_agent,
        al_global = size_or 1073741824 global\<rparr>,
      \<lparr>ad_agents = [], ad_global = 0\<rparr>)"

definition agent_load :: "admission \<Rightarrow> int \<Rightarrow> int \<times> int" where
  "agent_load s a = (case map_of (ad_agents s) a of None \<Rightarrow> (0, 0) | Some l \<Rightarrow> l)"

definition acquire_upload :: "admission_limits \<Rightarrow> int \<Rightarrow> int \<Rightarrow> admission \<Rightarrow> (upload_error + unit) \<times> admission" where
  "acquire_upload lm a n s =
     (if n < 0 then (Inl UpNoLength, s)
      else if al_bytes lm < n \<or> al_global lm < n then (Inl UpTooLarge, s)
      else case agent_load s a of (rq, bs) \<Rightarrow>
        let s1 = s\<lparr>ad_agents := AList.update a (rq, bs) (ad_agents s)\<rparr>
        in if al_requests lm \<le> rq then (Inl UpTooManyRequests, s1)
           else if al_bytes lm < wrap64 (bs + n) then (Inl UpTooManyBytes, s1)
           else if al_global lm < wrap64 (ad_global s + n) then (Inl UpGlobalBytes, s1)
           else (Inr (), \<lparr>ad_agents = AList.update a (rq + 1, bs + n) (ad_agents s), ad_global = ad_global s + n\<rparr>))"

text \<open>The function that \<open>acquire\<close> returns takes effect once; it is called for the upload it was made for.\<close>

definition release_upload :: "int \<Rightarrow> int \<Rightarrow> admission \<Rightarrow> admission" where
  "release_upload a n s =
     (let agents = (case map_of (ad_agents s) a of
                      None \<Rightarrow> ad_agents s
                    | Some (rq, bs) \<Rightarrow>
                        if rq - 1 \<le> 0 \<and> bs - n \<le> 0 then AList.delete a (ad_agents s)
                        else AList.update a (rq - 1, bs - n) (ad_agents s))
      in \<lparr>ad_agents = agents, ad_global = (if ad_global s - n < 0 then 0 else ad_global s - n)\<rparr>)"

definition admission_snapshot :: "admission \<Rightarrow> int \<times> int \<times> int" where
  "admission_snapshot s =
     (sum_list (map (\<lambda>(a, rq, bs). rq) (ad_agents s)), sum_list (map (\<lambda>(a, rq, bs). bs) (ad_agents s)), ad_global s)"

text \<open>The states a server goes through, with the uploads that are in flight: their agents and sizes.\<close>

inductive admitted :: "admission_limits \<Rightarrow> (int \<times> int) list \<Rightarrow> admission \<Rightarrow> bool" for lm where
  start: "admitted lm [] \<lparr>ad_agents = [], ad_global = 0\<rparr>"
| accept: "admitted lm ts s \<Longrightarrow> acquire_upload lm a n s = (Inr u, t) \<Longrightarrow> admitted lm ((a, n) # ts) t"
| refuse: "admitted lm ts s \<Longrightarrow> acquire_upload lm a n s = (Inl e, t) \<Longrightarrow> admitted lm ts t"
| finish: "admitted lm (xs @ (a, n) # ys) s \<Longrightarrow> admitted lm (xs @ ys) (release_upload a n s)"

definition load_of :: "(int \<times> int) list \<Rightarrow> int \<Rightarrow> int \<times> int" where
  "load_of ts a = (int (length (filter (\<lambda>t. fst t = a) ts)), sum_list (map snd (filter (\<lambda>t. fst t = a) ts)))"

definition total_load :: "(int \<times> int) list \<Rightarrow> int" where
  "total_load ts = sum_list (map snd ts)"

definition limits_ok :: "admission_limits \<Rightarrow> bool" where
  "limits_ok lm \<longleftrightarrow> 0 < al_requests lm \<and> 0 < al_bytes lm \<and> al_bytes lm < 2 ^ 62 \<and> 0 < al_global lm \<and> al_global lm < 2 ^ 62"

definition admission_inv :: "admission_limits \<Rightarrow> (int \<times> int) list \<Rightarrow> admission \<Rightarrow> bool" where
  "admission_inv lm ts s \<longleftrightarrow>
     (\<forall>a. agent_load s a = load_of ts a) \<and> ad_global s = total_load ts \<and> list_all (\<lambda>t. 0 \<le> snd t) ts \<and>
     (\<forall>a. fst (load_of ts a) \<le> al_requests lm \<and> snd (load_of ts a) \<le> al_bytes lm) \<and> total_load ts \<le> al_global lm"

lemma load_of_Cons: "load_of ((a, n) # ts) b = (if b = a then (fst (load_of ts a) + 1, snd (load_of ts a) + n) else load_of ts b)"
  by (auto simp: load_of_def)

lemma load_of_remove:
  "load_of (xs @ ys) b = (if b = a then (fst (load_of (xs @ (a, n) # ys) a) - 1, snd (load_of (xs @ (a, n) # ys) a) - n)
    else load_of (xs @ (a, n) # ys) b)"
  by (auto simp: load_of_def)

lemma agent_load_update [simp]:
  "agent_load (s\<lparr>ad_agents := AList.update a l (ad_agents s)\<rparr>) b = (if b = a then l else agent_load s b)"
  "agent_load \<lparr>ad_agents = AList.update a l xs, ad_global = g\<rparr> b = (if b = a then l else agent_load \<lparr>ad_agents = xs, ad_global = g\<rparr> b)"
  by (simp_all add: agent_load_def update_conv')

lemma load_nonneg: "list_all (\<lambda>t. 0 \<le> snd t) ts \<Longrightarrow> 0 \<le> fst (load_of ts a) \<and> 0 \<le> snd (load_of ts a) \<and> snd (load_of ts a) \<le> total_load ts"
  by (induction ts) (auto simp: load_of_def total_load_def)

text \<open>Whether an upload is let in, in terms of those in flight.\<close>

lemma acquire_exact:
  assumes "admission_inv lm ts s" and "limits_ok lm"
  shows "(\<exists>t. acquire_upload lm a n s = (Inr (), t)) \<longleftrightarrow>
     0 \<le> n \<and> fst (load_of ts a) < al_requests lm \<and> snd (load_of ts a) + n \<le> al_bytes lm \<and> total_load ts + n \<le> al_global lm"
proof -
  have l: "agent_load s a = load_of ts a" "ad_global s = total_load ts" using assms(1) by (auto simp: admission_inv_def)
  have nn: "0 \<le> snd (load_of ts a)" "snd (load_of ts a) \<le> total_load ts" "snd (load_of ts a) \<le> al_bytes lm" "total_load ts \<le> al_global lm"
    using assms(1) load_nonneg [of ts a] by (auto simp: admission_inv_def)
  have w: "wrap64 (snd (load_of ts a) + n) = snd (load_of ts a) + n" "wrap64 (total_load ts + n) = total_load ts + n"
    if "0 \<le> n" "n \<le> al_bytes lm" "n \<le> al_global lm"
    using that nn assms(2) by (auto simp: limits_ok_def int64_def intro!: wrap64_id)
  show ?thesis
    using nn w unfolding acquire_upload_def l
    by (cases "load_of ts a") (auto simp: Let_def)
qed

lemma acquire_accepts:
  assumes "admission_inv lm ts s" and "limits_ok lm" and "acquire_upload lm a n s = (Inr u, t)"
  shows "admission_inv lm ((a, n) # ts) t"
proof -
  have ex: "0 \<le> n" "fst (load_of ts a) < al_requests lm" "snd (load_of ts a) + n \<le> al_bytes lm" "total_load ts + n \<le> al_global lm"
    using acquire_exact [OF assms(1,2), of a n] assms(3) by auto
  have l: "agent_load s b = load_of ts b" "ad_global s = total_load ts" for b using assms(1) by (auto simp: admission_inv_def)
  have t: "t = \<lparr>ad_agents = AList.update a (fst (load_of ts a) + 1, snd (load_of ts a) + n) (ad_agents s), ad_global = ad_global s + n\<rparr>"
    using assms(3) by (auto simp: acquire_upload_def l Let_def split: if_splits prod.splits)
  have "agent_load \<lparr>ad_agents = ad_agents s, ad_global = g\<rparr> b = load_of ts b" for g b using l(1) [of b] by (simp add: agent_load_def)
  then show ?thesis using assms(1) ex l(2) by (auto simp: t admission_inv_def load_of_Cons total_load_def)
qed

lemma acquire_refuses:
  assumes "admission_inv lm ts s" and "acquire_upload lm a n s = (Inl e, t)"
  shows "admission_inv lm ts t"
proof -
  have "(\<forall>b. agent_load t b = agent_load s b) \<and> ad_global t = ad_global s"
    using assms(2) by (auto simp: acquire_upload_def Let_def split: if_splits prod.splits)
  then show ?thesis using assms(1) by (simp add: admission_inv_def)
qed

lemma release_keeps:
  assumes "admission_inv lm (xs @ (a, n) # ys) s"
  shows "admission_inv lm (xs @ ys) (release_upload a n s)"
proof -
  let ?ts = "xs @ (a, n) # ys" and ?us = "xs @ ys"
  have l: "agent_load s b = load_of ?ts b" "ad_global s = total_load ?ts" and nn: "list_all (\<lambda>t. 0 \<le> snd t) ?ts"
    and lim: "fst (load_of ?ts b) \<le> al_requests lm" "snd (load_of ?ts b) \<le> al_bytes lm" "total_load ?ts \<le> al_global lm" for b
    using assms by (auto simp: admission_inv_def)
  have n: "0 \<le> n" "list_all (\<lambda>t. 0 \<le> snd t) ?us" using nn by auto
  have rem: "load_of ?us b = (if b = a then (fst (load_of ?ts a) - 1, snd (load_of ?ts a) - n) else load_of ?ts b)" for b
    by (rule load_of_remove)
  have pos: "0 < fst (load_of ?ts a)" by (simp add: load_of_def)
  then obtain rq bs where m: "map_of (ad_agents s) a = Some (rq, bs)" "load_of ?ts a = (rq, bs)"
    using l(1) [of a] by (cases "load_of ?ts a") (auto simp: agent_load_def split: option.splits)
  have us: "0 \<le> fst (load_of ?us a)" "0 \<le> snd (load_of ?us a)" using load_nonneg [OF n(2)] by auto
  have tot: "total_load ?us = total_load ?ts - n" "0 \<le> total_load ?us" using load_nonneg [OF n(2), of a] by (auto simp: total_load_def)
  have zero: "load_of ?us a = (0, 0)" if "rq - 1 \<le> 0" "bs - n \<le> 0"
    using that us rem [of a] m(2) by simp
  have load: "agent_load (release_upload a n s) b = load_of ?us b" for b
  proof (cases "rq - 1 \<le> 0 \<and> bs - n \<le> 0")
    case True
    then show ?thesis using m zero rem [of b] l(1) [of b]
      by (auto simp: release_upload_def Let_def agent_load_def delete_conv' split: option.splits)
  next
    case False
    then show ?thesis using m rem [of b] l(1) [of b]
      by (auto simp: release_upload_def Let_def agent_load_def update_conv' split: option.splits)
  qed
  have glob: "ad_global (release_upload a n s) = total_load ?us" using l(2) tot by (simp add: release_upload_def Let_def)
  have lim': "fst (load_of ?us b) \<le> al_requests lm \<and> snd (load_of ?us b) \<le> al_bytes lm" for b
    using lim(1,2) [of b] n(1) rem [of b] by (auto split: if_splits)
  show ?thesis using load glob n(2) lim' tot lim(3) n(1) by (simp add: admission_inv_def)
qed

lemma admitted_inv: "admitted lm ts s \<Longrightarrow> limits_ok lm \<Longrightarrow> admission_inv lm ts s"
proof (induction rule: admitted.induct)
  case start
  then show ?case by (simp add: admission_inv_def agent_load_def load_of_def total_load_def limits_ok_def)
next
  case (accept ts s a n u t)
  then show ?case using acquire_accepts by blast
next
  case (refuse ts s a n e t)
  then show ?case using acquire_refuses by blast
next
  case (finish xs a n ys s)
  then show ?case using release_keeps by blast
qed

text \<open>
  Property C17. However uploads start, are refused and end, those in flight stay within the limits: per
  agent in number and in bytes, and in bytes altogether. And an upload is let in whenever it fits:
  nothing that ended, and nothing that was refused, counts against it.
\<close>

theorem admission_exact:
  assumes "admitted lm ts s" and "limits_ok lm"
  shows "fst (load_of ts a) \<le> al_requests lm \<and> snd (load_of ts a) \<le> al_bytes lm \<and> total_load ts \<le> al_global lm \<and>
    ((\<exists>t. acquire_upload lm a n s = (Inr (), t)) \<longleftrightarrow>
       0 \<le> n \<and> fst (load_of ts a) < al_requests lm \<and> snd (load_of ts a) + n \<le> al_bytes lm \<and> total_load ts + n \<le> al_global lm)"
  using admitted_inv [OF assms] acquire_exact [OF admitted_inv [OF assms] assms(2)] by (simp add: admission_inv_def)

definition small_limits :: admission_limits where
  "small_limits = \<lparr>al_requests = 1, al_bytes = 10, al_global = 15\<rparr>"

lemma admission_exact_witness:
  "\<exists>s. admitted small_limits [(2, 8)] s \<and> acquire_upload small_limits 2 1 s = (Inl UpTooManyRequests, s) \<and>
     acquire_upload small_limits 3 8 s \<noteq> (Inr (), s) \<and> (\<exists>t. acquire_upload small_limits 3 7 s = (Inr (), t))"
proof -
  let ?s1 = "\<lparr>ad_agents = [(1, 1, 9)], ad_global = 9\<rparr> :: admission"
  let ?s2 = "\<lparr>ad_agents = [(1, 1, 9), (2, 0, 0)], ad_global = 9\<rparr> :: admission"
  let ?s3 = "\<lparr>ad_agents = [(2, 0, 0)], ad_global = 0\<rparr> :: admission"
  let ?s4 = "\<lparr>ad_agents = [(2, 1, 8)], ad_global = 8\<rparr> :: admission"
  have e: "acquire_upload small_limits 1 9 \<lparr>ad_agents = [], ad_global = 0\<rparr> = (Inr (), ?s1)"
    "acquire_upload small_limits 2 8 ?s1 = (Inl UpGlobalBytes, ?s2)" "release_upload 1 9 ?s2 = ?s3"
    "acquire_upload small_limits 2 8 ?s3 = (Inr (), ?s4)" "acquire_upload small_limits 2 1 ?s4 = (Inl UpTooManyRequests, ?s4)"
    "fst (acquire_upload small_limits 3 8 ?s4) \<noteq> Inr ()"
    by code_simp+
  have "admitted small_limits ([] @ (1, 9) # []) ?s2"
    using admitted.refuse [OF admitted.accept [OF admitted.start e(1)] e(2)] by simp
  then have "admitted small_limits [] ?s3" using admitted.finish [of small_limits "[]" 1 9 "[]" ?s2] e(3) by simp
  then have r: "admitted small_limits [(2, 8)] ?s4" using e(4) by (rule admitted.accept)
  have ok: "limits_ok small_limits" by code_simp
  have "\<exists>t. acquire_upload small_limits 3 7 ?s4 = (Inr (), t)"
    using admission_exact [OF r ok, of 3 7] by (simp add: load_of_def total_load_def small_limits_def)
  then show ?thesis using r e(5,6) by (intro exI [of _ ?s4]) auto
qed

subsection \<open>The write queue\<close>

text \<open>
  A request waits in the queue with its chunks until the worker takes it; \<open>wq_canceled\<close> says whether its
  context is done when the worker gets to it. The answers of a batch are those that the requests
  receive, in the order of the batch.
\<close>

record write_request =
  wq_chunks :: "bytes list"
  wq_canceled :: bool

record write_queue =
  wt_waiting :: "write_request list"
  wt_requests :: int
  wt_bytes :: int
  wt_closed :: bool

record queue_config =
  qg_requests :: int
  qg_bytes :: int
  qg_coalesce :: int

definition new_queue_config :: "int option \<Rightarrow> int option \<Rightarrow> int \<Rightarrow> queue_config" where
  "new_queue_config bytes coalesce requests =
     \<lparr>qg_requests = (if requests \<le> 0 then 64 else requests), qg_bytes = size_or 536870912 bytes, qg_coalesce = size_or 134217728 coalesce\<rparr>"

definition chunk_data_bytes :: "bytes list \<Rightarrow> int" where
  "chunk_data_bytes cs = foldl (\<lambda>n c. wrap64 (n + int (length c))) 0 cs"

definition enqueue_write :: "queue_config \<Rightarrow> write_request \<Rightarrow> write_queue \<Rightarrow> (upload_error + unit) \<times> write_queue" where
  "enqueue_write g r q =
     (let n = chunk_data_bytes (wq_chunks r)
      in if wq_canceled r then (Inl UpCanceled, q)
         else if wt_closed q then (Inl UpQueueClosed, q)
         else if qg_requests g \<le> wt_requests q then (Inl UpQueueFull, q)
         else if qg_bytes g < n then (Inl UpQueueFull, q)
         else if qg_bytes g < wrap64 (wt_bytes q + n) then (Inl UpQueueFull, q)
         else if qg_requests g \<le> int (length (wt_waiting q)) then (Inl UpQueueFull, q)
         else (Inr (), q\<lparr>wt_waiting := wt_waiting q @ [r], wt_requests := wt_requests q + 1, wt_bytes := wt_bytes q + n\<rparr>))"

definition release_write :: "int \<Rightarrow> write_queue \<Rightarrow> write_queue" where
  "release_write n q =
     q\<lparr>wt_requests := (if wt_requests q - 1 < 0 then 0 else wt_requests q - 1),
       wt_bytes := (if wt_bytes q - n < 0 then 0 else wt_bytes q - n)\<rparr>"

text \<open>
  The requests that join the first one: as many as are there, or arrive before the window closes
  (\<open>arrived\<close>), until the batch has the bytes of the limit.
\<close>

fun collect_writes :: "queue_config \<Rightarrow> nat \<Rightarrow> int \<Rightarrow> write_request list \<Rightarrow> write_request list \<times> write_request list" where
  "collect_writes g arrived total_bytes [] = ([], [])"
| "collect_writes g 0 total_bytes (r # rs) = ([], r # rs)"
| "collect_writes g (Suc n) total_bytes (r # rs) =
     (if qg_coalesce g \<le> total_bytes then ([], r # rs)
      else case collect_writes g n (wrap64 (total_bytes + chunk_data_bytes (wq_chunks r))) rs of (xs, ys) \<Rightarrow> (r # xs, ys))"

definition take_batch :: "queue_config \<Rightarrow> nat \<Rightarrow> write_queue \<Rightarrow> write_request list \<times> write_queue" where
  "take_batch g arrived q =
     (case wt_waiting q of
        [] \<Rightarrow> ([], q)
      | r # rs \<Rightarrow> (case collect_writes g arrived (chunk_data_bytes (wq_chunks r)) rs of (xs, ys) \<Rightarrow> (r # xs, q\<lparr>wt_waiting := ys\<rparr>)))"

definition leave_backup_write :: "'k server \<Rightarrow> 'k server" where
  "leave_backup_write s = s\<lparr>sv_writers := sv_writers s - 1\<rparr>"

text \<open>Each request that is not cancelled gets one answer, or its own part of the results.\<close>

definition answer_all :: "upload_error \<Rightarrow> write_request list \<Rightarrow> (upload_error + put_result list) list" where
  "answer_all e rs = map (\<lambda>r. Inl (if wq_canceled r then UpCanceled else e)) rs"

fun answer_parts :: "write_request list \<Rightarrow> put_result list \<Rightarrow> (upload_error + put_result list) list" where
  "answer_parts [] ps = []"
| "answer_parts (r # rs) ps =
     (if wq_canceled r then Inl UpCanceled # answer_parts rs ps
      else Inr (take (length (wq_chunks r)) ps) # answer_parts rs (drop (length (wq_chunks r)) ps))"

definition combined_chunks :: "write_request list \<Rightarrow> bytes list" where
  "combined_chunks rs = concat (map wq_chunks (filter (\<lambda>r. \<not> wq_canceled r) rs))"

definition write_batch ::
    "env \<Rightarrow> 'k repo_deps \<Rightarrow> bool \<Rightarrow> write_request list \<Rightarrow> 'k server \<Rightarrow> (upload_error + put_result list) list \<times> 'k server" where
  "write_batch ev d closed rs s =
     (if list_all wq_canceled rs then (answer_all UpCanceled rs, s)
      else if closed then (answer_all UpQueueClosed rs, s)
      else case try_enter_backup_write s of
             None \<Rightarrow> (answer_all UpMaintenance rs, s)
           | Some s1 \<Rightarrow>
               (case put_chunks ev d (combined_chunks rs) (sv_repo s1) of
                  (Inl e, r) \<Rightarrow> (answer_all (UpRepo e) rs, leave_backup_write (s1\<lparr>sv_repo := r\<rparr>))
                | (Inr ps, r) \<Rightarrow>
                    (if length ps \<noteq> length (combined_chunks rs)
                     then answer_all (UpResultCount (length ps) (length (combined_chunks rs))) rs
                     else answer_parts rs ps, leave_backup_write (s1\<lparr>sv_repo := r\<rparr>))))"

definition finish_batch :: "write_request list \<Rightarrow> write_queue \<Rightarrow> write_queue" where
  "finish_batch rs q = fold (\<lambda>r. release_write (chunk_data_bytes (wq_chunks r))) rs q"

definition close_queue :: "write_queue \<Rightarrow> (upload_error + put_result list) list \<times> write_queue" where
  "close_queue q =
     (if wt_closed q then ([], q)
      else (map (\<lambda>r. Inl UpQueueClosed) (wt_waiting q), (finish_batch (wt_waiting q) q)\<lparr>wt_closed := True, wt_waiting := []\<rparr>))"

subsection \<open>Joined writes answer each request\<close>

lemma length_answer_parts [simp]: "length (answer_parts rs ps) = length rs"
  by (induction rs ps rule: answer_parts.induct) auto

lemma answer_parts_nth:
  "i < length rs \<Longrightarrow> answer_parts rs ps ! i = Inr xs \<Longrightarrow> length ps = length (combined_chunks rs) \<Longrightarrow>
   \<exists>k. length xs = length (wq_chunks (rs ! i)) \<and> k + length xs \<le> length ps \<and>
     (\<forall>j < length xs. xs ! j = ps ! (k + j) \<and> wq_chunks (rs ! i) ! j = combined_chunks rs ! (k + j))"
proof (induction rs arbitrary: i ps)
  case Nil
  then show ?case by simp
next
  case (Cons r rs)
  show ?case
  proof (cases "wq_canceled r")
    case True
    then have i: "i = Suc (i - 1)" using Cons.prems(2) by (cases i) auto
    have "combined_chunks (r # rs) = combined_chunks rs" using True by (simp add: combined_chunks_def)
    then show ?thesis using Cons.IH [of "i - 1" ps] Cons.prems True i by (metis answer_parts.simps(2) length_Cons nth_Cons_Suc Suc_less_eq)
  next
    case False
    let ?n = "length (wq_chunks r)"
    have c: "combined_chunks (r # rs) = wq_chunks r @ combined_chunks rs" using False by (simp add: combined_chunks_def)
    show ?thesis
    proof (cases i)
      case 0
      then have "xs = take ?n ps" using Cons.prems(2) False by simp
      then show ?thesis using Cons.prems(3) 0 by (intro exI [of _ 0]) (auto simp: c nth_append)
    next
      case (Suc k)
      then have "answer_parts rs (drop ?n ps) ! k = Inr xs" "k < length rs" using Cons.prems(1,2) False by auto
      then obtain m where m: "length xs = length (wq_chunks (rs ! k))" "m + length xs \<le> length (drop ?n ps)"
        "\<forall>j < length xs. xs ! j = drop ?n ps ! (m + j) \<and> wq_chunks (rs ! k) ! j = combined_chunks rs ! (m + j)"
        using Cons.IH [of k "drop ?n ps"] Cons.prems(3) by (auto simp: c)
      then show ?thesis using Suc Cons.prems(3)
        by (intro exI [of _ "?n + m"]) (auto simp: c nth_append add.assoc)
    qed
  qed
qed

text \<open>
  Property C15. When the queue joins the uploads of several requests in one write, each request gets the
  results of its own chunks: as many as it has chunks, in their order, each the reference that the index
  now holds for the hash of the chunk. What the index held before it still holds.
\<close>

theorem joined_writes_answer_each:
  assumes "repo_inv d (sv_repo s)" and "deps_ok d" and "good_rand ev" and "good_clock ev"
    and "\<forall>r \<in> set rs. \<forall>c \<in> set (wq_chunks r). data_fits (rd_crypto d) (rd_key d) c"
    and "write_batch ev d closed rs s = (answers, t)" and "files_fit (sg_files (rp_seg (sv_repo t)))"
    and "i < length rs" and "answers ! i = Inr xs"
  shows "\<not> wq_canceled (rs ! i) \<and> length xs = length (wq_chunks (rs ! i)) \<and>
    (\<forall>j < length xs. indexed d (sv_repo t) (hash_bytes (rd_crypto d) (wq_chunks (rs ! i) ! j)) = Some (pu_ref (xs ! j))) \<and>
    (\<forall>h ref. indexed d (sv_repo s) h = Some ref \<longrightarrow> indexed d (sv_repo t) h = Some ref) \<and> sv_writers t = sv_writers s"
proof -
  have all: "answers ! i \<noteq> Inr xs" if "answers = answer_all e rs" for e using that assms(8) by (auto simp: answer_all_def)
  obtain s1 where s1: "try_enter_backup_write s = Some s1"
    using assms(6,9) all by (auto simp: write_batch_def split: if_splits option.splits)
  then have rs1: "sv_repo s1 = sv_repo s" "sv_writers s1 = Suc (sv_writers s)" by (auto simp: try_enter_backup_write_def split: if_splits)
  let ?cs = "combined_chunks rs"
  obtain q r where p: "put_chunks ev d ?cs (sv_repo s) = (q, r)" by fastforce
  obtain ps where ps: "q = Inr ps" "length ps = length ?cs" "answers = answer_parts rs ps" "t = leave_backup_write (s1\<lparr>sv_repo := r\<rparr>)"
    using assms(6,9) all s1 p rs1 by (auto simp: write_batch_def split: if_splits sum.splits)
  have t: "sv_repo t = r" "sv_writers t = sv_writers s" using ps(4) rs1 by (simp_all add: leave_backup_write_def)
  have fits: "\<forall>c \<in> set ?cs. data_fits (rd_crypto d) (rd_key d) c" using assms(5) by (auto simp: combined_chunks_def)
  have post: "put_post d ?cs (sv_repo s) ps r"
    using put_chunks_post [OF assms(1-4) fits p [unfolded ps(1)]] assms(7) t(1) by simp
  obtain k where k: "length xs = length (wq_chunks (rs ! i))" "k + length xs \<le> length ps"
    "\<forall>j < length xs. xs ! j = ps ! (k + j) \<and> wq_chunks (rs ! i) ! j = ?cs ! (k + j)"
    using answer_parts_nth [OF assms(8) _ ps(2)] assms(9) ps(3) by blast
  have "\<not> wq_canceled (rs ! i)"
  proof -
    have "answer_parts rs ps ! i = Inl UpCanceled" if "wq_canceled (rs ! i)" "i < length rs" for rs ps i
      using that by (induction rs ps arbitrary: i rule: answer_parts.induct) (auto simp: nth_Cons' split: if_splits)
    then show ?thesis using assms(8,9) ps(3) by force
  qed
  moreover have "indexed d r (hash_bytes (rd_crypto d) (wq_chunks (rs ! i) ! j)) = Some (pu_ref (xs ! j))" if j: "j < length xs" for j
  proof -
    have "k + j < length ?cs" using k(2) j ps(2) by simp
    then show ?thesis using post k(3) j unfolding put_post_def by auto
  qed
  moreover have "indexed d r h = Some ref" if "indexed d (sv_repo s) h = Some ref" for h ref
    using post that unfolding put_post_def by auto
  ultimately show ?thesis using k(1) t by simp
qed

definition idle_server :: "(bytes \<times> bytes) list server" where
  "idle_server = \<lparr>sv_db = \<lparr>db_runs = [], db_progress = [], db_logs = [], db_snapshots = [], db_tasks = [], db_maintenance = [],
       db_journal = [], db_commands = [], db_hosts = [], db_jobs = [],
       db_meta = \<lparr>me_repository = ''repo'', me_chunk_gen = 4, me_config_gen = 0, me_command_gen = 0, me_available_from = 0\<rparr>,
       db_seq = 0, db_step = 0\<rparr>,
     sv_repo = empty_repo, sv_man = \<lparr>mn_dir = None, mn_step = 0\<rparr>, sv_writers = 0, sv_locked = False\<rparr>"

definition three_requests :: "write_request list" where
  "three_requests = [\<lparr>wq_chunks = [[3]], wq_canceled = False\<rparr>, \<lparr>wq_chunks = [[4]], wq_canceled = True\<rparr>,
     \<lparr>wq_chunks = [[9], [3]], wq_canceled = False\<rparr>]"

lemma joined_writes_answer_each_witness:
  "\<exists>answers t xs. write_batch still_env plain_deps False three_requests idle_server = (answers, t) \<and>
     answers ! 1 = Inl UpCanceled \<and> answers ! 2 = Inr xs \<and> map pu_existed xs = [False, True] \<and>
     indexed plain_deps (sv_repo t) (hash_bytes plain_crypto [9]) = Some (pu_ref (xs ! 0))"
proof -
  have "case write_batch still_env plain_deps False three_requests idle_server of (answers, t) \<Rightarrow>
      files_fit_exec (sg_files (rp_seg (sv_repo t))) \<and> answers ! 1 = Inl UpCanceled \<and>
      (case answers ! 2 of Inr xs \<Rightarrow> map pu_existed xs = [False, True] | Inl e \<Rightarrow> False)" by code_simp
  then obtain answers t xs where w: "write_batch still_env plain_deps False three_requests idle_server = (answers, t)"
    and f: "files_fit_exec (sg_files (rp_seg (sv_repo t)))" and a: "answers ! 1 = Inl UpCanceled" "answers ! 2 = Inr xs" "map pu_existed xs = [False, True]"
    by (auto split: prod.splits sum.splits)
  have inv: "repo_inv plain_deps (sv_repo idle_server)" by (simp add: idle_server_def empty_repo_inv)
  have fits: "\<forall>r \<in> set three_requests. \<forall>c \<in> set (wq_chunks r). data_fits (rd_crypto plain_deps) (rd_key plain_deps) c"
    by (simp add: plain_deps_def plain_data_fits three_requests_def)
  have len: "2 < length three_requests" by (simp add: three_requests_def)
  have "length xs = 2" using arg_cong [OF a(3), of length] by simp
  then have "indexed plain_deps (sv_repo t) (hash_bytes (rd_crypto plain_deps) (wq_chunks (three_requests ! 2) ! 0)) = Some (pu_ref (xs ! 0))"
    using joined_writes_answer_each [OF inv plain_deps_ok still_env_ok fits w files_fit_exec [OF f] len a(2)] by simp
  then show ?thesis using w a by (auto simp: three_requests_def plain_deps_def)
qed

subsection \<open>Storing the chunks of a request\<close>

text \<open>The end of the sub-batch that starts at \<open>start\<close>: \<open>sub_batch_loop\<close> is the loop with its variables.\<close>

fun sub_batch_loop :: "int \<Rightarrow> nat \<Rightarrow> nat \<Rightarrow> int \<Rightarrow> bytes list \<Rightarrow> nat" where
  "sub_batch_loop mx start stop n [] = stop"
| "sub_batch_loop mx start stop n (c # cs) =
     (if start < stop \<and> mx < wrap64 (n + int (length c)) then stop
      else sub_batch_loop mx start (Suc stop) (wrap64 (n + int (length c))) cs)"

definition next_sub_batch_end :: "bytes list \<Rightarrow> nat \<Rightarrow> int \<Rightarrow> nat" where
  "next_sub_batch_end cs start mx =
     (if length cs \<le> start then length cs else if mx \<le> 0 then length cs else sub_batch_loop mx start start 0 (drop start cs))"

lemma sub_batch_loop_bounds: "stop \<le> sub_batch_loop mx start stop n cs \<and> sub_batch_loop mx start stop n cs \<le> stop + length cs"
proof (induction cs arbitrary: stop n)
  case Nil
  then show ?case by simp
next
  case (Cons c cs)
  show ?case using Cons.IH [of "Suc stop" "wrap64 (n + int (length c))"] by auto
qed

lemma next_sub_batch_end_bounds:
  "start < length cs \<Longrightarrow> start < next_sub_batch_end cs start mx \<and> next_sub_batch_end cs start mx \<le> length cs"
proof -
  assume s: "start < length cs"
  then obtain c rest where r: "drop start cs = c # rest" by (metis Cons_nth_drop_Suc)
  then have "length cs - start = Suc (length rest)" by (metis length_drop length_Cons)
  then show ?thesis
    using s sub_batch_loop_bounds [of "Suc start" mx start "wrap64 (0 + int (length c))" rest] by (auto simp: next_sub_batch_end_def r)
qed

function put_sub_batches ::
    "(bytes list \<Rightarrow> 's \<Rightarrow> (upload_error + put_result list) \<times> 's) \<Rightarrow> int \<Rightarrow> bytes list \<Rightarrow> nat \<Rightarrow> put_result list \<Rightarrow> 's \<Rightarrow>
     (upload_error + put_result list) \<times> 's" where
  "put_sub_batches put mx cs start acc s =
     (if length cs \<le> start then (Inr acc, s)
      else let stop = next_sub_batch_end cs start mx
           in sbind (put (take (stop - start) (drop start cs)) s) (\<lambda>written t.
                if length written \<noteq> stop - start then (Inl (UpResultCount (length written) (stop - start)), t)
                else put_sub_batches put mx cs stop (acc @ written) t))"
  by pat_completeness auto
termination
  by (relation "measure (\<lambda>(put, mx, cs, start, acc, s). length cs - start)")
    (auto simp: not_le next_sub_batch_end_bounds intro!: diff_less_mono2)

declare put_sub_batches.simps [simp del]

text \<open>
  One sub-batch: through the queue, where nobody else waits, or directly behind the gate.
\<close>

record upload_config =
  uc_body :: int
  uc_chunks :: int
  uc_sub_batch :: int
  uc_limits :: admission_limits
  uc_queue :: "queue_config option"

definition put_upload_batch ::
    "env \<Rightarrow> 'k repo_deps \<Rightarrow> upload_config \<Rightarrow> bytes list \<Rightarrow> 'k server \<Rightarrow> (upload_error + put_result list) \<times> 'k server" where
  "put_upload_batch ev d uc cs s =
     (case uc_queue uc of
        Some g \<Rightarrow>
          (let r = \<lparr>wq_chunks = cs, wq_canceled = False\<rparr>
           in case enqueue_write g r \<lparr>wt_waiting = [], wt_requests = 0, wt_bytes = 0, wt_closed = False\<rparr> of
                (Inl e, q) \<Rightarrow> (Inl e, s)
              | (Inr u, q) \<Rightarrow> (case write_batch ev d False (fst (take_batch g 0 q)) s of (answers, t) \<Rightarrow> (hd answers, t)))
      | None \<Rightarrow>
          (case try_enter_backup_write s of
             None \<Rightarrow> (Inl UpMaintenance, s)
           | Some s1 \<Rightarrow>
               (case put_chunks ev d cs (sv_repo s1) of
                  (Inl e, r) \<Rightarrow> (Inl (UpRepo e), leave_backup_write (s1\<lparr>sv_repo := r\<rparr>))
                | (Inr ps, r) \<Rightarrow> (Inr ps, leave_backup_write (s1\<lparr>sv_repo := r\<rparr>)))))"

definition put_upload_chunks ::
    "env \<Rightarrow> 'k repo_deps \<Rightarrow> upload_config \<Rightarrow> bytes list \<Rightarrow> 'k server \<Rightarrow> (upload_error + put_result list) \<times> 'k server" where
  "put_upload_chunks ev d uc cs s = put_sub_batches (put_upload_batch ev d uc) (uc_sub_batch uc) cs 0 [] s"

subsection \<open>The handlers\<close>

record check_reply =
  kr_repository :: string
  kr_generation :: int
  kr_exists :: "string list"
  kr_missing :: "string list"
  kr_retries :: int

record upload_answer =
  ua_hash :: string
  ua_exists :: "bool option"
  ua_uploaded :: bool
  ua_original :: int
  ua_ref :: chunk_ref

record upload_reply =
  up_status :: string
  up_repository :: string
  up_generation :: int
  up_chunks :: "upload_answer list"
  up_bytes :: int
  up_retries :: int
  up_splits :: int

record chunk_reply =
  cp_exists :: bool
  cp_uploaded :: bool
  cp_ref :: chunk_ref

text \<open>The state of the handlers: the server and its admission.\<close>

record 'k upload_server =
  us_server :: "'k server"
  us_admission :: admission

definition on_server :: "('k server \<Rightarrow> (upload_error + 'a) \<times> 'k server) \<Rightarrow> 'k upload_server \<Rightarrow> (upload_error + 'a) \<times> 'k upload_server" where
  "on_server f s = (case f (us_server s) of (r, t) \<Rightarrow> (r, s\<lparr>us_server := t\<rparr>))"

definition server_db :: "(db \<Rightarrow> 'a db_result) \<Rightarrow> 'k server \<Rightarrow> (upload_error + 'a) \<times> 'k server" where
  "server_db f s =
     (case f (sv_db s) of (Inl e, t) \<Rightarrow> (Inl (UpDb e), s\<lparr>sv_db := t\<rparr>) | (Inr x, t) \<Rightarrow> (Inr x, s\<lparr>sv_db := t\<rparr>))"

definition server_repo :: "('k repo \<Rightarrow> ('a, 'k) repo_result) \<Rightarrow> 'k server \<Rightarrow> (upload_error + 'a) \<times> 'k server" where
  "server_repo f s =
     (case f (sv_repo s) of (Inl e, t) \<Rightarrow> (Inl (UpRepo e), s\<lparr>sv_repo := t\<rparr>) | (Inr x, t) \<Rightarrow> (Inr x, s\<lparr>sv_repo := t\<rparr>))"

fun unique_hashes :: "string list \<Rightarrow> string list \<Rightarrow> upload_error + string list" where
  "unique_hashes seen [] = Inr []"
| "unique_hashes seen (h # hs) =
     (let h' = trim_space h
      in if h' \<in> set seen then unique_hashes seen hs
         else if \<not> valid_chunk_hash h' then Inl (UpBadHash h')
         else rbind (unique_hashes (h' # seen) hs) (\<lambda>us. Inr (h' # us)))"

text \<open>
  \<open>handleAgentCheckChunks\<close>, for the number of hashes a request may have, the repository that the
  request names and whether it asks for the compact reply.
\<close>

definition handle_check ::
    "env \<Rightarrow> 'k repo_deps \<Rightarrow> int \<Rightarrow> string \<Rightarrow> bool \<Rightarrow> string list \<Rightarrow> 'k server \<Rightarrow> (upload_error + check_reply) \<times> 'k server" where
  "handle_check ev d limit repository compact hs s =
     (if limit < int (length hs) then (Inl UpTooManyHashes, s)
      else sbind (server_db (repository_state ev) s) (\<lambda>m s1.
        if repository \<noteq> [] \<and> repository \<noteq> me_repository m then (Inl (UpRepositoryChanged (me_repository m)), s1)
        else case unique_hashes [] hs of
               Inl e \<Rightarrow> (Inl e, s1)
             | Inr us \<Rightarrow>
                 sbind (server_repo (has_chunks ev d us) s1) (\<lambda>found s2.
                   (Inr \<lparr>kr_repository = me_repository m, kr_generation = me_chunk_gen m,
                      kr_exists = (if compact then [] else filter (\<lambda>h. h \<in> found) us),
                      kr_missing = filter (\<lambda>h. h \<notin> found) us, kr_retries = 0\<rparr>, s2))))"

fun upload_answers :: "bool \<Rightarrow> wire_chunk list \<Rightarrow> put_result list \<Rightarrow> upload_error + upload_answer list" where
  "upload_answers compact (c # cs) (p # ps) =
     (if cr_hash (pu_ref p) \<noteq> wc_hash c then Inl (UpRefMismatch (wc_hash c) (cr_hash (pu_ref p)))
      else rbind (upload_answers compact cs ps) (\<lambda>as. Inr
        ((if compact
          then \<lparr>ua_hash = wc_hash c, ua_exists = None, ua_uploaded = \<not> pu_existed p, ua_original = cr_original (pu_ref p), ua_ref = zero_ref\<rparr>
          else \<lparr>ua_hash = wc_hash c, ua_exists = Some True, ua_uploaded = \<not> pu_existed p, ua_original = 0, ua_ref = pu_ref p\<rparr>) # as)))"
| "upload_answers compact cs ps = Inr []"

text \<open>
  \<open>handleAgentUploadChunks\<close> for an agent and the content length of its request; the admission is given
  back on every path.
\<close>

definition authorize_active_run :: "env \<Rightarrow> int \<Rightarrow> 'k server \<Rightarrow> bool \<times> 'k server" where
  "authorize_active_run ev hid s =
     (case get_active_agent_run_for_host ev hid (sv_db s) of
        (Inr (Some (j, r, p)), t) \<Rightarrow> (jb_source_type j = ''agent'' \<and> jb_host j = Some hid, s\<lparr>sv_db := t\<rparr>)
      | (res, t) \<Rightarrow> (False, s\<lparr>sv_db := t\<rparr>))"

definition store_upload ::
    "env \<Rightarrow> 'k repo_deps \<Rightarrow> upload_config \<Rightarrow> bool \<Rightarrow> request_body \<Rightarrow> 'k server \<Rightarrow> (upload_error + upload_reply) \<times> 'k server" where
  "store_upload ev d uc compact body s =
     (case read_batch (rd_crypto d) (uc_body uc) (uc_chunks uc) body of
        Inl e \<Rightarrow> (Inl (UpBatch e), s)
      | Inr cs \<Rightarrow>
          sbind (server_db (repository_state ev) s) (\<lambda>m s1.
          sbind (put_upload_chunks ev d uc (map wc_data cs) s1) (\<lambda>ps s2.
            if length ps \<noteq> length cs then (Inl (UpResultCount (length ps) (length cs)), s2)
            else (rbind (upload_answers compact cs ps) (\<lambda>as. Inr
                    \<lparr>up_status = ''accepted'', up_repository = me_repository m, up_generation = me_chunk_gen m, up_chunks = as,
                      up_bytes = 0, up_retries = 0, up_splits = 0\<rparr>), s2))))"

definition handle_upload ::
    "env \<Rightarrow> 'k repo_deps \<Rightarrow> upload_config \<Rightarrow> int \<Rightarrow> int \<Rightarrow> bool \<Rightarrow> request_body \<Rightarrow> 'k upload_server \<Rightarrow>
     (upload_error + upload_reply) \<times> 'k upload_server" where
  "handle_upload ev d uc agent content_length compact body s =
     (if uc_body uc < content_length then (Inl UpTooLarge, s)
      else case acquire_upload (uc_limits uc) agent content_length (us_admission s) of
             (Inl e, a) \<Rightarrow> (Inl e, s\<lparr>us_admission := a\<rparr>)
           | (Inr u, a) \<Rightarrow>
               (case on_server (store_upload ev d uc compact body) (s\<lparr>us_admission := a\<rparr>) of
                  (r, t) \<Rightarrow> (r, t\<lparr>us_admission := release_upload agent content_length (us_admission t)\<rparr>)))"

text \<open>\<open>handleAgentPutChunk\<close> and \<open>handleAgentGetChunk\<close>, for single chunks.\<close>

definition handle_put_chunk ::
    "env \<Rightarrow> 'k repo_deps \<Rightarrow> string \<Rightarrow> request_body \<Rightarrow> 'k server \<Rightarrow> (upload_error + int \<times> chunk_reply) \<times> 'k server" where
  "handle_put_chunk ev d h body s =
     (if \<not> valid_chunk_hash h then (Inl (UpBadHash h), s)
      else if 268435456 < length (rb_bytes body) \<or> rb_broken body then (Inl UpBodyFailed, s)
      else let data = rb_bytes body; actual = hash_bytes (rd_crypto d) data
           in if actual \<noteq> h then (Inl (UpHashMismatch h actual), s)
              else case try_enter_backup_write s of
                     None \<Rightarrow> (Inl UpMaintenance, s)
                   | Some s1 \<Rightarrow>
                       (case put_chunk ev d data (sv_repo s1) of
                          (Inl e, r) \<Rightarrow> (Inl (UpRepo e), leave_backup_write (s1\<lparr>sv_repo := r\<rparr>))
                        | (Inr (ref, existed), r) \<Rightarrow>
                            (Inr (if existed then 200 else 201, \<lparr>cp_exists = True, cp_uploaded = \<not> existed, cp_ref = ref\<rparr>),
                             leave_backup_write (s1\<lparr>sv_repo := r\<rparr>))))"

definition handle_get_chunk :: "env \<Rightarrow> 'k repo_deps \<Rightarrow> string \<Rightarrow> 'k server \<Rightarrow> (upload_error + chunk_reply) \<times> 'k server" where
  "handle_get_chunk ev d h s =
     (if \<not> valid_chunk_hash h then (Inl (UpBadHash h), s)
      else sbind (server_repo (get_chunk_ref ev d h) s) (\<lambda>found s1.
        (Inr (case found of None \<Rightarrow> \<lparr>cp_exists = False, cp_uploaded = False, cp_ref = zero_ref\<rparr>
              | Some ref \<Rightarrow> \<lparr>cp_exists = True, cp_uploaded = False, cp_ref = ref\<rparr>), s1)))"

subsection \<open>What a successful exchange guarantees\<close>

text \<open>
  The server is sound when its repository is; \<open>stored s t cs\<close> is what storing chunks brings about: every
  one of them is in the index, and nothing has left it.
\<close>

definition index_grows :: "'k repo_deps \<Rightarrow> 'k server \<Rightarrow> 'k server \<Rightarrow> bool" where
  "index_grows d s t \<longleftrightarrow> (\<forall>h ref. indexed d (sv_repo s) h = Some ref \<longrightarrow> indexed d (sv_repo t) h = Some ref)"

definition put_ok :: "'k repo_deps \<Rightarrow> bytes list \<Rightarrow> 'k server \<Rightarrow> put_result list \<Rightarrow> 'k server \<Rightarrow> bool" where
  "put_ok d cs s ps t \<longleftrightarrow> repo_inv d (sv_repo t) \<and> index_grows d s t \<and>
     list_all2 (\<lambda>p c. indexed d (sv_repo t) (hash_bytes (rd_crypto d) c) = Some (pu_ref p)) ps cs"

lemma index_grows_trans: "index_grows d s t \<Longrightarrow> index_grows d t u \<Longrightarrow> index_grows d s u"
  by (simp add: index_grows_def)

lemma index_grows_same: "same_store (sv_repo s) (sv_repo t) \<Longrightarrow> index_grows d s t"
  by (simp add: index_grows_def same_store_index)

definition uploads_fit :: "'k repo_deps \<Rightarrow> bytes list \<Rightarrow> bool" where
  "uploads_fit d cs \<longleftrightarrow> (\<forall>c \<in> set cs. data_fits (rd_crypto d) (rd_key d) c)"

abbreviation server_fits :: "'k server \<Rightarrow> bool" where
  "server_fits s \<equiv> files_fit (sg_files (rp_seg (sv_repo s)))"

lemma put_chunks_ok:
  assumes "repo_inv d (sv_repo s)" and "deps_ok d" "good_rand ev" "good_clock ev" and "uploads_fit d cs"
    and "put_chunks ev d cs (sv_repo s) = (Inr ps, sv_repo t)" and "server_fits t"
  shows "put_ok d cs s ps t"
  using put_chunks_post [OF assms(1-4) assms(5) [unfolded uploads_fit_def] assms(6,7)]
  unfolding put_post_def put_ok_def index_grows_def list_all2_conv_all_nth by auto

lemma put_upload_batch_ok:
  assumes inv: "repo_inv d (sv_repo s)" and deps: "deps_ok d" and ev: "good_rand ev" "good_clock ev" and fit: "uploads_fit d cs"
    and put: "put_upload_batch ev d uc cs s = (Inr ps, t)" and small: "server_fits t"
  shows "put_ok d cs s ps t"
proof -
  obtain r s1 where p: "put_chunks ev d cs (sv_repo s) = (Inr ps, r)" "sv_repo t = r"
  proof (cases "uc_queue uc")
    case None
    then show ?thesis
      using put that by (auto simp: put_upload_batch_def try_enter_backup_write_def leave_backup_write_def split: if_splits prod.splits sum.splits)
  next
    case (Some g)
    let ?r = "\<lparr>wq_chunks = cs, wq_canceled = False\<rparr>"
    have b: "fst (take_batch g 0 q) = [?r]" if "enqueue_write g ?r \<lparr>wt_waiting = [], wt_requests = 0, wt_bytes = 0, wt_closed = False\<rparr> = (Inr u, q)" for u q
      using that by (auto simp: enqueue_write_def take_batch_def Let_def split: if_splits)
    have "fst (write_batch ev d False [?r] s) = [Inr ps] \<and> t = snd (write_batch ev d False [?r] s)"
      using put Some b by (auto simp: put_upload_batch_def Let_def write_batch_def answer_all_def split: prod.splits sum.splits option.splits if_splits)
    then show ?thesis
      using that by (auto simp: write_batch_def answer_all_def combined_chunks_def try_enter_backup_write_def leave_backup_write_def
          split: if_splits prod.splits sum.splits)
  qed
  then show ?thesis using put_chunks_ok [OF inv deps ev fit _ small] by simp
qed

abbreviation server_extends :: "'k server \<Rightarrow> 'k server \<Rightarrow> bool" where
  "server_extends s t \<equiv> extends (sg_files (rp_seg (sv_repo s))) (sg_files (rp_seg (sv_repo t)))"

lemma put_upload_batch_extends: "put_upload_batch ev d uc cs s = (r, t) \<Longrightarrow> server_extends s t"
proof -
  have p: "server_extends s (leave_backup_write (s1\<lparr>sv_repo := u\<rparr>))"
    if "put_chunks ev d xs (sv_repo s1) = (q, u)" "try_enter_backup_write s = Some s1" for xs q u s1
    using put_chunks_extends [OF that(1)] that(2) by (auto simp: try_enter_backup_write_def leave_backup_write_def split: if_splits)
  have w: "server_extends s (snd (write_batch ev d c rs s))" for c rs
    using p [of "combined_chunks rs"] by (auto simp: write_batch_def split: option.splits prod.splits sum.splits)
  assume "put_upload_batch ev d uc cs s = (r, t)"
  then show ?thesis using p [of cs] w
    by (auto simp: put_upload_batch_def Let_def split: option.splits prod.splits sum.splits if_splits) (metis snd_conv)+
qed

lemma put_ok_append:
  assumes a: "put_ok d xs s ps t" and b: "put_ok d ys t qs u"
  shows "put_ok d (xs @ ys) s (ps @ qs) u"
proof -
  have "list_all2 (\<lambda>p c. indexed d (sv_repo u) (hash_bytes (rd_crypto d) c) = Some (pu_ref p)) ps xs"
    using a b unfolding put_ok_def index_grows_def by (auto elim: list_all2_mono)
  then show ?thesis using a b index_grows_trans unfolding put_ok_def by (blast intro: list_all2_appendI)
qed

lemma put_sub_batches_ok:
  assumes deps: "deps_ok d" "good_rand ev" "good_clock ev"
  shows "put_sub_batches (put_upload_batch ev d uc) mx cs start acc s = (r, t) \<Longrightarrow> uploads_fit d cs \<Longrightarrow>
    server_extends s t \<and>
    (\<forall>ps. r = Inr ps \<longrightarrow> repo_inv d (sv_repo s) \<longrightarrow> server_fits t \<longrightarrow> (\<exists>qs. ps = acc @ qs \<and> put_ok d (drop start cs) s qs t))"
proof (induction "length cs - start" arbitrary: start acc s rule: less_induct)
  case less
  show ?case
  proof (cases "length cs \<le> start")
    case True
    then show ?thesis using less.prems by (auto simp: put_sub_batches.simps [of _ _ _ start] put_ok_def index_grows_def)
  next
    case False
    let ?stop = "next_sub_batch_end cs start mx"
    let ?part = "take (?stop - start) (drop start cs)"
    have stop: "start < ?stop" "?stop \<le> length cs" using False next_sub_batch_end_bounds [of start cs mx] by auto
    have split: "drop start cs = ?part @ drop ?stop cs"
      using stop append_take_drop_id [of "?stop - start" "drop start cs"] by (simp del: append_take_drop_id)
    have fit: "uploads_fit d ?part" using less.prems(2) by (auto simp: uploads_fit_def dest: in_set_takeD in_set_dropD)
    obtain w u where w: "put_upload_batch ev d uc ?part s = (w, u)" by fastforce
    have e1: "server_extends s u" by (rule put_upload_batch_extends [OF w])
    note run = less.prems(1) [unfolded put_sub_batches.simps [of _ _ _ start] Let_def]
    consider (failed) e where "r = Inl e" "t = u"
      | (next_part) written where "w = Inr written" "put_sub_batches (put_upload_batch ev d uc) mx cs ?stop (acc @ written) u = (r, t)"
      using run False w by (cases w) (auto split: if_splits)
    then show ?thesis
    proof cases
      case failed
      then show ?thesis using e1 by simp
    next
      case next_part
      have "length cs - ?stop < length cs - start" using stop by simp
      note IH = less.hyps [OF this next_part(2) less.prems(2)]
      have "server_extends s t" using IH e1 extends_trans by blast
      moreover have "\<exists>qs. ps = acc @ qs \<and> put_ok d (drop start cs) s qs t"
        if r: "r = Inr ps" and inv: "repo_inv d (sv_repo s)" and small: "server_fits t" for ps
      proof -
        have "server_fits u" using files_fit_extends small IH by blast
        then have ok: "put_ok d ?part s written u" using put_upload_batch_ok [OF inv deps fit] w next_part(1) by simp
        then obtain qs where qs: "ps = (acc @ written) @ qs" "put_ok d (drop ?stop cs) u qs t"
          using IH r small unfolding put_ok_def by blast
        show ?thesis using put_ok_append [OF ok qs(2), folded split] qs(1) by auto
      qed
      ultimately show ?thesis by blast
    qed
  qed
qed

lemma put_upload_chunks_ok:
  assumes "deps_ok d" "good_rand ev" "good_clock ev" and "put_upload_chunks ev d uc cs s = (r, t)" and "uploads_fit d cs"
  shows "server_extends s t" and "r = Inr ps \<Longrightarrow> repo_inv d (sv_repo s) \<Longrightarrow> server_fits t \<Longrightarrow> put_ok d cs s ps t"
  using put_sub_batches_ok [OF assms(1-3) assms(4) [unfolded put_upload_chunks_def] assms(5)] by auto

lemma server_repo_same: "server_repo f s = (r, t) \<Longrightarrow> sv_repo t = snd (f (sv_repo s))"
  by (auto simp: server_repo_def split: sum.splits prod.splits)

lemma server_db_repo: "server_db f s = (r, t) \<Longrightarrow> sv_repo t = sv_repo s"
  by (auto simp: server_db_def split: sum.splits prod.splits)

text \<open>What is answered to the chunks of a request, and what is held afterwards.\<close>

definition answered :: "'k repo_deps \<Rightarrow> bool \<Rightarrow> 'k server \<Rightarrow> upload_answer \<Rightarrow> wire_chunk \<Rightarrow> bool" where
  "answered d compact t a c \<longleftrightarrow> ua_hash a = wc_hash c \<and>
     (\<exists>ref. indexed d (sv_repo t) (wc_hash c) = Some ref \<and> cr_hash ref = wc_hash c \<and>
       (if compact then ua_exists a = None \<and> ua_original a = cr_original ref else ua_exists a = Some True \<and> ua_ref a = ref))"

lemma upload_answers_ok:
  assumes "list_all2 (\<lambda>p c. indexed d (sv_repo t) (wc_hash c) = Some (pu_ref p)) ps cs" and "upload_answers compact cs ps = Inr as"
  shows "list_all2 (answered d compact t) as cs"
  using assms
proof (induction compact cs ps arbitrary: as rule: upload_answers.induct)
  case (1 compact c cs p ps)
  then obtain a as1 where as: "upload_answers compact cs ps = Inr as1" "cr_hash (pu_ref p) = wc_hash c" "as = a # as1"
    and a: "answered d compact t a c"
    by (auto simp: answered_def result_simps split: if_splits)
  then have "list_all2 (answered d compact t) as1 cs" using 1 by simp
  then show ?case using as(3) a by simp
qed auto

lemma store_upload_ok:
  assumes deps: "deps_ok d" "good_rand ev" "good_clock ev" and inv: "repo_inv d (sv_repo s)"
    and run: "store_upload ev d uc compact body s = (Inr reply, t)" and small: "server_fits t"
    and fit: "\<And>cs. read_batch (rd_crypto d) (uc_body uc) (uc_chunks uc) body = Inr cs \<Longrightarrow> uploads_fit d (map wc_data cs)"
  obtains cs where "read_batch (rd_crypto d) (uc_body uc) (uc_chunks uc) body = Inr cs" and "repo_inv d (sv_repo t)" and "index_grows d s t"
    and "list_all2 (answered d compact t) (up_chunks reply) cs"
proof -
  obtain cs where cs: "read_batch (rd_crypto d) (uc_body uc) (uc_chunks uc) body = Inr cs"
    using run by (auto simp: store_upload_def split: sum.splits)
  obtain m s1 where m: "server_db (repository_state ev) s = (Inr m, s1)" using run cs by (auto simp: store_upload_def result_simps)
  obtain ps s2 where ps: "put_upload_chunks ev d uc (map wc_data cs) s1 = (Inr ps, s2)"
    using run cs m by (auto simp: store_upload_def result_simps)
  then obtain as where as: "upload_answers compact cs ps = Inr as" "up_chunks reply = as" "t = s2"
    using run cs m by (auto simp: store_upload_def result_simps split: if_splits)
  have s1: "sv_repo s1 = sv_repo s" by (rule server_db_repo [OF m])
  have ok: "put_ok d (map wc_data cs) s1 ps t"
    using put_upload_chunks_ok(2) [OF deps ps fit [OF cs]] inv small s1 as(3) by simp
  have "list_all2 (\<lambda>p c. indexed d (sv_repo t) (wc_hash c) = Some (pu_ref p)) ps cs"
    using ok read_batch_canonical [OF cs] unfolding put_ok_def list_all2_conv_all_nth by (metis length_map nth_map nth_mem)
  then have "list_all2 (answered d compact t) (up_chunks reply) cs" using upload_answers_ok as by blast
  moreover have "index_grows d s t" using ok s1 by (simp add: put_ok_def index_grows_def)
  ultimately show thesis using that [OF cs] ok by (simp add: put_ok_def)
qed

text \<open>
  Property C14. An upload that is answered with success stored every chunk of the request: the index holds
  its hash, the answer names that hash, in order, with the size or reference of the index, nothing that
  was held before is lost, the repository invariant holds, and the admission is as before the request.
\<close>

theorem upload_stores_all:
  assumes "deps_ok d" "good_rand ev" "good_clock ev" "repo_inv d (sv_repo (us_server s))"
    and "handle_upload ev d uc agent n compact body s = (Inr reply, t)" and "server_fits (us_server t)"
    and "\<And>cs. read_batch (rd_crypto d) (uc_body uc) (uc_chunks uc) body = Inr cs \<Longrightarrow> uploads_fit d (map wc_data cs)"
  shows "\<exists>cs. batch_body cs = Inr (rb_bytes body) \<and> (\<forall>c \<in> set cs. hash_bytes (rd_crypto d) (wc_data c) = wc_hash c) \<and>
    list_all2 (answered d compact (us_server t)) (up_chunks reply) cs \<and>
    repo_inv d (sv_repo (us_server t)) \<and> index_grows d (us_server s) (us_server t)"
proof -
  obtain u a where a: "acquire_upload (uc_limits uc) agent n (us_admission s) = (Inr u, a)"
    using assms(5) by (auto simp: handle_upload_def split: if_splits sum.splits prod.splits)
  obtain v where run: "store_upload ev d uc compact body (us_server s) = (Inr reply, v)" and t: "us_server t = v"
    using assms(5) a by (auto simp: handle_upload_def on_server_def split: if_splits prod.splits)
  show ?thesis
    using store_upload_ok [OF assms(1-4) run assms(6) [unfolded t] assms(7)] read_batch_canonical unfolding t by metis
qed

definition small_uploads :: upload_config where
  "small_uploads = \<lparr>uc_body = 95, uc_chunks = 2, uc_sub_batch = 1,
     uc_limits = fst (new_admission (Some 95) (Some 95) 1), uc_queue = None\<rparr>"

definition small_body :: request_body where
  "small_body = \<lparr>rb_bytes = (case batch_body two_wire_chunks of Inr b \<Rightarrow> b | Inl e \<Rightarrow> []), rb_broken = False\<rparr>"

definition idle_uploads :: "(bytes \<times> bytes) list upload_server" where
  "idle_uploads = \<lparr>us_server = idle_server, us_admission = snd (new_admission (Some 95) (Some 95) 1)\<rparr>"

definition small_upload_result :: "(upload_error + upload_reply) \<times> (bytes \<times> bytes) list upload_server" where
  "small_upload_result = handle_upload still_env plain_deps small_uploads 7 95 True small_body idle_uploads"

lemma small_batch: "read_batch (rd_crypto plain_deps) (uc_body small_uploads) (uc_chunks small_uploads) small_body = Inr two_wire_chunks"
  by code_simp

lemma small_upload_run:
  "case small_upload_result of
     (Inr r, t) \<Rightarrow> files_fit_exec (sg_files (rp_seg (sv_repo (us_server t)))) \<and> map ua_original (up_chunks r) = [1, 2]
   | (Inl e, t) \<Rightarrow> False"
  by code_simp

lemma upload_stores_all_witness:
  "\<exists>reply t. handle_upload still_env plain_deps small_uploads 7 95 True small_body idle_uploads = (Inr reply, t) \<and>
     map ua_original (up_chunks reply) = [1, 2] \<and> repo_inv plain_deps (sv_repo (us_server t))"
proof -
  obtain reply t where r: "handle_upload still_env plain_deps small_uploads 7 95 True small_body idle_uploads = (Inr reply, t)"
    and f: "files_fit_exec (sg_files (rp_seg (sv_repo (us_server t))))" and o: "map ua_original (up_chunks reply) = [1, 2]"
    using small_upload_run unfolding small_upload_result_def by (auto split: prod.splits sum.splits)
  have inv: "repo_inv plain_deps (sv_repo (us_server idle_uploads))" by (simp add: idle_uploads_def idle_server_def empty_repo_inv)
  have "uploads_fit plain_deps (map wc_data two_wire_chunks)"
    by (simp add: uploads_fit_def two_wire_chunks_def plain_deps_def plain_data_fits)
  then have "uploads_fit plain_deps (map wc_data cs)"
    if "read_batch (rd_crypto plain_deps) (uc_body small_uploads) (uc_chunks small_uploads) small_body = Inr cs" for cs
    using that small_batch by simp
  then have "repo_inv plain_deps (sv_repo (us_server t))"
    using upload_stores_all [OF plain_deps_ok still_env_ok inv r files_fit_exec [OF f]] by blast
  then show ?thesis using r o by (intro exI conjI)
qed

text \<open>
  A request for the chunks that exist is answered truthfully, for every hash that is asked for: the
  answer changes nothing in the store.
\<close>

lemma unique_hashes_ok:
  "unique_hashes seen hs = Inr us \<Longrightarrow> distinct us \<and> set us = set (map trim_space hs) - set seen \<and> list_all valid_chunk_hash us"
proof (induction hs arbitrary: seen us)
  case (Cons h hs)
  show ?case
  proof (cases "trim_space h \<in> set seen")
    case True
    then show ?thesis using Cons.IH [of seen us] Cons.prems by (auto simp: Let_def)
  next
    case False
    then obtain vs where "unique_hashes (trim_space h # seen) hs = Inr vs" "us = trim_space h # vs" "valid_chunk_hash (trim_space h)"
      using Cons.prems by (auto simp: Let_def result_simps split: if_splits)
    then show ?thesis using Cons.IH [of "trim_space h # seen" vs] False by auto
  qed
qed simp

lemma index_get_loop_keys:
  "index_get_loop d db fault i seen hs refs = Inr rs \<Longrightarrow>
   set (map fst rs) = set (map fst refs) \<union> {h \<in> set hs. h \<noteq> [] \<and> h \<notin> set seen \<and> index_view d db h \<noteq> None}"
proof (induction hs arbitrary: i seen refs)
  case (Cons h hs)
  show ?case
  proof (cases "h = [] \<or> h \<in> set seen")
    case True
    then show ?thesis using Cons.IH [of "Suc i" seen refs] Cons.prems by auto
  next
    case False
    then obtain r where r: "index_get d db (fault i) h = Inr r"
      "index_get_loop d db fault (Suc i) (h # seen) hs (case r of None \<Rightarrow> refs | Some ref \<Rightarrow> AList.update h ref refs) = Inr rs"
      using Cons.prems by (auto simp: result_simps)
    then show ?thesis
      using Cons.IH [OF r(2)] index_get_Inr [OF r(1)] False by (auto simp: dom_update split: option.splits)
  qed
qed simp

lemma has_chunks_ok:
  assumes "has_chunks ev d hs s = (Inr found, t)"
  shows "same_store s t \<and> found = {h \<in> set hs. h \<noteq> [] \<and> indexed d s h \<noteq> None}"
proof -
  obtain u s1 where c: "check_ctx ev s = (Inr u, s1)" using assms by (auto simp: has_chunks_def result_simps)
  have s1: "same_store s s1" using check_ctx_same [of s ev] c by simp
  obtain rs where rs: "index_get_batch (rd_index d) (rp_db s1) (\<lambda>i. env_io ev (repo_step s1 + i) \<noteq> None) hs = Inr rs"
    "found = set (map fst rs)" "t = s1\<lparr>rp_seg := (rp_seg s1)\<lparr>sg_step := repo_step s1 + length hs\<rparr>\<rparr>"
    using assms c by (auto simp: has_chunks_def lift_index_def result_simps split: sum.splits)
  have "same_store s1 t" using rs(3) by (auto simp: same_store_def)
  then show ?thesis
    using same_store_trans [OF s1] index_get_loop_keys [OF rs(1) [unfolded index_get_batch_def]] rs(2) same_store_index [OF s1, of d] by simp
qed

text \<open>
  Property C16. The answer to a check is exact: of the distinct hashes that the agent asked for, those in
  \<open>missing\<close> are not in the index, all others are, and the compact reply leaves out only their list; asking
  changes nothing in the store.
\<close>

theorem check_answers_exactly:
  assumes "handle_check ev d limit repository compact hs s = (Inr k, t)"
  shows "\<exists>us. distinct us \<and> set us = set (map trim_space hs) \<and> list_all valid_chunk_hash us \<and>
    kr_missing k = filter (\<lambda>h. indexed d (sv_repo s) h = None) us \<and>
    kr_exists k = (if compact then [] else filter (\<lambda>h. indexed d (sv_repo s) h \<noteq> None) us) \<and>
    int (length hs) \<le> limit \<and> same_store (sv_repo s) (sv_repo t)"
proof -
  obtain m s1 where m: "server_db (repository_state ev) s = (Inr m, s1)" and lim: "int (length hs) \<le> limit"
    using assms by (auto simp: handle_check_def result_simps split: if_splits)
  have s1: "sv_repo s1 = sv_repo s" by (rule server_db_repo [OF m])
  obtain us where us: "unique_hashes [] hs = Inr us"
    using assms m by (auto simp: handle_check_def result_simps split: if_splits sum.splits)
  obtain found s2 where f: "server_repo (has_chunks ev d us) s1 = (Inr found, s2)"
    and k: "kr_exists k = (if compact then [] else filter (\<lambda>h. h \<in> found) us)" "kr_missing k = filter (\<lambda>h. h \<notin> found) us" and t: "t = s2"
    using assms m us by (auto simp: handle_check_def result_simps split: if_splits)
  obtain r where h: "has_chunks ev d us (sv_repo s) = (Inr found, r)" "sv_repo s2 = r"
    using f s1 by (auto simp: server_repo_def split: sum.splits prod.splits)
  have ok: "distinct us" "set us = set (map trim_space hs)" "list_all valid_chunk_hash us" using unique_hashes_ok [OF us] by auto
  have "h \<in> found \<longleftrightarrow> indexed d (sv_repo s) h \<noteq> None" if "h \<in> set us" for h
    using has_chunks_ok [OF h(1)] that ok(3) by (auto simp: list_all_iff valid_chunk_hash_def)
  then have "filter (\<lambda>h. h \<in> found) us = filter (\<lambda>h. indexed d (sv_repo s) h \<noteq> None) us"
    "filter (\<lambda>h. h \<notin> found) us = filter (\<lambda>h. indexed d (sv_repo s) h = None) us"
    by (auto intro: filter_cong)
  then show ?thesis using ok k lim has_chunks_ok [OF h(1)] h(2) t by auto
qed

definition asked_hashes :: "string list" where
  "asked_hashes = [hash_bytes plain_crypto [3], '' '' @ hash_bytes plain_crypto [3]]"

lemma check_answers_exactly_witness:
  "\<exists>k t. handle_check still_env plain_deps 2 ''repo'' False asked_hashes idle_server = (Inr k, t) \<and>
     kr_missing k = [hash_bytes plain_crypto [3]] \<and> same_store (sv_repo idle_server) (sv_repo t)"
proof -
  have "case handle_check still_env plain_deps 2 ''repo'' False asked_hashes idle_server of
      (Inr k, t) \<Rightarrow> kr_missing k = [hash_bytes plain_crypto [3]] | (Inl e, t) \<Rightarrow> False" by code_simp
  then obtain k t where k: "handle_check still_env plain_deps 2 ''repo'' False asked_hashes idle_server = (Inr k, t)"
    "kr_missing k = [hash_bytes plain_crypto [3]]" by (auto split: prod.splits sum.splits)
  have "same_store (sv_repo idle_server) (sv_repo t)" using check_answers_exactly [OF k(1)] by blast
  then show ?thesis using k by blast
qed

end
