(* ===== verification/AgentCatalog.thy ===== *)
theory AgentCatalog
  imports ChunkIndex GoPaths
begin

text \<open>
  The catalog of the agent (\<open>cmd/turbk-agent/catalog.go\<close>) in its pebble form: which chunks the server
  is known to hold, and what was recorded of each file. Values have a binary format of their own. The
  operations run on the key-value store of \<open>KvStore\<close>; every call of it can fail, and a batch that is
  not committed changes nothing.
\<close>

datatype catalog_error =
    CatBadHash string
  | CatBadStatus string
  | CatBadType string
  | CatBadSize int
  | CatBadMode int
  | CatBadGeneration int
  | CatLoadFailed
  | CatDeleteFailed
  | CatIterFailed
  | CatCommitFailed
  | CatStateFailed
  | CatRequestFailed

subsection \<open>Records\<close>

record catalog_file =
  cf_root :: string
  cf_path :: string
  cf_type :: string
  cf_size :: int
  cf_mode :: int
  cf_uid :: int
  cf_gid :: int
  cf_mtime :: int
  cf_dev :: int
  cf_inode :: int
  cf_link :: string
  cf_fingerprint :: string

record catalog_chunk =
  cc_hash :: string
  cc_original :: int

record status_update =
  su_hash :: string
  su_original :: int
  su_status :: string
  su_generation :: int
  su_uploaded :: bool

record status_record =
  st_status :: string
  st_original :: int
  st_generation :: int
  st_checked :: int
  st_uploaded :: int

definition zero_status :: status_record where
  "zero_status = \<lparr>st_status = [], st_original = 0, st_generation = 0, st_checked = 0, st_uploaded = 0\<rparr>"

definition catalog_file_matches :: "catalog_file \<Rightarrow> catalog_file \<Rightarrow> bool" where
  "catalog_file_matches a b \<longleftrightarrow>
     cf_root a = cf_root b \<and> cf_path a = cf_path b \<and> cf_type a = cf_type b \<and> cf_size a = cf_size b \<and>
     cf_mode a = cf_mode b \<and> cf_uid a = cf_uid b \<and> cf_gid a = cf_gid b \<and> cf_mtime a = cf_mtime b \<and>
     cf_dev a = cf_dev b \<and> cf_inode a = cf_inode b \<and> cf_link a = cf_link b"

subsection \<open>Encoding\<close>

definition status_code :: "string \<Rightarrow> catalog_error + byte" where
  "status_code s =
     (let t = trim_space s
      in if t = ''unknown'' then Inr 1 else if t = ''confirmed'' then Inr 2 else if t = ''missing'' then Inr 3
         else Inl (CatBadStatus s))"

definition status_name :: "byte \<Rightarrow> string option" where
  "status_name c = (if c = 1 then Some ''unknown'' else if c = 2 then Some ''confirmed'' else if c = 3 then Some ''missing'' else None)"

definition type_code :: "string \<Rightarrow> catalog_error + byte" where
  "type_code s =
     (let t = trim_space s
      in if t = ''file'' then Inr 1 else if t = ''dir'' then Inr 2 else if t = ''symlink'' then Inr 3 else Inl (CatBadType s))"

definition type_name :: "byte \<Rightarrow> string option" where
  "type_name c = (if c = 1 then Some ''file'' else if c = 2 then Some ''dir'' else if c = 3 then Some ''symlink'' else None)"

definition status_key :: "string \<Rightarrow> catalog_error + bytes" where
  "status_key hash =
     (case hex_decode (trim_space hash) of
        None \<Rightarrow> Inl (CatBadHash (trim_space hash))
      | Some h \<Rightarrow> if length h \<noteq> 32 then Inl (CatBadHash (trim_space hash)) else Inr (1 # h))"

definition put_int64 :: "int \<Rightarrow> bytes" where
  "put_int64 n = put_be64 (u64_of n)"

definition encode_status_value :: "status_record \<Rightarrow> catalog_error + bytes" where
  "encode_status_value r =
     rbind (status_code (st_status r)) (\<lambda>code.
       if st_original r < 0 then Inl (CatBadSize (st_original r))
       else if st_generation r < 0 then Inl (CatBadGeneration (st_generation r))
       else Inr ([1, code] @ put_int64 (st_original r) @ put_int64 (st_generation r) @ put_int64 (st_checked r) @ put_int64 (st_uploaded r)))"

definition get_int64 :: "bytes \<Rightarrow> int" where
  "get_int64 bs = sint (get_be64 (take 8 bs))"

definition decode_status_value :: "bytes \<Rightarrow> status_record option" where
  "decode_status_value v =
     (if length v \<noteq> 34 \<or> v ! 0 \<noteq> 1 then None
      else case status_name (v ! 1) of
             None \<Rightarrow> None
           | Some s \<Rightarrow> Some \<lparr>st_status = s, st_original = get_int64 (drop 2 v), st_generation = get_int64 (drop 10 v),
               st_checked = get_int64 (drop 18 v), st_uploaded = get_int64 (drop 26 v)\<rparr>)"

definition put_prefixed :: "bytes \<Rightarrow> bytes" where
  "put_prefixed bs = put_uvarint (length bs) @ bs"

definition file_key :: "string \<Rightarrow> string \<Rightarrow> bytes" where
  "file_key root path = 2 # put_prefixed (bytes_of (clean_path root)) @ put_prefixed (bytes_of path)"

fun put_chunks_of :: "catalog_chunk list \<Rightarrow> catalog_error + bytes" where
  "put_chunks_of [] = Inr []"
| "put_chunks_of (c # cs) =
     (case hex_decode (trim_space (cc_hash c)) of
        None \<Rightarrow> Inl (CatBadHash (cc_hash c))
      | Some h \<Rightarrow>
          if length h \<noteq> 32 then Inl (CatBadHash (cc_hash c))
          else if cc_original c < 0 then Inl (CatBadSize (cc_original c))
          else rbind (put_chunks_of cs) (\<lambda>bs. Inr (h @ put_int64 (cc_original c) @ bs)))"

definition encode_file_value :: "catalog_file \<Rightarrow> catalog_chunk list \<Rightarrow> catalog_error + bytes" where
  "encode_file_value r cs =
     rbind (type_code (cf_type r)) (\<lambda>code.
       if cf_size r < 0 then Inl (CatBadSize (cf_size r))
       else if cf_mode r < 0 \<or> 4294967295 < cf_mode r then Inl (CatBadMode (cf_mode r))
       else rbind (put_chunks_of cs) (\<lambda>bs. Inr
              ([1, code] @ put_int64 (cf_size r) @ put_be32 (word_of_int (cf_mode r)) @ put_int64 (cf_uid r) @ put_int64 (cf_gid r) @
               put_int64 (cf_mtime r) @ put_int64 (cf_dev r) @ put_int64 (cf_inode r) @
               put_prefixed (bytes_of (cf_link r)) @ put_prefixed (bytes_of (cf_fingerprint r)) @ put_uvarint (length cs) @ bs)))"

subsection \<open>Decoding\<close>

text \<open>A reader takes a value from the front of the rest of the data.\<close>

definition read_be64 :: "bytes \<Rightarrow> (u64 \<times> bytes) option" where
  "read_be64 bs = (if length bs < 8 then None else Some (get_be64 (take 8 bs), drop 8 bs))"

definition read_be32 :: "bytes \<Rightarrow> (u32 \<times> bytes) option" where
  "read_be32 bs = (if length bs < 4 then None else Some (get_be32 (take 4 bs), drop 4 bs))"

definition read_int64 :: "bytes \<Rightarrow> (int \<times> bytes) option" where
  "read_int64 bs = map_option (\<lambda>(w, r). (sint w, r)) (read_be64 bs)"

definition read_uvarint :: "bytes \<Rightarrow> (nat \<times> bytes) option" where
  "read_uvarint bs = map_option (\<lambda>(v, n). (v, drop n bs)) (get_uvarint bs)"

definition read_prefixed :: "bytes \<Rightarrow> (bytes \<times> bytes) option" where
  "read_prefixed bs =
     (case read_uvarint bs of
        None \<Rightarrow> None
      | Some (n, r) \<Rightarrow> if length r < n then None else Some (take n r, drop n r))"

fun read_chunks_of :: "nat \<Rightarrow> bytes \<Rightarrow> (catalog_chunk list \<times> bytes) option" where
  "read_chunks_of 0 bs = Some ([], bs)"
| "read_chunks_of (Suc n) bs =
     (if length bs < 40 then None
      else case read_be64 (drop 32 bs) of
             None \<Rightarrow> None
           | Some (w, r) \<Rightarrow>
               if 9223372036854775807 < unat w then None
               else map_option (\<lambda>(cs, t). (\<lparr>cc_hash = hex_encode (take 32 bs), cc_original = sint w\<rparr> # cs, t)) (read_chunks_of n r))"

definition decode_file_value :: "bytes \<Rightarrow> (catalog_file \<times> catalog_chunk list) option" where
  "decode_file_value v =
     (if length v < 2 \<or> v ! 0 \<noteq> 1 then None
      else Option.bind (type_name (v ! 1)) (\<lambda>type.
           Option.bind (read_be64 (drop 2 v)) (\<lambda>(size, r1).
           Option.bind (read_be32 r1) (\<lambda>(mode, r2).
           Option.bind (read_int64 r2) (\<lambda>(uid, r3).
           Option.bind (read_int64 r3) (\<lambda>(gid, r4).
           Option.bind (read_int64 r4) (\<lambda>(mtime, r5).
           Option.bind (read_int64 r5) (\<lambda>(dev, r6).
           Option.bind (read_int64 r6) (\<lambda>(inode, r7).
           Option.bind (read_prefixed r7) (\<lambda>(link, r8).
           Option.bind (read_prefixed r8) (\<lambda>(fingerprint, r9).
           Option.bind (read_uvarint r9) (\<lambda>(count, r10).
             if 9223372036854775807 < unat size \<or> length r10 div 40 < count then None
             else Option.bind (read_chunks_of count r10) (\<lambda>(cs, rest).
               if rest \<noteq> [] then None
               else Some (\<lparr>cf_root = [], cf_path = [], cf_type = type, cf_size = sint size, cf_mode = int (unat mode), cf_uid = uid,
                      cf_gid = gid, cf_mtime = mtime, cf_dev = dev, cf_inode = inode, cf_link = string_of link,
                      cf_fingerprint = string_of fingerprint\<rparr>, cs))))))))))))))"

definition decode_file_key :: "bytes \<Rightarrow> (string \<times> string) option" where
  "decode_file_key k =
     (case k of
        [] \<Rightarrow> None
      | t # r \<Rightarrow>
          if t \<noteq> 2 then None
          else Option.bind (read_prefixed r) (\<lambda>(root, r1).
               Option.bind (read_prefixed r1) (\<lambda>(path, r2).
                 if r2 \<noteq> [] then None else Some (string_of root, string_of path))))"

subsection \<open>What is decoded is what was encoded\<close>

lemma length_put_int64 [simp]: "length (put_int64 n) = 8"
  by (simp add: put_int64_def)

lemma get_put_int64 [simp]: "int64 n \<Longrightarrow> get_int64 (put_int64 n @ r) = n"
  by (simp add: get_int64_def put_int64_def)

lemma read_put_int64 [simp]: "int64 n \<Longrightarrow> read_int64 (put_int64 n @ r) = Some (n, r)"
  by (simp add: read_int64_def read_be64_def put_int64_def)

lemma read_put_be64 [simp]: "read_be64 (put_int64 n @ r) = Some (u64_of n, r)"
  by (simp add: read_be64_def put_int64_def)

lemma read_put_be32 [simp]: "read_be32 (put_be32 w @ r) = Some (w, r)"
  by (simp add: read_be32_def)

lemma read_put_uvarint [simp]: "n < 2 ^ 64 \<Longrightarrow> read_uvarint (put_uvarint n @ r) = Some (n, r)"
  using get_put_uvarint [of n r] by (simp add: read_uvarint_def)

lemma read_put_prefixed [simp]: "length bs < 2 ^ 64 \<Longrightarrow> read_prefixed (put_prefixed bs @ r) = Some (bs, r)"
  by (simp add: read_prefixed_def put_prefixed_def)

lemma status_code_name: "status_code s = Inr c \<Longrightarrow> status_name c = Some (trim_space s)"
  by (auto simp: status_code_def status_name_def Let_def split: if_splits)

lemma type_code_name: "type_code s = Inr c \<Longrightarrow> type_name c = Some (trim_space s)"
  by (auto simp: type_code_def type_name_def Let_def split: if_splits)

definition status_ok :: "status_record \<Rightarrow> bool" where
  "status_ok r \<longleftrightarrow> int64 (st_original r) \<and> int64 (st_generation r) \<and> int64 (st_checked r) \<and> int64 (st_uploaded r)"

lemma decode_encode_status:
  assumes "encode_status_value r = Inr v" and "status_ok r"
  shows "decode_status_value v = Some (r\<lparr>st_status := trim_space (st_status r)\<rparr>)"
proof -
  obtain c where c: "status_code (st_status r) = Inr c"
    and v: "v = [1, c] @ put_int64 (st_original r) @ put_int64 (st_generation r) @ put_int64 (st_checked r) @ put_int64 (st_uploaded r)"
    using assms(1) by (auto simp: encode_status_value_def result_simps split: if_splits)
  have i: "int64 (st_original r)" "int64 (st_generation r)" "int64 (st_checked r)" "int64 (st_uploaded r)"
    using assms(2) by (auto simp: status_ok_def)
  have d: "drop 2 v = put_int64 (st_original r) @ put_int64 (st_generation r) @ put_int64 (st_checked r) @ put_int64 (st_uploaded r)"
    "drop 10 v = put_int64 (st_generation r) @ put_int64 (st_checked r) @ put_int64 (st_uploaded r)"
    "drop 18 v = put_int64 (st_checked r) @ put_int64 (st_uploaded r)" "drop 26 v = put_int64 (st_uploaded r) @ []"
    by (simp_all add: v)
  show ?thesis
    using i status_code_name [OF c] unfolding decode_status_value_def d
    by (simp add: v del: append_Nil2)
qed

definition chunk_entry_ok :: "catalog_chunk \<Rightarrow> bool" where
  "chunk_entry_ok c \<longleftrightarrow> to_lower (cc_hash c) = cc_hash c \<and> trim_space (cc_hash c) = cc_hash c \<and> int64 (cc_original c)"

lemma read_put_chunks:
  "put_chunks_of cs = Inr bs \<Longrightarrow> list_all chunk_entry_ok cs \<Longrightarrow>
   length bs = 40 * length cs \<and> read_chunks_of (length cs) (bs @ r) = Some (cs, r)"
proof (induction cs arbitrary: bs)
  case (Cons c cs)
  then obtain h b where h: "hex_decode (cc_hash c) = Some h" "length h = 32" "0 \<le> cc_original c"
    and b: "put_chunks_of cs = Inr b" "bs = h @ put_int64 (cc_original c) @ b"
    by (auto simp: chunk_entry_ok_def result_simps split: option.splits if_splits)
  have ok: "int64 (cc_original c)" "hex_encode h = cc_hash c"
    using Cons.prems(2) hex_encode_decode [OF h(1)] by (auto simp: chunk_entry_ok_def)
  have "unat (u64_of (cc_original c)) = nat (cc_original c)" using ok(1) h(3) by (rule_tac unat_u64_of)
  moreover have "nat (cc_original c) \<le> 9223372036854775807" using ok(1) by (simp add: int64_def nat_le_iff)
  ultimately show ?case using Cons.IH [OF b(1)] Cons.prems(2) h ok by (simp add: b(2))
qed simp

definition file_ok :: "catalog_file \<Rightarrow> bool" where
  "file_ok r \<longleftrightarrow> trim_space (cf_type r) = cf_type r \<and> int64 (cf_size r) \<and> int64 (cf_uid r) \<and> int64 (cf_gid r) \<and> int64 (cf_mtime r) \<and>
     int64 (cf_dev r) \<and> int64 (cf_inode r) \<and> length (cf_link r) < 2 ^ 63 \<and> length (cf_fingerprint r) < 2 ^ 63"

lemma decode_encode_file:
  assumes e: "encode_file_value r cs = Inr v" and ok: "file_ok r" and cs: "list_all chunk_entry_ok cs" and n: "length cs < 2 ^ 63"
  shows "decode_file_value v = Some (r\<lparr>cf_root := [], cf_path := []\<rparr>, cs)"
proof -
  obtain c bs where c: "type_code (cf_type r) = Inr c" and bs: "put_chunks_of cs = Inr bs"
    and pos: "0 \<le> cf_size r" "0 \<le> cf_mode r" "cf_mode r \<le> 4294967295"
    and v: "v = [1, c] @ put_int64 (cf_size r) @ put_be32 (word_of_int (cf_mode r)) @ put_int64 (cf_uid r) @ put_int64 (cf_gid r) @
        put_int64 (cf_mtime r) @ put_int64 (cf_dev r) @ put_int64 (cf_inode r) @
        put_prefixed (bytes_of (cf_link r)) @ put_prefixed (bytes_of (cf_fingerprint r)) @ put_uvarint (length cs) @ bs"
    using e by (auto simp: encode_file_value_def result_simps split: if_splits)
  have i: "int64 (cf_size r)" "int64 (cf_uid r)" "int64 (cf_gid r)" "int64 (cf_mtime r)" "int64 (cf_dev r)" "int64 (cf_inode r)"
    "length (cf_link r) < 2 ^ 64" "length (cf_fingerprint r) < 2 ^ 64" "trim_space (cf_type r) = cf_type r"
    using ok by (auto simp: file_ok_def)
  have d: "drop 2 v = put_int64 (cf_size r) @ put_be32 (word_of_int (cf_mode r)) @ put_int64 (cf_uid r) @ put_int64 (cf_gid r) @
        put_int64 (cf_mtime r) @ put_int64 (cf_dev r) @ put_int64 (cf_inode r) @
        put_prefixed (bytes_of (cf_link r)) @ put_prefixed (bytes_of (cf_fingerprint r)) @ put_uvarint (length cs) @ bs" by (simp add: v)
  have size: "unat (u64_of (cf_size r)) \<le> 9223372036854775807"
    using unat_u64_of [OF pos(1) i(1)] i(1) by (simp add: int64_def nat_le_iff)
  have mode: "int (unat (word_of_int (cf_mode r) :: u32)) = cf_mode r"
    using pos(2,3) by (simp add: unsigned_of_int take_bit_int_eq_self)
  have cs: "length bs = 40 * length cs" "read_chunks_of (length cs) bs = Some (cs, [])"
    using read_put_chunks [OF bs cs, of "[]"] by auto
  have t: "type_name c = Some (cf_type r)" using type_code_name [OF c] i(9) by simp
  have "v ! 0 = 1" "v ! 1 = c" "\<not> length v < 2" by (auto simp: v)
  then show ?thesis
    unfolding decode_file_value_def d using i n size mode cs t by (simp add: not_less)
qed

lemma read_put_prefixed_end [simp]: "length bs < 2 ^ 64 \<Longrightarrow> read_prefixed (put_prefixed bs) = Some (bs, [])"
  using read_put_prefixed [of bs "[]"] by simp

lemma decode_file_key_key:
  assumes "length (clean_path root) < 2 ^ 64" and "length path < 2 ^ 64"
  shows "decode_file_key (file_key root path) = Some (clean_path root, path)"
  using assms unfolding decode_file_key_def file_key_def by simp

subsection \<open>The catalog\<close>

text \<open>
  The database and the number of calls made so far, which selects the fate of the next one.
\<close>

record 'db catalog =
  ct_db :: 'db
  ct_step :: nat

type_synonym ('a, 'db) catalog_result = "(catalog_error + 'a) \<times> 'db catalog"

definition ct_tick :: "'db catalog \<Rightarrow> 'db catalog" where
  "ct_tick c = c\<lparr>ct_step := Suc (ct_step c)\<rparr>"

definition ct_fault :: "env \<Rightarrow> 'db catalog \<Rightarrow> bool" where
  "ct_fault ev c \<longleftrightarrow> env_io ev (ct_step c) \<noteq> None"

definition ct_commit :: "env \<Rightarrow> 'db kv_ops \<Rightarrow> catalog_error \<Rightarrow> kv_op list \<Rightarrow> 'db catalog \<Rightarrow> (unit, 'db) catalog_result" where
  "ct_commit ev kv e ops c =
     (if ct_fault ev c then (Inl e, ct_tick c) else (Inr (), ct_tick (c\<lparr>ct_db := kv_apply kv (ct_db c) ops\<rparr>)))"

definition unix_now :: "env \<Rightarrow> 'db catalog \<Rightarrow> int" where
  "unix_now ev c = env_now ev (ct_step c) div 1000000000"

text \<open>\<open>getRecord\<close> deletes a value that does not decode.\<close>

definition get_status :: "env \<Rightarrow> 'db kv_ops \<Rightarrow> bytes \<Rightarrow> 'db catalog \<Rightarrow> (status_record option, 'db) catalog_result" where
  "get_status ev kv key c =
     (if ct_fault ev c then (Inl CatLoadFailed, ct_tick c)
      else case kv_get kv (ct_db c) key of
             None \<Rightarrow> (Inr None, ct_tick c)
           | Some v \<Rightarrow>
               (case decode_status_value v of
                  Some r \<Rightarrow> (Inr (Some r), ct_tick c)
                | None \<Rightarrow> sbind (ct_commit ev kv CatDeleteFailed [KvDelete key] (ct_tick c)) (\<lambda>_ c1. (Inr None, c1))))"

definition chunk_status :: "env \<Rightarrow> 'db kv_ops \<Rightarrow> string \<Rightarrow> 'db catalog \<Rightarrow> ((string \<times> int) option, 'db) catalog_result" where
  "chunk_status ev kv hash c =
     (case status_key hash of
        Inl e \<Rightarrow> (Inl e, c)
      | Inr key \<Rightarrow> sbind (get_status ev kv key c) (\<lambda>r c1. (Inr (map_option (\<lambda>r. (st_status r, st_generation r)) r), c1)))"

definition marked_status :: "int \<Rightarrow> status_update \<Rightarrow> status_record" where
  "marked_status now u =
     (let s = trim_space (su_status u)
      in \<lparr>st_status = s, st_original = su_original u, st_generation = (if s = ''unknown'' then 0 else su_generation u),
           st_checked = (if s = ''unknown'' then 0 else now), st_uploaded = (if su_uploaded u then now else 0)\<rparr>)"

fun mark_ops :: "int \<Rightarrow> status_update list \<Rightarrow> catalog_error + kv_op list" where
  "mark_ops now [] = Inr []"
| "mark_ops now (u # us) =
     (if trim_space (su_hash u) = [] then mark_ops now us
      else rbind (status_key (trim_space (su_hash u))) (\<lambda>key.
           if su_original u < 0 then Inl (CatBadSize (su_original u))
           else rbind (encode_status_value (marked_status now u)) (\<lambda>v. rbind (mark_ops now us) (\<lambda>ops. Inr (KvSet key v # ops)))))"

definition mark_chunks :: "env \<Rightarrow> 'db kv_ops \<Rightarrow> status_update list \<Rightarrow> 'db catalog \<Rightarrow> (unit, 'db) catalog_result" where
  "mark_chunks ev kv us c =
     (if us = [] then (Inr (), c)
      else case mark_ops (unix_now ev c) us of
             Inl e \<Rightarrow> (Inl e, c)
           | Inr ops \<Rightarrow> ct_commit ev kv CatCommitFailed ops c)"

definition mark_chunk :: "env \<Rightarrow> 'db kv_ops \<Rightarrow> status_update \<Rightarrow> 'db catalog \<Rightarrow> (unit, 'db) catalog_result" where
  "mark_chunk ev kv u c = mark_chunks ev kv [u] c"

text \<open>The two halves of \<open>applyInvalidations\<close>: the hashes it was given, and all other records.\<close>

fun invalidate_ops :: "env \<Rightarrow> 'db kv_ops \<Rightarrow> string list \<Rightarrow> 'db catalog \<Rightarrow> ((bytes \<times> kv_op) list, 'db) catalog_result" where
  "invalidate_ops ev kv [] c = (Inr [], c)"
| "invalidate_ops ev kv (h # hs) c =
     (if trim_space h = [] then invalidate_ops ev kv hs c
      else case status_key (trim_space h) of
             Inl e \<Rightarrow> (Inl e, c)
           | Inr key \<Rightarrow> sbind (get_status ev kv key c) (\<lambda>r c1.
               case encode_status_value ((case r of None \<Rightarrow> zero_status | Some x \<Rightarrow> x)\<lparr>st_status := ''unknown'', st_generation := 0\<rparr>) of
                 Inl e \<Rightarrow> (Inl e, c1)
               | Inr v \<Rightarrow> sbind (invalidate_ops ev kv hs c1) (\<lambda>ops c2. (Inr ((key, KvSet key v) # ops), c2))))"

fun advance_ops :: "int \<Rightarrow> int \<Rightarrow> bytes list \<Rightarrow> (bytes \<times> bytes) list \<Rightarrow> catalog_error + kv_op list" where
  "advance_ops generation now skip [] = Inr []"
| "advance_ops generation now skip ((k, v) # kvs) =
     (if k \<in> set skip then advance_ops generation now skip kvs
      else case decode_status_value v of
             None \<Rightarrow> rbind (advance_ops generation now skip kvs) (\<lambda>ops. Inr (KvDelete k # ops))
           | Some r \<Rightarrow>
               if st_status r \<noteq> ''confirmed'' then advance_ops generation now skip kvs
               else rbind (encode_status_value (r\<lparr>st_generation := generation, st_checked := now\<rparr>)) (\<lambda>v'.
                    rbind (advance_ops generation now skip kvs) (\<lambda>ops. Inr (KvSet k v' # ops))))"

definition apply_invalidations :: "env \<Rightarrow> 'db kv_ops \<Rightarrow> string list \<Rightarrow> int \<Rightarrow> 'db catalog \<Rightarrow> (unit, 'db) catalog_result" where
  "apply_invalidations ev kv hs generation c =
     (let now = unix_now ev c
      in sbind (invalidate_ops ev kv hs c) (\<lambda>kops c1.
           if ct_fault ev c1 then (Inl CatIterFailed, ct_tick c1)
           else let c2 = ct_tick c1
                in case advance_ops generation now (map fst kops) (kv_range kv (ct_db c2) [1] [2]) of
                     Inl e \<Rightarrow> (Inl e, c2)
                   | Inr ops \<Rightarrow>
                       if ct_fault ev c2 then (Inl CatIterFailed, ct_tick c2)
                       else ct_commit ev kv CatCommitFailed (map snd kops @ ops) (ct_tick c2)))"

definition reset_server_chunks :: "env \<Rightarrow> 'db kv_ops \<Rightarrow> 'db catalog \<Rightarrow> (unit, 'db) catalog_result" where
  "reset_server_chunks ev kv c =
     ct_commit ev kv CatDeleteFailed (map (KvDelete \<circ> fst) (kv_range kv (ct_db c) [1] [2])) c"

definition file_record_with_chunks ::
    "env \<Rightarrow> 'db kv_ops \<Rightarrow> string \<Rightarrow> string \<Rightarrow> 'db catalog \<Rightarrow> ((catalog_file \<times> catalog_chunk list) option, 'db) catalog_result" where
  "file_record_with_chunks ev kv root path c =
     (if ct_fault ev c then (Inl CatLoadFailed, ct_tick c)
      else case kv_get kv (ct_db c) (file_key root path) of
             None \<Rightarrow> (Inr None, ct_tick c)
           | Some v \<Rightarrow>
               (case decode_file_value v of
                  Some (r, cs) \<Rightarrow> (Inr (Some (r\<lparr>cf_root := clean_path root, cf_path := path\<rparr>, cs)), ct_tick c)
                | None \<Rightarrow> sbind (ct_commit ev kv CatDeleteFailed [KvDelete (file_key root path)] (ct_tick c)) (\<lambda>_ c1. (Inr None, c1))))"

definition file_record :: "env \<Rightarrow> 'db kv_ops \<Rightarrow> string \<Rightarrow> string \<Rightarrow> 'db catalog \<Rightarrow> (catalog_file option, 'db) catalog_result" where
  "file_record ev kv root path c = sbind (file_record_with_chunks ev kv root path c) (\<lambda>r c1. (Inr (map_option fst r), c1))"

definition file_chunks :: "env \<Rightarrow> 'db kv_ops \<Rightarrow> string \<Rightarrow> string \<Rightarrow> 'db catalog \<Rightarrow> (catalog_chunk list, 'db) catalog_result" where
  "file_chunks ev kv root path c =
     sbind (file_record_with_chunks ev kv root path c) (\<lambda>r c1. (Inr (case r of None \<Rightarrow> [] | Some (x, cs) \<Rightarrow> cs), c1))"

fun replace_ops :: "(catalog_file \<times> catalog_chunk list) list \<Rightarrow> catalog_error + kv_op list" where
  "replace_ops [] = Inr []"
| "replace_ops ((r, cs) # us) =
     rbind (encode_file_value r cs) (\<lambda>v. rbind (replace_ops us) (\<lambda>ops. Inr (KvSet (file_key (cf_root r) (cf_path r)) v # ops)))"

definition replace_files :: "env \<Rightarrow> 'db kv_ops \<Rightarrow> (catalog_file \<times> catalog_chunk list) list \<Rightarrow> 'db catalog \<Rightarrow> (unit, 'db) catalog_result" where
  "replace_files ev kv us c =
     (if us = [] then (Inr (), c)
      else case replace_ops us of Inl e \<Rightarrow> (Inl e, c) | Inr ops \<Rightarrow> ct_commit ev kv CatCommitFailed ops c)"

definition replace_file :: "env \<Rightarrow> 'db kv_ops \<Rightarrow> catalog_file \<Rightarrow> catalog_chunk list \<Rightarrow> 'db catalog \<Rightarrow> (unit, 'db) catalog_result" where
  "replace_file ev kv r cs c = replace_files ev kv [(r, cs)] c"

subsection \<open>What the catalog knows\<close>

text \<open>
  The abstract catalog is a map from digests to records. A value that does not decode counts as absent,
  which is what a lookup makes of it.
\<close>

definition status_at :: "'db kv_ops \<Rightarrow> 'db \<Rightarrow> bytes \<Rightarrow> status_record option" where
  "status_at kv db d = Option.bind (kv_get kv db (1 # d)) decode_status_value"

definition file_at :: "'db kv_ops \<Rightarrow> 'db \<Rightarrow> string \<Rightarrow> string \<Rightarrow> (catalog_file \<times> catalog_chunk list) option" where
  "file_at kv db root path = Option.bind (kv_get kv db (file_key root path)) decode_file_value"

definition digest_of :: "string \<Rightarrow> bytes option" where
  "digest_of h = (case hex_decode (trim_space h) of None \<Rightarrow> None | Some d \<Rightarrow> if length d = 32 then Some d else None)"

lemma status_key_Inr: "status_key h = Inr k \<longleftrightarrow> (\<exists>d. digest_of h = Some d \<and> k = 1 # d)"
  by (auto simp: status_key_def digest_of_def split: option.splits)

lemma digest_of_trim [simp]: "digest_of (trim_space h) = digest_of h"
  by (simp add: digest_of_def)

lemma file_key_other [simp]: "file_key r p \<noteq> 1 # d" "1 # d \<noteq> file_key r p"
  by (simp_all add: file_key_def)

lemma decode_status_ok:
  "decode_status_value v = Some r \<Longrightarrow> status_ok r \<and> st_status r \<in> {''unknown'', ''confirmed'', ''missing''}"
  by (auto simp: decode_status_value_def status_name_def status_ok_def get_int64_def split: if_splits)

lemma known_status_trim: "s \<in> {''unknown'', ''confirmed'', ''missing''} \<Longrightarrow> trim_space s = s"
  by (elim insertE) (auto intro!: trim_space_graphic simp: graphic_def char_code_def)

lemma decode_encode_known:
  assumes "encode_status_value r = Inr v" and "status_ok r" and "st_status r \<in> {''unknown'', ''confirmed'', ''missing''}"
  shows "decode_status_value v = Some r"
  using decode_encode_status [OF assms(1,2)] known_status_trim [OF assms(3)] by simp

text \<open>Reading changes nothing that is known.\<close>

definition same_known :: "'db kv_ops \<Rightarrow> 'db catalog \<Rightarrow> 'db catalog \<Rightarrow> bool" where
  "same_known kv c c' \<longleftrightarrow> status_at kv (ct_db c') = status_at kv (ct_db c) \<and> file_at kv (ct_db c') = file_at kv (ct_db c)"

lemma same_known_refl [simp]: "same_known kv c c" "same_known kv c (ct_tick c)"
  by (simp_all add: same_known_def ct_tick_def)

lemma same_known_trans: "same_known kv a b \<Longrightarrow> same_known kv b c \<Longrightarrow> same_known kv a c"
  by (simp add: same_known_def)

lemma ct_commit_Inr:
  "ct_commit ev kv e ops c = (Inr u, c') \<Longrightarrow> \<not> ct_fault ev c \<and> ct_db c' = kv_apply kv (ct_db c) ops"
  by (auto simp: ct_commit_def ct_tick_def split: if_splits)

lemma ct_commit_Inl: "ct_commit ev kv e ops c = (Inl x, c') \<Longrightarrow> ct_db c' = ct_db c"
  by (auto simp: ct_commit_def ct_tick_def split: if_splits)

lemma get_status_known:
  assumes "kv_laws kv" and "get_status ev kv (1 # d) c = (r, c')"
  shows "same_known kv c c' \<and> (\<forall>x. r = Inr x \<longrightarrow> x = status_at kv (ct_db c) d)"
proof (cases "kv_get kv (ct_db c) (1 # d)")
  case None
  then show ?thesis using assms(2) by (auto simp: get_status_def status_at_def split: if_splits)
next
  case (Some v)
  have del: "same_known kv c c1"
    if "ct_db c1 = kv_apply kv (ct_db c) [KvDelete (1 # d)]" "decode_status_value v = None" for c1
    using that Some kv_lawsD(1) [OF assms(1), of "ct_db c" "[KvDelete (1 # d)]"]
    by (auto simp: same_known_def status_at_def file_at_def fun_eq_iff)
  have "same_known kv c c1" if "ct_db c1 = ct_db c" for c1 using that by (simp add: same_known_def)
  then show ?thesis
    using assms(2) Some del
    by (auto simp: get_status_def status_at_def ct_commit_def ct_tick_def split: if_splits option.splits)
qed

lemma chunk_status_known:
  assumes "kv_laws kv" and "chunk_status ev kv h c = (r, c')"
  shows "same_known kv c c' \<and>
    (\<forall>x. r = Inr x \<longrightarrow> (\<exists>d. digest_of h = Some d \<and> x = map_option (\<lambda>r. (st_status r, st_generation r)) (status_at kv (ct_db c) d)))"
proof (cases "status_key h")
  case (Inl e)
  then show ?thesis using assms(2) by (auto simp: chunk_status_def)
next
  case (Inr k)
  then obtain d where d: "digest_of h = Some d" "k = 1 # d" by (auto simp: status_key_Inr)
  obtain q c1 where q: "get_status ev kv k c = (q, c1)" by fastforce
  then show ?thesis
    using assms(2) Inr d get_status_known [OF assms(1), of ev d c q c1] by (cases q) (auto simp: chunk_status_def)
qed

subsection \<open>What the operations do to it\<close>

fun mark_map :: "int \<Rightarrow> status_update list \<Rightarrow> (bytes \<Rightarrow> status_record option) \<Rightarrow> bytes \<Rightarrow> status_record option" where
  "mark_map now [] m = m"
| "mark_map now (u # us) m =
     (case digest_of (su_hash u) of None \<Rightarrow> mark_map now us m | Some d \<Rightarrow> mark_map now us (m(d \<mapsto> marked_status now u)))"

definition update_ok :: "status_update \<Rightarrow> bool" where
  "update_ok u \<longleftrightarrow> int64 (su_original u) \<and> int64 (su_generation u)"

lemma marked_decodes:
  assumes "encode_status_value (marked_status now u) = Inr v" and "update_ok u" and "int64 now"
  shows "decode_status_value v = Some (marked_status now u)"
proof -
  have "status_ok (marked_status now u)" using assms(2,3) by (auto simp: status_ok_def update_ok_def marked_status_def Let_def int64_def)
  then show ?thesis using decode_encode_status [OF assms(1)] by (simp add: marked_status_def Let_def)
qed

lemma digest_of_Nil: "trim_space h = [] \<Longrightarrow> digest_of h = None"
  by (simp add: digest_of_def)

lemma mark_ops_effect:
  "mark_ops now us = Inr ops \<Longrightarrow> list_all update_ok us \<Longrightarrow> int64 now \<Longrightarrow>
   (\<lambda>d. Option.bind (kv_effect m ops (1 # d)) decode_status_value) = mark_map now us (\<lambda>d. Option.bind (m (1 # d)) decode_status_value) \<and>
   (\<forall>k. kv_effect m ops (2 # k) = m (2 # k))"
proof (induction us arbitrary: ops m)
  case (Cons u us)
  show ?case
  proof (cases "trim_space (su_hash u) = []")
    case True
    then show ?thesis using Cons digest_of_Nil [OF True] by simp
  next
    case False
    then obtain d v ops1 where d: "digest_of (su_hash u) = Some d" and v: "encode_status_value (marked_status now u) = Inr v"
      and ops: "mark_ops now us = Inr ops1" "ops = KvSet (1 # d) v # ops1"
      using Cons.prems(1) by (auto simp: result_simps status_key_Inr split: if_splits)
    let ?m = "m(1 # d \<mapsto> v)"
    have "(\<lambda>e. Option.bind (?m (1 # e)) decode_status_value) = (\<lambda>e. Option.bind (m (1 # e)) decode_status_value)(d \<mapsto> marked_status now u)"
      using marked_decodes [OF v] Cons.prems(2,3) by (auto simp: fun_eq_iff)
    then show ?thesis using Cons.IH [OF ops(1), of ?m] Cons.prems(2,3) d ops(2) by (simp add: fun_upd_def)
  qed
qed simp

lemma file_at_cong: "(\<And>k. kv_get kv db' (2 # k) = kv_get kv db (2 # k)) \<Longrightarrow> file_at kv db' = file_at kv db"
  by (simp add: file_at_def file_key_def fun_eq_iff)

lemma mark_chunks_known:
  assumes kv: "kv_laws kv" and ok: "list_all update_ok us" "int64 (unix_now ev c)" and run: "mark_chunks ev kv us c = (r, c')"
  shows "file_at kv (ct_db c') = file_at kv (ct_db c) \<and>
    status_at kv (ct_db c') = (case r of Inr u \<Rightarrow> mark_map (unix_now ev c) us (status_at kv (ct_db c)) | Inl e \<Rightarrow> status_at kv (ct_db c))"
proof (cases "us = []")
  case True
  then show ?thesis using run by (auto simp: mark_chunks_def)
next
  case False
  show ?thesis
  proof (cases "mark_ops (unix_now ev c) us")
    case (Inl e)
    then show ?thesis using False run by (auto simp: mark_chunks_def)
  next
    case (Inr ops)
    then have run: "ct_commit ev kv CatCommitFailed ops c = (r, c')" using False run by (simp add: mark_chunks_def)
    show ?thesis
    proof (cases r)
      case (Inl e)
      then show ?thesis using ct_commit_Inl [OF run [unfolded Inl]] by simp
    next
      case r: (Inr u)
      then have db: "ct_db c' = kv_apply kv (ct_db c) ops" using ct_commit_Inr [OF run [unfolded r]] by simp
      show ?thesis
        using mark_ops_effect [OF Inr ok, of "kv_get kv (ct_db c)"] r
        by (auto simp: status_at_def [abs_def] db kv_lawsD(1) [OF kv] intro!: file_at_cong)
    qed
  qed
qed

definition advanced :: "int \<Rightarrow> int \<Rightarrow> status_record \<Rightarrow> status_record" where
  "advanced generation now r = (if st_status r = ''confirmed'' then r\<lparr>st_generation := generation, st_checked := now\<rparr> else r)"

lemma advance_ops_effect:
  "advance_ops g now skip kvs = Inr ops \<Longrightarrow> distinct (map fst kvs) \<Longrightarrow> \<forall>(k, v) \<in> set kvs. m k = Some v \<Longrightarrow> int64 g \<Longrightarrow> int64 now \<Longrightarrow>
   Option.bind (kv_effect m ops k) decode_status_value =
     (if k \<in> fst ` set kvs - set skip then map_option (advanced g now) (Option.bind (m k) decode_status_value)
      else Option.bind (m k) decode_status_value) \<and>
   kv_key ` set ops \<subseteq> fst ` set kvs - set skip"
proof (induction kvs arbitrary: ops m)
  case (Cons kv kvs)
  obtain a v where kv: "kv = (a, v)" by fastforce
  have a: "m a = Some v" and rest: "distinct (map fst kvs)" "a \<notin> fst ` set kvs" and m: "\<forall>(k, v) \<in> set kvs. m k = Some v"
    using Cons.prems(2,3) by (auto simp: kv)
  show ?case
  proof (cases "a \<in> set skip")
    case True
    then show ?thesis using Cons.IH [of ops m] Cons.prems(1,4,5) rest m by (auto simp: kv)
  next
    case skip: False
    show ?thesis
    proof (cases "decode_status_value v")
      case None
      then obtain ops1 where ops: "advance_ops g now skip kvs = Inr ops1" "ops = KvDelete a # ops1"
        using Cons.prems(1) skip by (auto simp: kv result_simps)
      have m1: "\<forall>(k, v) \<in> set kvs. (m(a := None)) k = Some v" using m rest(2) by force
      show ?thesis
        using Cons.IH [OF ops(1) rest(1) m1 Cons.prems(4,5)] skip None a rest(2) by (auto simp: kv ops(2) kv_key_def fun_upd_def)
    next
      case (Some r)
      note r = decode_status_ok [OF Some]
      show ?thesis
      proof (cases "st_status r = ''confirmed''")
        case False
        have ops: "advance_ops g now skip kvs = Inr ops" using Cons.prems(1) skip Some False by (simp add: kv)
        show ?thesis
          using Cons.IH [OF ops rest(1) m Cons.prems(4,5)] skip Some False a rest(2) by (auto simp: kv advanced_def)
      next
        case True
        let ?r = "r\<lparr>st_generation := g, st_checked := now\<rparr>"
        obtain v' ops1 where v': "encode_status_value ?r = Inr v'" and ops: "advance_ops g now skip kvs = Inr ops1" "ops = KvSet a v' # ops1"
          using Cons.prems(1) skip Some True by (auto simp: kv result_simps)
        have "decode_status_value v' = Some ?r"
          using r Cons.prems(4,5) True by (intro decode_encode_known [OF v']) (auto simp: status_ok_def)
        moreover have m1: "\<forall>(k, v) \<in> set kvs. (m(a \<mapsto> v')) k = Some v" using m rest(2) by force
        ultimately show ?thesis
          using Cons.IH [OF ops(1) rest(1) m1 Cons.prems(4,5)] skip Some True a rest(2) by (auto simp: kv ops(2) kv_key_def advanced_def fun_upd_def)
      qed
    qed
  qed
qed simp

definition forgotten :: "status_record \<Rightarrow> status_record" where
  "forgotten r = r\<lparr>st_status := ''unknown'', st_generation := 0\<rparr>"

lemma status_at_ok: "status_at kv db d = Some r \<Longrightarrow> status_ok r"
  using decode_status_ok by (auto simp: status_at_def bind_eq_Some_conv)

definition digests :: "string list \<Rightarrow> bytes set" where
  "digests hs = {d. \<exists>h \<in> set hs. digest_of h = Some d}"

lemma invalidate_ops_effect:
  assumes kv: "kv_laws kv"
  shows "invalidate_ops ev kv hs c = (r, c') \<Longrightarrow>
    same_known kv c c' \<and>
    (\<forall>kops. r = Inr kops \<longrightarrow>
       fst ` set kops = (\<lambda>d. 1 # d) ` digests hs \<and> kv_key ` set (map snd kops) = fst ` set kops \<and>
       (\<forall>m d. (d \<in> digests hs \<longrightarrow> (\<exists>r. status_ok r \<and>
            Option.bind (kv_effect m (map snd kops) (1 # d)) decode_status_value = Some (forgotten r)))))"
proof (induction hs arbitrary: c r c')
  case Nil
  then show ?case by (auto simp: digests_def)
next
  case (Cons h hs)
  show ?case
  proof (cases "trim_space h = []")
    case True
    then have "digests (h # hs) = digests hs" by (auto simp: digests_def digest_of_Nil)
    then show ?thesis using Cons True by simp
  next
    case False
    show ?thesis
    proof (cases "status_key (trim_space h)")
      case (Inl e)
      then show ?thesis using Cons.prems False by auto
    next
      case (Inr key)
      then obtain d where d: "digest_of h = Some d" "key = 1 # d" by (auto simp: status_key_Inr)
      obtain q c1 where q: "get_status ev kv key c = (q, c1)" by fastforce
      note known = get_status_known [OF kv q [unfolded d(2)]]
      have dig: "digests (h # hs) = insert d (digests hs)" using d(1) by (auto simp: digests_def)
      show ?thesis
      proof (cases q)
        case (Inl e)
        then show ?thesis using Cons.prems False Inr q known by auto
      next
        case q': (Inr x)
        let ?r = "case x of None \<Rightarrow> zero_status | Some y \<Rightarrow> y"
        have ok: "status_ok ?r"
        proof (cases x)
          case None
          then show ?thesis by (simp add: zero_status_def status_ok_def int64_def)
        next
          case (Some y)
          then have "status_at kv (ct_db c) d = Some y" using known q' by simp
          then show ?thesis using status_at_ok Some by simp
        qed
        show ?thesis
        proof (cases "encode_status_value (forgotten ?r)")
          case (Inl e)
          then show ?thesis using Cons.prems False Inr q q' known by (auto simp: forgotten_def)
        next
          case v: (Inr v)
          obtain t c2 where t: "invalidate_ops ev kv hs c1 = (t, c2)" by fastforce
          note IH = Cons.IH [OF t]
          have fin: "c' = c2" and r: "r = (case t of Inl e \<Rightarrow> Inl e | Inr ops \<Rightarrow> Inr ((key, KvSet key v) # ops))"
            using Cons.prems False Inr q q' v t by (cases t; auto simp: forgotten_def)+
          have dec: "decode_status_value v = Some (forgotten ?r)"
            using ok by (intro decode_encode_known [OF v]) (auto simp: status_ok_def forgotten_def int64_def)
          have "same_known kv c c'" unfolding fin by (rule same_known_trans [OF known [THEN conjunct1] IH [THEN conjunct1]])
          moreover have "\<exists>r. status_ok r \<and> Option.bind (kv_effect m (KvSet key v # map snd ops) (1 # e)) decode_status_value = Some (forgotten r)"
            if "t = Inr ops" "e \<in> digests (h # hs)" for ops m e
          proof (cases "e \<in> digests hs")
            case True
            then show ?thesis using IH that(1) by simp
          next
            case False
            then have e: "e = d" using that(2) dig by simp
            have "1 # d \<notin> kv_key ` set (map snd ops)" using IH that(1) False e by auto
            then show ?thesis using dec ok d(2) e by (simp add: kv_effect_other) blast
          qed
          moreover have "fst ` set ((key, KvSet key v) # ops) = (\<lambda>d. 1 # d) ` digests (h # hs) \<and>
              kv_key ` set (map snd ((key, KvSet key v) # ops)) = fst ` set ((key, KvSet key v) # ops)" if "t = Inr ops" for ops
            using IH [THEN conjunct2, rule_format, OF that] d(2) by (simp add: dig kv_key_def)
          ultimately show ?thesis
            unfolding r by (cases t) simp_all
        qed
      qed
    qed
  qed
qed

text \<open>
  Invalidation: the hashes that were named are no longer confirmed, what is confirmed beside them is
  confirmed for the new generation, all else stays; without success nothing changes.
\<close>

lemma range_status_keys: "k \<in> fst ` set (kv_range kv db [1] [2]) \<longleftrightarrow> (\<exists>d. k = 1 # d) \<and> kv_get kv db k \<noteq> None" if "kv_laws kv"
proof -
  have "[1] \<le> k \<and> k < [2] \<longleftrightarrow> (\<exists>d. k = 1 # d)" for k :: bytes
  proof
    show "\<exists>d. k = 1 # d" if "[1] \<le> k \<and> k < [2]"
    proof -
      have "[] @ [1] \<le> k" "k < [] @ [2]" using that by simp_all
      moreover have "(2 :: byte) = 1 + 1" "(1 :: byte) < 2" by simp_all
      ultimately have "\<exists>r. k = [] @ 1 # r" by (rule range_prefix)
      then show ?thesis by simp
    qed
    show "[1] \<le> k \<and> k < [2]" if k: "\<exists>d. k = 1 # d"
    proof -
      obtain d where "k = [] @ 1 # d" using k by auto
      moreover have "(1 :: byte) < 2" by simp
      ultimately have "[] @ [1] \<le> k \<and> k < [] @ [2]" by (rule prefix_range)
      then show ?thesis by simp
    qed
  qed
  then have "set (kv_range kv db [1] [2]) = {(k, v). kv_get kv db k = Some v \<and> (\<exists>d. k = 1 # d)}"
    using kv_lawsD(4) [OF that, of db "[1]" "[2]"] by simp
  then show ?thesis by (auto simp: image_iff)
qed

lemma apply_invalidations_known:
  assumes kv: "kv_laws kv" and i: "int64 g" "int64 (unix_now ev c)" and run: "apply_invalidations ev kv hs g c = (r, c')"
  shows "file_at kv (ct_db c') = file_at kv (ct_db c) \<and>
    (\<forall>e. r = Inl e \<longrightarrow> status_at kv (ct_db c') = status_at kv (ct_db c)) \<and>
    (\<forall>u d. r = Inr u \<longrightarrow>
       (if d \<in> digests hs then \<exists>x. status_at kv (ct_db c') d = Some (forgotten x)
        else status_at kv (ct_db c') d = map_option (advanced g (unix_now ev c)) (status_at kv (ct_db c) d)))"
proof -
  obtain q c1 where q: "invalidate_ops ev kv hs c = (q, c1)" by fastforce
  note inv = invalidate_ops_effect [OF kv q]
  have known: "same_known kv c c1" using inv by simp
  have same: "same_known kv c c'" if "ct_db c' = ct_db c1" using that known by (simp add: same_known_def)
  show ?thesis
  proof (cases r)
    case (Inl e)
    have "ct_db c' = ct_db c1"
    proof (cases q)
      case (Inl e')
      then show ?thesis using run q by (simp add: apply_invalidations_def Let_def)
    next
      case (Inr kops)
      then show ?thesis
        using run q Inl
        by (auto simp: apply_invalidations_def Let_def ct_tick_def split: sum.splits if_splits dest!: ct_commit_Inl)
    qed
    then show ?thesis using same Inl by (simp add: same_known_def)
  next
    case r: (Inr u)
    then obtain kops where kops: "q = Inr kops" using run q by (cases q) (auto simp: apply_invalidations_def Let_def)
    let ?now = "unix_now ev c"
    obtain ops where ops: "advance_ops g ?now (map fst kops) (kv_range kv (ct_db c1) [1] [2]) = Inr ops"
      and db: "ct_db c' = kv_apply kv (ct_db c1) (map snd kops @ ops)"
      using run q kops r
      by (auto simp: apply_invalidations_def Let_def ct_tick_def split: sum.splits if_splits dest!: ct_commit_Inr)
    let ?m = "kv_get kv (ct_db c1)"
    let ?n = "kv_effect ?m (map snd kops)"
    have keys: "fst ` set kops = (\<lambda>d. 1 # d) ` digests hs" "kv_key ` set (map snd kops) = fst ` set kops" using inv kops by auto
    obtain nodup: "distinct (map fst (kv_range kv (ct_db c1) [1] [2]))"
      and held: "\<forall>(k, v) \<in> set (kv_range kv (ct_db c1) [1] [2]). ?m k = Some v"
      using kv_lawsD(2,4) [OF kv, of "ct_db c1" "[1]" "[2]"] by auto
    note adv = advance_ops_effect [OF ops nodup _ i]
    have get: "kv_get kv (ct_db c') = kv_effect ?n ops" by (simp add: db kv_lawsD(1) [OF kv] kv_effect_append)
    have okeys: "kv_key ` set ops \<subseteq> fst ` set (kv_range kv (ct_db c1) [1] [2]) - set (map fst kops)" using adv held by blast
    have status: "status_at kv (ct_db c1) = status_at kv (ct_db c)" and files: "file_at kv (ct_db c1) = file_at kv (ct_db c)"
      using known by (auto simp: same_known_def)
    have "kv_get kv (ct_db c') (2 # k) = ?m (2 # k)" for k
    proof -
      have "2 # k \<notin> kv_key ` set ops" using okeys range_status_keys [OF kv, of "2 # k" "ct_db c1"] by auto
      moreover have "2 # k \<notin> kv_key ` set (map snd kops)" using keys by auto
      ultimately show ?thesis by (simp add: get kv_effect_other del: set_map)
    qed
    then have "file_at kv (ct_db c') = file_at kv (ct_db c)" using file_at_cong files by metis
    moreover have "\<exists>x. status_at kv (ct_db c') d = Some (forgotten x)" if d: "d \<in> digests hs" for d
    proof -
      have "1 # d \<in> set (map fst kops)" using keys d by auto
      then have "1 # d \<notin> kv_key ` set ops" using okeys by blast
      then have "kv_get kv (ct_db c') (1 # d) = ?n (1 # d)" by (simp add: get kv_effect_other)
      moreover obtain x where "Option.bind (?n (1 # d)) decode_status_value = Some (forgotten x)"
        using inv [THEN conjunct2, rule_format, OF kops] d by blast
      ultimately show ?thesis unfolding status_at_def by auto
    qed
    moreover have "status_at kv (ct_db c') d = map_option (advanced g ?now) (status_at kv (ct_db c) d)" if d: "d \<notin> digests hs" for d
    proof -
      have skip: "1 # d \<notin> set (map fst kops)" using keys d by auto
      then have n: "?n (1 # d) = ?m (1 # d)" using keys by (intro kv_effect_other) auto
      have held': "\<forall>(k, v) \<in> set (filter (\<lambda>kv. fst kv \<notin> set (map fst kops)) (kv_range kv (ct_db c1) [1] [2])). ?n k = Some v"
        using held keys by (auto simp: kv_effect_other)
      have "advance_ops g ?now s (filter (\<lambda>kv. fst kv \<notin> set s) kvs) = advance_ops g ?now s kvs" for s kvs
        by (induction kvs) (auto split: option.splits)
      then have ops': "advance_ops g ?now (map fst kops)
          (filter (\<lambda>kv. fst kv \<notin> set (map fst kops)) (kv_range kv (ct_db c1) [1] [2])) = Inr ops" by (simp only: ops)
      have "distinct (map fst (filter (\<lambda>kv. fst kv \<notin> set (map fst kops)) (kv_range kv (ct_db c1) [1] [2])))"
        using nodup by (rule distinct_map_filter_fst)
      note adv = advance_ops_effect [OF ops' this held' i, of "1 # d", THEN conjunct1]
      show ?thesis
      proof (cases "?m (1 # d)")
        case None
        then have "1 # d \<notin> fst ` set (kv_range kv (ct_db c1) [1] [2])" using range_status_keys [OF kv] by auto
        then have "1 # d \<notin> fst ` set (filter (\<lambda>kv. fst kv \<notin> set (map fst kops)) (kv_range kv (ct_db c1) [1] [2]))" by auto
        then have "status_at kv (ct_db c') d = None" using adv None n by (simp add: status_at_def get)
        moreover have "status_at kv (ct_db c1) d = None" using None by (simp add: status_at_def)
        ultimately show ?thesis using status by simp
      next
        case (Some v)
        then have "1 # d \<in> fst ` set (kv_range kv (ct_db c1) [1] [2])" using range_status_keys [OF kv] by auto
        then have "1 # d \<in> fst ` set (filter (\<lambda>kv. fst kv \<notin> set (map fst kops)) (kv_range kv (ct_db c1) [1] [2])) - set (map fst kops)"
          using skip by (force simp: image_iff)
        then have "status_at kv (ct_db c') d = map_option (advanced g ?now) (status_at kv (ct_db c1) d)"
          using adv n by (simp add: status_at_def get)
        then show ?thesis using status by simp
      qed
    qed
    ultimately show ?thesis using r by simp
  qed
qed

lemma reset_known:
  assumes kv: "kv_laws kv" and run: "reset_server_chunks ev kv c = (r, c')"
  shows "file_at kv (ct_db c') = file_at kv (ct_db c) \<and>
    status_at kv (ct_db c') = (case r of Inr u \<Rightarrow> (\<lambda>d. None) | Inl e \<Rightarrow> status_at kv (ct_db c))"
proof (cases r)
  case (Inl e)
  then show ?thesis using ct_commit_Inl run unfolding reset_server_chunks_def by force
next
  case (Inr u)
  let ?ks = "map fst (kv_range kv (ct_db c) [1] [2])"
  have db: "ct_db c' = kv_apply kv (ct_db c) (map KvDelete ?ks)"
    using ct_commit_Inr [OF run [unfolded reset_server_chunks_def Inr]] by simp
  have get: "kv_get kv (ct_db c') k = (if \<exists>d. k = 1 # d then None else kv_get kv (ct_db c) k)" for k
    using range_status_keys [OF kv, of k "ct_db c"] unfolding db kv_lawsD(1) [OF kv] kv_effect_deletes by auto
  have "file_at kv (ct_db c') = file_at kv (ct_db c)" by (rule file_at_cong) (simp add: get)
  then show ?thesis using Inr by (simp add: status_at_def fun_eq_iff get)
qed

lemma file_key_inj:
  assumes "file_key r p = file_key r' p'" and "length (clean_path r) < 2 ^ 64" "length p < 2 ^ 64" "length (clean_path r') < 2 ^ 64" "length p' < 2 ^ 64"
  shows "clean_path r = clean_path r' \<and> p = p'"
  using decode_file_key_key [of r p] decode_file_key_key [of r' p'] assms by simp

text \<open>The record of a file after files were replaced: of its last update, or the one it had.\<close>

fun last_replaced :: "(catalog_file \<times> catalog_chunk list) list \<Rightarrow> string \<Rightarrow> string \<Rightarrow> (catalog_file \<times> catalog_chunk list) option" where
  "last_replaced [] root path = None"
| "last_replaced ((r, cs) # us) root path =
     (case last_replaced us root path of
        Some x \<Rightarrow> Some x
      | None \<Rightarrow> if clean_path (cf_root r) = clean_path root \<and> cf_path r = path then Some (r, cs) else None)"

definition replaced_ok :: "catalog_file \<times> catalog_chunk list \<Rightarrow> bool" where
  "replaced_ok u \<longleftrightarrow> file_ok (fst u) \<and> list_all chunk_entry_ok (snd u) \<and> length (snd u) < 2 ^ 63 \<and>
     length (clean_path (cf_root (fst u))) < 2 ^ 64 \<and> length (cf_path (fst u)) < 2 ^ 64"

lemma replace_ops_effect:
  assumes "length (clean_path root) < 2 ^ 64" and "length path < 2 ^ 64"
  shows "replace_ops us = Inr ops \<Longrightarrow> list_all replaced_ok us \<Longrightarrow>
    Option.bind (kv_effect m ops (file_key root path)) decode_file_value =
      (case last_replaced us root path of
         Some (r, cs) \<Rightarrow> Some (r\<lparr>cf_root := [], cf_path := []\<rparr>, cs)
       | None \<Rightarrow> Option.bind (m (file_key root path)) decode_file_value) \<and>
    (\<forall>d. kv_effect m ops (1 # d) = m (1 # d))"
proof (induction us arbitrary: ops m)
  case (Cons u us)
  obtain r cs where u: "u = (r, cs)" by fastforce
  obtain v ops1 where v: "encode_file_value r cs = Inr v" and ops: "replace_ops us = Inr ops1" "ops = KvSet (file_key (cf_root r) (cf_path r)) v # ops1"
    using Cons.prems(1) by (auto simp: u result_simps)
  have ok: "file_ok r" "list_all chunk_entry_ok cs" "length cs < 2 ^ 63" "length (clean_path (cf_root r)) < 2 ^ 64" "length (cf_path r) < 2 ^ 64"
    using Cons.prems(2) by (auto simp: u replaced_ok_def)
  let ?m = "m(file_key (cf_root r) (cf_path r) \<mapsto> v)"
  have key: "file_key (cf_root r) (cf_path r) = file_key root path \<longleftrightarrow> clean_path (cf_root r) = clean_path root \<and> cf_path r = path"
    using file_key_inj [of "cf_root r" "cf_path r" root path] ok(4,5) assms by (auto simp: file_key_def)
  have "Option.bind (?m (file_key root path)) decode_file_value =
      (if clean_path (cf_root r) = clean_path root \<and> cf_path r = path then Some (r\<lparr>cf_root := [], cf_path := []\<rparr>, cs)
       else Option.bind (m (file_key root path)) decode_file_value)"
    using decode_encode_file [OF v ok(1-3)] key by auto
  moreover have "?m (1 # d) = m (1 # d)" for d by simp
  ultimately show ?case
    using Cons.IH [OF ops(1), of ?m] Cons.prems(2) by (auto simp: u ops(2) fun_upd_def split: option.splits)
qed simp

lemma replace_files_known:
  assumes kv: "kv_laws kv" and ok: "list_all replaced_ok us" and run: "replace_files ev kv us c = (Inr u, c')"
    and "length (clean_path root) < 2 ^ 64" "length path < 2 ^ 64"
  shows "status_at kv (ct_db c') = status_at kv (ct_db c) \<and>
    file_at kv (ct_db c') root path =
      (case last_replaced us root path of
         Some (r, cs) \<Rightarrow> Some (r\<lparr>cf_root := [], cf_path := []\<rparr>, cs)
       | None \<Rightarrow> file_at kv (ct_db c) root path)"
proof (cases "us = []")
  case True
  then show ?thesis using run by (simp add: replace_files_def)
next
  case False
  then obtain ops where ops: "replace_ops us = Inr ops" and c: "ct_commit ev kv CatCommitFailed ops c = (Inr u, c')"
    using run by (auto simp: replace_files_def split: sum.splits)
  have db: "ct_db c' = kv_apply kv (ct_db c) ops" using ct_commit_Inr [OF c] by simp
  show ?thesis
    using replace_ops_effect [OF assms(4,5) ops ok, of "kv_get kv (ct_db c)"]
    by (simp add: status_at_def file_at_def db kv_lawsD(1) [OF kv] fun_eq_iff split: option.splits)
qed

text \<open>
  Property C21. What is recorded of files is found again: after a batch of updates was committed, a lookup
  that succeeds gives for every path the record and the chunks of its last update, under the cleaned root,
  or what was there before; the chunk records are not touched.
\<close>

theorem catalog_files_found:
  assumes "kv_laws kv" and "list_all replaced_ok us" and "replace_files ev kv us c = (Inr u, c1)"
    and "length (clean_path root) < 2 ^ 64" "length path < 2 ^ 64"
    and "file_record_with_chunks ev kv root path c1 = (Inr found, c2)"
  shows "found = (case last_replaced us root path of
      Some (r, cs) \<Rightarrow> Some (r\<lparr>cf_root := clean_path root, cf_path := path\<rparr>, cs)
    | None \<Rightarrow> map_option (\<lambda>(r, cs). (r\<lparr>cf_root := clean_path root, cf_path := path\<rparr>, cs)) (file_at kv (ct_db c) root path)) \<and>
    status_at kv (ct_db c1) = status_at kv (ct_db c)"
proof -
  have k: "status_at kv (ct_db c1) = status_at kv (ct_db c)"
    "file_at kv (ct_db c1) root path =
      (case last_replaced us root path of
         Some (r, cs) \<Rightarrow> Some (r\<lparr>cf_root := [], cf_path := []\<rparr>, cs)
       | None \<Rightarrow> file_at kv (ct_db c) root path)"
    using replace_files_known [OF assms(1-5)] by auto
  have "found = map_option (\<lambda>(r, cs). (r\<lparr>cf_root := clean_path root, cf_path := path\<rparr>, cs)) (file_at kv (ct_db c1) root path)"
    using assms(6) by (auto simp: file_record_with_chunks_def file_at_def result_simps split: if_splits option.splits)
  then show ?thesis using k by (auto split: option.splits)
qed

definition sample_file :: catalog_file where
  "sample_file = \<lparr>cf_root = ''/data/'', cf_path = ''a'', cf_type = ''file'', cf_size = 3, cf_mode = 420, cf_uid = 0, cf_gid = 0,
     cf_mtime = -1, cf_dev = 1, cf_inode = 2, cf_link = [], cf_fingerprint = ''x''\<rparr>"

definition sample_chunk :: catalog_chunk where
  "sample_chunk = \<lparr>cc_hash = hex_encode (replicate 32 7), cc_original = 3\<rparr>"

definition sample_catalog :: "(bytes \<times> bytes) list catalog" where
  "sample_catalog = \<lparr>ct_db = [], ct_step = 0\<rparr>"

definition filled_catalog :: "(bytes \<times> bytes) list catalog" where
  "filled_catalog = snd (replace_files good_env list_kv [(sample_file, [sample_chunk])] sample_catalog)"

lemma catalog_files_found_witness:
  "\<exists>c2. file_record_with_chunks good_env list_kv ''/data'' ''a'' filled_catalog =
      (Inr (Some (sample_file\<lparr>cf_root := ''/data''\<rparr>, [sample_chunk])), c2) \<and>
    status_at list_kv (ct_db filled_catalog) = status_at list_kv []"
proof -
  have "fst (replace_files good_env list_kv [(sample_file, [sample_chunk])] sample_catalog) = Inr ()" by code_simp
  then have run: "replace_files good_env list_kv [(sample_file, [sample_chunk])] sample_catalog = (Inr (), filled_catalog)"
    unfolding filled_catalog_def by (metis prod.collapse)
  have "fst (file_record_with_chunks good_env list_kv ''/data'' ''a'' filled_catalog) =
      Inr (Some (sample_file\<lparr>cf_root := ''/data''\<rparr>, [sample_chunk]))" by code_simp
  then obtain c2 where c2: "file_record_with_chunks good_env list_kv ''/data'' ''a'' filled_catalog =
      (Inr (Some (sample_file\<lparr>cf_root := ''/data''\<rparr>, [sample_chunk])), c2)" by (metis prod.collapse)
  have "trim_space ''file'' = ''file''" "clean_path ''/data/'' = ''/data''" "clean_path ''/data'' = ''/data''" by code_simp+
  then have ok: "list_all replaced_ok [(sample_file, [sample_chunk])]" and len: "length (clean_path ''/data'') < 2 ^ 64" "length ''a'' < 2 ^ 64"
    by (simp_all add: replaced_ok_def file_ok_def chunk_entry_ok_def sample_file_def sample_chunk_def int64_def)
  have "status_at list_kv (ct_db filled_catalog) = status_at list_kv (ct_db sample_catalog)"
    using catalog_files_found [OF list_kv_laws ok run len c2] by blast
  then show ?thesis using c2 by (simp add: sample_catalog_def)
qed

end
