(* ===== verification/CatalogSync.thy ===== *)
theory CatalogSync
  imports AgentCatalog StateLaws
begin

text \<open>
  How an agent keeps its catalog in step with the server: \<open>syncCatalogWithServer\<close> of
  \<open>cmd/turbk-agent/backup.go\<close>, which runs after every heartbeat, and \<open>handleAgentChunkInvalidations\<close> of
  \<open>internal/httpapi/server.go\<close>, which it asks for the chunks that were removed. The two sides are put
  together in a transition relation, in which the server stores, removes and announces, answers travel,
  and the agent records them and synchronises.
\<close>

subsection \<open>Synchronisation\<close>

record heartbeat_reply =
  hb_repository :: string
  hb_generation :: int
  hb_available_from :: int
  hb_config :: int
  hb_command :: int

record server_state =
  ss_repository :: string
  ss_generation :: int
  ss_last :: int
  ss_config :: int
  ss_command :: int

record invalidations_reply =
  ir_repository :: string
  ir_from :: int
  ir_to :: int
  ir_complete :: bool
  ir_hashes :: "string list"

text \<open>
  The agent has the catalog and a row for each server and client ID. The rows are in SQLite; a query of
  them takes a step of its own.
\<close>

record 'db agent_state =
  ag_catalog :: "'db catalog"
  ag_states :: "((string \<times> string) \<times> server_state) list"

definition on_catalog :: "('db catalog \<Rightarrow> ('a, 'db) catalog_result) \<Rightarrow> 'db agent_state \<Rightarrow> (catalog_error + 'a) \<times> 'db agent_state" where
  "on_catalog f a = (case f (ag_catalog a) of (r, c) \<Rightarrow> (r, a\<lparr>ag_catalog := c\<rparr>))"

definition load_server_state :: "env \<Rightarrow> string \<times> string \<Rightarrow> 'db agent_state \<Rightarrow> (catalog_error + server_state option) \<times> 'db agent_state" where
  "load_server_state ev key a =
     (let c = ag_catalog a; a1 = a\<lparr>ag_catalog := ct_tick c\<rparr>
      in if ct_fault ev c then (Inl CatStateFailed, a1) else (Inr (map_of (ag_states a) key), a1))"

definition upsert_server_state :: "env \<Rightarrow> string \<times> string \<Rightarrow> server_state \<Rightarrow> 'db agent_state \<Rightarrow> (catalog_error + unit) \<times> 'db agent_state" where
  "upsert_server_state ev key x a =
     (let c = ag_catalog a; a1 = a\<lparr>ag_catalog := ct_tick c\<rparr>
      in if ct_fault ev c then (Inl CatStateFailed, a1) else (Inr (), a1\<lparr>ag_states := AList.update key x (ag_states a)\<rparr>))"

definition sync_catalog ::
    "env \<Rightarrow> 'db kv_ops \<Rightarrow> string \<times> string \<Rightarrow> heartbeat_reply \<Rightarrow> (int \<Rightarrow> catalog_error + invalidations_reply) \<Rightarrow> 'db agent_state \<Rightarrow>
     (catalog_error + unit) \<times> 'db agent_state" where
  "sync_catalog ev kv key hb fetch a =
     (if hb_repository hb = [] then (Inr (), a)
      else sbind (load_server_state ev key a) (\<lambda>found a1.
        let next = \<lparr>ss_repository = hb_repository hb, ss_generation = hb_generation hb, ss_last = hb_generation hb,
                     ss_config = hb_config hb, ss_command = hb_command hb\<rparr>
        in case found of
             None \<Rightarrow> upsert_server_state ev key next a1
           | Some own \<Rightarrow>
               if ss_repository own \<noteq> [] \<and> ss_repository own \<noteq> hb_repository hb
               then sbind (on_catalog (reset_server_chunks ev kv) a1) (\<lambda>u. upsert_server_state ev key next)
               else if ss_last own < hb_generation hb \<and> hb_available_from hb \<le> ss_last own
               then (case fetch (ss_last own) of
                       Inl e \<Rightarrow> (Inl e, a1)
                     | Inr iv \<Rightarrow>
                         if ir_complete iv
                         then sbind (on_catalog (apply_invalidations ev kv (ir_hashes iv) (ir_to iv)) a1)
                                (\<lambda>u. upsert_server_state ev key (next\<lparr>ss_last := ir_to iv\<rparr>))
                         else upsert_server_state ev key (next\<lparr>ss_last := ss_last own\<rparr>) a1)
               else upsert_server_state ev key (next\<lparr>ss_last := ss_last own\<rparr>) a1))"

text \<open>The server's answer; a negative generation is refused.\<close>

definition handle_invalidations :: "env \<Rightarrow> int \<Rightarrow> int \<Rightarrow> db \<Rightarrow> (db_error option + invalidations_reply) \<times> db" where
  "handle_invalidations ev limit since s =
     (if since < 0 then (Inl None, s)
      else case chunk_invalidations_since ev since limit s of
             (Inl e, t) \<Rightarrow> (Inl (Some e), t)
           | (Inr iv, t) \<Rightarrow> (Inr \<lparr>ir_repository = me_repository (iv_state iv), ir_from = iv_from iv, ir_to = iv_to iv,
                 ir_complete = (iv_incomplete iv = None), ir_hashes = iv_hashes iv\<rparr>, t))"

text \<open>The agent's request: it can fail on the way; the server's tables stay as they are.\<close>

definition fetch_invalidations :: "bool \<Rightarrow> env \<Rightarrow> int \<Rightarrow> db \<Rightarrow> int \<Rightarrow> catalog_error + invalidations_reply" where
  "fetch_invalidations lost ev limit s since =
     (if lost then Inl CatRequestFailed
      else case fst (handle_invalidations ev limit since s) of Inl e \<Rightarrow> Inl CatRequestFailed | Inr iv \<Rightarrow> Inr iv)"

subsection \<open>The two sides together\<close>

text \<open>
  \<open>pr_held\<close> are the digests in the server's index and \<open>pr_doomed\<close> those taken out of it by a cleanup
  that has not announced them yet; \<open>pr_history\<close> are the announced removals. A handler reads the
  generation (\<open>pr_begun\<close>) before it looks at the index, so that an answer (\<open>pr_replies\<close>) carries a
  generation that is not newer than what it says. The agent has one thread for both: no request of a
  backup is under way while it synchronises.
\<close>

record 'db protocol =
  pr_held :: "bytes set"
  pr_doomed :: "bytes set"
  pr_begun :: "int set"
  pr_replies :: "(bytes \<times> int) set"
  pr_history :: "(int \<times> string) set"
  pr_db :: db
  pr_agent :: "'db agent_state"

definition confirms :: "status_update \<Rightarrow> (bytes \<times> int) set \<Rightarrow> bool" where
  "confirms u replies \<longleftrightarrow> update_ok u \<and>
     (trim_space (su_status u) = ''confirmed'' \<longrightarrow> (\<forall>d. digest_of (su_hash u) = Some d \<longrightarrow> (d, su_generation u) \<in> replies))"

definition generation :: "'db protocol \<Rightarrow> int" where
  "generation p = me_chunk_gen (db_meta (pr_db p))"

inductive exchange :: "'db kv_ops \<Rightarrow> string \<times> string \<Rightarrow> 'db protocol \<Rightarrow> bool" for kv key where
  start: "status_at kv (ct_db (ag_catalog a)) = (\<lambda>d. None) \<Longrightarrow> map_of (ag_states a) key = None \<Longrightarrow>
    exchange kv key \<lparr>pr_held = {}, pr_doomed = {}, pr_begun = {}, pr_replies = {}, pr_history = {}, pr_db = s, pr_agent = a\<rparr>"
| store: "exchange kv key p \<Longrightarrow> exchange kv key (p\<lparr>pr_held := pr_held p \<union> D\<rparr>)"
| remove: "exchange kv key p \<Longrightarrow> exchange kv key (p\<lparr>pr_held := pr_held p - D, pr_doomed := pr_doomed p \<union> D\<rparr>)"
| announce: "exchange kv key p \<Longrightarrow> bump_chunk_generation ev hashes reason now (pr_db p) = (Inr g, t) \<Longrightarrow> pr_doomed p \<subseteq> digests hashes \<Longrightarrow>
    exchange kv key (p\<lparr>pr_doomed := {}, pr_history := pr_history p \<union> {g} \<times> recorded hashes, pr_db := t\<rparr>)"
| announce_failed: "exchange kv key p \<Longrightarrow> bump_chunk_generation ev hashes reason now (pr_db p) = (Inl e, t) \<Longrightarrow>
    exchange kv key (p\<lparr>pr_db := t\<rparr>)"
| prune: "exchange kv key p \<Longrightarrow> prune_chunk_invalidations ev cutoff (pr_db p) = (Inr n, t) \<Longrightarrow> exchange kv key (p\<lparr>pr_db := t\<rparr>)"
| begun: "exchange kv key p \<Longrightarrow> exchange kv key (p\<lparr>pr_begun := insert (generation p) (pr_begun p)\<rparr>)"
| reply: "exchange kv key p \<Longrightarrow> d \<in> pr_held p \<Longrightarrow> n \<in> pr_begun p \<Longrightarrow> exchange kv key (p\<lparr>pr_replies := insert (d, n) (pr_replies p)\<rparr>)"
| look: "exchange kv key p \<Longrightarrow> chunk_status ev kv h (ag_catalog (pr_agent p)) = (r, c) \<Longrightarrow>
    exchange kv key (p\<lparr>pr_agent := (pr_agent p)\<lparr>ag_catalog := c\<rparr>\<rparr>)"
| mark: "exchange kv key p \<Longrightarrow> map_of (ag_states (pr_agent p)) key \<noteq> None \<Longrightarrow> \<forall>u \<in> set us. confirms u (pr_replies p) \<Longrightarrow>
    int64 (unix_now ev (ag_catalog (pr_agent p))) \<Longrightarrow> mark_chunks ev kv us (ag_catalog (pr_agent p)) = (r, c) \<Longrightarrow>
    exchange kv key (p\<lparr>pr_agent := (pr_agent p)\<lparr>ag_catalog := c\<rparr>\<rparr>)"
| sync: "exchange kv key p \<Longrightarrow> 0 \<le> hb_generation hb \<Longrightarrow> hb_generation hb \<le> generation p \<Longrightarrow> int64 (generation p) \<Longrightarrow>
    (\<And>n. int64 (env_now ev n div 1000000000)) \<Longrightarrow>
    sync_catalog ev kv key hb (fetch_invalidations lost ev' limit (pr_db p)) (pr_agent p) = (r, a) \<Longrightarrow>
    exchange kv key (p\<lparr>pr_begun := {}, pr_replies := {}, pr_agent := a\<rparr>)"

subsection \<open>The catalog never claims too much\<close>

definition backed :: "'db protocol \<Rightarrow> bytes \<Rightarrow> int \<Rightarrow> bool" where
  "backed p d n \<longleftrightarrow> d \<in> pr_held p \<union> pr_doomed p \<or> (\<exists>g h. (g, h) \<in> pr_history p \<and> digest_of h = Some d \<and> n < g)"

definition confirmed_at :: "'db kv_ops \<Rightarrow> 'db agent_state \<Rightarrow> bytes \<Rightarrow> int \<Rightarrow> bool" where
  "confirmed_at kv a d n \<longleftrightarrow>
     (\<exists>r. status_at kv (ct_db (ag_catalog a)) d = Some r \<and> st_status r = ''confirmed'' \<and> st_generation r = n)"

definition newest_sync :: "string \<times> string \<Rightarrow> 'db agent_state \<Rightarrow> int option" where
  "newest_sync key a = map_option ss_last (map_of (ag_states a) key)"

text \<open>
  What the agent believes is backed by the server, is not from the future, and is not older than the last
  generation it synchronised with; before that there is nothing that it believes.
\<close>

definition believes_ok :: "'db kv_ops \<Rightarrow> string \<times> string \<Rightarrow> 'db protocol \<Rightarrow> bool" where
  "believes_ok kv key p \<longleftrightarrow>
     (\<forall>d n. confirmed_at kv (pr_agent p) d n \<longrightarrow> n \<le> generation p \<and> backed p d n \<and>
        (\<exists>l. newest_sync key (pr_agent p) = Some l \<and> l \<le> n)) \<and>
     (\<forall>l. newest_sync key (pr_agent p) = Some l \<longrightarrow> 0 \<le> l \<and> l \<le> generation p)"

definition replies_ok :: "string \<times> string \<Rightarrow> 'db protocol \<Rightarrow> bool" where
  "replies_ok key p \<longleftrightarrow>
     (\<forall>n. n \<in> pr_begun p \<or> n \<in> snd ` pr_replies p \<longrightarrow> n \<le> generation p \<and> (\<forall>l. newest_sync key (pr_agent p) = Some l \<longrightarrow> l \<le> n)) \<and>
     (\<forall>(d, n) \<in> pr_replies p. backed p d n)"

definition exchange_inv :: "'db kv_ops \<Rightarrow> string \<times> string \<Rightarrow> 'db protocol \<Rightarrow> bool" where
  "exchange_inv kv key p \<longleftrightarrow> believes_ok kv key p \<and> replies_ok key p \<and> journal_history (pr_history p) (pr_db p)"

lemma history_bounded: "journal_history H s \<Longrightarrow> (g, h) \<in> H \<Longrightarrow> g \<le> me_chunk_gen (db_meta s)"
  using journal_history_complete by (fastforce simp: journal_complete_def)

text \<open>A server that only gains leaves everything backed.\<close>

lemma exchange_inv_server:
  assumes inv: "exchange_inv kv key p" and agent: "pr_agent q = pr_agent p" "pr_begun q = pr_begun p" "pr_replies q = pr_replies p"
    and gen: "generation p \<le> generation q" and backs: "\<And>d n. backed p d n \<Longrightarrow> n \<le> generation p \<Longrightarrow> backed q d n"
    and hist: "journal_history (pr_history q) (pr_db q)"
  shows "exchange_inv kv key q"
  unfolding exchange_inv_def
proof (intro conjI)
  show "believes_ok kv key q" using inv backs gen unfolding exchange_inv_def believes_ok_def agent by fastforce
  have "backed q d n" if "(d, n) \<in> pr_replies p" for d n
  proof -
    have "n \<in> snd ` pr_replies p" using that by force
    then have "n \<le> generation p" "backed p d n" using inv that unfolding exchange_inv_def replies_ok_def by auto
    then show ?thesis by (rule backs [rotated])
  qed
  then show "replies_ok key q" using inv gen unfolding exchange_inv_def replies_ok_def agent by fastforce
qed (rule hist)

lemma bump_gen:
  assumes "bump_chunk_generation ev hashes reason now s = (Inr g, t)"
  shows "g = me_chunk_gen (db_meta s) + 1 \<and> me_chunk_gen (db_meta t) = g"
proof -
  obtain u where g: "g = me_chunk_gen (db_meta s) + 1" and t: "t = step_db u"
    and l: "journal_loop ev g (if trim_space reason = [] then ''unknown'' else trim_space reason) now hashes
      (step_db (step_db (step_db s\<lparr>db_meta := db_meta s\<lparr>me_chunk_gen := me_chunk_gen (db_meta s) + 1\<rparr>\<rparr>))) = (Inr (), u)"
    using in_tx_Inr [OF assms [unfolded bump_chunk_generation_def Let_def]] by (auto simp: result_simps sql_Inr query_Inr)
  then show ?thesis using journal_loop_Inr [OF l] by simp
qed

lemma bump_failed_gen: "bump_chunk_generation ev hashes reason now s = (Inl e, t) \<Longrightarrow> me_chunk_gen (db_meta t) = me_chunk_gen (db_meta s)"
proof -
  assume "bump_chunk_generation ev hashes reason now s = (Inl e, t)"
  then have "t = s\<lparr>db_step := db_step t\<rparr>" using in_tx_Inl unfolding bump_chunk_generation_def Let_def by blast
  then have "db_meta t = db_meta (s\<lparr>db_step := db_step t\<rparr>)" by (rule arg_cong)
  then show ?thesis by simp
qed

lemma prune_gen: "prune_chunk_invalidations ev cutoff s = (Inr n, t) \<Longrightarrow> me_chunk_gen (db_meta t) = me_chunk_gen (db_meta s)"
  by (auto simp: prune_chunk_invalidations_def result_simps sql_Inr query_Inr split: option.splits)

lemma recorded_digests: "d \<in> digests hashes \<Longrightarrow> \<exists>h \<in> recorded hashes. digest_of h = Some d"
  using digest_of_Nil by (force simp: digests_def recorded_def)

text \<open>The agent's steps: what it knows may change, the server does not.\<close>

lemma confirmed_same: "same_known kv (ag_catalog a) c \<Longrightarrow> confirmed_at kv (a\<lparr>ag_catalog := c\<rparr>) = confirmed_at kv a"
  by (simp add: confirmed_at_def same_known_def fun_eq_iff)

lemma newest_catalog [simp]: "newest_sync key (a\<lparr>ag_catalog := c\<rparr>) = newest_sync key a"
  by (simp add: newest_sync_def)

lemma backed_agent [simp]:
  "backed (p\<lparr>pr_agent := a\<rparr>) = backed p" "backed (p\<lparr>pr_begun := b, pr_replies := r, pr_agent := a\<rparr>) = backed p"
  "generation (p\<lparr>pr_agent := a\<rparr>) = generation p" "generation (p\<lparr>pr_begun := b, pr_replies := r, pr_agent := a\<rparr>) = generation p"
  by (simp_all add: backed_def generation_def fun_eq_iff)

lemma mark_map_confirmed:
  "mark_map now us m d = Some r \<Longrightarrow> st_status r = ''confirmed'' \<Longrightarrow>
   m d = Some r \<or> (\<exists>u \<in> set us. digest_of (su_hash u) = Some d \<and> trim_space (su_status u) = ''confirmed'' \<and> su_generation u = st_generation r)"
proof (induction us arbitrary: m)
  case (Cons u us)
  show ?case
  proof (cases "digest_of (su_hash u)")
    case None
    then show ?thesis using Cons by auto
  next
    case (Some e)
    have p: "mark_map now us (m(e \<mapsto> marked_status now u)) d = Some r" using Cons.prems(1) Some by simp
    consider "(m(e \<mapsto> marked_status now u)) d = Some r"
      | "\<exists>u \<in> set us. digest_of (su_hash u) = Some d \<and> trim_space (su_status u) = ''confirmed'' \<and> su_generation u = st_generation r"
      using Cons.IH [OF p Cons.prems(2)] by blast
    then show ?thesis
    proof cases
      case 1
      then show ?thesis using Some Cons.prems(2) by (auto simp: marked_status_def Let_def split: if_splits)
    qed auto
  qed
qed simp

lemma mark_inv:
  assumes kv: "kv_laws kv" and inv: "exchange_inv kv key p" and known: "map_of (ag_states (pr_agent p)) key \<noteq> None"
    and us: "\<forall>u \<in> set us. confirms u (pr_replies p)" and now: "int64 (unix_now ev (ag_catalog (pr_agent p)))"
    and run: "mark_chunks ev kv us (ag_catalog (pr_agent p)) = (r, c)"
  shows "exchange_inv kv key (p\<lparr>pr_agent := (pr_agent p)\<lparr>ag_catalog := c\<rparr>\<rparr>)"
proof -
  let ?a = "pr_agent p"
  obtain l where l: "newest_sync key ?a = Some l" using known by (auto simp: newest_sync_def)
  have "list_all update_ok us" using us by (auto simp: confirms_def list_all_iff)
  note k = mark_chunks_known [OF kv this now run]
  have "confirmed_at kv ?a d n \<or> (d, n) \<in> pr_replies p" if conf: "confirmed_at kv (?a\<lparr>ag_catalog := c\<rparr>) d n" for d n
  proof -
    obtain x where x: "status_at kv (ct_db c) d = Some x" "st_status x = ''confirmed''" "st_generation x = n"
      using conf by (auto simp: confirmed_at_def)
    then consider "status_at kv (ct_db (ag_catalog ?a)) d = Some x"
      | u where "u \<in> set us" "digest_of (su_hash u) = Some d" "trim_space (su_status u) = ''confirmed''" "su_generation u = n"
      using k mark_map_confirmed [of "unix_now ev (ag_catalog ?a)" us "status_at kv (ct_db (ag_catalog ?a))" d x]
      by (cases r) auto
    then show ?thesis using us x unfolding confirmed_at_def confirms_def by cases auto
  qed
  moreover have "n \<le> generation p \<and> backed p d n \<and> l \<le> n" if "(d, n) \<in> pr_replies p" for d n
  proof -
    have "n \<in> snd ` pr_replies p" using that by force
    then show ?thesis using inv l that unfolding exchange_inv_def replies_ok_def by auto
  qed
  moreover have "n \<le> generation p \<and> backed p d n \<and> l \<le> n" if "confirmed_at kv ?a d n" for d n
    using inv l that unfolding exchange_inv_def believes_ok_def by auto
  ultimately have "n \<le> generation p \<and> backed p d n \<and> l \<le> n" if "confirmed_at kv (?a\<lparr>ag_catalog := c\<rparr>) d n" for d n
    using that by blast
  moreover have "0 \<le> l \<and> l \<le> generation p" using inv l unfolding exchange_inv_def believes_ok_def by auto
  ultimately have "believes_ok kv key (p\<lparr>pr_agent := ?a\<lparr>ag_catalog := c\<rparr>\<rparr>)"
    using l by (simp add: believes_ok_def)
  then show ?thesis using inv unfolding exchange_inv_def replies_ok_def by simp
qed

text \<open>
  Synchronisation: \<open>renewed\<close> is what it may make of the agent, given what is announced and what is held.
\<close>

definition renewed :: "'db kv_ops \<Rightarrow> string \<times> string \<Rightarrow> 'db protocol \<Rightarrow> 'db agent_state \<Rightarrow> bool" where
  "renewed kv key p a \<longleftrightarrow> believes_ok kv key (p\<lparr>pr_agent := a\<rparr>)"

lemma renewed_tick: "renewed kv key p a \<Longrightarrow> renewed kv key p (a\<lparr>ag_catalog := ct_tick (ag_catalog a)\<rparr>)"
  by (simp add: renewed_def believes_ok_def confirmed_at_def ct_tick_def)

lemma renewed_load:
  assumes "load_server_state ev key a = (r, a1)" and "renewed kv key p a"
  shows "renewed kv key p a1 \<and> ag_states a1 = ag_states a \<and> ct_db (ag_catalog a1) = ct_db (ag_catalog a) \<and>
    (\<forall>x. r = Inr x \<longrightarrow> x = map_of (ag_states a) key)"
  using assms renewed_tick [OF assms(2)] by (auto simp: load_server_state_def Let_def ct_tick_def split: if_splits)

lemma renewed_upsert:
  assumes "upsert_server_state ev key x a = (r, a1)" and "renewed kv key p a"
    and "0 \<le> ss_last x \<and> ss_last x \<le> generation p" and "\<And>d n. confirmed_at kv a d n \<Longrightarrow> ss_last x \<le> n"
  shows "renewed kv key p a1"
proof -
  have t: "renewed kv key p (a\<lparr>ag_catalog := ct_tick (ag_catalog a)\<rparr>)" by (rule renewed_tick [OF assms(2)])
  have "renewed kv key p (a\<lparr>ag_catalog := ct_tick (ag_catalog a), ag_states := AList.update key x (ag_states a)\<rparr>)"
    using assms(2,3,4) unfolding renewed_def believes_ok_def
    by (fastforce simp: confirmed_at_def newest_sync_def ct_tick_def update_conv')
  then show ?thesis using assms(1) t by (auto simp: upsert_server_state_def Let_def split: if_splits)
qed

lemma renewed_reset:
  assumes kv: "kv_laws kv" and run: "on_catalog (reset_server_chunks ev kv) a = (r, a1)" and a: "renewed kv key p a"
  shows "renewed kv key p a1 \<and> (\<forall>u d n. r = Inr u \<longrightarrow> \<not> confirmed_at kv a1 d n)"
proof -
  obtain c where c: "reset_server_chunks ev kv (ag_catalog a) = (r, c)" "a1 = a\<lparr>ag_catalog := c\<rparr>"
    using run by (auto simp: on_catalog_def split: prod.splits)
  note k = reset_known [OF kv c(1)]
  have new: "confirmed_at kv a1 = (case r of Inr u \<Rightarrow> (\<lambda>d n. False) | Inl e \<Rightarrow> confirmed_at kv a)"
    using k by (auto simp: confirmed_at_def c(2) fun_eq_iff split: sum.splits)
  have "newest_sync key a1 = newest_sync key a" by (simp add: c(2))
  then show ?thesis using a new unfolding renewed_def believes_ok_def by (auto split: sum.splits)
qed

text \<open>
  The heart of it: a complete answer names every removal after the generation that was asked for, and
  nothing that the agent believes is older than that.
\<close>

lemma complete_answer:
  assumes "journal_history H s" and "chunk_invalidations_since ev since limit s = (Inr iv, t)" and "iv_incomplete iv = None"
    and "0 \<le> since" and "since < me_chunk_gen (db_meta s)"
  shows "iv_to iv = me_chunk_gen (db_meta s)" and "(g, h) \<in> H \<Longrightarrow> since < g \<Longrightarrow> h \<in> set (iv_hashes iv)"
proof -
  have ens: "ensure_repository_state ev n s = (Inr u, s1) \<Longrightarrow> db_meta s1 = db_meta s \<and> db_journal s1 = db_journal s" for n s s1 u
    by (induction n arbitrary: s) (auto simp: result_simps query_Inr)
  obtain m s1 where rs: "repository_state ev s = (Inr m, s1)" using assms(2) by (auto simp: chunk_invalidations_since_def result_simps)
  have m: "m = db_meta s" "db_journal s1 = db_journal s"
    using rs ens by (auto simp: repository_state_def result_simps query_Inr)
  show "iv_to iv = me_chunk_gen (db_meta s)"
    using assms(2) rs m by (auto simp: chunk_invalidations_since_def Let_def result_simps query_Inr split: if_splits)
  have iv: "me_available_from m \<le> since \<and> iv_hashes iv = map jr_hash (sort_key jr_generation (journal_between since (me_chunk_gen m) s))"
    using assms(2-5) rs m
    by (auto simp: chunk_invalidations_since_def Let_def result_simps query_Inr journal_between_def split: if_splits)
  show "h \<in> set (iv_hashes iv)" if "(g, h) \<in> H" "since < g"
    using journal_history_complete [OF assms(1)] that iv m by (force simp: journal_complete_def journal_between_def)
qed

lemma apply_inv:
  assumes kv: "kv_laws kv" and a: "renewed kv key p a" and hist: "journal_history (pr_history p) (pr_db p)"
    and l: "newest_sync key a = Some l" and gen: "int64 (generation p)" and now: "\<And>n. int64 (env_now ev n div 1000000000)"
    and told: "\<And>g h. (g, h) \<in> pr_history p \<Longrightarrow> l < g \<Longrightarrow> h \<in> set hs"
    and run: "on_catalog (apply_invalidations ev kv hs (generation p)) a = (r, a1)"
  shows "renewed kv key p a1 \<and> (\<forall>u d n. r = Inr u \<longrightarrow> confirmed_at kv a1 d n \<longrightarrow> n = generation p)"
proof -
  obtain c where c: "apply_invalidations ev kv hs (generation p) (ag_catalog a) = (r, c)" "a1 = a\<lparr>ag_catalog := c\<rparr>"
    using run by (auto simp: on_catalog_def split: prod.splits)
  have "int64 (unix_now ev (ag_catalog a))" using now by (simp add: unix_now_def)
  note k = apply_invalidations_known [OF kv gen this c(1)]
  have l1: "newest_sync key a1 = Some l" using l by (simp add: c(2))
  have lb: "0 \<le> l \<and> l \<le> generation p" using a l unfolding renewed_def believes_ok_def by simp
  show ?thesis
  proof (cases r)
    case (Inl e)
    then have "confirmed_at kv a1 = confirmed_at kv a" using k by (simp add: confirmed_at_def c(2) fun_eq_iff)
    then show ?thesis using a Inl l l1 unfolding renewed_def believes_ok_def by simp
  next
    case (Inr u)
    have new: "n = generation p \<and> backed p d n" if conf: "confirmed_at kv a1 d n" for d n
    proof -
      obtain x where x: "status_at kv (ct_db c) d = Some x" "st_status x = ''confirmed''" "st_generation x = n"
        using conf by (auto simp: confirmed_at_def c(2))
      have kd: "if d \<in> digests hs then \<exists>x. status_at kv (ct_db c) d = Some (forgotten x)
          else status_at kv (ct_db c) d = map_option (advanced (generation p) (unix_now ev (ag_catalog a))) (status_at kv (ct_db (ag_catalog a)) d)"
        using k Inr by blast
      then have not_told: "d \<notin> digests hs" using x(1,2) by (auto simp: forgotten_def)
      then have "status_at kv (ct_db c) d = map_option (advanced (generation p) (unix_now ev (ag_catalog a))) (status_at kv (ct_db (ag_catalog a)) d)"
        using kd by simp
      then obtain y where y: "status_at kv (ct_db (ag_catalog a)) d = Some y" "x = advanced (generation p) (unix_now ev (ag_catalog a)) y"
        using x(1) by (cases "status_at kv (ct_db (ag_catalog a)) d") auto
      have yc: "st_status y = ''confirmed''" "n = generation p" using x(2,3) y(2) by (auto simp: advanced_def split: if_splits)
      have "confirmed_at kv a d (st_generation y)" using y(1) yc(1) by (simp add: confirmed_at_def)
      then have "backed p d (st_generation y)" "l \<le> st_generation y" using a l unfolding renewed_def believes_ok_def by auto
      moreover have False if "(g, h) \<in> pr_history p" "digest_of h = Some d" "st_generation y < g" for g h
        using told [OF that(1)] that \<open>l \<le> st_generation y\<close> not_told by (auto simp: digests_def)
      ultimately have "d \<in> pr_held p \<union> pr_doomed p" unfolding backed_def by blast
      then show ?thesis using yc(2) by (simp add: backed_def)
    qed
    have "believes_ok kv key (p\<lparr>pr_agent := a1\<rparr>)"
      using new l1 lb by (auto simp: believes_ok_def)
    then show ?thesis using new by (auto simp: renewed_def)
  qed
qed

lemma sync_inv:
  assumes kv: "kv_laws kv" and inv: "exchange_inv kv key p"
    and hb: "0 \<le> hb_generation hb" "hb_generation hb \<le> generation p" and gen: "int64 (generation p)"
    and now: "\<And>n. int64 (env_now ev n div 1000000000)"
    and run: "sync_catalog ev kv key hb (fetch_invalidations lost ev' limit (pr_db p)) (pr_agent p) = (r, a)"
  shows "exchange_inv kv key (p\<lparr>pr_begun := {}, pr_replies := {}, pr_agent := a\<rparr>)"
proof -
  let ?fetch = "fetch_invalidations lost ev' limit (pr_db p)"
  have start: "renewed kv key p (pr_agent p)" and hist: "journal_history (pr_history p) (pr_db p)"
    using inv by (auto simp: exchange_inv_def renewed_def)
  have "renewed kv key p a"
  proof (cases "hb_repository hb = []")
    case True
    then show ?thesis using run start by (simp add: sync_catalog_def)
  next
    case False
    obtain q a1 where load: "load_server_state ev key (pr_agent p) = (q, a1)" by fastforce
    note a1 = renewed_load [OF load start]
    show ?thesis
    proof (cases q)
      case (Inl e)
      then show ?thesis using run False load a1 by (simp add: sync_catalog_def)
    next
      case q: (Inr found)
      have found: "found = map_of (ag_states (pr_agent p)) key" using a1 q by simp
      let ?next = "\<lparr>ss_repository = hb_repository hb, ss_generation = hb_generation hb, ss_last = hb_generation hb,
                     ss_config = hb_config hb, ss_command = hb_command hb\<rparr>"
      show ?thesis
      proof (cases found)
        case None
        then have up: "upsert_server_state ev key ?next a1 = (r, a)" using run False load q by (simp add: sync_catalog_def)
        have "newest_sync key a1 = None" using None found a1 by (simp add: newest_sync_def)
        then have "\<not> confirmed_at kv a1 d n" for d n using a1 unfolding renewed_def believes_ok_def by auto
        then show ?thesis using renewed_upsert [OF up a1 [THEN conjunct1]] hb by simp
      next
        case (Some own)
        have l: "newest_sync key a1 = Some (ss_last own)" using Some found a1 by (simp add: newest_sync_def)
        then have lb: "0 \<le> ss_last own \<and> ss_last own \<le> generation p" and old: "\<And>d n. confirmed_at kv a1 d n \<Longrightarrow> ss_last own \<le> n"
          using a1 unfolding renewed_def believes_ok_def by auto
        have keep: "renewed kv key p a" if "upsert_server_state ev key (?next\<lparr>ss_last := ss_last own\<rparr>) a1 = (r, a)"
            using renewed_upsert [OF that a1 [THEN conjunct1]] lb old by simp
        note body = run [unfolded sync_catalog_def Let_def load q sbind.simps Some option.case]
        consider (switched) "ss_repository own \<noteq> [] \<and> ss_repository own \<noteq> hb_repository hb"
          | (ask) "\<not> (ss_repository own \<noteq> [] \<and> ss_repository own \<noteq> hb_repository hb)"
              "ss_last own < hb_generation hb \<and> hb_available_from hb \<le> ss_last own"
          | (skip) "\<not> (ss_repository own \<noteq> [] \<and> ss_repository own \<noteq> hb_repository hb)"
              "\<not> (ss_last own < hb_generation hb \<and> hb_available_from hb \<le> ss_last own)" by blast
        then show ?thesis
        proof cases
          case switched
          obtain z a2 where z: "on_catalog (reset_server_chunks ev kv) a1 = (z, a2)" by fastforce
          note k = renewed_reset [OF kv z a1 [THEN conjunct1]]
          show ?thesis
          proof (cases z)
            case (Inl e)
            then show ?thesis using body False switched z k by simp
          next
            case (Inr u)
            then have "upsert_server_state ev key ?next a2 = (r, a)" using body False switched z by simp
            then show ?thesis using renewed_upsert k Inr hb by (metis (mono_tags, lifting) server_state.select_convs(3))
          qed
        next
          case ask
          show ?thesis
          proof (cases "?fetch (ss_last own)")
            case (Inl e)
            then show ?thesis using body False ask a1 by (simp split: if_splits)
          next
            case iv: (Inr iv)
            show ?thesis
            proof (cases "ir_complete iv")
              case False
              then have "upsert_server_state ev key (?next\<lparr>ss_last := ss_last own\<rparr>) a1 = (r, a)"
                using body \<open>hb_repository hb \<noteq> []\<close> ask iv by (simp split: if_splits)
              then show ?thesis by (rule keep)
            next
              case True
              obtain jv t where jv: "chunk_invalidations_since ev' (ss_last own) limit (pr_db p) = (Inr jv, t)"
                "iv_incomplete jv = None" "ir_to iv = iv_to jv" "ir_hashes iv = iv_hashes jv"
                using iv True by (auto simp: fetch_invalidations_def handle_invalidations_def split: if_splits sum.splits prod.splits)
              have behind: "ss_last own < me_chunk_gen (db_meta (pr_db p))" using ask hb by (simp add: generation_def)
              note told = complete_answer [OF hist jv(1,2) _ behind]
              have to: "ir_to iv = generation p" using told(1) lb jv(3) by (simp add: generation_def)
              obtain z a2 where z: "on_catalog (apply_invalidations ev kv (ir_hashes iv) (generation p)) a1 = (z, a2)" by fastforce
              have k: "renewed kv key p a2 \<and> (\<forall>u d n. z = Inr u \<longrightarrow> confirmed_at kv a2 d n \<longrightarrow> n = generation p)"
                using apply_inv [OF kv a1 [THEN conjunct1] hist l gen now _ z] told(2) lb jv(4) by simp
              show ?thesis
              proof (cases z)
                case (Inl e)
                then show ?thesis using body False ask iv True z k by (simp add: to split: if_splits)
              next
                case (Inr u)
                have up: "upsert_server_state ev key (?next\<lparr>ss_last := generation p\<rparr>) a2 = (r, a)"
                  using body False ask iv True z Inr by (simp add: to split: if_splits)
                show ?thesis using renewed_upsert [OF up] k Inr lb by auto
              qed
            qed
          qed
        next
          case skip
          then have "upsert_server_state ev key (?next\<lparr>ss_last := ss_last own\<rparr>) a1 = (r, a)" using body False by auto
          then show ?thesis by (rule keep)
        qed
      qed
    qed
  qed
  moreover have "believes_ok kv key (p\<lparr>pr_begun := {}, pr_replies := {}, pr_agent := a\<rparr>) = believes_ok kv key (p\<lparr>pr_agent := a\<rparr>)"
    by (simp add: believes_ok_def backed_def generation_def)
  ultimately show ?thesis using hist by (simp add: exchange_inv_def renewed_def replies_ok_def)
qed

lemma exchange_keeps: "exchange kv key p \<Longrightarrow> kv_laws kv \<Longrightarrow> exchange_inv kv key p"
proof (induction rule: exchange.induct)
  case (start a s)
  then show ?case
    by (simp add: exchange_inv_def believes_ok_def replies_ok_def confirmed_at_def newest_sync_def journal_history.start)
next
  case (store p D)
  then have inv: "exchange_inv kv key p" by simp
  show ?case
    by (rule exchange_inv_server [OF inv]) (use inv in \<open>auto simp: backed_def generation_def exchange_inv_def\<close>)
next
  case (remove p D)
  then have inv: "exchange_inv kv key p" by simp
  show ?case
    by (rule exchange_inv_server [OF inv]) (use inv in \<open>auto simp: backed_def generation_def exchange_inv_def\<close>)
next
  case (announce p ev hashes reason now g t)
  let ?q = "p\<lparr>pr_doomed := {}, pr_history := pr_history p \<union> {g} \<times> recorded hashes, pr_db := t\<rparr>"
  have inv: "exchange_inv kv key p" using announce by simp
  have g: "g = generation p + 1" "generation ?q = g" using bump_gen [OF announce.hyps(2)] by (simp_all add: generation_def)
  have "backed ?q d n" if "backed p d n" "n \<le> generation p" for d n
    using that g(1) announce.hyps(3) recorded_digests [of d hashes] unfolding backed_def by fastforce
  moreover have "journal_history (pr_history ?q) (pr_db ?q)"
    using journal_history.bumped [OF _ announce.hyps(2)] inv by (simp add: exchange_inv_def)
  ultimately show ?case using g by (intro exchange_inv_server [OF inv]) auto
next
  case (announce_failed p ev hashes reason now e t)
  then have inv: "exchange_inv kv key p" by simp
  have "journal_history (pr_history p) t" using journal_history.bump_failed [OF _ announce_failed.hyps(2)] inv by (simp add: exchange_inv_def)
  then show ?case using bump_failed_gen [OF announce_failed.hyps(2)]
    by (intro exchange_inv_server [OF inv]) (auto simp: backed_def generation_def)
next
  case (prune p ev cutoff n t)
  then have inv: "exchange_inv kv key p" by simp
  have "journal_history (pr_history p) t" using journal_history.pruned [OF _ prune.hyps(2)] inv by (simp add: exchange_inv_def)
  then show ?case using prune_gen [OF prune.hyps(2)]
    by (intro exchange_inv_server [OF inv]) (auto simp: backed_def generation_def)
next
  case (begun p)
  then show ?case
    by (auto simp: exchange_inv_def replies_ok_def believes_ok_def backed_def generation_def)
next
  case (reply p d n)
  then show ?case
    by (auto simp: exchange_inv_def replies_ok_def believes_ok_def backed_def generation_def)
next
  case (look p ev h r c)
  have "confirmed_at kv ((pr_agent p)\<lparr>ag_catalog := c\<rparr>) = confirmed_at kv (pr_agent p)"
    using chunk_status_known [OF look.prems look.hyps(2)] by (intro confirmed_same) simp
  then show ?case using look.IH [OF look.prems] by (simp add: exchange_inv_def replies_ok_def believes_ok_def)
next
  case (mark p us ev r c)
  then show ?case using mark_inv by blast
next
  case (sync p hb ev lost ev' limit r a)
  show ?case using sync_inv [OF sync.prems _ sync.hyps(2-6)] sync.IH sync.prems by blast
qed


subsection \<open>A small exchange\<close>

definition noon_env :: env where
  "noon_env = good_env\<lparr>env_now := (\<lambda>n. 0)\<rparr>"

definition empty_agent :: "(bytes \<times> bytes) list agent_state" where
  "empty_agent = \<lparr>ag_catalog = \<lparr>ct_db = [], ct_step = 0\<rparr>, ag_states = []\<rparr>"

definition beat :: "int \<Rightarrow> heartbeat_reply" where
  "beat n = \<lparr>hb_repository = ''repo'', hb_generation = n, hb_available_from = 0, hb_config = 0, hb_command = 0\<rparr>"

definition seven :: bytes where "seven = replicate 32 7"

definition seven_confirmed :: status_update where
  "seven_confirmed = \<lparr>su_hash = hex_encode seven, su_original = 4, su_status = ''confirmed'', su_generation = 0, su_uploaded = True\<rparr>"

definition synced_agent :: "(bytes \<times> bytes) list agent_state" where
  "synced_agent = snd (sync_catalog noon_env list_kv (''url'', ''id'') (beat 0) (fetch_invalidations False noon_env 10 empty_db) empty_agent)"

definition marked_catalog :: "(bytes \<times> bytes) list catalog" where
  "marked_catalog = snd (mark_chunks noon_env list_kv [seven_confirmed] (ag_catalog synced_agent))"

definition small_exchange :: "(bytes \<times> bytes) list protocol" where
  "small_exchange = \<lparr>pr_held = {seven}, pr_doomed = {}, pr_begun = {0}, pr_replies = {(seven, 0)}, pr_history = {}, pr_db = empty_db,
     pr_agent = synced_agent\<lparr>ag_catalog := marked_catalog\<rparr>\<rparr>"

lemma digest_of_hex: "length d = 32 \<Longrightarrow> digest_of (hex_encode d) = Some d"
  by (simp add: digest_of_def)


subsection \<open>A catalog under a new name\<close>

definition renamed_server :: "string list \<Rightarrow> db \<Rightarrow> db" where
  "renamed_server hs s = snd (bump_chunk_generation noon_env hs ''compact'' 0 s)"

definition sync_as :: "string \<Rightarrow> int \<Rightarrow> db \<Rightarrow> (bytes \<times> bytes) list agent_state \<Rightarrow> (bytes \<times> bytes) list agent_state" where
  "sync_as name g s a = snd (sync_catalog noon_env list_kv (''url'', name) (beat g) (fetch_invalidations False noon_env 10 s) a)"

definition first_removal :: db where "first_removal = renamed_server [hex_encode seven] empty_db"
definition second_removal :: db where "second_removal = renamed_server [hex_encode (replicate 32 9)] first_removal"


text \<open>
  An agent that the journal no longer covers never gets back: its last generation stays, and the one from
  which the journal is complete only grows.
\<close>

lemma behind_stays_behind:
  assumes "map_of (ag_states a) key = Some own" and "ss_repository own = hb_repository hb" "hb_repository hb \<noteq> []"
    and "ss_last own < hb_available_from hb" and "sync_catalog ev kv key hb fetch a = (Inr u, a')"
  shows "newest_sync key a' = Some (ss_last own) \<and> ct_db (ag_catalog a') = ct_db (ag_catalog a)"
proof -
  obtain a1 where load: "load_server_state ev key a = (Inr (Some own), a1)"
    and a1: "ag_states a1 = ag_states a" "ct_db (ag_catalog a1) = ct_db (ag_catalog a)"
    using assms(1,3,5) by (auto simp: sync_catalog_def load_server_state_def Let_def ct_tick_def result_simps split: if_splits)
  let ?next = "\<lparr>ss_repository = hb_repository hb, ss_generation = hb_generation hb, ss_last = ss_last own,
      ss_config = hb_config hb, ss_command = hb_command hb\<rparr>"
  have "upsert_server_state ev key ?next a1 = (Inr u, a')" using assms(2-5) load by (simp add: sync_catalog_def)
  then show ?thesis using a1
    by (auto simp: upsert_server_state_def Let_def newest_sync_def ct_tick_def update_conv' split: if_splits)
qed

end
